(* ===== verification/Prelude.thy ===== *)
theory Prelude
  imports Main "HOL-Library.Word" "HOL-Library.AList"
begin

unbundle bit_operations_syntax

text \<open>
  Shared vocabulary of the development: the machine integer types the C++ sources use, the
  outcomes of code that can fail, and generic facts on association lists, maps and sums that the
  components' proofs use.

  A C++ function that can throw, terminate the process or run into undefined behaviour returns
  \<open>exn + 'a\<close>: \<open>Inl\<close> is the failure, \<open>Inr\<close> the value.
\<close>

section \<open>Machine integers\<close>

type_synonym int32 = "32 word"
type_synonym int64 = "64 word"
type_synonym uint32 = "32 word"
type_synonym uint64 = "64 word"
type_synonym byte = "8 word"

text \<open>Signed maximum, as \<^verbatim>\<open>std::max\<close> on \<^verbatim>\<open>int64_t\<close>.\<close>

definition smax :: "int64 \<Rightarrow> int64 \<Rightarrow> int64" where
  "smax a b = (if a <s b then b else a)"

lemma unat_plus_one: "m \<noteq> - 1 \<Longrightarrow> unat (m + 1) = Suc (unat (m :: 'a::len word))"
  by (simp add: add.commute add_eq_0_iff unatSuc)

lemma word_less_succ: "n < m \<Longrightarrow> m \<noteq> - 1 \<Longrightarrow> n < m + (1 :: 'a::len word)"
  by (simp add: word_less_nat_alt unat_plus_one)

lemma word_self_less_succ: "m \<noteq> - 1 \<Longrightarrow> m < m + (1 :: 'a::len word)"
  by (simp add: word_less_nat_alt unat_plus_one)

section \<open>Failures\<close>

datatype exn =
    LOGICAL_ERROR   \<comment> \<open>\<^verbatim>\<open>throw Exception(ErrorCodes::LOGICAL_ERROR, ...)\<close>\<close>
  | BAD_ARGUMENTS   \<comment> \<open>\<^verbatim>\<open>throw Exception(ErrorCodes::BAD_ARGUMENTS, ...)\<close>\<close>
  | OutOfRange      \<comment> \<open>\<^verbatim>\<open>std::out_of_range\<close> of \<^verbatim>\<open>at()\<close>\<close>
  | Terminate       \<comment> \<open>\<^verbatim>\<open>std::terminate()\<close>\<close>
  | Undefined       \<comment> \<open>the C++ program has undefined behaviour\<close>

definition bindE :: "'e + 'a \<Rightarrow> ('a \<Rightarrow> 'e + 'b) \<Rightarrow> 'e + 'b" where
  "bindE m f = (case m of Inl e \<Rightarrow> Inl e | Inr x \<Rightarrow> f x)"

lemma bindE_simps [simp]: "bindE (Inl e) f = Inl e" "bindE (Inr x) f = f x"
  by (simp_all add: bindE_def)

lemma bindE_Inr_iff: "bindE m f = Inr y \<longleftrightarrow> (\<exists>x. m = Inr x \<and> f x = Inr y)"
  by (cases m) auto

lemma bindE_InrE:
  assumes "bindE m f = Inr y"
  obtains x where "m = Inr x" "f x = Inr y"
  using assms by (auto simp: bindE_Inr_iff)

section \<open>Decimal numbers\<close>

fun dec_nat :: "nat \<Rightarrow> string" where
  "dec_nat n = (if n < 10 then [char_of (48 + n)] else dec_nat (n div 10) @ [char_of (48 + n mod 10)])"

declare dec_nat.simps [simp del]

definition dec_int :: "int \<Rightarrow> string" where
  "dec_int i = (if i < 0 then CHR ''-'' # dec_nat (nat (- i)) else dec_nat (nat i))"

lemma char_of_digit: "(d :: nat) < 10 \<Longrightarrow> char_of (48 + d) \<noteq> CHR ''/''"
proof
  assume "d < 10" "char_of (48 + d) = CHR ''/''"
  then have "of_char (char_of (48 + d) :: char) = (of_char (CHR ''/'') :: nat)" by simp
  with \<open>d < 10\<close> show False by simp
qed

lemma dec_nat_no_slash: "CHR ''/'' \<notin> set (dec_nat n)"
  by (induction n rule: dec_nat.induct) (subst dec_nat.simps, auto simp: char_of_digit dest: sym)

lemma dec_int_no_slash: "CHR ''/'' \<notin> set (dec_int i)"
  by (simp add: dec_int_def dec_nat_no_slash)

lemma dec_nat_nonempty [simp]: "dec_nat n \<noteq> []"
  by (subst dec_nat.simps) simp

lemma dec_int_nonempty [simp]: "dec_int i \<noteq> []"
  by (simp add: dec_int_def)

section \<open>Collections of facts\<close>

named_theorems keeper_defs "definitions unfolded in storage proofs"
named_theorems codec_rt "round trips of the wire encodings"

section \<open>Association lists\<close>

lemma map_entry_append:
  "k \<in> fst ` set xs \<Longrightarrow> AList.map_entry k f (xs @ ys) = AList.map_entry k f xs @ ys"
  by (induction xs) auto

lemma map_entry_append_notin:
  "k \<notin> fst ` set xs \<Longrightarrow> AList.map_entry k f (xs @ ys) = xs @ AList.map_entry k f ys"
  by (induction xs) auto

lemma map_entry_notin [simp]: "k \<notin> fst ` set xs \<Longrightarrow> AList.map_entry k f xs = xs"
  by (induction xs) auto

lemma map_fst_map_entry [simp]: "map fst (AList.map_entry k f xs) = map fst xs"
  by (induction xs) auto

lemma length_map_entry [simp]: "length (AList.map_entry k f xs) = length xs"
  by (induction xs) auto

lemma set_map_entry:
  "distinct (map fst xs) \<Longrightarrow> set (AList.map_entry k f xs) =
     {p \<in> set xs. fst p \<noteq> k} \<union> {(k, f v) |v. (k, v) \<in> set xs}"
  by (induction xs) (auto simp: image_iff rev_image_eqI split: if_splits)

lemma set_delete [simp]: "set (AList.delete k xs) = {p \<in> set xs. fst p \<noteq> k}"
  by (auto simp: AList.delete_eq)

lemma map_of_Some_set: "distinct (map fst xs) \<Longrightarrow> map_of xs k = Some v \<longleftrightarrow> (k, v) \<in> set xs"
  by (simp)

section \<open>Sums over the contents of an association list\<close>

definition alist_sum :: "('v \<Rightarrow> 'n::comm_monoid_add) \<Rightarrow> ('k \<times> 'v) list \<Rightarrow> 'n" where
  "alist_sum g xs = sum_list (map (g \<circ> snd) xs)"

lemma alist_sum_simps [simp]:
  "alist_sum g [] = 0"
  "alist_sum g (p # xs) = g (snd p) + alist_sum g xs"
  "alist_sum g (xs @ ys) = alist_sum g xs + alist_sum g ys"
  by (simp_all add: alist_sum_def)

lemma alist_sum_map_entry:
  fixes g :: "'v \<Rightarrow> 'n::ab_group_add"
  shows "map_of xs k = Some v \<Longrightarrow>
     alist_sum g (AList.map_entry k f xs) = alist_sum g xs - g v + g (f v)"
  by (induction xs) (auto simp: algebra_simps split: if_splits)

lemma alist_sum_map_entry_eq:
  "(\<And>v. map_of xs k = Some v \<Longrightarrow> g (f v) = g v) \<Longrightarrow>
     alist_sum g (AList.map_entry k f xs) = alist_sum g xs"
  by (induction xs) (auto split: if_splits)

lemma alist_sum_delete:
  fixes g :: "'v \<Rightarrow> 'n::ab_group_add"
  shows "distinct (map fst xs) \<Longrightarrow> map_of xs k = Some v \<Longrightarrow>
     alist_sum g (AList.delete k xs) = alist_sum g xs - g v"
proof (induction xs)
  case (Cons p xs)
  show ?case
  proof (cases "fst p = k")
    case True
    with Cons.prems have "k \<notin> fst ` set xs" by auto
    with True Cons.prems show ?thesis by (auto simp: delete_id)
  next
    case False
    with Cons show ?thesis by (auto simp: algebra_simps)
  qed
qed simp

end
