(* ===== verification/ZooKeeperTypes.thy ===== *)
theory ZooKeeperTypes
  imports Prelude
begin

text \<open>
  The vocabulary of the ZooKeeper protocol: error codes, access control entries, node statistics,
  operation numbers, requests and responses, from src/Common/ZooKeeper/IKeeper.h,
  ZooKeeperConstants.h, ZooKeeperConstants.cpp and ZooKeeperCommon.h.

  The request classes are the constructors of one datatype, as are the response classes. The
  fields of the common base classes that the server uses are kept where they are meaningful:
  \<^verbatim>\<open>has_watch\<close> with the requests that carry it on the wire, \<^verbatim>\<open>restored_from_zookeeper_log\<close> with the
  only request that reads it, \<^verbatim>\<open>xid\<close> with the top-level request. Creation times, thread ids and query
  ids (used for logging only) are left out.
\<close>

section \<open>Error codes\<close>

text \<open>\<^verbatim>\<open>enum class Error : int32_t\<close>. A code read from the wire is cast to the enum without a check, so
  the type has a constructor for every other code.\<close>

datatype Error =
    ZOK
  | ZSYSTEMERROR | ZRUNTIMEINCONSISTENCY | ZDATAINCONSISTENCY | ZCONNECTIONLOSS
  | ZMARSHALLINGERROR | ZUNIMPLEMENTED | ZOPERATIONTIMEOUT | ZBADARGUMENTS | ZINVALIDSTATE
  | ZAPIERROR | ZNONODE | ZNOAUTH | ZBADVERSION | ZNOCHILDRENFOREPHEMERALS | ZNODEEXISTS
  | ZNOTEMPTY | ZSESSIONEXPIRED | ZINVALIDCALLBACK | ZINVALIDACL | ZAUTHFAILED | ZCLOSING
  | ZNOTHING | ZSESSIONMOVED | ZNOTREADONLY
  | OtherError int32

definition error_codes :: "(Error \<times> int32) list" where
  "error_codes = [(ZOK, 0), (ZSYSTEMERROR, -1), (ZRUNTIMEINCONSISTENCY, -2), (ZDATAINCONSISTENCY, -3),
     (ZCONNECTIONLOSS, -4), (ZMARSHALLINGERROR, -5), (ZUNIMPLEMENTED, -6), (ZOPERATIONTIMEOUT, -7),
     (ZBADARGUMENTS, -8), (ZINVALIDSTATE, -9), (ZAPIERROR, -100), (ZNONODE, -101), (ZNOAUTH, -102),
     (ZBADVERSION, -103), (ZNOCHILDRENFOREPHEMERALS, -108), (ZNODEEXISTS, -110), (ZNOTEMPTY, -111),
     (ZSESSIONEXPIRED, -112), (ZINVALIDCALLBACK, -113), (ZINVALIDACL, -114), (ZAUTHFAILED, -115),
     (ZCLOSING, -116), (ZNOTHING, -117), (ZSESSIONMOVED, -118), (ZNOTREADONLY, -119)]"

definition error_code :: "Error \<Rightarrow> int32" where
  "error_code e = (case e of OtherError c \<Rightarrow> c
     | _ \<Rightarrow> (case map_of error_codes e of Some c \<Rightarrow> c | None \<Rightarrow> 0))"

definition error_of_code :: "int32 \<Rightarrow> Error" where
  "error_of_code c = (case map_of (map (\<lambda>(e, c). (c, e)) error_codes) c of Some e \<Rightarrow> e | None \<Rightarrow> OtherError c)"

text \<open>The values an \<^verbatim>\<open>Error\<close> object can have: \<open>OtherError\<close> stands for codes without a name only.\<close>

definition valid_error :: "Error \<Rightarrow> bool" where
  "valid_error e \<longleftrightarrow> error_of_code (error_code e) = e"

lemma error_code_roundtrip [simp]: "error_code (error_of_code c) = c"
  by (simp add: error_code_def error_of_code_def error_codes_def)

lemma error_of_code_valid [simp]: "valid_error (error_of_code c)"
  by (simp add: valid_error_def)

lemma valid_error_named: "(\<And>c. e \<noteq> OtherError c) \<Longrightarrow> valid_error e"
  by (cases e) (simp_all add: valid_error_def error_code_def error_of_code_def error_codes_def)

section \<open>Access control entries and statistics\<close>

record ACL =
  permissions :: int32
  scheme :: string
  acl_ident :: string

type_synonym ACLs = "ACL list"

abbreviation ACL_Read :: int32 where "ACL_Read \<equiv> 1"
abbreviation ACL_Write :: int32 where "ACL_Write \<equiv> 2"
abbreviation ACL_Create :: int32 where "ACL_Create \<equiv> 4"
abbreviation ACL_Delete :: int32 where "ACL_Delete \<equiv> 8"
abbreviation ACL_Admin :: int32 where "ACL_Admin \<equiv> 16"

record Stat =
  st_czxid :: int64
  st_mzxid :: int64
  st_ctime :: int64
  st_mtime :: int64
  st_version :: int32
  st_cversion :: int32
  st_aversion :: int32
  st_ephemeralOwner :: int64
  st_dataLength :: int32
  st_numChildren :: int32
  st_pzxid :: int64

definition Stat_default :: Stat where
  "Stat_default = \<lparr>st_czxid = 0, st_mzxid = 0, st_ctime = 0, st_mtime = 0, st_version = 0,
     st_cversion = 0, st_aversion = 0, st_ephemeralOwner = 0, st_dataLength = 0, st_numChildren = 0,
     st_pzxid = 0\<rparr>"

section \<open>Operation numbers\<close>

datatype OpNum =
    Op_Close | Op_Error | Op_Create | Op_Remove | Op_Exists | Op_Get | Op_Set | Op_GetACL | Op_SetACL
  | Op_SimpleList | Op_Sync | Op_Heartbeat | Op_List | Op_Check | Op_Multi | Op_Reconfig | Op_MultiRead
  | Op_Auth | Op_FilteredList | Op_CheckNotExists | Op_CreateIfNotExists | Op_SessionID

fun opnum_code :: "OpNum \<Rightarrow> int32" where
  "opnum_code Op_Close = -11"
| "opnum_code Op_Error = -1"
| "opnum_code Op_Create = 1"
| "opnum_code Op_Remove = 2"
| "opnum_code Op_Exists = 3"
| "opnum_code Op_Get = 4"
| "opnum_code Op_Set = 5"
| "opnum_code Op_GetACL = 6"
| "opnum_code Op_SetACL = 7"
| "opnum_code Op_SimpleList = 8"
| "opnum_code Op_Sync = 9"
| "opnum_code Op_Heartbeat = 11"
| "opnum_code Op_List = 12"
| "opnum_code Op_Check = 13"
| "opnum_code Op_Multi = 14"
| "opnum_code Op_Reconfig = 16"
| "opnum_code Op_MultiRead = 22"
| "opnum_code Op_Auth = 100"
| "opnum_code Op_FilteredList = 500"
| "opnum_code Op_CheckNotExists = 501"
| "opnum_code Op_CreateIfNotExists = 502"
| "opnum_code Op_SessionID = 997"

definition VALID_OPERATIONS :: "OpNum list" where
  "VALID_OPERATIONS = [Op_Close, Op_Error, Op_Create, Op_Remove, Op_Exists, Op_Get, Op_Set,
     Op_SimpleList, Op_Sync, Op_Heartbeat, Op_List, Op_Check, Op_Reconfig, Op_Multi, Op_MultiRead,
     Op_CreateIfNotExists, Op_Auth, Op_SessionID, Op_SetACL, Op_GetACL, Op_FilteredList,
     Op_CheckNotExists]"

text \<open>\<^verbatim>\<open>getOpNum(int32_t)\<close>: \<open>None\<close> is the exception \<^verbatim>\<open>ZUNIMPLEMENTED\<close>.\<close>

definition getOpNum_of_code :: "int32 \<Rightarrow> OpNum option" where
  "getOpNum_of_code c = List.find (\<lambda>op. opnum_code op = c) VALID_OPERATIONS"

lemma getOpNum_opnum_code [simp]: "getOpNum_of_code (opnum_code op) = Some op"
  by (cases op) (simp_all add: getOpNum_of_code_def VALID_OPERATIONS_def)

lemma getOpNum_Some: "getOpNum_of_code c = Some op \<Longrightarrow> opnum_code op = c"
  by (simp add: getOpNum_of_code_def find_Some_iff) blast

section \<open>Requests\<close>

datatype OperationKind = KindRead | KindWrite

record CreateReq =
  cr_path :: string
  cr_data :: string
  cr_is_ephemeral :: bool
  cr_is_sequential :: bool
  cr_acls :: ACLs
  cr_not_exists :: bool
  cr_parent_cversion :: int32

datatype Request =
    HeartbeatRequest
  | SyncRequest (req_path: string)
  | AuthRequest (auth_type: int32) (auth_scheme: string) (auth_data: string)
  | CloseRequest
  | CreateRequest CreateReq
  | RemoveRequest (req_path: string) (req_version: int32) (restored_from_zookeeper_log: bool)
  | ExistsRequest (req_path: string) (req_watch: bool)
  | GetRequest (req_path: string) (req_watch: bool)
  | SetRequest (req_path: string) (req_data: string) (req_version: int32)
  | ListRequest (req_path: string) (req_watch: bool)
  | SimpleListRequest (req_path: string) (req_watch: bool)
  | FilteredListRequest (req_path: string) (req_watch: bool) (list_request_type: byte)
  | CheckRequest (req_path: string) (req_version: int32) (check_not_exists: bool)
  | SetACLRequest (req_path: string) (req_acls: ACLs) (req_version: int32)
  | GetACLRequest (req_path: string)
  | ReconfigRequest (joining: string) (leaving: string) (new_members: string) (reconfig_version: int64)
  | SessionIDRequest (internal_id: int64) (session_timeout_ms: int64) (server_id: int32)
  | MultiRequest (sub_requests: "Request list") (operation_type: "OperationKind option")

record ZooKeeperRequest =
  xid :: int32
  request :: Request

fun getOpNum :: "Request \<Rightarrow> OpNum" where
  "getOpNum HeartbeatRequest = Op_Heartbeat"
| "getOpNum (SyncRequest _) = Op_Sync"
| "getOpNum (AuthRequest _ _ _) = Op_Auth"
| "getOpNum CloseRequest = Op_Close"
| "getOpNum (CreateRequest r) = (if cr_not_exists r then Op_CreateIfNotExists else Op_Create)"
| "getOpNum (RemoveRequest _ _ _) = Op_Remove"
| "getOpNum (ExistsRequest _ _) = Op_Exists"
| "getOpNum (GetRequest _ _) = Op_Get"
| "getOpNum (SetRequest _ _ _) = Op_Set"
| "getOpNum (ListRequest _ _) = Op_List"
| "getOpNum (SimpleListRequest _ _) = Op_SimpleList"
| "getOpNum (FilteredListRequest _ _ _) = Op_FilteredList"
| "getOpNum (CheckRequest _ _ ne) = (if ne then Op_CheckNotExists else Op_Check)"
| "getOpNum (SetACLRequest _ _ _) = Op_SetACL"
| "getOpNum (GetACLRequest _) = Op_GetACL"
| "getOpNum (ReconfigRequest _ _ _ _) = Op_Reconfig"
| "getOpNum (SessionIDRequest _ _ _) = Op_SessionID"
| "getOpNum (MultiRequest _ k) = (if k = None \<or> k = Some KindWrite then Op_Multi else Op_MultiRead)"

definition keeper_system_path :: string where "keeper_system_path = ''/keeper''"
definition keeper_api_version_path :: string where
  "keeper_api_version_path = keeper_system_path @ ''/api_version''"
definition keeper_api_feature_flags_path :: string where
  "keeper_api_feature_flags_path = keeper_system_path @ ''/feature_flags''"
definition keeper_config_path :: string where
  "keeper_config_path = keeper_system_path @ ''/config''"
definition keeper_availability_zone_path :: string where
  "keeper_availability_zone_path = keeper_system_path @ ''/availability_zone''"

fun getPath :: "Request \<Rightarrow> string" where
  "getPath (SyncRequest p) = p"
| "getPath (CreateRequest r) = cr_path r"
| "getPath (RemoveRequest p _ _) = p"
| "getPath (ExistsRequest p _) = p"
| "getPath (GetRequest p _) = p"
| "getPath (SetRequest p _ _) = p"
| "getPath (ListRequest p _) = p"
| "getPath (SimpleListRequest p _) = p"
| "getPath (FilteredListRequest p _ _) = p"
| "getPath (CheckRequest p _ _) = p"
| "getPath (SetACLRequest p _ _) = p"
| "getPath (GetACLRequest p) = p"
| "getPath (ReconfigRequest _ _ _ _) = keeper_config_path"
| "getPath _ = []"

fun has_watch :: "Request \<Rightarrow> bool" where
  "has_watch (ExistsRequest _ w) = w"
| "has_watch (GetRequest _ w) = w"
| "has_watch (ListRequest _ w) = w"
| "has_watch (SimpleListRequest _ w) = w"
| "has_watch (FilteredListRequest _ w _) = w"
| "has_watch _ = False"

fun isReadRequest :: "Request \<Rightarrow> bool" where
  "isReadRequest (ExistsRequest _ _) = True"
| "isReadRequest (GetRequest _ _) = True"
| "isReadRequest (ListRequest _ _) = True"
| "isReadRequest (SimpleListRequest _ _) = True"
| "isReadRequest (FilteredListRequest _ _ _) = True"
| "isReadRequest (CheckRequest _ _ _) = True"
| "isReadRequest (GetACLRequest _) = True"
| "isReadRequest (MultiRequest rs k) = (getOpNum (MultiRequest rs k) = Op_MultiRead)"
| "isReadRequest _ = False"

section \<open>Responses\<close>

datatype Response =
    Response (resp_error: Error) (resp_zxid: int64) (resp_xid: int32) (resp_body: ResponseBody)
and ResponseBody =
    HeartbeatResponse
  | SyncResponse string
  | AuthResponse
  | CloseResponse
  | CreateResponse string
  | CreateIfNotExistsResponse string
  | RemoveResponse
  | ExistsResponse Stat
  | GetResponse string Stat
  | SetResponse Stat
  | ListResponse "string list" Stat
  | SimpleListResponse "string list" Stat
  | CheckResponse
  | CheckNotExistsResponse
  | ErrorResponse
  | SetACLResponse Stat
  | GetACLResponse ACLs Stat
  | ReconfigResponse string Stat
  | MultiWriteResponse "Response list"
  | MultiReadResponse "Response list"
  | SessionIDResponse int64 int64 int32
  | WatchResponse int32 int32 string

definition set_error :: "Error \<Rightarrow> Response \<Rightarrow> Response" where
  "set_error e r = Response e (resp_zxid r) (resp_xid r) (resp_body r)"

definition set_ids :: "int64 \<Rightarrow> int32 \<Rightarrow> Response \<Rightarrow> Response" where
  "set_ids z x r = Response (resp_error r) z x (resp_body r)"

definition set_body :: "ResponseBody \<Rightarrow> Response \<Rightarrow> Response" where
  "set_body b r = Response (resp_error r) (resp_zxid r) (resp_xid r) b"

lemma set_error_simps [simp]:
  "resp_error (set_error e r) = e" "resp_body (set_error e r) = resp_body r"
  "resp_zxid (set_error e r) = resp_zxid r" "resp_xid (set_error e r) = resp_xid r"
  by (simp_all add: set_error_def)

lemma set_ids_simps [simp]:
  "resp_error (set_ids z x r) = resp_error r" "resp_body (set_ids z x r) = resp_body r"
  "resp_zxid (set_ids z x r) = z" "resp_xid (set_ids z x r) = x"
  by (simp_all add: set_ids_def)

lemma set_body_simps [simp]:
  "resp_error (set_body b r) = resp_error r" "resp_body (set_body b r) = b"
  "resp_zxid (set_body b r) = resp_zxid r" "resp_xid (set_body b r) = resp_xid r"
  by (simp_all add: set_body_def)

text \<open>\<^verbatim>\<open>makeResponse\<close> of each request class: a default-initialised response object.\<close>

fun makeResponse :: "Request \<Rightarrow> Response" where
  "makeResponse HeartbeatRequest = Response ZOK 0 0 HeartbeatResponse"
| "makeResponse (SyncRequest _) = Response ZOK 0 0 (SyncResponse [])"
| "makeResponse (AuthRequest _ _ _) = Response ZOK 0 0 AuthResponse"
| "makeResponse CloseRequest = Response ZOK 0 0 CloseResponse"
| "makeResponse (CreateRequest r) =
     Response ZOK 0 0 (if cr_not_exists r then CreateIfNotExistsResponse [] else CreateResponse [])"
| "makeResponse (RemoveRequest _ _ _) = Response ZOK 0 0 RemoveResponse"
| "makeResponse (ExistsRequest _ _) = Response ZOK 0 0 (ExistsResponse Stat_default)"
| "makeResponse (GetRequest _ _) = Response ZOK 0 0 (GetResponse [] Stat_default)"
| "makeResponse (SetRequest _ _ _) = Response ZOK 0 0 (SetResponse Stat_default)"
| "makeResponse (ListRequest _ _) = Response ZOK 0 0 (ListResponse [] Stat_default)"
| "makeResponse (SimpleListRequest _ _) = Response ZOK 0 0 (SimpleListResponse [] Stat_default)"
| "makeResponse (FilteredListRequest _ _ _) = Response ZOK 0 0 (ListResponse [] Stat_default)"
| "makeResponse (CheckRequest _ _ ne) =
     Response ZOK 0 0 (if ne then CheckNotExistsResponse else CheckResponse)"
| "makeResponse (SetACLRequest _ _ _) = Response ZOK 0 0 (SetACLResponse Stat_default)"
| "makeResponse (GetACLRequest _) = Response ZOK 0 0 (GetACLResponse [] Stat_default)"
| "makeResponse (ReconfigRequest _ _ _ _) = Response ZOK 0 0 (ReconfigResponse [] Stat_default)"
| "makeResponse (SessionIDRequest _ _ _) = Response ZOK 0 0 (SessionIDResponse 0 0 0)"
| "makeResponse (MultiRequest rs k) =
     Response ZOK 0 0
       (if getOpNum (MultiRequest rs k) = Op_Multi then MultiWriteResponse (map makeResponse rs)
        else MultiReadResponse (map makeResponse rs))"

fun response_getOpNum :: "ResponseBody \<Rightarrow> OpNum option" where
  "response_getOpNum HeartbeatResponse = Some Op_Heartbeat"
| "response_getOpNum (SyncResponse _) = Some Op_Sync"
| "response_getOpNum AuthResponse = Some Op_Auth"
| "response_getOpNum CloseResponse = Some Op_Close"
| "response_getOpNum (CreateResponse _) = Some Op_Create"
| "response_getOpNum (CreateIfNotExistsResponse _) = Some Op_CreateIfNotExists"
| "response_getOpNum RemoveResponse = Some Op_Remove"
| "response_getOpNum (ExistsResponse _) = Some Op_Exists"
| "response_getOpNum (GetResponse _ _) = Some Op_Get"
| "response_getOpNum (SetResponse _) = Some Op_Set"
| "response_getOpNum (ListResponse _ _) = Some Op_List"
| "response_getOpNum (SimpleListResponse _ _) = Some Op_SimpleList"
| "response_getOpNum CheckResponse = Some Op_Check"
| "response_getOpNum CheckNotExistsResponse = Some Op_CheckNotExists"
| "response_getOpNum ErrorResponse = Some Op_Error"
| "response_getOpNum (SetACLResponse _) = Some Op_SetACL"
| "response_getOpNum (GetACLResponse _ _) = Some Op_GetACL"
| "response_getOpNum (ReconfigResponse _ _) = Some Op_Reconfig"
| "response_getOpNum (MultiWriteResponse _) = Some Op_Multi"
| "response_getOpNum (MultiReadResponse _) = Some Op_MultiRead"
| "response_getOpNum (SessionIDResponse _ _ _) = Some Op_SessionID"
| "response_getOpNum (WatchResponse _ _ _) = None"

text \<open>States and events of watch responses.\<close>

datatype Event = CREATED | DELETED | CHANGED | CHILD | SESSION | NOTWATCHING

fun event_code :: "Event \<Rightarrow> int32" where
  "event_code CREATED = 1"
| "event_code DELETED = 2"
| "event_code CHANGED = 3"
| "event_code CHILD = 4"
| "event_code SESSION = -1"
| "event_code NOTWATCHING = -2"

abbreviation State_CONNECTED :: int32 where "State_CONNECTED \<equiv> 3"
abbreviation WATCH_XID :: int32 where "WATCH_XID \<equiv> -1"
abbreviation PING_XID :: int32 where "PING_XID \<equiv> -2"
abbreviation AUTH_XID :: int32 where "AUTH_XID \<equiv> -4"
abbreviation CLOSE_XID :: int32 where "CLOSE_XID \<equiv> 0x7FFFFFFF"

section \<open>Sizes for accounting\<close>

text \<open>\<^verbatim>\<open>bytesSize\<close> of the request classes; \<open>sizeof_ACL\<close> is \<^verbatim>\<open>sizeof(ACL)\<close> of the platform.\<close>

fun request_bytesSize :: "nat \<Rightarrow> Request \<Rightarrow> nat" where
  "request_bytesSize sizeof_ACL (SyncRequest p) = length p"
| "request_bytesSize sizeof_ACL (AuthRequest _ s d) = 4 + 4 + length s + length d"
| "request_bytesSize sizeof_ACL (CreateRequest r) =
     length (cr_path r) + length (cr_data r) + 1 + 1 + length (cr_acls r) * sizeof_ACL + 4 + 1"
| "request_bytesSize sizeof_ACL (RemoveRequest p _ _) = length p + 4 + 4"
| "request_bytesSize sizeof_ACL (ExistsRequest p _) = length p + 4 + 1"
| "request_bytesSize sizeof_ACL (GetRequest p _) = length p + 4 + 1"
| "request_bytesSize sizeof_ACL (SetRequest p d _) = length p + length d + 4 + 4"
| "request_bytesSize sizeof_ACL (ListRequest p _) = length p + 4 + 1"
| "request_bytesSize sizeof_ACL (SimpleListRequest p _) = length p + 4 + 1"
| "request_bytesSize sizeof_ACL (FilteredListRequest p _ _) = length p + 4 + 1 + 1"
| "request_bytesSize sizeof_ACL (CheckRequest p _ _) = length p + 4 + 4 + 1"
| "request_bytesSize sizeof_ACL (SetACLRequest p as _) = length p + 4 + length as * sizeof_ACL + 4"
| "request_bytesSize sizeof_ACL (GetACLRequest p) = length p + 4"
| "request_bytesSize sizeof_ACL (ReconfigRequest j l n _) = length j + length l + length n + 8"
| "request_bytesSize sizeof_ACL (MultiRequest rs _) =
     sum_list (map (request_bytesSize sizeof_ACL) rs) + 4 + 1"
| "request_bytesSize sizeof_ACL _ = 0"

end
