(* ===== verification/SipHash.thy ===== *)
theory SipHash
  imports Prelude
begin

text \<open>
  \<^verbatim>\<open>SipHash\<close> of src/Common/SipHash.h: SipHash-2-4 computed in parts, on a little-endian platform
  (\<^verbatim>\<open>CURRENT_BYTES_IDX(i) = i\<close>). The union of \<^verbatim>\<open>current_word\<close> and \<^verbatim>\<open>current_bytes\<close> is the list of the
  eight bytes, read as a word by \<open>le_word\<close>.

  The main result is that hashing a message in parts is hashing the message: the state after any
  sequence of updates is the state of one update with the concatenation, and the 64-bit result is the
  block-wise definition of SipHash-2-4.
\<close>

section \<open>Operations\<close>

record SipHash =
  v0 :: uint64
  v1 :: uint64
  v2 :: uint64
  v3 :: uint64
  cnt :: uint64
  is_reference_128 :: bool
  current_bytes :: "byte list"

fun le_word :: "byte list \<Rightarrow> uint64" where
  "le_word [] = 0"
| "le_word (b # bs) = ucast b + 256 * le_word bs"

fun le_bytes :: "nat \<Rightarrow> 'a::len word \<Rightarrow> byte list" where
  "le_bytes 0 x = []"
| "le_bytes (Suc n) x = ucast x # le_bytes n (drop_bit 8 x)"

definition rotl :: "uint64 \<Rightarrow> nat \<Rightarrow> uint64" where
  "rotl x n = push_bit n x OR drop_bit (64 - n) x"

definition SIPROUND :: "SipHash \<Rightarrow> SipHash" where
  "SIPROUND s =
     (let a0 = v0 s + v1 s; a1 = rotl (v1 s) 13; a1 = a1 XOR a0; a0 = rotl a0 32;
          a2 = v2 s + v3 s; a3 = rotl (v3 s) 16; a3 = a3 XOR a2;
          a0 = a0 + a3; a3 = rotl a3 21; a3 = a3 XOR a0;
          a2 = a2 + a1; a1 = rotl a1 17; a1 = a1 XOR a2; a2 = rotl a2 32
      in s\<lparr>v0 := a0, v1 := a1, v2 := a2, v3 := a3\<rparr>)"

definition SipHash_new :: "uint64 \<Rightarrow> uint64 \<Rightarrow> bool \<Rightarrow> SipHash" where
  "SipHash_new key0 key1 ref128 =
     \<lparr>v0 = 0x736f6d6570736575 XOR key0,
      v1 = (if ref128 then (0x646f72616e646f6d XOR key1) XOR 0xee else 0x646f72616e646f6d XOR key1),
      v2 = 0x6c7967656e657261 XOR key0, v3 = 0x7465646279746573 XOR key1,
      cnt = 0, is_reference_128 = ref128, current_bytes = replicate 8 0\<rparr>"

text \<open>Mixing one word into the state.\<close>

definition sip_compress :: "uint64 \<Rightarrow> SipHash \<Rightarrow> SipHash" where
  "sip_compress w s =
     (let s = SIPROUND (SIPROUND (s\<lparr>v3 := v3 s XOR w\<rparr>)) in s\<lparr>v0 := v0 s XOR w\<rparr>)"

definition sip_finalize :: "SipHash \<Rightarrow> SipHash" where
  "sip_finalize s =
     (let s = s\<lparr>current_bytes := (current_bytes s)[7 := ucast (cnt s)]\<rparr>;
          s = sip_compress (le_word (current_bytes s)) s;
          s = s\<lparr>v2 := v2 s XOR (if is_reference_128 s then 0xee else 0xff)\<rparr>
      in SIPROUND (SIPROUND (SIPROUND (SIPROUND s))))"

text \<open>The two loops of \<^verbatim>\<open>update\<close>: completing the word left by the previous update, and the full words.\<close>

fun sip_fill :: "SipHash \<Rightarrow> byte list \<Rightarrow> SipHash \<times> byte list" where
  "sip_fill s [] = (s, [])"
| "sip_fill s (d # ds) =
     (if cnt s AND 7 \<noteq> 0
      then sip_fill (s\<lparr>cnt := cnt s + 1, current_bytes := (current_bytes s)[unat (cnt s AND 7) := d]\<rparr>) ds
      else (s, d # ds))"

function sip_words :: "SipHash \<Rightarrow> byte list \<Rightarrow> SipHash \<times> byte list" where
  "sip_words s ds =
     (if 8 \<le> length ds then sip_words (sip_compress (le_word (take 8 ds)) s) (drop 8 ds) else (s, ds))"
  by auto
termination by (relation "measure (\<lambda>(s, ds). length ds)") auto

declare sip_words.simps [simp del]

definition sip_rest :: "SipHash \<Rightarrow> byte list \<Rightarrow> SipHash" where
  "sip_rest s ds =
     (let s = s\<lparr>cnt := cnt s + word_of_nat (length ds)\<rparr>;
          (s, tail) = sip_words s ds
      in s\<lparr>current_bytes := tail @ replicate (8 - length tail) 0\<rparr>)"

definition sip_update :: "SipHash \<Rightarrow> byte list \<Rightarrow> SipHash" where
  "sip_update s ds =
     (if cnt s AND 7 \<noteq> 0
      then (let (s1, rest) = sip_fill s ds
            in if cnt s1 AND 7 \<noteq> 0 then s1
               else sip_rest (sip_compress (le_word (current_bytes s1)) s1) rest)
      else sip_rest s ds)"

text \<open>\<^verbatim>\<open>update(const T & x)\<close> for integers of \<open>n\<close> bytes, and for strings.\<close>

definition sip_update_int :: "nat \<Rightarrow> SipHash \<Rightarrow> 'a::len word \<Rightarrow> SipHash" where
  "sip_update_int n s x = sip_update s (le_bytes n x)"

definition string_bytes :: "string \<Rightarrow> byte list" where
  "string_bytes x = map of_char x"

definition sip_update_string :: "SipHash \<Rightarrow> string \<Rightarrow> SipHash" where
  "sip_update_string s x = sip_update s (string_bytes x)"

definition get64 :: "SipHash \<Rightarrow> uint64" where
  "get64 s = (let s = sip_finalize s in v0 s XOR v1 s XOR v2 s XOR v3 s)"

definition get128 :: "SipHash \<Rightarrow> uint64 \<times> uint64" where
  "get128 s = (let s = sip_finalize s in (v0 s XOR v1 s, v2 s XOR v3 s))"

definition get128Reference :: "SipHash \<Rightarrow> exn + uint64 \<times> uint64" where
  "get128Reference s =
     (if \<not> is_reference_128 s then Inl LOGICAL_ERROR
      else (let s = sip_finalize s; lo = v0 s XOR v1 s XOR v2 s XOR v3 s;
                s = SIPROUND (SIPROUND (SIPROUND (SIPROUND (s\<lparr>v1 := v1 s XOR 0xdd\<rparr>))));
                hi = v0 s XOR v1 s XOR v2 s XOR v3 s
            in Inr (lo, hi)))"

definition sipHash64Keyed :: "uint64 \<Rightarrow> uint64 \<Rightarrow> byte list \<Rightarrow> uint64" where
  "sipHash64Keyed key0 key1 ds = get64 (sip_update (SipHash_new key0 key1 False) ds)"

definition sipHash64 :: "byte list \<Rightarrow> uint64" where
  "sipHash64 ds = sipHash64Keyed 0 0 ds"

definition sipHash128Keyed :: "uint64 \<Rightarrow> uint64 \<Rightarrow> byte list \<Rightarrow> uint64 \<times> uint64" where
  "sipHash128Keyed key0 key1 ds = get128 (sip_update (SipHash_new key0 key1 False) ds)"

definition sipHash128ReferenceKeyed :: "uint64 \<Rightarrow> uint64 \<Rightarrow> byte list \<Rightarrow> exn + uint64 \<times> uint64" where
  "sipHash128ReferenceKeyed key0 key1 ds = get128Reference (sip_update (SipHash_new key0 key1 True) ds)"

section \<open>The state after a message\<close>

definition pad8 :: "byte list \<Rightarrow> byte list" where
  "pad8 t = t @ replicate (8 - length t) 0"

definition sip_state :: "SipHash \<Rightarrow> byte list \<Rightarrow> SipHash" where
  "sip_state s m =
     (case sip_words s m of (s', tail) \<Rightarrow>
        s'\<lparr>cnt := word_of_nat (length m), current_bytes := pad8 tail\<rparr>)"

lemma SIPROUND_fields [simp]:
  "cnt (SIPROUND s) = cnt s" "current_bytes (SIPROUND s) = current_bytes s"
  "is_reference_128 (SIPROUND s) = is_reference_128 s"
  by (simp_all add: SIPROUND_def Let_def)

lemma SIPROUND_upd:
  "SIPROUND (s\<lparr>cnt := c\<rparr>) = (SIPROUND s)\<lparr>cnt := c\<rparr>"
  "SIPROUND (s\<lparr>current_bytes := b\<rparr>) = (SIPROUND s)\<lparr>current_bytes := b\<rparr>"
  by (simp_all add: SIPROUND_def Let_def)

lemma SIPROUND_v2_upd:
  "SIPROUND (s\<lparr>cnt := c, current_bytes := b, v2 := x\<rparr>) =
     (SIPROUND (s\<lparr>v2 := x\<rparr>))\<lparr>cnt := c, current_bytes := b\<rparr>"
  by (simp add: SIPROUND_def Let_def)

lemma sip_compress_upd:
  "sip_compress w (s\<lparr>cnt := c\<rparr>) = (sip_compress w s)\<lparr>cnt := c\<rparr>"
  "sip_compress w (s\<lparr>current_bytes := b\<rparr>) = (sip_compress w s)\<lparr>current_bytes := b\<rparr>"
  "cnt (sip_compress w s) = cnt s" "current_bytes (sip_compress w s) = current_bytes s"
  "is_reference_128 (sip_compress w s) = is_reference_128 s"
  by (simp_all add: sip_compress_def SIPROUND_def Let_def)

lemma sip_words_upd:
  "sip_words (s\<lparr>cnt := c\<rparr>) m = (case sip_words s m of (s', t) \<Rightarrow> (s'\<lparr>cnt := c\<rparr>, t))"
  "sip_words (s\<lparr>current_bytes := b\<rparr>) m = (case sip_words s m of (s', t) \<Rightarrow> (s'\<lparr>current_bytes := b\<rparr>, t))"
proof (induction s m rule: sip_words.induct)
  case (1 s ds)
  { case 1
    then show ?case
      using "1.IH"(1) by (subst (1 2) sip_words.simps) (simp add: sip_compress_upd) }
  { case 2
    then show ?case
      using "1.IH"(2) by (subst (1 2) sip_words.simps) (simp add: sip_compress_upd) }
qed

lemma sip_words_short: "length m < 8 \<Longrightarrow> sip_words s m = (s, m)"
  by (subst sip_words.simps) simp

lemma sip_words_snd: "snd (sip_words s m) = drop (8 * (length m div 8)) m"
proof (induction s m rule: sip_words.induct)
  case (1 s ds)
  show ?case
  proof (cases "8 \<le> length ds")
    case True
    then have "length ds div 8 = Suc ((length ds - 8) div 8)"
      by (simp add: le_div_geq)
    with True 1 show ?thesis by (subst sip_words.simps) (simp add: add.commute)
  qed (simp add: sip_words_short)
qed

lemma sip_words_append:
  "8 dvd length a \<Longrightarrow> sip_words s (a @ b) = sip_words (fst (sip_words s a)) b"
proof (induction s a rule: sip_words.induct)
  case (1 s ds)
  show ?case
  proof (cases "8 \<le> length ds")
    case True
    then have "8 dvd length (drop 8 ds)" using 1(2) by (simp add: dvd_diff_nat)
    with True 1(1) show ?thesis
      by (simp add: sip_words.simps [of s "ds @ b"] sip_words.simps [of s ds])
  next
    case False
    with 1(2) have "ds = []" using dvd_imp_le [of 8 "length ds"] by (cases "length ds = 0") auto
    then show ?thesis by (simp add: sip_words_short)
  qed
qed

lemma sip_words_full:
  "length w = 8 \<Longrightarrow> sip_words s w = (sip_compress (le_word w) s, [])"
  by (subst sip_words.simps) (simp add: sip_words_short)

text \<open>Splitting a message at the last word boundary.\<close>

lemma sip_words_tail:
  assumes "sip_words s m = (s', t)"
  shows "sip_words s (m @ d) = sip_words s' (t @ d)" "length t = length m mod 8"
proof -
  let ?k = "8 * (length m div 8)"
  have t: "t = drop ?k m" using sip_words_snd [of s m] assms by simp
  have m: "m = take ?k m @ t" by (simp add: t)
  have k: "length (take ?k m) = ?k" by simp
  then have d: "8 dvd length (take ?k m)" by simp
  show lt: "length t = length m mod 8" by (simp add: t minus_mult_div_eq_mod)
  have "(s', t) = sip_words (fst (sip_words s (take ?k m))) t"
    using sip_words_append [OF d, of s t] assms m by simp
  also have "\<dots> = (fst (sip_words s (take ?k m)), t)" using lt by (intro sip_words_short) simp
  finally have "s' = fst (sip_words s (take ?k m))" by simp
  then show "sip_words s (m @ d) = sip_words s' (t @ d)"
    using sip_words_append [OF d, of s "t @ d"] m by (metis append.assoc)
qed

lemma word_and_7: "unat (word_of_nat n AND (7 :: uint64)) = n mod 8"
proof -
  have "(7 :: uint64) = mask 3" by (simp add: mask_eq_exp_minus_1)
  then have "word_of_nat n AND (7 :: uint64) = take_bit 3 (word_of_nat n)"
    by (simp add: take_bit_eq_mask)
  then show ?thesis
    by (simp add: take_bit_eq_mod unat_mod unat_of_nat mod_mod_cancel)
qed

lemma word_and_7_zero: "word_of_nat n AND (7 :: uint64) = 0 \<longleftrightarrow> n mod 8 = 0"
  using word_and_7 [of n] by (metis unat_0 unat_eq_zero)

lemma sip_fill_spec:
  assumes "t \<noteq> []" "length t < 8" "length t = n mod 8"
  shows "sip_fill (s\<lparr>cnt := word_of_nat n, current_bytes := pad8 t\<rparr>) d =
     (let k = min (8 - length t) (length d)
      in (s\<lparr>cnt := word_of_nat (n + k), current_bytes := pad8 (t @ take k d)\<rparr>, drop k d))"
  using assms
proof (induction d arbitrary: t n)
  case Nil
  then show ?case by simp
next
  case (Cons x d)
  have c: "word_of_nat n AND (7 :: uint64) \<noteq> 0" "unat (word_of_nat n AND (7 :: uint64)) = length t"
    using Cons.prems by (simp_all add: word_and_7_zero word_and_7 length_greater_0_conv [symmetric]
        del: length_greater_0_conv)
  have p: "(pad8 t)[length t := x] = pad8 (t @ [x])"
    using Cons.prems(2) by (cases "8 - length t") (auto simp: pad8_def list_update_append)
  have step: "sip_fill (s\<lparr>cnt := word_of_nat n, current_bytes := pad8 t\<rparr>) (x # d) =
      sip_fill (s\<lparr>cnt := word_of_nat (Suc n), current_bytes := pad8 (t @ [x])\<rparr>) d"
    using c p by (simp add: add.commute)
  show ?case
  proof (cases "length t = 7")
    case True
    then have "Suc n mod 8 = 0" using Cons.prems(3) by (simp add: mod_Suc)
    then have "word_of_nat (Suc n) AND (7 :: uint64) = 0" by (simp only: word_and_7_zero)
    then have "sip_fill (s\<lparr>cnt := word_of_nat (Suc n), current_bytes := pad8 (t @ [x])\<rparr>) d =
        (s\<lparr>cnt := word_of_nat (Suc n), current_bytes := pad8 (t @ [x])\<rparr>, d)"
      by (cases d) simp_all
    with step True show ?thesis by (simp add: Let_def)
  next
    case False
    then have "length (t @ [x]) = Suc n mod 8" using Cons.prems by (simp add: mod_Suc)
    then have "sip_fill (s\<lparr>cnt := word_of_nat (Suc n), current_bytes := pad8 (t @ [x])\<rparr>) d =
     (let k = min (8 - length (t @ [x])) (length d)
      in (s\<lparr>cnt := word_of_nat (Suc n + k), current_bytes := pad8 ((t @ [x]) @ take k d)\<rparr>, drop k d))"
      using Cons.prems False by (intro Cons.IH) auto
    moreover have "min (8 - length t) (Suc (length d)) = Suc (min (8 - length (t @ [x])) (length d))"
      using Cons.prems False by auto
    ultimately show ?thesis using step by (simp add: Let_def)
  qed
qed

lemma sip_rest_state:
  assumes "8 dvd length m" "sip_words s0 m = (s', [])"
  shows "sip_rest (s'\<lparr>cnt := word_of_nat (length m), current_bytes := b\<rparr>) d = sip_state s0 (m @ d)"
proof -
  obtain s'' t where w: "sip_words s' d = (s'', t)" by fastforce
  have "sip_words s0 (m @ d) = (s'', t)" using sip_words_append [OF assms(1), of s0 d] assms(2) w by simp
  then show ?thesis
    by (simp add: sip_rest_def sip_state_def sip_words_upd w pad8_def)
qed

lemma sip_update_state: "sip_update (sip_state s0 m) d = sip_state s0 (m @ d)"
proof -
  obtain s' t where w: "sip_words s0 m = (s', t)" by fastforce
  note tail = sip_words_tail [OF w]
  have st: "sip_state s0 m = s'\<lparr>cnt := word_of_nat (length m), current_bytes := pad8 t\<rparr>"
    by (simp add: sip_state_def w)
  show ?thesis
  proof (cases "length m mod 8 = 0")
    case True
    then have "t = []" "8 dvd length m" using tail(2) by (auto simp: dvd_eq_mod_eq_0)
    moreover have "word_of_nat (length m) AND (7 :: uint64) = 0" using True by (simp add: word_and_7_zero)
    ultimately show ?thesis
      using sip_rest_state [of m s0 s' "pad8 t" d] w by (simp add: sip_update_def st)
  next
    case False
    then have t: "t \<noteq> []" "length t < 8" "length t = length m mod 8" using tail(2) by auto
    let ?k = "min (8 - length t) (length d)"
    have c: "word_of_nat (length m) AND (7 :: uint64) \<noteq> 0" using False by (simp add: word_and_7_zero)
    have u: "sip_update (sip_state s0 m) d =
        (let s1 = s'\<lparr>cnt := word_of_nat (length m + ?k), current_bytes := pad8 (t @ take ?k d)\<rparr>
         in if (word_of_nat (length m + ?k) :: uint64) AND 7 \<noteq> 0 then s1
            else sip_rest (sip_compress (le_word (pad8 (t @ take ?k d))) s1) (drop ?k d))"
      using c by (simp add: sip_update_def st sip_fill_spec [OF t] Let_def)
    show ?thesis
    proof (cases "length t + length d < 8")
      case True
      then have k: "?k = length d" by auto
      have "(length m + length d) mod 8 = length t + length d"
        using True t by (metis mod_add_left_eq mod_less)
      then have "(word_of_nat (length m + length d) :: uint64) AND 7 \<noteq> 0"
        using t(1) by (simp only: word_and_7_zero) (simp add: length_greater_0_conv [symmetric] del: length_greater_0_conv)
      then have "sip_update (sip_state s0 m) d =
          s'\<lparr>cnt := word_of_nat (length m + length d), current_bytes := pad8 (t @ d)\<rparr>"
        using u k by (simp add: Let_def)
      moreover have "sip_words s0 (m @ d) = (s', t @ d)" using tail(1) True by (simp add: sip_words_short)
      ultimately show ?thesis by (simp add: sip_state_def)
    next
      case False
      define k where "k = 8 - length t"
      have k: "?k = k" "length t + k = 8" "k \<le> length d" using False t(2) by (auto simp: k_def)
      note u = u [unfolded k(1)]
      let ?w = "t @ take k d" and ?m = "m @ take k d"
      have w8: "length ?w = 8" using k(2,3) by simp
      have lm: "length ?m = length m + k" using k(3) by simp
      have "(length m + k) mod 8 = (length t + k) mod 8"
        using t(3) by (simp add: mod_add_left_eq)
      then have "(length m + k) mod 8 = 0" by (simp only: k(2)) simp
      then have dv: "8 dvd length ?m" and z: "(word_of_nat (length m + k) :: uint64) AND 7 = 0"
        by (simp_all only: lm dvd_eq_mod_eq_0 word_and_7_zero)
      have "pad8 ?w = ?w" unfolding pad8_def w8 by simp
      with u z have "sip_update (sip_state s0 m) d =
          sip_rest ((sip_compress (le_word ?w) s')\<lparr>cnt := word_of_nat (length ?m), current_bytes := ?w\<rparr>) (drop k d)"
        by (simp only: Let_def lm sip_compress_upd) simp
      also have "\<dots> = sip_state s0 (?m @ drop k d)"
        by (rule sip_rest_state [OF dv]) (simp only: tail(1) sip_words_full [OF w8])
      finally show ?thesis by simp
    qed
  qed
qed

lemma sip_state_new: "sip_state (SipHash_new k0 k1 r) [] = SipHash_new k0 k1 r"
  by (simp add: sip_state_def sip_words_short pad8_def SipHash_new_def)


section \<open>Properties\<close>

text \<open>The definition of SipHash-2-4 on a whole message: the message is padded with zeros so that, with
  one more byte holding its length modulo 256, it consists of words; each word is mixed in, then the
  finalization rounds.\<close>

definition siphash_padded :: "byte list \<Rightarrow> byte list" where
  "siphash_padded m = m @ replicate (7 - length m mod 8) 0 @ [word_of_nat (length m)]"

definition siphash24 :: "uint64 \<Rightarrow> uint64 \<Rightarrow> byte list \<Rightarrow> uint64" where
  "siphash24 key0 key1 m =
     (let s = fst (sip_words (SipHash_new key0 key1 False) (siphash_padded m));
          s = SIPROUND (SIPROUND (SIPROUND (SIPROUND (s\<lparr>v2 := v2 s XOR 0xff\<rparr>))))
      in v0 s XOR v1 s XOR v2 s XOR v3 s)"

lemma ucast_of_nat_byte: "ucast (word_of_nat n :: uint64) = (word_of_nat n :: byte)"
  by (simp add: unsigned_of_nat word_of_nat_eq_iff take_bit_eq_mod mod_mod_cancel)

lemma sip_finalize_state:
  assumes "sip_words s0 (siphash_padded m) = (s2, t2)" "\<not> is_reference_128 s0"
  shows "v0 (sip_finalize (sip_state s0 m)) = v0 (SIPROUND (SIPROUND (SIPROUND (SIPROUND (s2\<lparr>v2 := v2 s2 XOR 0xff\<rparr>)))))"
    "v1 (sip_finalize (sip_state s0 m)) = v1 (SIPROUND (SIPROUND (SIPROUND (SIPROUND (s2\<lparr>v2 := v2 s2 XOR 0xff\<rparr>)))))"
    "v2 (sip_finalize (sip_state s0 m)) = v2 (SIPROUND (SIPROUND (SIPROUND (SIPROUND (s2\<lparr>v2 := v2 s2 XOR 0xff\<rparr>)))))"
    "v3 (sip_finalize (sip_state s0 m)) = v3 (SIPROUND (SIPROUND (SIPROUND (SIPROUND (s2\<lparr>v2 := v2 s2 XOR 0xff\<rparr>)))))"
proof -
  obtain s' t where w: "sip_words s0 m = (s', t)" by fastforce
  note tail = sip_words_tail [OF w]
  have r: "\<not> is_reference_128 s'"
  proof -
    have "is_reference_128 (fst (sip_words s m)) = is_reference_128 s" for s m
      by (induction s m rule: sip_words.induct)
        (subst sip_words.simps, simp add: sip_compress_def Let_def)
    then show ?thesis using assms(2) w by (metis fst_conv)
  qed
  define l where "l = t @ replicate (7 - length t) 0 @ [word_of_nat (length m) :: byte]"
  have lt: "length t < 8" using tail(2) by simp
  then have l8: "length l = 8" by (simp add: l_def)
  have "sip_words s0 (siphash_padded m) = sip_words s' l"
    unfolding siphash_padded_def l_def by (simp only: tail(1) tail(2) [symmetric] append.assoc)
  then have s2: "s2 = sip_compress (le_word l) s'" using assms(1) sip_words_full [OF l8] by simp
  have "replicate (8 - length t) (0 :: byte) = replicate (7 - length t) 0 @ [0]"
    using replicate_append_same [of "7 - length t" "0 :: byte"] lt by (simp add: Suc_diff_le [symmetric] flip: replicate_Suc)
  then have "(pad8 t)[7 := word_of_nat (length m)] = l"
    using lt by (simp add: pad8_def l_def list_update_append)
  then have f: "sip_finalize (sip_state s0 m) =
      (SIPROUND (SIPROUND (SIPROUND (SIPROUND (s2\<lparr>v2 := v2 s2 XOR 0xff\<rparr>)))))
        \<lparr>cnt := word_of_nat (length m), current_bytes := l\<rparr>"
    using r by (simp add: sip_finalize_def sip_state_def w ucast_of_nat_byte s2 sip_compress_upd
        SIPROUND_v2_upd SIPROUND_upd Let_def)
  show "v0 (sip_finalize (sip_state s0 m)) = v0 (SIPROUND (SIPROUND (SIPROUND (SIPROUND (s2\<lparr>v2 := v2 s2 XOR 0xff\<rparr>)))))"
    "v1 (sip_finalize (sip_state s0 m)) = v1 (SIPROUND (SIPROUND (SIPROUND (SIPROUND (s2\<lparr>v2 := v2 s2 XOR 0xff\<rparr>)))))"
    "v2 (sip_finalize (sip_state s0 m)) = v2 (SIPROUND (SIPROUND (SIPROUND (SIPROUND (s2\<lparr>v2 := v2 s2 XOR 0xff\<rparr>)))))"
    "v3 (sip_finalize (sip_state s0 m)) = v3 (SIPROUND (SIPROUND (SIPROUND (SIPROUND (s2\<lparr>v2 := v2 s2 XOR 0xff\<rparr>)))))"
    by (simp_all add: f)
qed

lemma sip_updates_state: "foldl sip_update (sip_state s0 m) ds = sip_state s0 (m @ concat ds)"
  by (induction ds arbitrary: m) (simp_all add: sip_update_state)

text \<open>C37: hashing in parts is SipHash-2-4 of the whole.  Whatever the pieces a message is split into
  and however many updates they are fed by, \<^verbatim>\<open>get64\<close> returns the block-wise SipHash-2-4 of the
  concatenation.\<close>

theorem siphash_streaming:
  "get64 (foldl sip_update (SipHash_new key0 key1 False) pieces) = siphash24 key0 key1 (concat pieces)"
proof -
  have n: "\<not> is_reference_128 (SipHash_new key0 key1 False)" by (simp add: SipHash_new_def)
  obtain s2 t2 where w: "sip_words (SipHash_new key0 key1 False) (siphash_padded (concat pieces)) = (s2, t2)"
    by fastforce
  have "foldl sip_update (SipHash_new key0 key1 False) pieces =
      sip_state (SipHash_new key0 key1 False) (concat pieces)"
    using sip_updates_state [of "SipHash_new key0 key1 False" "[]" pieces] by (simp add: sip_state_new)
  then show ?thesis
    by (simp add: get64_def siphash24_def w Let_def sip_finalize_state [OF w n])
qed

text \<open>The definition agrees with the published test vector (key \<^verbatim>\<open>00..0f\<close>, message \<^verbatim>\<open>00..0e\<close>).\<close>

lemma siphash24_test_vector:
  "sipHash64Keyed 0x0706050403020100 0x0f0e0d0c0b0a0908 [0,1,2,3,4,5,6,7,8,9,10,11,12,13,14] = 0xa129ca6149be45e5"
  by code_simp

end
