(* ===== verification/ZooKeeperWire.thy ===== *)
theory ZooKeeperWire
  imports ZooKeeperTypes SipHash
begin

text \<open>
  The wire format of the ZooKeeper protocol, from src/Common/ZooKeeper/ZooKeeperIO.h, ZooKeeperIO.cpp and
  ZooKeeperCommon.cpp: big-endian integers, length-prefixed strings and arrays, and the bodies of all requests.

  A \<^verbatim>\<open>write\<close> function is the list of the bytes it appends to the buffer. A \<^verbatim>\<open>read\<close> function takes the bytes left in
  the buffer and gives the value and the bytes that are left after it, or the exception. The body of a multi request
  nests other requests; its reader carries a bound on the number of nested requests, and the lemmas below show that
  the number of bytes left is always enough.
\<close>

section \<open>Exceptions and readers\<close>

datatype wire_exn =
    CANNOT_READ_ALL_DATA      \<comment> \<open>\<^verbatim>\<open>ReadBuffer::readStrict\<close> at the end of the input\<close>
  | ATTEMPT_TO_READ_AFTER_EOF \<comment> \<open>\<^verbatim>\<open>throwReadAfterEOF\<close>\<close>
  | TOO_LARGE_STRING_SIZE     \<comment> \<open>\<^verbatim>\<open>readStringBinary\<close>\<close>
  | KeeperException Error     \<comment> \<open>\<^verbatim>\<open>Coordination::Exception\<close>\<close>
  | OutOfFuel                 \<comment> \<open>the bound on nested requests is exceeded\<close>

type_synonym bytes = "byte list"
type_synonym 'a reader = "bytes \<Rightarrow> wire_exn + 'a \<times> bytes"

abbreviation marshalling_error :: wire_exn where
  "marshalling_error \<equiv> KeeperException ZMARSHALLINGERROR"

definition readStrict :: "nat \<Rightarrow> bytes reader" where
  "readStrict n inp = (if length inp < n then Inl CANNOT_READ_ALL_DATA else Inr (take n inp, drop n inp))"

section \<open>Integers\<close>

fun word_of_bytes :: "bytes \<Rightarrow> 'a::len word" where
  "word_of_bytes [] = 0"
| "word_of_bytes (b # bs) = ucast b OR push_bit 8 (word_of_bytes bs)"

definition write_big_endian :: "nat \<Rightarrow> 'a::len word \<Rightarrow> bytes" where
  "write_big_endian n x = rev (le_bytes n x)"

definition read_big_endian :: "nat \<Rightarrow> 'a::len word reader" where
  "read_big_endian n inp = bindE (readStrict n inp) (\<lambda>(bs, inp). Inr (word_of_bytes (rev bs), inp))"

abbreviation write_int32 :: "int32 \<Rightarrow> bytes" where "write_int32 \<equiv> write_big_endian 4"
abbreviation write_int64 :: "int64 \<Rightarrow> bytes" where "write_int64 \<equiv> write_big_endian 8"
abbreviation write_uint8 :: "byte \<Rightarrow> bytes" where "write_uint8 \<equiv> write_big_endian 1"
abbreviation read_int32 :: "int32 reader" where "read_int32 \<equiv> read_big_endian 4"
abbreviation read_int64 :: "int64 reader" where "read_int64 \<equiv> read_big_endian 8"
abbreviation read_uint8 :: "byte reader" where "read_uint8 \<equiv> read_big_endian 1"

text \<open>A \<^verbatim>\<open>bool\<close> is read as \<^verbatim>\<open>Int8\<close> and compared with zero.\<close>

definition write_bool :: "bool \<Rightarrow> bytes" where
  "write_bool b = [if b then 1 else 0]"

definition read_bool :: "bool reader" where
  "read_bool inp = bindE (readStrict 1 inp) (\<lambda>(bs, inp). Inr (hd bs \<noteq> 0, inp))"

definition write_opnum :: "OpNum \<Rightarrow> bytes" where
  "write_opnum op = write_int32 (opnum_code op)"

definition read_opnum :: "OpNum reader" where
  "read_opnum inp = bindE (read_int32 inp) (\<lambda>(c, inp).
     case getOpNum_of_code c of None \<Rightarrow> Inl (KeeperException ZUNIMPLEMENTED) | Some op \<Rightarrow> Inr (op, inp))"

definition write_error :: "Error \<Rightarrow> bytes" where
  "write_error e = write_int32 (error_code e)"

definition read_error :: "Error reader" where
  "read_error inp = bindE (read_int32 inp) (\<lambda>(c, inp). Inr (error_of_code c, inp))"

section \<open>Strings and arrays\<close>

definition MAX_STRING_OR_ARRAY_SIZE :: nat where
  "MAX_STRING_OR_ARRAY_SIZE = 2 ^ 28"

definition bytes_string :: "bytes \<Rightarrow> string" where
  "bytes_string bs = map (\<lambda>b. char_of (unat b)) bs"

definition write_string :: "string \<Rightarrow> bytes" where
  "write_string s = write_int32 (word_of_nat (length s)) @ string_bytes s"

text \<open>A string of size -1 is the NULL value and read as the empty string.\<close>

definition read_string :: "string reader" where
  "read_string inp = bindE (read_int32 inp) (\<lambda>(size, inp).
     if size = -1 then Inr ([], inp)
     else if size <s 0 then Inl marshalling_error
     else if sint size > int MAX_STRING_OR_ARRAY_SIZE then Inl marshalling_error
     else if length inp < unat size then Inl marshalling_error
     else Inr (bytes_string (take (unat size) inp), drop (unat size) inp))"

definition write_vector :: "('a \<Rightarrow> bytes) \<Rightarrow> 'a list \<Rightarrow> bytes" where
  "write_vector write_elem arr = write_int32 (word_of_nat (length arr)) @ concat (map write_elem arr)"

fun read_elems :: "'a reader \<Rightarrow> nat \<Rightarrow> 'a list reader" where
  "read_elems read_elem 0 inp = Inr ([], inp)"
| "read_elems read_elem (Suc n) inp =
     bindE (read_elem inp) (\<lambda>(x, inp). bindE (read_elems read_elem n inp) (\<lambda>(xs, inp). Inr (x # xs, inp)))"

definition read_vector :: "'a reader \<Rightarrow> 'a list reader" where
  "read_vector read_elem inp = bindE (read_int32 inp) (\<lambda>(size, inp).
     if size <s 0 then Inl marshalling_error
     else if sint size > int MAX_STRING_OR_ARRAY_SIZE then Inl marshalling_error
     else read_elems read_elem (unat size) inp)"

section \<open>Records\<close>

definition write_ACL :: "ACL \<Rightarrow> bytes" where
  "write_ACL acl = write_int32 (permissions acl) @ write_string (scheme acl) @ write_string (acl_ident acl)"

definition read_ACL :: "ACL reader" where
  "read_ACL inp =
     bindE (read_int32 inp) (\<lambda>(perms, inp).
       bindE (read_string inp) (\<lambda>(sch, inp).
         bindE (read_string inp) (\<lambda>(ident, inp).
           Inr (\<lparr>permissions = perms, scheme = sch, acl_ident = ident\<rparr>, inp))))"

definition write_Stat :: "Stat \<Rightarrow> bytes" where
  "write_Stat st =
     write_int64 (st_czxid st) @ write_int64 (st_mzxid st) @ write_int64 (st_ctime st) @ write_int64 (st_mtime st) @
     write_int32 (st_version st) @ write_int32 (st_cversion st) @ write_int32 (st_aversion st) @
     write_int64 (st_ephemeralOwner st) @ write_int32 (st_dataLength st) @ write_int32 (st_numChildren st) @
     write_int64 (st_pzxid st)"

definition read_Stat :: "Stat reader" where
  "read_Stat inp =
     bindE (read_int64 inp) (\<lambda>(czxid, inp). bindE (read_int64 inp) (\<lambda>(mzxid, inp).
     bindE (read_int64 inp) (\<lambda>(ctime, inp). bindE (read_int64 inp) (\<lambda>(mtime, inp).
     bindE (read_int32 inp) (\<lambda>(version, inp). bindE (read_int32 inp) (\<lambda>(cversion, inp).
     bindE (read_int32 inp) (\<lambda>(aversion, inp). bindE (read_int64 inp) (\<lambda>(owner, inp).
     bindE (read_int32 inp) (\<lambda>(len, inp). bindE (read_int32 inp) (\<lambda>(num, inp).
     bindE (read_int64 inp) (\<lambda>(pzxid, inp).
       Inr (\<lparr>st_czxid = czxid, st_mzxid = mzxid, st_ctime = ctime, st_mtime = mtime, st_version = version,
             st_cversion = cversion, st_aversion = aversion, st_ephemeralOwner = owner, st_dataLength = len,
             st_numChildren = num, st_pzxid = pzxid\<rparr>, inp))))))))))))"

section \<open>Codecs\<close>

text \<open>A reader that, on inputs of at most \<open>n\<close> bytes, never produces input and never exceeds a bound on nested requests.\<close>

definition tame :: "nat \<Rightarrow> 'a reader \<Rightarrow> bool" where
  "tame n r \<longleftrightarrow>
     (\<forall>inp. length inp \<le> n \<longrightarrow> r inp \<noteq> Inl OutOfFuel \<and> (\<forall>x rest. r inp = Inr (x, rest) \<longrightarrow> length rest \<le> length inp))"

lemma tameD:
  assumes "tame n r" "length inp \<le> n"
  shows "r inp \<noteq> Inl OutOfFuel" "r inp = Inr (x, rest) \<Longrightarrow> length rest \<le> length inp"
  using assms by (auto simp: tame_def)

lemma tame_return [intro!]: "tame n (\<lambda>inp. Inr (x, inp))"
  by (simp add: tame_def)

lemma tame_throw [intro!]: "e \<noteq> OutOfFuel \<Longrightarrow> tame n (\<lambda>inp. Inl e)"
  by (simp add: tame_def)

lemma tame_bind [intro!]:
  assumes r: "tame n r" and f: "\<And>x. tame n (f x)"
  shows "tame n (\<lambda>inp. bindE (r inp) (\<lambda>(x, inp). f x inp))"
  unfolding tame_def
proof (intro allI impI)
  fix inp :: bytes assume n: "length inp \<le> n"
  show "bindE (r inp) (\<lambda>(x, inp). f x inp) \<noteq> Inl OutOfFuel \<and>
    (\<forall>x rest. bindE (r inp) (\<lambda>(x, inp). f x inp) = Inr (x, rest) \<longrightarrow> length rest \<le> length inp)"
  proof (cases "r inp")
    case (Inl e)
    then show ?thesis using tameD(1) [OF r n] by auto
  next
    case (Inr y)
    obtain x inp1 where y: "y = (x, inp1)" by (cases y)
    have l: "length inp1 \<le> length inp" using tameD(2) [OF r n] Inr y by simp
    then show ?thesis
      using Inr y tameD [OF f, of inp1 x] n by (auto intro: order_trans)
  qed
qed

lemma tame_if [intro!]: "(b \<Longrightarrow> tame n r) \<Longrightarrow> (\<not> b \<Longrightarrow> tame n r') \<Longrightarrow> tame n (\<lambda>inp. if b then r inp else r' inp)"
  by (cases b) simp_all

lemma tame_eqI: "(\<And>inp. r inp = r' inp) \<Longrightarrow> tame n r' \<Longrightarrow> tame n r"
  by (simp add: tame_def)

lemma tame_case_option [intro!]:
  "tame n r \<Longrightarrow> (\<And>x. tame n (f x)) \<Longrightarrow> tame n (\<lambda>inp. case v of None \<Rightarrow> r inp | Some x \<Rightarrow> f x inp)"
  by (cases v) simp_all

lemma tame_elems: "tame n r \<Longrightarrow> tame n (read_elems r k)"
proof (induction k)
  case 0
  show ?case by (rule tame_eqI [OF read_elems.simps(1)]) auto
next
  case (Suc k)
  then show ?case by (intro tame_eqI [OF read_elems.simps(2)]) auto
qed

text \<open>A pair of functions such that what is written is read back, whatever follows it.\<close>

locale wire_codec =
  fixes write_it :: "'a \<Rightarrow> bytes" and read_it :: "'a reader" and fits :: "'a \<Rightarrow> bool"
  assumes read_write: "fits x \<Longrightarrow> read_it (write_it x @ rest) = Inr (x, rest)"
    and tame: "tame n read_it"
begin

lemma elems_read_write:
  "list_all fits xs \<Longrightarrow> read_elems read_it (length xs) (concat (map write_it xs) @ rest) = Inr (xs, rest)"
  by (induction xs) (simp_all add: read_write)

end

section \<open>Round trips of the parts\<close>

lemma length_le_bytes [simp]: "length (le_bytes n x) = n"
  by (induction n arbitrary: x) simp_all

lemma length_write_big_endian [simp]: "length (write_big_endian n x) = n"
  by (simp add: write_big_endian_def)

lemma word_of_le_bytes: "word_of_bytes (le_bytes n x) = take_bit (8 * n) x"
proof (induction n arbitrary: x)
  case (Suc n)
  show ?case
    unfolding le_bytes.simps word_of_bytes.simps Suc
    by (rule bit_word_eqI) (auto simp: bit_simps)
qed simp

lemma read_big_endian_write:
  fixes x :: "'a::len word"
  assumes "LENGTH('a) \<le> 8 * n"
  shows "read_big_endian n (write_big_endian n x @ rest) = Inr (x, rest)"
  using assms by (simp add: read_big_endian_def write_big_endian_def readStrict_def word_of_le_bytes take_bit_word_eq_self)

lemma tame_readStrict: "tame n (readStrict k)"
  by (auto simp: tame_def readStrict_def)

lemma tame_big_endian [intro!]: "tame n (read_big_endian k)"
  by (rule tame_eqI [OF read_big_endian_def]) (auto intro: tame_readStrict)

lemma read_big_endian_consumes: "read_big_endian k inp = Inr (x, rest) \<Longrightarrow> length inp = k + length rest"
  by (auto simp: read_big_endian_def readStrict_def split: if_splits)

lemma bytes_string_inverse [simp]: "bytes_string (string_bytes s) = s"
proof -
  have "char_of (unat (of_char c :: byte)) = c" for c
  proof -
    have "unat (of_nat (of_char c) :: byte) = (of_char c :: nat)" using nat_of_char_less_256 [of c] by (simp add: unat_of_nat)
    then show ?thesis by (simp add: of_nat_of_char)
  qed
  then show ?thesis by (induction s) (simp_all add: bytes_string_def string_bytes_def)
qed

lemma length_string_bytes [simp]: "length (string_bytes s) = length s"
  by (simp add: string_bytes_def)

text \<open>A size that fits is read as it was written.\<close>

lemma size_facts:
  assumes "n \<le> MAX_STRING_OR_ARRAY_SIZE"
  shows "unat (word_of_nat n :: int32) = n" "sint (word_of_nat n :: int32) = int n"
    "\<not> (word_of_nat n :: int32) <s 0" "(word_of_nat n :: int32) \<noteq> -1"
proof -
  have n: "n < 2 ^ 31" using assms by (simp add: MAX_STRING_OR_ARRAY_SIZE_def)
  show u: "unat (word_of_nat n :: int32) = n" using n by (simp add: unat_of_nat)
  show s: "sint (word_of_nat n :: int32) = int n" using n by (simp add: signed_of_nat signed_take_bit_int_eq_self)
  show "\<not> (word_of_nat n :: int32) <s 0" using s by (simp add: word_sless_alt)
  show "(word_of_nat n :: int32) \<noteq> -1" using s by (metis of_nat_0_le_iff not_le signed_minus_1 zero_less_one neg_less_0_iff_less)
qed

interpretation int32_codec: wire_codec write_int32 read_int32 "\<lambda>_. True"
  by unfold_locales (simp_all add: read_big_endian_write tame_big_endian)

interpretation int64_codec: wire_codec write_int64 read_int64 "\<lambda>_. True"
  by unfold_locales (simp_all add: read_big_endian_write tame_big_endian)

interpretation uint8_codec: wire_codec write_uint8 read_uint8 "\<lambda>_. True"
  by unfold_locales (simp_all add: read_big_endian_write tame_big_endian)

lemma tame_bool [intro!]: "tame n read_bool"
  by (rule tame_eqI [OF read_bool_def]) (intro tame_bind tame_return tame_readStrict)

interpretation bool_codec: wire_codec write_bool read_bool "\<lambda>_. True"
  by unfold_locales (simp_all add: write_bool_def read_bool_def readStrict_def tame_bool)

lemma tame_opnum [intro!]: "tame n read_opnum"
  by (rule tame_eqI [OF read_opnum_def]) auto

interpretation opnum_codec: wire_codec write_opnum read_opnum "\<lambda>_. True"
  by unfold_locales (simp_all add: write_opnum_def read_opnum_def read_big_endian_write tame_opnum)

lemma tame_error [intro!]: "tame n read_error"
  by (rule tame_eqI [OF read_error_def]) auto

interpretation error_codec: wire_codec write_error read_error valid_error
  by unfold_locales (simp_all add: write_error_def read_error_def read_big_endian_write tame_error valid_error_def)

abbreviation string_fits :: "string \<Rightarrow> bool" where
  "string_fits s \<equiv> length s \<le> MAX_STRING_OR_ARRAY_SIZE"

lemma tame_string [intro!]: "tame n read_string"
proof (rule tame_eqI [OF read_string_def])
  have "tame n (\<lambda>inp. if length inp < k then Inl marshalling_error else Inr (bytes_string (take k inp), drop k inp))" for k
    by (simp add: tame_def)
  then show "tame n (\<lambda>inp. bindE (read_int32 inp) (\<lambda>(size, inp).
     if size = -1 then Inr ([], inp)
     else if size <s 0 then Inl marshalling_error
     else if sint size > int MAX_STRING_OR_ARRAY_SIZE then Inl marshalling_error
     else if length inp < unat size then Inl marshalling_error
     else Inr (bytes_string (take (unat size) inp), drop (unat size) inp)))"
    by (intro tame_bind tame_if tame_return tame_throw tame_big_endian) simp_all
qed

interpretation string_codec: wire_codec write_string read_string string_fits
proof
  fix s :: string and rest
  assume "string_fits s"
  then show "read_string (write_string s @ rest) = Inr (s, rest)"
    by (simp add: write_string_def read_string_def read_big_endian_write size_facts)
qed (rule tame_string)

text \<open>An array of elements of a codec is a codec.\<close>

abbreviation vector_fits :: "('a \<Rightarrow> bool) \<Rightarrow> 'a list \<Rightarrow> bool" where
  "vector_fits fits xs \<equiv> length xs \<le> MAX_STRING_OR_ARRAY_SIZE \<and> list_all fits xs"

lemma tame_vector [intro!]: "tame n r \<Longrightarrow> tame n (read_vector r)"
  by (rule tame_eqI [OF read_vector_def]) (intro tame_bind tame_if tame_throw tame_big_endian tame_elems; simp)

context wire_codec
begin

lemma vector_read_write: "vector_fits fits xs \<Longrightarrow> read_vector read_it (write_vector write_it xs @ rest) = Inr (xs, rest)"
  by (simp add: write_vector_def read_vector_def read_big_endian_write size_facts elems_read_write)

lemma vector_codec: "wire_codec (write_vector write_it) (read_vector read_it) (vector_fits fits)"
  by unfold_locales (simp_all add: vector_read_write tame_vector tame)

end

interpretation names_codec: wire_codec "write_vector write_string" "read_vector read_string" "vector_fits string_fits"
  by (rule string_codec.vector_codec)

definition ACL_fits :: "ACL \<Rightarrow> bool" where
  "ACL_fits acl \<longleftrightarrow> string_fits (scheme acl) \<and> string_fits (acl_ident acl)"

lemma tame_ACL [intro!]: "tame n read_ACL"
  by (rule tame_eqI [OF read_ACL_def]) (intro tame_bind tame_return tame_big_endian tame_string)

interpretation ACL_codec: wire_codec write_ACL read_ACL ACL_fits
  by unfold_locales
    (simp_all add: write_ACL_def read_ACL_def ACL_fits_def int32_codec.read_write string_codec.read_write tame_ACL)

interpretation ACLs_codec: wire_codec "write_vector write_ACL" "read_vector read_ACL" "vector_fits ACL_fits"
  by (rule ACL_codec.vector_codec)

lemma tame_Stat [intro!]: "tame n read_Stat"
  by (rule tame_eqI [OF read_Stat_def]) (intro tame_bind tame_return tame_big_endian)

interpretation Stat_codec: wire_codec write_Stat read_Stat "\<lambda>_. True"
  by unfold_locales (simp_all add: write_Stat_def read_Stat_def int32_codec.read_write int64_codec.read_write tame_Stat)

section \<open>Requests\<close>

text \<open>The header of a part of a multi request or response, and the footer of the whole.\<close>

definition write_part_header :: "OpNum \<Rightarrow> bool \<Rightarrow> int32 \<Rightarrow> bytes" where
  "write_part_header op_num done error = write_opnum op_num @ write_bool done @ write_int32 error"

definition read_part_header :: "(OpNum \<times> bool \<times> int32) reader" where
  "read_part_header inp =
     bindE (read_opnum inp) (\<lambda>(op_num, inp).
       bindE (read_bool inp) (\<lambda>(done, inp).
         bindE (read_int32 inp) (\<lambda>(error, inp). Inr ((op_num, done, error), inp))))"

definition create_flags :: "CreateReq \<Rightarrow> int32" where
  "create_flags r = (if cr_is_ephemeral r then 1 else 0) OR (if cr_is_sequential r then 2 else 0)"

fun writeImpl :: "Request \<Rightarrow> bytes" where
  "writeImpl HeartbeatRequest = []"
| "writeImpl CloseRequest = []"
| "writeImpl (SyncRequest p) = write_string p"
| "writeImpl (AuthRequest t sch data) = write_int32 t @ write_string sch @ write_string data"
| "writeImpl (CreateRequest r) =
     write_string (cr_path r) @ write_string (cr_data r) @ write_vector write_ACL (cr_acls r) @ write_int32 (create_flags r)"
| "writeImpl (RemoveRequest p v _) = write_string p @ write_int32 v"
| "writeImpl (ExistsRequest p w) = write_string p @ write_bool w"
| "writeImpl (GetRequest p w) = write_string p @ write_bool w"
| "writeImpl (SetRequest p data v) = write_string p @ write_string data @ write_int32 v"
| "writeImpl (ListRequest p w) = write_string p @ write_bool w"
| "writeImpl (SimpleListRequest p w) = write_string p @ write_bool w"
| "writeImpl (FilteredListRequest p w k) = write_string p @ write_bool w @ write_uint8 k"
| "writeImpl (CheckRequest p v _) = write_string p @ write_int32 v"
| "writeImpl (SetACLRequest p acls v) = write_string p @ write_vector write_ACL acls @ write_int32 v"
| "writeImpl (GetACLRequest p) = write_string p"
| "writeImpl (ReconfigRequest j l m v) = write_string j @ write_string l @ write_string m @ write_int64 v"
| "writeImpl (SessionIDRequest i t k) = write_int64 i @ write_int64 t @ write_int32 k"
| "writeImpl (MultiRequest rs _) =
     concat (map (\<lambda>r. write_part_header (getOpNum r) False (-1) @ writeImpl r) rs) @ write_part_header Op_Error True (-1)"

text \<open>\<^verbatim>\<open>readImpl\<close> of the request that the factory makes for the operation number; fields that are not on the wire have
  their default values.\<close>

definition read_path :: "(string \<Rightarrow> Request) \<Rightarrow> Request reader" where
  "read_path mk inp = bindE (read_string inp) (\<lambda>(p, inp). Inr (mk p, inp))"

definition read_path_watch :: "(string \<Rightarrow> bool \<Rightarrow> Request) \<Rightarrow> Request reader" where
  "read_path_watch mk inp =
     bindE (read_string inp) (\<lambda>(p, inp). bindE (read_bool inp) (\<lambda>(w, inp). Inr (mk p w, inp)))"

definition read_path_version :: "(string \<Rightarrow> int32 \<Rightarrow> Request) \<Rightarrow> Request reader" where
  "read_path_version mk inp =
     bindE (read_string inp) (\<lambda>(p, inp). bindE (read_int32 inp) (\<lambda>(v, inp). Inr (mk p v, inp)))"

definition read_auth :: "Request reader" where
  "read_auth inp =
     bindE (read_int32 inp) (\<lambda>(t, inp). bindE (read_string inp) (\<lambda>(sch, inp).
       bindE (read_string inp) (\<lambda>(data, inp). Inr (AuthRequest t sch data, inp))))"

definition read_create :: "bool \<Rightarrow> Request reader" where
  "read_create not_exists inp =
     bindE (read_string inp) (\<lambda>(p, inp). bindE (read_string inp) (\<lambda>(data, inp).
       bindE (read_vector read_ACL inp) (\<lambda>(acls, inp). bindE (read_int32 inp) (\<lambda>(flags, inp).
         Inr (CreateRequest \<lparr>cr_path = p, cr_data = data, cr_is_ephemeral = (flags AND 1 \<noteq> 0),
                cr_is_sequential = (flags AND 2 \<noteq> 0), cr_acls = acls, cr_not_exists = not_exists,
                cr_parent_cversion = -1\<rparr>, inp)))))"

definition read_set :: "Request reader" where
  "read_set inp =
     bindE (read_string inp) (\<lambda>(p, inp). bindE (read_string inp) (\<lambda>(data, inp).
       bindE (read_int32 inp) (\<lambda>(v, inp). Inr (SetRequest p data v, inp))))"

definition read_filtered_list :: "Request reader" where
  "read_filtered_list inp =
     bindE (read_string inp) (\<lambda>(p, inp). bindE (read_bool inp) (\<lambda>(w, inp).
       bindE (read_uint8 inp) (\<lambda>(k, inp). Inr (FilteredListRequest p w k, inp))))"

definition read_set_acl :: "Request reader" where
  "read_set_acl inp =
     bindE (read_string inp) (\<lambda>(p, inp). bindE (read_vector read_ACL inp) (\<lambda>(acls, inp).
       bindE (read_int32 inp) (\<lambda>(v, inp). Inr (SetACLRequest p acls v, inp))))"

definition read_reconfig :: "Request reader" where
  "read_reconfig inp =
     bindE (read_string inp) (\<lambda>(j, inp). bindE (read_string inp) (\<lambda>(l, inp). bindE (read_string inp) (\<lambda>(m, inp).
       bindE (read_int64 inp) (\<lambda>(v, inp). Inr (ReconfigRequest j l m v, inp)))))"

definition read_session_id :: "Request reader" where
  "read_session_id inp =
     bindE (read_int64 inp) (\<lambda>(i, inp). bindE (read_int64 inp) (\<lambda>(t, inp).
       bindE (read_int32 inp) (\<lambda>(k, inp). Inr (SessionIDRequest i t k, inp))))"

definition read_with_parts :: "Request list reader \<Rightarrow> OpNum \<Rightarrow> Request reader" where
  "read_with_parts read_parts op inp =
     (case op of
        Op_Heartbeat \<Rightarrow> Inr (HeartbeatRequest, inp)
      | Op_Close \<Rightarrow> Inr (CloseRequest, inp)
      | Op_Sync \<Rightarrow> read_path SyncRequest inp
      | Op_Auth \<Rightarrow> read_auth inp
      | Op_Create \<Rightarrow> read_create False inp
      | Op_CreateIfNotExists \<Rightarrow> read_create True inp
      | Op_Remove \<Rightarrow> read_path_version (\<lambda>p v. RemoveRequest p v False) inp
      | Op_Exists \<Rightarrow> read_path_watch ExistsRequest inp
      | Op_Get \<Rightarrow> read_path_watch GetRequest inp
      | Op_Set \<Rightarrow> read_set inp
      | Op_SimpleList \<Rightarrow> read_path_watch SimpleListRequest inp
      | Op_List \<Rightarrow> read_path_watch ListRequest inp
      | Op_FilteredList \<Rightarrow> read_filtered_list inp
      | Op_Check \<Rightarrow> read_path_version (\<lambda>p v. CheckRequest p v False) inp
      | Op_CheckNotExists \<Rightarrow> read_path_version (\<lambda>p v. CheckRequest p v True) inp
      | Op_SetACL \<Rightarrow> read_set_acl inp
      | Op_GetACL \<Rightarrow> read_path GetACLRequest inp
      | Op_Reconfig \<Rightarrow> read_reconfig inp
      | Op_SessionID \<Rightarrow> read_session_id inp
      | Op_Multi \<Rightarrow> bindE (read_parts inp) (\<lambda>(rs, inp). Inr (MultiRequest rs (Some KindWrite), inp))
      | Op_MultiRead \<Rightarrow> bindE (read_parts inp) (\<lambda>(rs, inp). Inr (MultiRequest rs (Some KindRead), inp))
      | Op_Error \<Rightarrow> Inl (KeeperException ZBADARGUMENTS))"

text \<open>The loop of \<^verbatim>\<open>ZooKeeperMultiRequest::readImpl\<close>: what follows the header of a part, given the reader of the parts after
  it, which is also the one for a multi request as a part.\<close>

definition read_part :: "Request list reader \<Rightarrow> OpNum \<times> bool \<times> int32 \<Rightarrow> Request list reader" where
  "read_part read_parts h inp =
     (case h of (op_num, done, error) \<Rightarrow>
        if done
        then (if op_num \<noteq> Op_Error then Inl marshalling_error
              else if error \<noteq> -1 then Inl marshalling_error
              else Inr ([], inp))
        else bindE (read_with_parts read_parts op_num inp) (\<lambda>(r, inp).
               if inp = [] then Inl marshalling_error
               else bindE (read_parts inp) (\<lambda>(rs, inp). Inr (r # rs, inp))))"

fun read_multi :: "nat \<Rightarrow> Request list reader" where
  "read_multi 0 inp = Inl OutOfFuel"
| "read_multi (Suc fuel) inp = bindE (read_part_header inp) (\<lambda>(h, inp). read_part (read_multi fuel) h inp)"

definition readImpl :: "OpNum \<Rightarrow> Request reader" where
  "readImpl op inp = read_with_parts (read_multi (Suc (length inp))) op inp"

text \<open>\<^verbatim>\<open>ZooKeeperRequest::write\<close>, with the length in front, and the two places that read a request.\<close>

definition write_blob :: "bytes \<Rightarrow> bytes" where
  "write_blob bs = write_int32 (word_of_nat (length bs)) @ bs"

definition request_write :: "ZooKeeperRequest \<Rightarrow> bytes" where
  "request_write r = write_blob (write_int32 (xid r) @ write_opnum (getOpNum (request r)) @ writeImpl (request r))"

definition request_read :: "ZooKeeperRequest reader" where
  "request_read inp =
     bindE (read_int32 inp) (\<lambda>(x, inp). bindE (read_opnum inp) (\<lambda>(op, inp).
       bindE (readImpl op inp) (\<lambda>(r, inp). Inr (\<lparr>xid = x, request = r\<rparr>, inp))))"

text \<open>The handler reads the length and does not use it.\<close>

definition receiveRequest :: "ZooKeeperRequest reader" where
  "receiveRequest inp = bindE (read_int32 inp) (\<lambda>(len, inp). request_read inp)"

section \<open>Readers of requests\<close>

lemma part_header_read_write:
  "read_part_header (write_part_header op done err @ rest) = Inr ((op, done, err), rest)"
  by (simp add: write_part_header_def read_part_header_def opnum_codec.read_write bool_codec.read_write int32_codec.read_write)

lemma tame_part_header [intro!]: "tame n read_part_header"
  by (rule tame_eqI [OF read_part_header_def]) (intro tame_bind tame_return tame_opnum tame_bool tame_big_endian)

lemma part_header_consumes:
  assumes "read_part_header inp = Inr (h, rest)"
  shows "length rest < length inp"
proof -
  obtain op inp1 inp2 d x where h: "read_opnum inp = Inr (op, inp1)" "read_bool inp1 = Inr (d, inp2)" "read_int32 inp2 = Inr (x, rest)"
    using assms by (auto simp: read_part_header_def bindE_Inr_iff)
  then show ?thesis
    using read_big_endian_consumes [OF h(3)] tameD(2) [OF tame_opnum order_refl h(1)] tameD(2) [OF tame_bool order_refl h(2)] by simp
qed

lemma tame_plain [intro!]:
  "tame n (read_path mk1)" "tame n (read_path_watch mk2)" "tame n (read_path_version mk3)" "tame n read_auth" "tame n (read_create ne)"
  "tame n read_set" "tame n read_filtered_list" "tame n read_set_acl" "tame n read_reconfig" "tame n read_session_id"
  by (rule tame_eqI [OF read_path_def], (intro tame_bind tame_return tame_string))
    (rule tame_eqI [OF read_path_watch_def], (intro tame_bind tame_return tame_string tame_bool),
     rule tame_eqI [OF read_path_version_def], (intro tame_bind tame_return tame_string tame_big_endian),
     rule tame_eqI [OF read_auth_def], (intro tame_bind tame_return tame_string tame_big_endian),
     rule tame_eqI [OF read_create_def], (intro tame_bind tame_return tame_string tame_big_endian tame_vector tame_ACL),
     rule tame_eqI [OF read_set_def], (intro tame_bind tame_return tame_string tame_big_endian),
     rule tame_eqI [OF read_filtered_list_def], (intro tame_bind tame_return tame_string tame_bool tame_big_endian),
     rule tame_eqI [OF read_set_acl_def], (intro tame_bind tame_return tame_string tame_big_endian tame_vector tame_ACL),
     rule tame_eqI [OF read_reconfig_def], (intro tame_bind tame_return tame_string tame_big_endian),
     rule tame_eqI [OF read_session_id_def], (intro tame_bind tame_return tame_big_endian))

lemma tame_with_parts:
  assumes "tame n p"
  shows "tame n (read_with_parts p op)"
proof -
  have m: "tame n (\<lambda>inp. bindE (p inp) (\<lambda>(rs, inp). Inr (MultiRequest rs k, inp)))" for k
    using assms by (intro tame_bind tame_return)
  show ?thesis
    by (cases op) (rule tame_eqI, rule read_with_parts_def, simp, intro tame_return tame_throw tame_plain m; simp)+
qed

lemma tame_bind_less:
  assumes r: "tame (Suc n) r" "\<And>inp x rest. r inp = Inr (x, rest) \<Longrightarrow> length rest < length inp" and f: "\<And>x. tame n (f x)"
  shows "tame (Suc n) (\<lambda>inp. bindE (r inp) (\<lambda>(x, inp). f x inp))"
  unfolding tame_def
proof (intro allI impI)
  fix inp :: bytes assume n: "length inp \<le> Suc n"
  show "bindE (r inp) (\<lambda>(x, inp). f x inp) \<noteq> Inl OutOfFuel \<and>
    (\<forall>x rest. bindE (r inp) (\<lambda>(x, inp). f x inp) = Inr (x, rest) \<longrightarrow> length rest \<le> length inp)"
  proof (cases "r inp")
    case (Inl e)
    then show ?thesis using tameD(1) [OF r(1) n] by auto
  next
    case (Inr y)
    obtain x inp1 where y: "y = (x, inp1)" by (cases y)
    have l: "length inp1 < length inp" using r(2) Inr y by simp
    then show ?thesis using Inr y tameD [OF f, of inp1 x] n by (auto intro: order_trans)
  qed
qed

text \<open>One unit of fuel for every byte of the input, and one more, is enough.\<close>

lemma tame_part:
  assumes "tame n p"
  shows "tame n (read_part p h)"
proof -
  obtain op d err where h: "h = (op, d, err)" by (cases h)
  have tl: "tame n (\<lambda>inp. if inp = [] then Inl marshalling_error else bindE (p inp) (\<lambda>(rs, inp). Inr (r # rs, inp)))" for r
  proof -
    have "tame n (\<lambda>inp. bindE (p inp) (\<lambda>(rs, inp). Inr (r # rs, inp)))" using assms by (intro tame_bind tame_return)
    then show ?thesis by (auto simp: tame_def)
  qed
  have "tame n (\<lambda>inp. if d
        then (if op \<noteq> Op_Error then Inl marshalling_error else if err \<noteq> -1 then Inl marshalling_error else Inr ([], inp))
        else bindE (read_with_parts p op inp) (\<lambda>(r, inp).
               if inp = [] then Inl marshalling_error else bindE (p inp) (\<lambda>(rs, inp). Inr (r # rs, inp))))"
    by (intro tame_if tame_return tame_throw tame_bind tame_with_parts assms tl) simp_all
  then show ?thesis by (rule tame_eqI [rotated]) (simp add: read_part_def h)
qed

lemma tame_multi: "tame n (read_multi (Suc n))"
proof (induction n)
  case 0
  have "read_part_header [] = Inl CANNOT_READ_ALL_DATA"
    by (simp add: read_part_header_def read_opnum_def read_big_endian_def readStrict_def)
  then show ?case by (simp add: tame_def)
next
  case (Suc n)
  from tame_bind_less [OF tame_part_header part_header_consumes tame_part [OF Suc]] show ?case
    by (rule tame_eqI [OF read_multi.simps(2)])
qed

text \<open>More fuel makes no difference.\<close>

definition extends :: "'a reader \<Rightarrow> 'a reader \<Rightarrow> bool" where
  "extends q p \<longleftrightarrow> (\<forall>inp. p inp \<noteq> Inl OutOfFuel \<longrightarrow> q inp = p inp)"

lemma extends_refl [simp]: "extends p p"
  by (simp add: extends_def)

lemma extends_bind:
  assumes "extends q p" "\<And>x inp. f x inp \<noteq> Inl OutOfFuel \<Longrightarrow> g x inp = f x inp" "bindE (p inp) (\<lambda>(x, inp). f x inp) \<noteq> Inl OutOfFuel"
  shows "bindE (q inp) (\<lambda>(x, inp). g x inp) = bindE (p inp) (\<lambda>(x, inp). f x inp)"
  using assms by (cases "p inp") (auto simp: extends_def split: prod.splits)

lemma extends_with_parts:
  assumes "extends q p"
  shows "extends (read_with_parts q op) (read_with_parts p op)"
  using extends_bind [OF assms, of "\<lambda>rs inp. Inr (MultiRequest rs k, inp)" "\<lambda>rs inp. Inr (MultiRequest rs k, inp)" for k]
  unfolding extends_def read_with_parts_def by (cases op) simp_all

lemma extends_part:
  assumes "extends q p"
  shows "extends (read_part q h) (read_part p h)"
proof -
  obtain op d err where h: "h = (op, d, err)" by (cases h)
  have tl: "(if inp = [] then Inl marshalling_error else bindE (q inp) (\<lambda>(rs, inp). Inr (r # rs, inp))) =
      (if inp = [] then Inl marshalling_error else bindE (p inp) (\<lambda>(rs, inp). Inr (r # rs, inp)))"
    if "(if inp = [] then Inl marshalling_error else bindE (p inp) (\<lambda>(rs, inp). Inr (r # rs, inp))) \<noteq> Inl OutOfFuel" for r inp
    using extends_bind [OF assms, of "\<lambda>rs inp. Inr (r # rs, inp)" "\<lambda>rs inp. Inr (r # rs, inp)" inp] that by (simp split: if_splits)
  show ?thesis
    unfolding extends_def read_part_def h prod.case
    using extends_bind [OF extends_with_parts [OF assms] tl] by (cases d) simp_all
qed

lemma extends_multi: "extends (read_multi (Suc n)) (read_multi n)"
proof (induction n)
  case 0
  show ?case by (simp add: extends_def)
next
  case (Suc n)
  have "read_part (read_multi (Suc n)) h inp = read_part (read_multi n) h inp" if "read_part (read_multi n) h inp \<noteq> Inl OutOfFuel" for h inp
    using extends_part [OF Suc] that unfolding extends_def by blast
  then show ?case
    unfolding extends_def read_multi.simps(2) [of "Suc n"] read_multi.simps(2) [of n]
    by (intro allI impI extends_bind [OF extends_refl])
qed

lemma multi_more_fuel: "m \<le> n \<Longrightarrow> read_multi m inp \<noteq> Inl OutOfFuel \<Longrightarrow> read_multi n inp = read_multi m inp"
proof (induction n)
  case (Suc n)
  then show ?case using extends_multi [of n] by (cases "m = Suc n") (auto simp: extends_def)
qed simp

lemma multi_enough_fuel: "length inp < n \<Longrightarrow> read_multi n inp = read_multi (Suc (length inp)) inp"
  using multi_more_fuel [of "Suc (length inp)" n inp] tameD(1) [OF tame_multi, of inp "length inp"] by simp

lemma readImpl_enough_fuel: "length inp < n \<Longrightarrow> read_with_parts (read_multi n) op inp = readImpl op inp"
  unfolding readImpl_def read_with_parts_def using multi_enough_fuel [of inp n] by (cases op) (simp_all del: read_multi.simps)

lemma tame_readImpl: "tame n (readImpl op)"
proof -
  have "readImpl op inp \<noteq> Inl OutOfFuel" "readImpl op inp = Inr (r, rest) \<Longrightarrow> length rest \<le> length inp" for inp r rest
    using tameD [OF tame_with_parts [OF tame_multi], of inp "length inp" op] by (simp_all add: readImpl_def)
  then show ?thesis by (auto simp: tame_def)
qed

section \<open>Round trips of requests\<close>

text \<open>Requests that the wire carries: strings and arrays within the limit, no fields set that are not sent.\<close>

fun request_fits :: "Request \<Rightarrow> bool" where
  "request_fits HeartbeatRequest = True"
| "request_fits CloseRequest = True"
| "request_fits (SyncRequest p) = string_fits p"
| "request_fits (AuthRequest _ sch data) = (string_fits sch \<and> string_fits data)"
| "request_fits (CreateRequest r) =
     (string_fits (cr_path r) \<and> string_fits (cr_data r) \<and> vector_fits ACL_fits (cr_acls r) \<and> cr_parent_cversion r = -1)"
| "request_fits (RemoveRequest p _ restored) = (string_fits p \<and> \<not> restored)"
| "request_fits (ExistsRequest p _) = string_fits p"
| "request_fits (GetRequest p _) = string_fits p"
| "request_fits (SetRequest p data _) = (string_fits p \<and> string_fits data)"
| "request_fits (ListRequest p _) = string_fits p"
| "request_fits (SimpleListRequest p _) = string_fits p"
| "request_fits (FilteredListRequest p _ _) = string_fits p"
| "request_fits (CheckRequest p _ _) = string_fits p"
| "request_fits (SetACLRequest p acls _) = (string_fits p \<and> vector_fits ACL_fits acls)"
| "request_fits (GetACLRequest p) = string_fits p"
| "request_fits (ReconfigRequest j l m _) = (string_fits j \<and> string_fits l \<and> string_fits m)"
| "request_fits (SessionIDRequest _ _ _) = True"
| "request_fits (MultiRequest rs k) = ((\<forall>r \<in> set rs. request_fits r) \<and> k \<noteq> None)"

lemma byte_read_write: "read_big_endian (Suc 0) (write_big_endian (Suc 0) (x :: byte) @ rest) = Inr (x, rest)"
  using uint8_codec.read_write [of x rest] by simp

lemmas codec_read_write =
  byte_read_write
  int32_codec.read_write int64_codec.read_write uint8_codec.read_write bool_codec.read_write string_codec.read_write
  ACLs_codec.read_write Stat_codec.read_write names_codec.read_write error_codec.read_write opnum_codec.read_write

lemmas read_request_defs =
  read_path_def read_path_watch_def read_path_version_def read_auth_def read_create_def read_set_def read_filtered_list_def
  read_set_acl_def read_reconfig_def read_session_id_def

lemma create_flags_bits [simp]:
  "create_flags r AND 1 \<noteq> 0 \<longleftrightarrow> cr_is_ephemeral r" "create_flags r AND 2 \<noteq> 0 \<longleftrightarrow> cr_is_sequential r"
  by (simp_all add: create_flags_def)

lemma plain_read_write:
  assumes "request_fits r" "\<nexists>rs k. r = MultiRequest rs k"
  shows "read_with_parts p (getOpNum r) (writeImpl r @ rest) = Inr (r, rest)"
  using assms by (cases r) (simp_all add: read_with_parts_def read_request_defs codec_read_write)

text \<open>With enough fuel, what is written is read back.\<close>

definition reads_back :: "Request \<Rightarrow> bool" where
  "reads_back r \<longleftrightarrow>
     (\<exists>m. \<forall>n \<ge> m. \<forall>rest. read_with_parts (read_multi n) (getOpNum r) (writeImpl r @ rest) = Inr (r, rest))"

lemma plain_reads_back: "request_fits r \<Longrightarrow> \<nexists>rs k. r = MultiRequest rs k \<Longrightarrow> reads_back r"
  using plain_read_write unfolding reads_back_def by blast

lemma parts_read_write:
  assumes "\<forall>r \<in> set rs. reads_back r"
  shows "\<exists>m. \<forall>n \<ge> m. \<forall>rest. read_multi n
     (concat (map (\<lambda>r. write_part_header (getOpNum r) False (-1) @ writeImpl r) rs) @ write_part_header Op_Error True (-1) @ rest) = Inr (rs, rest)"
  using assms
proof (induction rs)
  case Nil
  have "read_multi n (write_part_header Op_Error True (-1) @ rest) = Inr ([], rest)" if "1 \<le> n" for n rest
    using that by (cases n) (simp_all add: part_header_read_write read_part_def)
  then show ?case by (auto intro: exI [of _ 1])
next
  case (Cons r rs)
  let ?w = "\<lambda>rs rest. concat (map (\<lambda>r. write_part_header (getOpNum r) False (-1) @ writeImpl r) rs) @ write_part_header Op_Error True (-1) @ rest"
  obtain m1 where m1: "\<And>n rest. m1 \<le> n \<Longrightarrow> read_with_parts (read_multi n) (getOpNum r) (writeImpl r @ rest) = Inr (r, rest)"
    using bspec [OF Cons.prems list.set_intros(1)] unfolding reads_back_def by blast
  obtain m2 where m2: "\<And>n rest. m2 \<le> n \<Longrightarrow> read_multi n (?w rs rest) = Inr (rs, rest)" using Cons by auto
  have ne: "?w rs rest \<noteq> []" for rest by (simp add: write_part_header_def write_bool_def)
  have "read_multi n (?w (r # rs) rest) = Inr (r # rs, rest)" if "Suc (max m1 m2) \<le> n" for n rest
  proof -
    obtain k where k: "n = Suc k" "m1 \<le> k" "m2 \<le> k" using \<open>Suc (max m1 m2) \<le> n\<close> by (cases n) auto
    show ?thesis using m1 [OF k(2), of "?w rs rest"] m2 [OF k(3), of rest] ne [of rest] k(1) by (simp add: part_header_read_write read_part_def)
  qed
  then show ?case by blast
qed

lemma request_reads_back: "request_fits r \<Longrightarrow> reads_back r"
proof (induction r rule: Request.induct)
  case (MultiRequest rs k)
  then have "\<forall>r \<in> set rs. reads_back r" by simp
  then obtain m where m: "\<And>n rest. m \<le> n \<Longrightarrow> read_multi n
     (concat (map (\<lambda>r. write_part_header (getOpNum r) False (-1) @ writeImpl r) rs) @ write_part_header Op_Error True (-1) @ rest) = Inr (rs, rest)"
    using parts_read_write [of rs] by blast
  obtain k' where "k = Some k'" using MultiRequest.prems by auto
  then have "read_with_parts (read_multi n) (getOpNum (MultiRequest rs k)) (writeImpl (MultiRequest rs k) @ rest) = Inr (MultiRequest rs k, rest)"
    if "m \<le> n" for n rest
    using m [OF that, of rest] by (cases k') (simp_all add: read_with_parts_def)
  then show ?case unfolding reads_back_def by blast
qed (rule plain_reads_back; simp)+

lemma readImpl_writeImpl:
  assumes "request_fits r"
  shows "readImpl (getOpNum r) (writeImpl r @ rest) = Inr (r, rest)"
proof -
  obtain m where m: "\<And>n. m \<le> n \<Longrightarrow> read_with_parts (read_multi n) (getOpNum r) (writeImpl r @ rest) = Inr (r, rest)"
    using request_reads_back [OF assms] by (auto simp: reads_back_def)
  show ?thesis
    using m [of "max m (Suc (length (writeImpl r @ rest)))"] readImpl_enough_fuel [of "writeImpl r @ rest" "max m (Suc (length (writeImpl r @ rest)))" "getOpNum r"]
    by simp
qed

lemma tame_request_read: "tame n request_read"
  by (rule tame_eqI [OF request_read_def]) (intro tame_bind tame_return tame_big_endian tame_opnum tame_readImpl)

lemma tame_receiveRequest: "tame n receiveRequest"
  by (rule tame_eqI [OF receiveRequest_def]) (intro tame_bind tame_big_endian tame_request_read)

interpretation request_codec: wire_codec request_write receiveRequest "\<lambda>r. request_fits (request r)"
  by unfold_locales
    (simp_all add: request_write_def receiveRequest_def request_read_def write_blob_def codec_read_write readImpl_writeImpl tame_receiveRequest)

section \<open>Properties\<close>

text \<open>C24: requests survive the wire. A sequence of requests of any kind, multi requests included, that a client writes to the
  connection is read by the server as the same sequence, and nothing of what follows is consumed.\<close>

theorem requests_roundtrip:
  assumes "\<forall>r \<in> set rs. request_fits (request r)"
  shows "read_elems receiveRequest (length rs) (concat (map request_write rs) @ rest) = Inr (rs, rest)"
  using request_codec.elems_read_write assms by (simp add: list_all_iff)

theorem requests_roundtrip_witness:
  "read_elems receiveRequest 1
     (request_write \<lparr>xid = 5, request = MultiRequest [SetRequest ''/a'' ''x'' 1, CheckRequest ''/b'' 2 True] (Some KindWrite)\<rparr> @ [7]) =
     Inr ([\<lparr>xid = 5, request = MultiRequest [SetRequest ''/a'' ''x'' 1, CheckRequest ''/b'' 2 True] (Some KindWrite)\<rparr>], [7])"
  using requests_roundtrip [of "[\<lparr>xid = 5, request = MultiRequest [SetRequest ''/a'' ''x'' 1, CheckRequest ''/b'' 2 True] (Some KindWrite)\<rparr>]" "[7]"]
  by (simp add: MAX_STRING_OR_ARRAY_SIZE_def)

text \<open>C25: reading a request terminates. On every input, well-formed or not, reading a request ends with a request or an exception
  after at most as many nested requests as there are bytes, and a larger bound on the nesting gives the same result.\<close>

theorem request_read_terminates:
  "receiveRequest inp \<noteq> Inl OutOfFuel \<and> (\<forall>n > length inp. read_with_parts (read_multi n) op inp = readImpl op inp)"
  using tameD(1) [OF tame_receiveRequest order_refl] readImpl_enough_fuel by blast

theorem request_read_terminates_witness:
  "receiveRequest [1, 2, 3] \<noteq> Inl OutOfFuel \<and> read_with_parts (read_multi 9) Op_Multi [1, 2, 3] = readImpl Op_Multi [1, 2, 3]"
  using request_read_terminates [of "[1, 2, 3]" Op_Multi] by simp

end
