(* ===== verification/ZooKeeperReplies.thy ===== *)
theory ZooKeeperReplies
  imports ZooKeeperWire
begin

text \<open>
  Responses on the wire, from src/Common/ZooKeeper/ZooKeeperCommon.cpp and the receiving side of the client in
  src/Common/ZooKeeper/ZooKeeperImpl.cpp.

  \<^verbatim>\<open>readImpl\<close> of a response fills an object that was made for the request: reading is a function of that object.
  A multi response is read into the objects of its parts, each of which may be replaced by an error response.
  The client holds the requests that wait for a response, by xid, and the callbacks of watched paths; \<open>receiveEvent\<close> reads one
  event, which is the answer to such a request, a watch event or the answer to a heartbeat.
\<close>

section \<open>Writing\<close>

definition write_all :: "(wire_exn + bytes) list \<Rightarrow> wire_exn + bytes" where
  "write_all ws = foldr (\<lambda>w acc. bindE w (\<lambda>bs. bindE acc (\<lambda>rest. Inr (bs @ rest)))) ws (Inr [])"

text \<open>A part of a multi response; \<open>body\<close> is what its \<^verbatim>\<open>writeImpl\<close> gives.\<close>

definition write_part_response :: "Response \<Rightarrow> wire_exn + bytes \<Rightarrow> wire_exn + bytes" where
  "write_part_response r body =
     (case response_getOpNum (resp_body r) of
        None \<Rightarrow> Inl (KeeperException ZRUNTIMEINCONSISTENCY)
      | Some op_num \<Rightarrow>
          let header = write_opnum op_num @ write_bool False @ write_error (resp_error r)
          in if resp_error r = ZOK \<or> op_num = Op_Error then bindE body (\<lambda>bs. Inr (header @ bs)) else Inr header)"

fun response_writeImpl :: "Response \<Rightarrow> wire_exn + bytes" where
  "response_writeImpl (Response _ _ _ HeartbeatResponse) = Inr []"
| "response_writeImpl (Response _ _ _ (SyncResponse p)) = Inr (write_string p)"
| "response_writeImpl (Response _ _ _ AuthResponse) = Inr []"
| "response_writeImpl (Response _ _ _ CloseResponse) = Inr []"
| "response_writeImpl (Response _ _ _ (CreateResponse p)) = Inr (write_string p)"
| "response_writeImpl (Response _ _ _ (CreateIfNotExistsResponse p)) = Inr (write_string p)"
| "response_writeImpl (Response _ _ _ RemoveResponse) = Inr []"
| "response_writeImpl (Response _ _ _ (ExistsResponse st)) = Inr (write_Stat st)"
| "response_writeImpl (Response _ _ _ (GetResponse data st)) = Inr (write_string data @ write_Stat st)"
| "response_writeImpl (Response _ _ _ (SetResponse st)) = Inr (write_Stat st)"
| "response_writeImpl (Response _ _ _ (ListResponse ns st)) = Inr (write_vector write_string ns @ write_Stat st)"
| "response_writeImpl (Response _ _ _ (SimpleListResponse ns _)) = Inr (write_vector write_string ns)"
| "response_writeImpl (Response _ _ _ CheckResponse) = Inr []"
| "response_writeImpl (Response _ _ _ CheckNotExistsResponse) = Inr []"
| "response_writeImpl (Response e _ _ ErrorResponse) = Inr (write_error e)"
| "response_writeImpl (Response _ _ _ (SetACLResponse st)) = Inr (write_Stat st)"
| "response_writeImpl (Response _ _ _ (GetACLResponse acls st)) = Inr (write_vector write_ACL acls @ write_Stat st)"
| "response_writeImpl (Response _ _ _ (ReconfigResponse v st)) = Inr (write_string v @ write_Stat st)"
| "response_writeImpl (Response _ _ _ (SessionIDResponse i s k)) = Inr (write_int64 i @ write_int64 s @ write_int32 k)"
| "response_writeImpl (Response _ _ _ (WatchResponse t s p)) = Inr (write_int32 t @ write_int32 s @ write_string p)"
| "response_writeImpl (Response _ _ _ (MultiWriteResponse rs)) =
     bindE (write_all (map (\<lambda>r. write_part_response r (response_writeImpl r)) rs)) (\<lambda>bs. Inr (bs @ write_part_header Op_Error True (-1)))"
| "response_writeImpl (Response _ _ _ (MultiReadResponse rs)) =
     bindE (write_all (map (\<lambda>r. write_part_response r (response_writeImpl r)) rs)) (\<lambda>bs. Inr (bs @ write_part_header Op_Error True (-1)))"

text \<open>\<^verbatim>\<open>ZooKeeperResponse::write\<close>, and \<^verbatim>\<open>ZooKeeperWatchResponse::write\<close>, which skips watch responses with an error.\<close>

definition response_write_base :: "Response \<Rightarrow> wire_exn + bytes" where
  "response_write_base r =
     bindE (if resp_error r = ZOK then response_writeImpl r else Inr []) (\<lambda>body.
       Inr (write_blob (write_int32 (resp_xid r) @ write_int64 (resp_zxid r) @ write_error (resp_error r) @ body)))"

definition response_write :: "Response \<Rightarrow> wire_exn + bytes" where
  "response_write r =
     (case resp_body r of
        WatchResponse _ _ _ \<Rightarrow> if resp_error r = ZOK then response_write_base r else Inr []
      | _ \<Rightarrow> response_write_base r)"

section \<open>Reading\<close>

definition set_zxid :: "int64 \<Rightarrow> Response \<Rightarrow> Response" where
  "set_zxid z r = Response (resp_error r) z (resp_xid r) (resp_body r)"

definition read_error_response :: "Response \<Rightarrow> Response reader" where
  "read_error_response r inp = bindE (read_error inp) (\<lambda>(e, inp). if e \<noteq> resp_error r then Inl marshalling_error else Inr (r, inp))"

text \<open>The loop over the parts: each is given with its \<^verbatim>\<open>readImpl\<close>; \<open>err\<close> is the error of the whole response so far.\<close>

fun read_part_responses :: "int64 \<Rightarrow> Error \<Rightarrow> (Response \<times> Response reader) list \<Rightarrow> (Error \<times> Response list) reader" where
  "read_part_responses z err [] inp = Inr ((err, []), inp)"
| "read_part_responses z err ((r, read_body) # ps) inp =
     bindE (read_opnum inp) (\<lambda>(op_num, inp).
       bindE (read_bool inp) (\<lambda>(done, inp).
         bindE (read_error inp) (\<lambda>(op_error, inp).
           if done then Inl marshalling_error
           else
             (let response = (if op_num = Op_Error then Response ZOK 0 0 ErrorResponse else r);
                  response = (if op_error \<noteq> ZOK then set_error op_error response else response);
                  err = (if op_error \<noteq> ZOK \<and> err = ZOK \<and> op_error \<noteq> ZRUNTIMEINCONSISTENCY then op_error else err)
              in bindE (if op_num = Op_Error then read_error_response response inp
                        else if op_error = ZOK then read_body inp
                        else Inr (response, inp)) (\<lambda>(response, inp).
                   bindE (read_part_responses z err ps inp) (\<lambda>((err, rs), inp). Inr ((err, set_zxid z response # rs), inp)))))))"

definition read_footer :: "unit reader" where
  "read_footer inp =
     bindE (read_part_header inp) (\<lambda>((op_num, done, error_read), inp).
       if \<not> done then Inl marshalling_error
       else if op_num \<noteq> Op_Error then Inl marshalling_error
       else if error_read \<noteq> -1 then Inl marshalling_error
       else Inr ((), inp))"

definition read_multi_response :: "(Response list \<Rightarrow> ResponseBody) \<Rightarrow> Error \<Rightarrow> int64 \<Rightarrow> int32 \<Rightarrow> (Response \<times> Response reader) list \<Rightarrow> Response reader" where
  "read_multi_response mk e z x ps inp =
     bindE (read_part_responses z e ps inp) (\<lambda>((err, rs), inp).
       bindE (read_footer inp) (\<lambda>(u, inp). Inr (Response err z x (mk rs), inp)))"

fun response_readImpl :: "Response \<Rightarrow> Response reader" where
  "response_readImpl (Response e z x (SyncResponse _)) inp =
     bindE (read_string inp) (\<lambda>(p, inp). Inr (Response e z x (SyncResponse p), inp))"
| "response_readImpl (Response e z x CloseResponse) inp = Inl (KeeperException ZRUNTIMEINCONSISTENCY)"
| "response_readImpl (Response e z x (CreateResponse _)) inp =
     bindE (read_string inp) (\<lambda>(p, inp). Inr (Response e z x (CreateResponse p), inp))"
| "response_readImpl (Response e z x (CreateIfNotExistsResponse _)) inp =
     bindE (read_string inp) (\<lambda>(p, inp). Inr (Response e z x (CreateIfNotExistsResponse p), inp))"
| "response_readImpl (Response e z x (ExistsResponse _)) inp =
     bindE (read_Stat inp) (\<lambda>(st, inp). Inr (Response e z x (ExistsResponse st), inp))"
| "response_readImpl (Response e z x (GetResponse _ _)) inp =
     bindE (read_string inp) (\<lambda>(data, inp). bindE (read_Stat inp) (\<lambda>(st, inp). Inr (Response e z x (GetResponse data st), inp)))"
| "response_readImpl (Response e z x (SetResponse _)) inp =
     bindE (read_Stat inp) (\<lambda>(st, inp). Inr (Response e z x (SetResponse st), inp))"
| "response_readImpl (Response e z x (ListResponse _ _)) inp =
     bindE (read_vector read_string inp) (\<lambda>(ns, inp). bindE (read_Stat inp) (\<lambda>(st, inp). Inr (Response e z x (ListResponse ns st), inp)))"
| "response_readImpl (Response e z x (SimpleListResponse _ st)) inp =
     bindE (read_vector read_string inp) (\<lambda>(ns, inp). Inr (Response e z x (SimpleListResponse ns st), inp))"
| "response_readImpl (Response e z x ErrorResponse) inp = read_error_response (Response e z x ErrorResponse) inp"
| "response_readImpl (Response e z x (SetACLResponse _)) inp =
     bindE (read_Stat inp) (\<lambda>(st, inp). Inr (Response e z x (SetACLResponse st), inp))"
| "response_readImpl (Response e z x (GetACLResponse _ _)) inp =
     bindE (read_vector read_ACL inp) (\<lambda>(acls, inp). bindE (read_Stat inp) (\<lambda>(st, inp). Inr (Response e z x (GetACLResponse acls st), inp)))"
| "response_readImpl (Response e z x (ReconfigResponse _ _)) inp =
     bindE (read_string inp) (\<lambda>(v, inp). bindE (read_Stat inp) (\<lambda>(st, inp). Inr (Response e z x (ReconfigResponse v st), inp)))"
| "response_readImpl (Response e z x (SessionIDResponse _ _ _)) inp =
     bindE (read_int64 inp) (\<lambda>(i, inp). bindE (read_int64 inp) (\<lambda>(s, inp).
       bindE (read_int32 inp) (\<lambda>(k, inp). Inr (Response e z x (SessionIDResponse i s k), inp))))"
| "response_readImpl (Response e z x (WatchResponse _ _ _)) inp =
     bindE (read_int32 inp) (\<lambda>(t, inp). bindE (read_int32 inp) (\<lambda>(s, inp).
       bindE (read_string inp) (\<lambda>(p, inp). Inr (Response e z x (WatchResponse t s p), inp))))"
| "response_readImpl (Response e z x (MultiWriteResponse rs)) inp =
     read_multi_response MultiWriteResponse e z x (map (\<lambda>r. (r, response_readImpl r)) rs) inp"
| "response_readImpl (Response e z x (MultiReadResponse rs)) inp =
     read_multi_response MultiReadResponse e z x (map (\<lambda>r. (r, response_readImpl r)) rs) inp"
| "response_readImpl r inp = Inr (r, inp)"

section \<open>The client\<close>

text \<open>A watch callback, by its identity; the pointer may point to an empty function. A request that waits for its response carries
  its callback, if any, and the watch to register. The client keeps the requests that wait and the callbacks of each watched path,
  relative to the root path it works in.\<close>

datatype WatchCallback = WatchCallback (wc_id: nat) (wc_callable: bool)

record RequestInfo =
  ri_request :: Request
  ri_callback :: bool
  ri_watch :: "WatchCallback option"

record ZooKeeper =
  zk_operations :: "int32 \<rightharpoonup> RequestInfo"
  zk_watches :: "string \<rightharpoonup> WatchCallback set"
  zk_chroot :: string
  zk_use_compression :: bool

definition isHardwareError :: "Error \<Rightarrow> bool" where
  "isHardwareError e \<longleftrightarrow>
     e \<in> {ZINVALIDSTATE, ZSESSIONEXPIRED, ZSESSIONMOVED, ZCONNECTIONLOSS, ZMARSHALLINGERROR, ZOPERATIONTIMEOUT, ZNOTREADONLY}"

definition removeRootPath :: "string \<Rightarrow> string \<Rightarrow> wire_exn + string" where
  "removeRootPath root path =
     (if root = [] then Inr path
      else if length path \<le> length root then Inl (KeeperException ZDATAINCONSISTENCY)
      else Inr (drop (length root) path))"

definition all_Inr :: "('e + 'a) list \<Rightarrow> 'e + 'a list" where
  "all_Inr ws = foldr (\<lambda>w acc. bindE w (\<lambda>x. bindE acc (\<lambda>xs. Inr (x # xs)))) ws (Inr [])"

text \<open>\<^verbatim>\<open>removeRootPath\<close> of the response classes; the other classes inherit the empty one.\<close>

fun response_removeRootPath :: "string \<Rightarrow> Response \<Rightarrow> wire_exn + Response" where
  "response_removeRootPath root (Response e z x (CreateResponse p)) =
     bindE (removeRootPath root p) (\<lambda>p. Inr (Response e z x (CreateResponse p)))"
| "response_removeRootPath root (Response e z x (CreateIfNotExistsResponse p)) =
     bindE (removeRootPath root p) (\<lambda>p. Inr (Response e z x (CreateIfNotExistsResponse p)))"
| "response_removeRootPath root (Response e z x (WatchResponse t s p)) =
     bindE (removeRootPath root p) (\<lambda>p. Inr (Response e z x (WatchResponse t s p)))"
| "response_removeRootPath root (Response e z x (MultiWriteResponse rs)) =
     bindE (all_Inr (map (response_removeRootPath root) rs)) (\<lambda>rs. Inr (Response e z x (MultiWriteResponse rs)))"
| "response_removeRootPath root (Response e z x (MultiReadResponse rs)) =
     bindE (all_Inr (map (response_removeRootPath root) rs)) (\<lambda>rs. Inr (Response e z x (MultiReadResponse rs)))"
| "response_removeRootPath root r = Inr r"

text \<open>The response object for an xid: a heartbeat, a watch event, or the answer to a request, which no longer waits then.\<close>

definition event_response :: "int32 \<Rightarrow> Error \<Rightarrow> ZooKeeper \<Rightarrow> wire_exn + Response \<times> RequestInfo option \<times> ZooKeeper" where
  "event_response x err zk =
     (if x = PING_XID
      then if err \<noteq> ZOK then Inl (KeeperException ZRUNTIMEINCONSISTENCY) else Inr (Response ZOK 0 0 HeartbeatResponse, None, zk)
      else if x = WATCH_XID then Inr (Response ZOK 0 0 (WatchResponse 0 0 []), None, zk)
      else (case zk_operations zk x of
              None \<Rightarrow> Inl (KeeperException ZRUNTIMEINCONSISTENCY)
            | Some info \<Rightarrow> Inr (makeResponse (ri_request info), Some info, zk\<lparr>zk_operations := (zk_operations zk)(x := None)\<rparr>)))"

definition callbacks :: "ZooKeeper \<Rightarrow> string \<Rightarrow> WatchCallback set" where
  "callbacks zk path = (case zk_watches zk path of None \<Rightarrow> {} | Some cs \<Rightarrow> cs)"

text \<open>Whether the watch of a request is registered when its response has arrived, and the registration.\<close>

definition watch_wanted :: "Request \<Rightarrow> Error \<Rightarrow> bool" where
  "watch_wanted req e \<longleftrightarrow> (if getOpNum req = Op_Exists then e = ZOK \<or> e = ZNONODE else e = ZOK)"

definition client_add_watch :: "RequestInfo option \<Rightarrow> Response \<Rightarrow> ZooKeeper \<Rightarrow> wire_exn + ZooKeeper" where
  "client_add_watch info response zk =
     (case info of
        None \<Rightarrow> Inr zk
      | Some i \<Rightarrow>
          (case ri_watch i of
             None \<Rightarrow> Inr zk
           | Some w \<Rightarrow>
               if watch_wanted (ri_request i) (resp_error response)
               then bindE (removeRootPath (zk_chroot zk) (getPath (ri_request i))) (\<lambda>path.
                      Inr (zk\<lparr>zk_watches := (zk_watches zk)(path \<mapsto>
                        (if wc_callable w then insert w (callbacks zk path) else callbacks zk path))\<rparr>))
               else Inr zk))"

text \<open>The callback of a watch event calls the callbacks of the path and forgets them.\<close>

definition fire_watches :: "int32 \<Rightarrow> Response \<Rightarrow> ZooKeeper \<Rightarrow> WatchCallback set \<times> ZooKeeper" where
  "fire_watches x response zk =
     (case (x = WATCH_XID, resp_body response) of
        (True, WatchResponse _ _ path) \<Rightarrow> (callbacks zk path, zk\<lparr>zk_watches := (zk_watches zk)(path := None)\<rparr>)
      | _ \<Rightarrow> ({}, zk))"

text \<open>What an event gives: the response, whether the callback of the request gets it, the watch callbacks that get it, and whether
  the session ends by a hardware error.\<close>

record Received =
  rcv_response :: Response
  rcv_callback :: bool
  rcv_fired :: "WatchCallback set"
  rcv_finalize :: bool

text \<open>\<^verbatim>\<open>ZooKeeper::receiveEvent\<close>. After an exception the receiving thread ends the session, so no state is left then; that the handler
  gives the error \<^verbatim>\<open>ZCONNECTIONLOSS\<close> to the callback before is not modelled.\<close>

definition receiveEvent :: "ZooKeeper \<Rightarrow> (Received \<times> ZooKeeper) reader" where
  "receiveEvent zk inp =
     bindE (read_int32 inp) (\<lambda>(len, inp0).
       bindE (read_int32 inp0) (\<lambda>(x, inp). bindE (read_int64 inp) (\<lambda>(z, inp). bindE (read_error inp) (\<lambda>(err, inp).
         bindE (event_response x err zk) (\<lambda>(response, info, zk).
           let response = set_ids z x response
           in bindE (if err \<noteq> ZOK then Inr (set_error err response, inp)
                     else bindE (response_readImpl response inp) (\<lambda>(response, inp).
                            bindE (response_removeRootPath (zk_chroot zk) response) (\<lambda>response. Inr (response, inp)))) (\<lambda>(response, inp).
                bindE (client_add_watch info response zk) (\<lambda>zk.
                  if \<not> zk_use_compression zk \<and> len \<noteq> word_of_nat (length inp0 - length inp) then Inl marshalling_error
                  else
                    (let (fired, zk) = fire_watches x response zk
                     in Inr ((\<lparr>rcv_response = response, rcv_callback = (case info of None \<Rightarrow> False | Some i \<Rightarrow> ri_callback i),
                               rcv_fired = fired, rcv_finalize = (err \<noteq> ZOK \<and> isHardwareError err)\<rparr>, zk), inp)))))))))"

section \<open>Round trips of plain responses\<close>

text \<open>The object that a request makes for a response with this body.\<close>

fun blank :: "ResponseBody \<Rightarrow> ResponseBody" where
  "blank (SyncResponse _) = SyncResponse []"
| "blank (CreateResponse _) = CreateResponse []"
| "blank (CreateIfNotExistsResponse _) = CreateIfNotExistsResponse []"
| "blank (ExistsResponse _) = ExistsResponse Stat_default"
| "blank (GetResponse _ _) = GetResponse [] Stat_default"
| "blank (SetResponse _) = SetResponse Stat_default"
| "blank (ListResponse _ _) = ListResponse [] Stat_default"
| "blank (SimpleListResponse _ _) = SimpleListResponse [] Stat_default"
| "blank (SetACLResponse _) = SetACLResponse Stat_default"
| "blank (GetACLResponse _ _) = GetACLResponse [] Stat_default"
| "blank (ReconfigResponse _ _) = ReconfigResponse [] Stat_default"
| "blank (SessionIDResponse _ _ _) = SessionIDResponse 0 0 0"
| "blank b = b"

lemma makeResponse_ok: "makeResponse req = Response ZOK 0 0 (resp_body (makeResponse req))"
  by (cases req) simp_all

text \<open>What the client sees of a body: the statistics of a simple list are not sent.\<close>

fun seen :: "ResponseBody \<Rightarrow> ResponseBody" where
  "seen (SimpleListResponse ns _) = SimpleListResponse ns Stat_default"
| "seen b = b"

text \<open>Bodies that a client can receive for a plain request, within the limits of the wire.\<close>

fun body_fits :: "ResponseBody \<Rightarrow> bool" where
  "body_fits (SyncResponse p) = string_fits p"
| "body_fits (CreateResponse p) = string_fits p"
| "body_fits (CreateIfNotExistsResponse p) = string_fits p"
| "body_fits (GetResponse data _) = string_fits data"
| "body_fits (ListResponse ns _) = vector_fits string_fits ns"
| "body_fits (SimpleListResponse ns _) = vector_fits string_fits ns"
| "body_fits (GetACLResponse acls _) = vector_fits ACL_fits acls"
| "body_fits (ReconfigResponse v _) = string_fits v"
| "body_fits CloseResponse = False"
| "body_fits ErrorResponse = False"
| "body_fits (WatchResponse _ _ _) = False"
| "body_fits (MultiWriteResponse _) = False"
| "body_fits (MultiReadResponse _) = False"
| "body_fits _ = True"

lemma plain_body_roundtrip:
  assumes "body_fits b"
  shows "\<exists>bs. response_writeImpl (Response e z x b) = Inr bs \<and>
     (\<forall>e' z' x' rest. response_readImpl (Response e' z' x' (blank b)) (bs @ rest) = Inr (Response e' z' x' (seen b), rest))"
  using assms by (cases b) (simp_all add: codec_read_write)

text \<open>The paths of a response relative to the root path of the client, when they lie below it.\<close>

definition below_root :: "string \<Rightarrow> string \<Rightarrow> bool" where
  "below_root root path \<longleftrightarrow> root = [] \<or> length root < length path"

fun body_below :: "string \<Rightarrow> ResponseBody \<Rightarrow> bool" where
  "body_below root (CreateResponse p) = below_root root p"
| "body_below root (CreateIfNotExistsResponse p) = below_root root p"
| "body_below root (WatchResponse _ _ p) = below_root root p"
| "body_below root _ = True"

fun relative :: "string \<Rightarrow> ResponseBody \<Rightarrow> ResponseBody" where
  "relative root (CreateResponse p) = CreateResponse (drop (length root) p)"
| "relative root (CreateIfNotExistsResponse p) = CreateIfNotExistsResponse (drop (length root) p)"
| "relative root (WatchResponse t s p) = WatchResponse t s (drop (length root) p)"
| "relative root b = b"

lemma removeRootPath_below: "below_root root p \<Longrightarrow> removeRootPath root p = Inr (drop (length root) p)"
  by (auto simp: below_root_def removeRootPath_def)

fun single :: "ResponseBody \<Rightarrow> bool" where
  "single (MultiWriteResponse _) = False"
| "single (MultiReadResponse _) = False"
| "single _ = True"

lemma remove_root_single:
  "single b \<Longrightarrow> body_below root b \<Longrightarrow> response_removeRootPath root (Response e z x b) = Inr (Response e z x (relative root b))"
  by (cases b) (simp_all add: removeRootPath_below)

text \<open>The client after the answer to a request: the request no longer waits, its watch is registered, nothing else changes.\<close>

definition answered_client :: "RequestInfo \<Rightarrow> Response \<Rightarrow> ZooKeeper \<Rightarrow> ZooKeeper \<Rightarrow> bool" where
  "answered_client info r zk zk' \<longleftrightarrow>
     zk_operations zk' = (zk_operations zk)(resp_xid r := None) \<and>
     zk_chroot zk' = zk_chroot zk \<and> zk_use_compression zk' = zk_use_compression zk \<and>
     (\<forall>p. callbacks zk' p = callbacks zk p \<union>
        (if p = drop (length (zk_chroot zk)) (getPath (ri_request info)) \<and> watch_wanted (ri_request info) (resp_error r)
         then {w. ri_watch info = Some w \<and> wc_callable w} else {}))"

lemma client_add_watch_ok:
  assumes "ri_watch info \<noteq> None \<Longrightarrow> below_root (zk_chroot zk) (getPath (ri_request info))"
  shows "\<exists>zk'. client_add_watch (Some info) r (zk\<lparr>zk_operations := (zk_operations zk)(resp_xid r := None)\<rparr>) = Inr zk' \<and> answered_client info r zk zk'"
proof (cases "ri_watch info")
  case None
  then show ?thesis by (simp add: client_add_watch_def answered_client_def callbacks_def)
next
  case (Some w)
  then show ?thesis using assms by (auto simp: client_add_watch_def answered_client_def callbacks_def removeRootPath_below)
qed

lemma receive_written:
  assumes info: "zk_operations zk (resp_xid r) = Some info" "resp_xid r \<noteq> PING_XID" "resp_xid r \<noteq> WATCH_XID"
    and watch: "ri_watch info \<noteq> None \<Longrightarrow> below_root (zk_chroot zk) (getPath (ri_request info))"
    and body: "resp_error r = ZOK \<Longrightarrow> response_writeImpl r = Inr bs" "resp_error r \<noteq> ZOK \<Longrightarrow> bs = []"
    and plain: "\<And>t s p. resp_body r \<noteq> WatchResponse t s p" and e: "valid_error (resp_error r)"
    and read: "if resp_error r \<noteq> ZOK then r' = set_error (resp_error r) (set_ids (resp_zxid r) (resp_xid r) (makeResponse (ri_request info)))
        else (\<exists>m. response_readImpl (set_ids (resp_zxid r) (resp_xid r) (makeResponse (ri_request info))) (bs @ rest) = Inr (m, rest) \<and>
          response_removeRootPath (zk_chroot zk) m = Inr r')"
    and x: "resp_xid r' = resp_xid r"
  shows "\<exists>out zk'. response_write r = Inr out \<and> answered_client info r' zk zk' \<and>
     receiveEvent zk (out @ rest) = Inr ((\<lparr>rcv_response = r', rcv_callback = ri_callback info, rcv_fired = {},
       rcv_finalize = isHardwareError (resp_error r)\<rparr>, zk'), rest)"
proof -
  let ?out = "write_int32 (resp_xid r) @ write_int64 (resp_zxid r) @ write_error (resp_error r) @ bs"
  have "response_write r = Inr (write_blob ?out)"
    using body plain by (cases "resp_body r") (auto simp: response_write_def response_write_base_def)
  moreover obtain zk' where zk': "client_add_watch (Some info) r' (zk\<lparr>zk_operations := (zk_operations zk)(resp_xid r := None)\<rparr>) = Inr zk'"
      "answered_client info r' zk zk'"
    using client_add_watch_ok [OF watch, of r'] x by auto
  have z: "zk_use_compression zk' = zk_use_compression zk" using zk'(2) by (simp add: answered_client_def)
  have ev: "event_response (resp_xid r) err zk =
      Inr (makeResponse (ri_request info), Some info, zk\<lparr>zk_operations := (zk_operations zk)(resp_xid r := None)\<rparr>)" for err
    using info by (simp add: event_response_def)
  have f: "fire_watches (resp_xid r) r' zk' = ({}, zk')" using info(3) by (simp add: fire_watches_def)
  have h: "\<not> isHardwareError ZOK" by (simp add: isHardwareError_def)
  have "receiveEvent zk (write_blob ?out @ rest) = Inr ((\<lparr>rcv_response = r', rcv_callback = ri_callback info, rcv_fired = {},
       rcv_finalize = isHardwareError (resp_error r)\<rparr>, zk'), rest)"
  proof (cases "resp_error r = ZOK")
    case True
    then show ?thesis using read e ev zk'(1) f h by (auto simp: receiveEvent_def write_blob_def codec_read_write Let_def)
  next
    case False
    then show ?thesis using read e ev zk'(1) f body(2) by (auto simp: receiveEvent_def write_blob_def codec_read_write Let_def)
  qed
  ultimately show ?thesis using zk'(2) by blast
qed

text \<open>C26: responses survive the wire. A client waits for the answer to a plain request under its xid, which is neither that of
  heartbeats nor that of watch events. The response that the server writes, an error or a body that fits the limits, is received as it
  was sent, with its xid, zxid and error; only the statistics of a simple list are not sent, and paths are given relative to the root
  path of the client. The callback of the request gets it, the request no longer waits, its watch is registered if the error allows it,
  and the session ends only on a hardware error.\<close>

theorem response_roundtrip:
  assumes "zk_operations zk (resp_xid r) = Some info" "resp_xid r \<noteq> PING_XID" "resp_xid r \<noteq> WATCH_XID"
    "resp_body (makeResponse (ri_request info)) = blank (resp_body r)" "body_fits (resp_body r)" "valid_error (resp_error r)"
    "body_below (zk_chroot zk) (resp_body r)" "ri_watch info \<noteq> None \<longrightarrow> below_root (zk_chroot zk) (getPath (ri_request info))"
    "r' = set_body (if resp_error r = ZOK then relative (zk_chroot zk) (seen (resp_body r)) else blank (resp_body r)) r"
  shows "\<exists>out zk'. response_write r = Inr out \<and> answered_client info r' zk zk' \<and>
     receiveEvent zk (out @ rest) = Inr ((\<lparr>rcv_response = r', rcv_callback = ri_callback info, rcv_fired = {},
       rcv_finalize = isHardwareError (resp_error r)\<rparr>, zk'), rest)"
proof -
  obtain e z x b where r: "r = Response e z x b" by (cases r)
  obtain bs where bs: "response_writeImpl (Response e z x b) = Inr bs"
    "\<And>e' z' x' rest. response_readImpl (Response e' z' x' (blank b)) (bs @ rest) = Inr (Response e' z' x' (seen b), rest)"
    using plain_body_roundtrip [of b e z x] assms(5) r by auto
  have mk: "makeResponse (ri_request info) = Response ZOK 0 0 (blank b)" using makeResponse_ok [of "ri_request info"] assms(4) r by simp
  have rel: "response_removeRootPath (zk_chroot zk) (Response e z x (seen b)) = Inr (Response e z x (relative (zk_chroot zk) (seen b)))"
    using assms(5,7) r by (cases b) (simp_all add: removeRootPath_below)
  show ?thesis
  proof (rule receive_written [where bs = "if e = ZOK then bs else []"])
    show "resp_body r \<noteq> WatchResponse t s p" for t s p using assms(5) by (cases r) auto
    show "if resp_error r \<noteq> ZOK then r' = set_error (resp_error r) (set_ids (resp_zxid r) (resp_xid r) (makeResponse (ri_request info)))
        else (\<exists>m. response_readImpl (set_ids (resp_zxid r) (resp_xid r) (makeResponse (ri_request info))) ((if e = ZOK then bs else []) @ rest) =
          Inr (m, rest) \<and> response_removeRootPath (zk_chroot zk) m = Inr r')"
      using bs(2) rel mk assms(9) r by (auto simp: set_ids_def set_error_def set_body_def)
  qed (use assms bs(1) r in \<open>auto simp: set_body_def\<close>)
qed

definition example_client :: "Request \<Rightarrow> ZooKeeper" where
  "example_client req =
     \<lparr>zk_operations = [5 \<mapsto> \<lparr>ri_request = req, ri_callback = True, ri_watch = Some (WatchCallback 1 True)\<rparr>],
       zk_watches = [''/b'' \<mapsto> {WatchCallback 2 True}], zk_chroot = ''/root'', zk_use_compression = False\<rparr>"

theorem response_roundtrip_witness:
  "\<exists>out zk'. response_write (Response ZOK 9 5 (GetResponse ''data'' Stat_default)) = Inr out \<and>
     receiveEvent (example_client (GetRequest ''/root/a'' True)) (out @ []) =
       Inr ((\<lparr>rcv_response = Response ZOK 9 5 (GetResponse ''data'' Stat_default), rcv_callback = True, rcv_fired = {},
         rcv_finalize = False\<rparr>, zk'), []) \<and>
     zk_operations zk' = Map.empty \<and> callbacks zk' ''/a'' = {WatchCallback 1 True} \<and> callbacks zk' ''/b'' = {WatchCallback 2 True}"
proof -
  let ?r = "Response ZOK 9 5 (GetResponse ''data'' Stat_default)" and ?zk = "example_client (GetRequest ''/root/a'' True)"
  let ?i = "\<lparr>ri_request = GetRequest ''/root/a'' True, ri_callback = True, ri_watch = Some (WatchCallback 1 True)\<rparr>"
  obtain out zk' where o: "response_write ?r = Inr out" "answered_client ?i ?r ?zk zk'"
      "receiveEvent ?zk (out @ []) = Inr ((\<lparr>rcv_response = ?r, rcv_callback = True, rcv_fired = {}, rcv_finalize = False\<rparr>, zk'), [])"
    using response_roundtrip [of ?zk ?r ?i ?r "[]"] valid_error_named [of ZOK]
    by (auto simp: example_client_def MAX_STRING_OR_ARRAY_SIZE_def set_body_def below_root_def isHardwareError_def)
  moreover have "zk_operations zk' = Map.empty" "callbacks zk' ''/a'' = {WatchCallback 1 True}" "callbacks zk' ''/b'' = {WatchCallback 2 True}"
    using o(2) by (auto simp: answered_client_def example_client_def callbacks_def watch_wanted_def)
  ultimately show ?thesis by blast
qed



section \<open>Round trips of multi responses\<close>

text \<open>A part of a multi response, with the object made for it: an error response in place of any object, as in a failed
  multi write, or an answer of the kind of the object, successful or, as in a multi read, with an error and then without a body.\<close>

definition part_fits :: "Response \<Rightarrow> Response \<Rightarrow> bool" where
  "part_fits t r \<longleftrightarrow>
     resp_xid r = 0 \<and> valid_error (resp_error r) \<and>
     (resp_body r = ErrorResponse \<or> body_fits (resp_body r) \<and> t = Response ZOK 0 0 (blank (resp_body r)))"

text \<open>The error of the whole: the first error of a part other than the runtime inconsistency.\<close>

fun first_error :: "Error list \<Rightarrow> Error" where
  "first_error [] = ZOK"
| "first_error (e # es) = (if e \<noteq> ZOK \<and> e \<noteq> ZRUNTIMEINCONSISTENCY then e else first_error es)"

text \<open>The parts as the client reads them, and as it gives them to the user.\<close>

definition part_body :: "Response \<Rightarrow> ResponseBody" where
  "part_body r = (if resp_error r = ZOK then seen (resp_body r) else blank (resp_body r))"

abbreviation seen_part :: "int64 \<Rightarrow> Response \<Rightarrow> Response" where
  "seen_part z r \<equiv> set_zxid z (set_body (part_body r) r)"

definition given_part :: "string \<Rightarrow> int64 \<Rightarrow> Response \<Rightarrow> Response" where
  "given_part root z r = set_zxid z (set_body (relative root (part_body r)) r)"

lemma body_fits_op: "body_fits b \<Longrightarrow> \<exists>op. response_getOpNum b = Some op \<and> op \<noteq> Op_Error"
  by (cases b) simp_all

lemma part_roundtrip:
  assumes "part_fits t r"
  shows "\<exists>bs. write_part_response r (response_writeImpl r) = Inr bs \<and>
     (\<forall>z err ps rest. read_part_responses z err ((t, response_readImpl t) # ps) (bs @ rest) =
        bindE (read_part_responses z (if resp_error r \<noteq> ZOK \<and> err = ZOK \<and> resp_error r \<noteq> ZRUNTIMEINCONSISTENCY then resp_error r else err) ps rest)
          (\<lambda>((err, rs), inp). Inr ((err, seen_part z r # rs), inp)))"
proof -
  obtain e z0 x b where r: "r = Response e z0 x b" by (cases r)
  have f: "valid_error e" "x = 0" using assms r by (auto simp: part_fits_def)
  show ?thesis
  proof (cases "b = ErrorResponse")
    case True
    then show ?thesis
      using f r by (auto simp: write_part_response_def Let_def codec_read_write read_error_response_def set_zxid_def set_body_def set_error_def part_body_def)
  next
    case False
    then have p: "body_fits b" "t = Response ZOK 0 0 (blank b)" using assms r by (auto simp: part_fits_def)
    obtain op where op: "response_getOpNum b = Some op" "op \<noteq> Op_Error" using body_fits_op [OF p(1)] by blast
    obtain bs where bs: "response_writeImpl (Response e z0 x b) = Inr bs"
      "\<And>e' z' x' rest. response_readImpl (Response e' z' x' (blank b)) (bs @ rest) = Inr (Response e' z' x' (seen b), rest)"
      using plain_body_roundtrip [OF p(1), of e z0 x] by blast
    show ?thesis
      using p op bs r f by (cases "e = ZOK") (simp_all add: write_part_response_def Let_def codec_read_write set_zxid_def set_body_def set_error_def part_body_def)
  qed
qed

lemma parts_roundtrip:
  assumes "list_all2 part_fits ts rs"
  shows "\<exists>bs. write_all (map (\<lambda>r. write_part_response r (response_writeImpl r)) rs) = Inr bs \<and>
     (\<forall>z err rest. read_part_responses z err (map (\<lambda>r. (r, response_readImpl r)) ts) (bs @ rest) =
        Inr ((if err = ZOK then first_error (map resp_error rs) else err, map (seen_part z) rs), rest))"
  using assms
proof (induction ts rs rule: list_all2_induct)
  case Nil
  show ?case by (simp add: write_all_def)
next
  case (Cons t ts r rs)
  obtain bs where bs: "write_part_response r (response_writeImpl r) = Inr bs"
    "\<And>z err ps rest. read_part_responses z err ((t, response_readImpl t) # ps) (bs @ rest) =
        bindE (read_part_responses z (if resp_error r \<noteq> ZOK \<and> err = ZOK \<and> resp_error r \<noteq> ZRUNTIMEINCONSISTENCY then resp_error r else err) ps rest)
          (\<lambda>((err, rs), inp). Inr ((err, seen_part z r # rs), inp))"
    using part_roundtrip [OF Cons.hyps(1)] by blast
  obtain cs where cs: "write_all (map (\<lambda>r. write_part_response r (response_writeImpl r)) rs) = Inr cs"
     "\<And>z err rest. read_part_responses z err (map (\<lambda>r. (r, response_readImpl r)) ts) (cs @ rest) =
        Inr ((if err = ZOK then first_error (map resp_error rs) else err, map (seen_part z) rs), rest)"
    using Cons.IH by blast
  have "write_all (map (\<lambda>r. write_part_response r (response_writeImpl r)) (r # rs)) = Inr (bs @ cs)"
    using bs(1) cs(1) by (simp add: write_all_def)
  moreover have "read_part_responses z err (map (\<lambda>r. (r, response_readImpl r)) (t # ts)) ((bs @ cs) @ rest) =
        Inr ((if err = ZOK then first_error (map resp_error (r # rs)) else err, map (seen_part z) (r # rs)), rest)" for z err rest
    unfolding list.map append_assoc bs(2) cs(2) by simp
  ultimately show ?case by blast
qed

lemma parts_relative:
  assumes "list_all2 part_fits ts rs" "\<forall>r \<in> set rs. body_below root (part_body r)"
  shows "all_Inr (map (response_removeRootPath root) (map (seen_part z) rs)) = Inr (map (given_part root z) rs)"
  using assms
proof (induction ts rs rule: list_all2_induct)
  case (Cons t ts r rs)
  have "single (part_body r)" using Cons.hyps(1) by (cases "resp_body r") (auto simp: part_fits_def part_body_def)
  then have "response_removeRootPath root (seen_part z r) = Inr (given_part root z r)"
    using Cons.prems by (simp add: remove_root_single set_zxid_def set_body_def given_part_def)
  then show ?case using Cons.IH Cons.prems by (simp add: all_Inr_def)
qed (simp add: all_Inr_def)

text \<open>C27: multi responses survive the wire. A client waits for the answer to a multi request, of writes or of reads. It receives every
  part of the answer, and gives it to the callback: a successful part with its body, an error response in place of any part, and a
  failed part of a multi read as an object of its kind with the error and an empty body. The error of the whole, which the server sends as
  \<^verbatim>\<open>ZOK\<close>, is that of the first part with an error other than the one of parts that were not executed.\<close>

theorem multi_response_roundtrip:
  assumes "zk_operations zk (resp_xid r) = Some info" "resp_xid r \<noteq> PING_XID" "resp_xid r \<noteq> WATCH_XID" "ri_watch info = None"
    "resp_body (makeResponse (ri_request info)) = mk ts" "mk = MultiWriteResponse \<or> mk = MultiReadResponse"
    "list_all2 part_fits ts rs" "\<forall>p \<in> set rs. body_below (zk_chroot zk) (part_body p)" "resp_body r = mk rs" "resp_error r = ZOK"
  shows "\<exists>out zk'. response_write r = Inr out \<and> zk_operations zk' = (zk_operations zk)(resp_xid r := None) \<and> callbacks zk' = callbacks zk \<and>
     receiveEvent zk (out @ rest) =
       Inr ((\<lparr>rcv_response = Response (first_error (map resp_error rs)) (resp_zxid r) (resp_xid r) (mk (map (given_part (zk_chroot zk) (resp_zxid r)) rs)),
           rcv_callback = ri_callback info, rcv_fired = {}, rcv_finalize = False\<rparr>, zk'), rest)"
proof -
  obtain z x where r: "r = Response ZOK z x (mk rs)" using assms(9,10) by (cases r) auto
  obtain bs where bs: "write_all (map (\<lambda>r. write_part_response r (response_writeImpl r)) rs) = Inr bs"
     "\<And>z err rest. read_part_responses z err (map (\<lambda>r. (r, response_readImpl r)) ts) (bs @ rest) =
        Inr ((if err = ZOK then first_error (map resp_error rs) else err, map (seen_part z) rs), rest)"
    using parts_roundtrip [OF assms(7)] by blast
  let ?foot = "write_part_header Op_Error True (-1)" and ?r = "Response (first_error (map resp_error rs)) z x (mk (map (given_part (zk_chroot zk) z) rs))"
  have mk: "makeResponse (ri_request info) = Response ZOK 0 0 (mk ts)" using makeResponse_ok [of "ri_request info"] assms(5) by simp
  have "\<exists>out zk'. response_write r = Inr out \<and> answered_client info ?r zk zk' \<and>
     receiveEvent zk (out @ rest) = Inr ((\<lparr>rcv_response = ?r, rcv_callback = ri_callback info, rcv_fired = {},
       rcv_finalize = isHardwareError (resp_error r)\<rparr>, zk'), rest)"
  proof (rule receive_written [where bs = "bs @ ?foot"])
    show "response_writeImpl r = Inr (bs @ ?foot)" using r bs(1) assms(6) by auto
    show "valid_error (resp_error r)" using assms(10) by (simp add: valid_error_named)
    show "if resp_error r \<noteq> ZOK then ?r = set_error (resp_error r) (set_ids (resp_zxid r) (resp_xid r) (makeResponse (ri_request info)))
        else (\<exists>m. response_readImpl (set_ids (resp_zxid r) (resp_xid r) (makeResponse (ri_request info))) ((bs @ ?foot) @ rest) = Inr (m, rest) \<and>
          response_removeRootPath (zk_chroot zk) m = Inr ?r)"
      using assms(6) mk r bs(2) parts_relative [OF assms(7,8)]
      by (auto simp: set_ids_def read_multi_response_def read_footer_def part_header_read_write)
  qed (use assms r in auto)
  then show ?thesis using r assms(4) by (auto simp: answered_client_def isHardwareError_def fun_eq_iff)
qed

theorem multi_response_roundtrip_witness:
  "\<exists>out zk'. response_write (Response ZOK 9 5 (MultiReadResponse [Response ZOK 0 0 (GetResponse ''data'' Stat_default), Response ZNONODE 0 0 (GetResponse ''x'' Stat_default)])) = Inr out \<and>
     receiveEvent ((example_client HeartbeatRequest)\<lparr>zk_operations := [5 \<mapsto> \<lparr>ri_request = MultiRequest [GetRequest ''/a'' False, GetRequest ''/b'' False] (Some KindRead),
         ri_callback = True, ri_watch = None\<rparr>]\<rparr>) (out @ []) =
       Inr ((\<lparr>rcv_response = Response ZNONODE 9 5 (MultiReadResponse [Response ZOK 9 0 (GetResponse ''data'' Stat_default), Response ZNONODE 9 0 (GetResponse [] Stat_default)]),
         rcv_callback = True, rcv_fired = {}, rcv_finalize = False\<rparr>, zk'), [])"
proof -
  let ?i = "\<lparr>ri_request = MultiRequest [GetRequest ''/a'' False, GetRequest ''/b'' False] (Some KindRead), ri_callback = True, ri_watch = None\<rparr>"
  let ?rs = "[Response ZOK 0 0 (GetResponse ''data'' Stat_default), Response ZNONODE 0 0 (GetResponse ''x'' Stat_default)]"
  have m: "resp_body (makeResponse (ri_request ?i)) = MultiReadResponse [Response ZOK 0 0 (GetResponse [] Stat_default), Response ZOK 0 0 (GetResponse [] Stat_default)]"
    by simp
  have l: "list_all2 part_fits [Response ZOK 0 0 (GetResponse [] Stat_default), Response ZOK 0 0 (GetResponse [] Stat_default)] ?rs"
    by (simp add: part_fits_def valid_error_named MAX_STRING_OR_ARRAY_SIZE_def)
  show ?thesis
    using multi_response_roundtrip [of "(example_client HeartbeatRequest)\<lparr>zk_operations := [5 \<mapsto> ?i]\<rparr>" "Response ZOK 9 5 (MultiReadResponse ?rs)" ?i
        MultiReadResponse, OF _ _ _ _ m _ l, of "[]"]
    by (auto simp: part_body_def given_part_def set_zxid_def set_body_def)
qed

end
