(* ===== verification/SnapshotableHashTable.thy ===== *)
theory SnapshotableHashTable
  imports Prelude
begin

text \<open>
  \<^verbatim>\<open>SnapshotableHashTable<V>\<close> of src/Coordination/SnapshotableHashTable.h: the container behind the
  Keeper storage. The nodes live in a \<^verbatim>\<open>std::list\<close>, an index maps a key to the list iterator of its
  current version. In snapshot mode, versions that belong to the snapshot are not changed or
  erased but left in the list and recorded in \<open>snapshot_invalid_iters\<close>.

  A list iterator is modelled by a number that is fresh for each inserted list element; the list
  is an association list from iterators to elements, in list order. The operations of the value
  type \<^verbatim>\<open>V\<close> that the template uses are the record \<open>vops\<close>: \<^verbatim>\<open>sizeInBytes\<close>, the copy and move
  constructors (\<open>copyValue\<close>) and the move assignment into an existing value (\<open>assignValue\<close>).
  Sizes are \<^verbatim>\<open>uint64_t\<close> and wrap around. Versions count snapshots; they are natural numbers here, while the source keeps
  62 bits of them in a list element, so the model is exact for tables with fewer than \<open>2 ^ 62\<close> snapshots.
  An iterator of \<open>snapshot_invalid_iters\<close> that is not in the list would be undefined behaviour in the source; the
  invariant excludes it.

  The theory ends with the interface the storage relies on (locale \<open>kv_container\<close>) and its
  interpretation, and with the snapshot isolation theorem.
\<close>

section \<open>Data\<close>

type_synonym iter = nat

record 'v ListNode =
  elem_key :: string
  elem_value :: 'v
  active_in_map :: bool
  free_key :: bool
  elem_version :: nat

record 'v vops =
  sizeInBytes :: "'v \<Rightarrow> uint64"
  copyValue :: "'v \<Rightarrow> 'v"
  assignValue :: "'v \<Rightarrow> 'v \<Rightarrow> 'v"

record 'v htable =
  ht_list :: "(iter \<times> 'v ListNode) list"
  ht_map :: "string \<rightharpoonup> iter"
  ht_next_iter :: iter
  snapshot_mode :: bool
  current_version :: nat
  snapshot_up_to_version :: nat
  snapshot_invalid_iters :: "iter list"
  approximate_data_size :: uint64

definition ht_empty :: "'v htable" where
  "ht_empty = \<lparr>ht_list = [], ht_map = Map.empty, ht_next_iter = 0, snapshot_mode = False,
     current_version = 0, snapshot_up_to_version = 0, snapshot_invalid_iters = [],
     approximate_data_size = 0\<rparr>"

datatype OperationType =
    INSERT | INSERT_OR_REPLACE | ERASE | UPDATE_VALUE | GET_VALUE | FIND | CONTAINS
  | CLEAR | CLEAR_OUTDATED_NODES

section \<open>Operations\<close>

fun updateDataSize ::
  "OperationType \<Rightarrow> uint64 \<Rightarrow> uint64 \<Rightarrow> uint64 \<Rightarrow> bool \<Rightarrow> 'v htable \<Rightarrow> 'v htable" where
  "updateDataSize INSERT key_size value_size old_value_size remove_old t =
     t\<lparr>approximate_data_size := approximate_data_size t + key_size + value_size\<rparr>"
| "updateDataSize INSERT_OR_REPLACE key_size value_size old_value_size remove_old t =
     (if old_value_size \<noteq> 0
      then (let n = approximate_data_size t + key_size + value_size
            in t\<lparr>approximate_data_size :=
                 if \<not> snapshot_mode t then n - key_size - old_value_size else n\<rparr>)
      else t\<lparr>approximate_data_size := approximate_data_size t + key_size + value_size\<rparr>)"
| "updateDataSize UPDATE_VALUE key_size value_size old_value_size remove_old t =
     (let n = approximate_data_size t + key_size + value_size
      in t\<lparr>approximate_data_size := if remove_old then n - key_size - old_value_size else n\<rparr>)"
| "updateDataSize ERASE key_size value_size old_value_size remove_old t =
     (if remove_old
      then t\<lparr>approximate_data_size := approximate_data_size t - key_size - old_value_size\<rparr>
      else t)"
| "updateDataSize CLEAR key_size value_size old_value_size remove_old t =
     t\<lparr>approximate_data_size := 0\<rparr>"
| "updateDataSize CLEAR_OUTDATED_NODES key_size value_size old_value_size remove_old t =
     t\<lparr>approximate_data_size := approximate_data_size t - key_size - value_size\<rparr>"
| "updateDataSize GET_VALUE key_size value_size old_value_size remove_old t = t"
| "updateDataSize FIND key_size value_size old_value_size remove_old t = t"
| "updateDataSize CONTAINS key_size value_size old_value_size remove_old t = t"

definition key_size :: "string \<Rightarrow> uint64" where
  "key_size k = word_of_nat (length k)"

text \<open>\<^verbatim>\<open>list.insert(list.end(), elem)\<close>: the new element's iterator is \<open>ht_next_iter\<close>.\<close>

definition list_push_back :: "'v ListNode \<Rightarrow> 'v htable \<Rightarrow> iter \<times> 'v htable" where
  "list_push_back e t =
     (ht_next_iter t,
      t\<lparr>ht_list := ht_list t @ [(ht_next_iter t, e)], ht_next_iter := Suc (ht_next_iter t)\<rparr>)"

text \<open>Mutation through an iterator.\<close>

definition list_modify :: "iter \<Rightarrow> ('v ListNode \<Rightarrow> 'v ListNode) \<Rightarrow> 'v htable \<Rightarrow> 'v htable" where
  "list_modify it f t = t\<lparr>ht_list := AList.map_entry it f (ht_list t)\<rparr>"

definition list_erase :: "iter \<Rightarrow> 'v htable \<Rightarrow> 'v htable" where
  "list_erase it t = t\<lparr>ht_list := AList.delete it (ht_list t)\<rparr>"

definition new_elem :: "'v htable \<Rightarrow> string \<Rightarrow> 'v \<Rightarrow> 'v ListNode" where
  "new_elem t k v = \<lparr>elem_key = k, elem_value = v, active_in_map = False, free_key = False,
     elem_version = current_version t\<rparr>"

definition setInactiveInMap :: "'v ListNode \<Rightarrow> 'v ListNode" where
  "setInactiveInMap e = e\<lparr>active_in_map := False\<rparr>"

definition setActiveInMap :: "'v ListNode \<Rightarrow> 'v ListNode" where
  "setActiveInMap e = e\<lparr>active_in_map := True\<rparr>"

definition setFreeKey :: "'v ListNode \<Rightarrow> 'v ListNode" where
  "setFreeKey e = e\<lparr>free_key := True\<rparr>"

definition deref :: "'v htable \<Rightarrow> iter \<Rightarrow> 'v ListNode option" where
  "deref t it = map_of (ht_list t) it"

definition ht_findIter :: "'v htable \<Rightarrow> string \<Rightarrow> (iter \<times> 'v ListNode) option" where
  "ht_findIter t k =
     (case ht_map t k of None \<Rightarrow> None | Some it \<Rightarrow> map_option (\<lambda>e. (it, e)) (deref t it))"

text \<open>\<^verbatim>\<open>find\<close>: the value, where the source returns the list iterator or \<^verbatim>\<open>list.end()\<close>.\<close>

definition ht_find :: "'v htable \<Rightarrow> string \<Rightarrow> 'v option" where
  "ht_find t k = map_option (elem_value \<circ> snd) (ht_findIter t k)"

definition ht_contains :: "'v htable \<Rightarrow> string \<Rightarrow> bool" where
  "ht_contains t k \<longleftrightarrow> ht_map t k \<noteq> None"

definition ht_insert :: "'v vops \<Rightarrow> string \<Rightarrow> 'v \<Rightarrow> 'v htable \<Rightarrow> bool \<times> 'v htable" where
  "ht_insert vo k v t =
     (case ht_map t k of
        Some _ \<Rightarrow> (False, t)
      | None \<Rightarrow>
          (let (itr, t1) = list_push_back (new_elem t k (copyValue vo v)) t;
               t2 = list_modify itr setActiveInMap (t1\<lparr>ht_map := (ht_map t1)(k \<mapsto> itr)\<rparr>)
           in (True, updateDataSize INSERT (key_size k) (sizeInBytes vo v) 0 True t2)))"

definition ht_insertOrReplace :: "'v vops \<Rightarrow> string \<Rightarrow> 'v \<Rightarrow> 'v htable \<Rightarrow> 'v htable" where
  "ht_insertOrReplace vo k v t =
     (let new_value_size = sizeInBytes vo v;
          old_value_size = (case ht_find t k of None \<Rightarrow> 0 | Some v0 \<Rightarrow> sizeInBytes vo v0);
          t' = (case ht_map t k of
                  None \<Rightarrow>
                    (let (itr, t1) = list_push_back (new_elem t k (copyValue vo v)) t
                     in list_modify itr setActiveInMap (t1\<lparr>ht_map := (ht_map t1)(k \<mapsto> itr)\<rparr>))
                | Some list_itr \<Rightarrow>
                    if snapshot_mode t
                    then (let (itr, t1) = list_push_back (new_elem t k (copyValue vo v))
                                            (list_modify list_itr setInactiveInMap t)
                          in t1\<lparr>ht_map := (ht_map t1)(k \<mapsto> itr),
                                snapshot_invalid_iters := snapshot_invalid_iters t1 @ [list_itr]\<rparr>)
                    else list_modify list_itr (elem_value_update (\<lambda>old. assignValue vo old v)) t)
      in updateDataSize INSERT_OR_REPLACE (key_size k) new_value_size old_value_size
           (\<not> snapshot_mode t) t')"

definition ht_erase :: "'v vops \<Rightarrow> string \<Rightarrow> 'v htable \<Rightarrow> bool \<times> 'v htable" where
  "ht_erase vo k t =
     (case ht_findIter t k of
        None \<Rightarrow> (False, t)
      | Some (list_itr, e) \<Rightarrow>
          (let old_data_size = sizeInBytes vo (elem_value e);
               t1 = (if snapshot_mode t
                     then (list_modify list_itr (setFreeKey \<circ> setInactiveInMap) t)
                            \<lparr>snapshot_invalid_iters := snapshot_invalid_iters t @ [list_itr],
                             ht_map := (ht_map t)(k := None)\<rparr>
                     else list_erase list_itr (t\<lparr>ht_map := (ht_map t)(k := None)\<rparr>))
           in (True, updateDataSize ERASE (key_size k) 0 old_data_size (\<not> snapshot_mode t) t1)))"

text \<open>\<^verbatim>\<open>updateValue\<close> dereferences the index entry of the key; a missing key is undefined behaviour
  (\<open>None\<close>).\<close>

definition ht_updateValue ::
  "'v vops \<Rightarrow> string \<Rightarrow> ('v \<Rightarrow> 'v) \<Rightarrow> 'v htable \<Rightarrow> 'v htable option" where
  "ht_updateValue vo k updater t =
     (case ht_findIter t k of
        None \<Rightarrow> None
      | Some (list_itr, e) \<Rightarrow>
          (let old_value_size = sizeInBytes vo (elem_value e)
           in if snapshot_mode t \<and> elem_version e \<le> snapshot_up_to_version t
              then (let elem_copy = e\<lparr>elem_value := updater (copyValue vo (elem_value e)),
                                      elem_version := current_version t\<rparr>;
                        (itr, t1) = list_push_back elem_copy
                                      (list_modify list_itr setInactiveInMap t);
                        t2 = t1\<lparr>ht_map := (ht_map t1)(k \<mapsto> itr),
                                snapshot_invalid_iters := snapshot_invalid_iters t1 @ [list_itr]\<rparr>
                    in Some (updateDataSize UPDATE_VALUE (key_size k)
                         (sizeInBytes vo (elem_value elem_copy)) old_value_size False t2))
              else (let t1 = list_modify list_itr (elem_value_update updater) t
                    in Some (updateDataSize UPDATE_VALUE (key_size k)
                         (sizeInBytes vo (updater (elem_value e))) old_value_size True t1))))"

text \<open>\<^verbatim>\<open>mutable\<close> members of a stored value may change through a const iterator; \<open>ht_poke\<close> is that
  in-place write.\<close>

definition ht_poke :: "string \<Rightarrow> ('v \<Rightarrow> 'v) \<Rightarrow> 'v htable \<Rightarrow> 'v htable" where
  "ht_poke k f t =
     (case ht_map t k of None \<Rightarrow> t | Some it \<Rightarrow> list_modify it (elem_value_update f) t)"

fun clear_iters :: "'v vops \<Rightarrow> iter list \<Rightarrow> 'v htable \<Rightarrow> 'v htable" where
  "clear_iters vo [] t = t"
| "clear_iters vo (itr # its) t =
     clear_iters vo its
       (case deref t itr of
          None \<Rightarrow> t
        | Some e \<Rightarrow> list_erase itr
            (updateDataSize CLEAR_OUTDATED_NODES (key_size (elem_key e))
               (sizeInBytes vo (elem_value e)) 0 True t))"

definition ht_clearOutdatedNodes :: "'v vops \<Rightarrow> 'v htable \<Rightarrow> 'v htable" where
  "ht_clearOutdatedNodes vo t =
     (clear_iters vo (snapshot_invalid_iters t) t)\<lparr>snapshot_invalid_iters := []\<rparr>"

definition ht_clear :: "'v vops \<Rightarrow> 'v htable \<Rightarrow> 'v htable" where
  "ht_clear vo t =
     updateDataSize CLEAR 0 0 0 True
       ((ht_clearOutdatedNodes vo t)\<lparr>ht_map := Map.empty, ht_list := []\<rparr>)"

definition ht_enableSnapshotMode :: "nat \<Rightarrow> 'v htable \<Rightarrow> 'v htable" where
  "ht_enableSnapshotMode version t =
     t\<lparr>snapshot_mode := True, snapshot_up_to_version := version,
       current_version := Suc (current_version t)\<rparr>"

definition ht_disableSnapshotMode :: "'v htable \<Rightarrow> 'v htable" where
  "ht_disableSnapshotMode t = t\<lparr>snapshot_mode := False\<rparr>"

definition ht_snapshotSizeWithVersion :: "'v htable \<Rightarrow> nat \<times> nat" where
  "ht_snapshotSizeWithVersion t = (length (ht_list t), current_version t)"

fun sum_sizes :: "'v vops \<Rightarrow> (iter \<times> 'v ListNode) list \<Rightarrow> uint64 \<Rightarrow> uint64" where
  "sum_sizes vo [] acc = acc"
| "sum_sizes vo ((_, e) # xs) acc =
     sum_sizes vo xs (acc + key_size (elem_key e) + sizeInBytes vo (elem_value e))"

definition ht_recalculateDataSize :: "'v vops \<Rightarrow> 'v htable \<Rightarrow> 'v htable" where
  "ht_recalculateDataSize vo t = t\<lparr>approximate_data_size := sum_sizes vo (ht_list t) 0\<rparr>"


section \<open>Invariant\<close>

definition elem_size :: "'v vops \<Rightarrow> 'v ListNode \<Rightarrow> uint64" where
  "elem_size vo e = key_size (elem_key e) + sizeInBytes vo (elem_value e)"

text \<open>What the operations rely on of \<^verbatim>\<open>V\<close>: copying and assigning keep the size.\<close>

definition vops_ok :: "'v vops \<Rightarrow> bool" where
  "vops_ok vo \<longleftrightarrow> (\<forall>v. sizeInBytes vo (copyValue vo v) = sizeInBytes vo v) \<and>
     (\<forall>v w. sizeInBytes vo (assignValue vo v w) = sizeInBytes vo w)"

text \<open>\<^verbatim>\<open>updateDataSize\<close> takes the old size 0 for the absence of an old value, so no value in the table may have size zero.
  \<^verbatim>\<open>sizeInBytes\<close> counts the object itself, so this excludes only sizes that wrap around.\<close>

definition sized :: "'v vops \<Rightarrow> 'v htable \<Rightarrow> bool" where
  "sized vo t \<longleftrightarrow> (\<forall>(it, e) \<in> set (ht_list t). sizeInBytes vo (elem_value e) \<noteq> 0)"

definition ht_inv :: "'v htable \<Rightarrow> bool" where
  "ht_inv t \<longleftrightarrow>
     distinct (map fst (ht_list t)) \<and>
     (\<forall>it e. deref t it = Some e \<longrightarrow> it < ht_next_iter t) \<and>
     (\<forall>k it. ht_map t k = Some it \<longrightarrow>
        it \<notin> set (snapshot_invalid_iters t) \<and> (\<exists>e. deref t it = Some e \<and> elem_key e = k)) \<and>
     (\<forall>it e. deref t it = Some e \<longrightarrow> it \<notin> set (snapshot_invalid_iters t) \<longrightarrow>
        ht_map t (elem_key e) = Some it) \<and>
     (\<forall>it \<in> set (snapshot_invalid_iters t). deref t it \<noteq> None) \<and>
     distinct (snapshot_invalid_iters t)"

definition ht_size_ok :: "'v vops \<Rightarrow> 'v htable \<Rightarrow> bool" where
  "ht_size_ok vo t \<longleftrightarrow> approximate_data_size t = alist_sum (elem_size vo) (ht_list t)"

lemmas ht_op_defs =
  ht_insert_def ht_insertOrReplace_def ht_erase_def ht_updateValue_def ht_poke_def
  list_push_back_def list_modify_def list_erase_def new_elem_def
  setInactiveInMap_def setActiveInMap_def setFreeKey_def Let_def

lemma ht_inv_map_deref:
  assumes "ht_inv t" "ht_map t k = Some it"
  obtains e where "deref t it = Some e" "elem_key e = k"
    "it \<notin> set (snapshot_invalid_iters t)" "it < ht_next_iter t"
proof -
  have "\<exists>e. deref t it = Some e \<and> elem_key e = k" "it \<notin> set (snapshot_invalid_iters t)"
    using assms by (simp_all add: ht_inv_def)
  moreover have "it < ht_next_iter t" if "deref t it = Some e" for e
    using assms(1) that by (simp add: ht_inv_def)
  ultimately show thesis using that by blast
qed

lemma ht_map_SomeD:
  "ht_inv t \<Longrightarrow> ht_map t k = Some it \<Longrightarrow> \<exists>e. deref t it = Some e \<and> elem_key e = k"
  by (simp add: ht_inv_def)

lemma ht_map_inj:
  "ht_inv t \<Longrightarrow> ht_map t k = Some it \<Longrightarrow> ht_map t k' = Some it \<Longrightarrow> k' = k"
  using ht_map_SomeD [of t k it] ht_map_SomeD [of t k' it] by auto

lemma ht_findIter_Some:
  assumes "ht_inv t"
  shows "ht_findIter t k = Some (it, e) \<longleftrightarrow> ht_map t k = Some it \<and> deref t it = Some e"
  by (auto simp: ht_findIter_def split: option.splits)

lemma ht_findIter_None:
  assumes "ht_inv t"
  shows "ht_findIter t k = None \<longleftrightarrow> ht_map t k = None"
  by (auto simp: ht_findIter_def split: option.splits dest: ht_map_SomeD [OF assms])

lemma ht_find_Some:
  assumes "ht_inv t"
  shows "ht_find t k = Some v \<longleftrightarrow> (\<exists>it e. ht_map t k = Some it \<and> deref t it = Some e \<and> elem_value e = v)"
  by (auto simp: ht_find_def ht_findIter_Some [OF assms])

lemma ht_find_None:
  assumes "ht_inv t"
  shows "ht_find t k = None \<longleftrightarrow> ht_map t k = None"
  by (simp add: ht_find_def ht_findIter_None [OF assms])

lemma ht_contains_find: "ht_inv t \<Longrightarrow> ht_contains t k \<longleftrightarrow> ht_find t k \<noteq> None"
  by (simp add: ht_contains_def ht_find_None)

lemma ht_inv_empty [simp]: "ht_inv ht_empty"
  by (simp add: ht_inv_def ht_empty_def deref_def)

lemma ht_find_empty [simp]: "ht_find ht_empty k = None"
  by (simp add: ht_find_def ht_findIter_def ht_empty_def)

lemma ht_finite_dom:
  assumes "ht_inv t"
  shows "finite (dom (ht_find t))"
proof (rule finite_subset)
  show "dom (ht_find t) \<subseteq> (\<lambda>p. elem_key (snd p)) ` set (ht_list t)"
  proof
    fix k assume "k \<in> dom (ht_find t)"
    then obtain it e where "deref t it = Some e" "elem_key e = k"
      by (auto simp: dom_def ht_find_Some [OF assms] dest: ht_map_SomeD [OF assms])
    then show "k \<in> (\<lambda>p. elem_key (snd p)) ` set (ht_list t)"
      by (force simp: deref_def dest: map_of_SomeD)
  qed
qed simp

text \<open>The accounting function touches nothing but the size.\<close>

lemma updateDataSize_fields [simp]:
  "ht_list (updateDataSize op a b c d t) = ht_list t"
  "ht_map (updateDataSize op a b c d t) = ht_map t"
  "ht_next_iter (updateDataSize op a b c d t) = ht_next_iter t"
  "snapshot_mode (updateDataSize op a b c d t) = snapshot_mode t"
  "current_version (updateDataSize op a b c d t) = current_version t"
  "snapshot_up_to_version (updateDataSize op a b c d t) = snapshot_up_to_version t"
  "snapshot_invalid_iters (updateDataSize op a b c d t) = snapshot_invalid_iters t"
  by (cases op; simp add: Let_def)+

lemma deref_updateDataSize [simp]: "deref (updateDataSize op a b c d t) = deref t"
  by (rule ext) (simp add: deref_def)

lemma ht_inv_updateDataSize [simp]: "ht_inv (updateDataSize op a b c d t) = ht_inv t"
  by (simp add: ht_inv_def)

lemma ht_find_updateDataSize [simp]: "ht_find (updateDataSize op a b c d t) = ht_find t"
  by (simp add: fun_eq_iff ht_find_def ht_findIter_def split: option.split)

declare updateDataSize.simps [simp del]

subsection \<open>List primitives\<close>

lemma deref_modify [simp]:
  "deref (list_modify it f t) = (deref t)(it := map_option f (deref t it))"
  by (auto simp: deref_def list_modify_def map_of_map_entry fun_eq_iff split: option.splits)

lemma deref_push [simp]:
  assumes "ht_inv t"
  shows "deref (t\<lparr>ht_list := ht_list t @ [(ht_next_iter t, e)]\<rparr>) = (deref t)(ht_next_iter t \<mapsto> e)"
proof -
  have "deref t (ht_next_iter t) = None"
    using assms by (cases "deref t (ht_next_iter t)") (auto simp: ht_inv_def)
  then show ?thesis
    by (auto simp: deref_def fun_eq_iff map_add_def split: option.splits)
qed

lemma deref_erase [simp]: "deref (list_erase it t) = (deref t)(it := None)"
  by (simp add: deref_def list_erase_def AList.delete_conv' fun_eq_iff)

lemma deref_fields [simp]:
  "deref (t\<lparr>ht_map := m\<rparr>) = deref t"
  "deref (t\<lparr>ht_next_iter := n\<rparr>) = deref t"
  "deref (t\<lparr>snapshot_invalid_iters := i\<rparr>) = deref t"
  "deref (t\<lparr>snapshot_mode := b\<rparr>) = deref t"
  "deref (t\<lparr>current_version := v\<rparr>) = deref t"
  "deref (t\<lparr>snapshot_up_to_version := v\<rparr>) = deref t"
  "deref (t\<lparr>approximate_data_size := z\<rparr>) = deref t"
  by (auto simp: deref_def)

lemma list_modify_fields [simp]:
  "ht_map (list_modify it f t) = ht_map t"
  "ht_next_iter (list_modify it f t) = ht_next_iter t"
  "snapshot_invalid_iters (list_modify it f t) = snapshot_invalid_iters t"
  "snapshot_mode (list_modify it f t) = snapshot_mode t"
  "map fst (ht_list (list_modify it f t)) = map fst (ht_list t)"
  by (simp_all add: list_modify_def)

lemma ht_inv_modify:
  assumes "ht_inv t" and "\<And>e. elem_key (f e) = elem_key e"
  shows "ht_inv (list_modify it f t)"
  using assms unfolding ht_inv_def by (auto split: if_splits) blast

lemma ht_find_modify:
  assumes "ht_inv t" "ht_map t k = Some it"
  shows "ht_find (list_modify it (elem_value_update f) t) = (ht_find t)(k := map_option f (ht_find t k))"
proof (rule ext)
  fix k'
  have "ht_map t k' = Some it \<Longrightarrow> k' = k" by (rule ht_map_inj [OF assms])
  then show "ht_find (list_modify it (elem_value_update f) t) k' =
      ((ht_find t)(k := map_option f (ht_find t k))) k'"
    using assms(2)
    by (cases "ht_map t k'") (auto simp: ht_find_def ht_findIter_def option.map_comp comp_def)
qed

subsection \<open>Appending a version of a key\<close>

text \<open>The table after a new element for key \<open>k\<close> has been appended and indexed, with \<open>old\<close> the
  iterators retired on the way.\<close>

definition ht_append :: "string \<Rightarrow> 'v ListNode \<Rightarrow> iter list \<Rightarrow> 'v htable \<Rightarrow> 'v htable" where
  "ht_append k e old t =
     t\<lparr>ht_list := ht_list t @ [(ht_next_iter t, e)], ht_next_iter := Suc (ht_next_iter t),
       ht_map := (ht_map t)(k \<mapsto> ht_next_iter t),
       snapshot_invalid_iters := snapshot_invalid_iters t @ old\<rparr>"

lemma deref_append [simp]:
  "ht_inv t \<Longrightarrow> deref (ht_append k e old t) = (deref t)(ht_next_iter t \<mapsto> e)"
  by (simp add: ht_append_def)

lemma ht_append_fields [simp]:
  "ht_map (ht_append k e old t) = (ht_map t)(k \<mapsto> ht_next_iter t)"
  "ht_next_iter (ht_append k e old t) = Suc (ht_next_iter t)"
  "snapshot_invalid_iters (ht_append k e old t) = snapshot_invalid_iters t @ old"
  "ht_list (ht_append k e old t) = ht_list t @ [(ht_next_iter t, e)]"
  "snapshot_mode (ht_append k e old t) = snapshot_mode t"
  by (simp_all add: ht_append_def)

lemma ht_next_fresh: "ht_inv t \<Longrightarrow> deref t (ht_next_iter t) = None"
  by (cases "deref t (ht_next_iter t)") (auto simp: ht_inv_def)

lemma ht_next_fresh_list: "ht_inv t \<Longrightarrow> ht_next_iter t \<notin> fst ` set (ht_list t)"
  using ht_next_fresh [of t] by (simp add: deref_def map_of_eq_None_iff)

lemma ht_inv_append:
  assumes "ht_inv t" "elem_key e = k" "old = (case ht_map t k of None \<Rightarrow> [] | Some it \<Rightarrow> [it])"
  shows "ht_inv (ht_append k e old t)"
proof -
  have lt: "\<And>it e. deref t it = Some e \<Longrightarrow> it < ht_next_iter t" using assms(1) by (simp add: ht_inv_def)
  have m: "\<And>k it. ht_map t k = Some it \<Longrightarrow>
      it \<notin> set (snapshot_invalid_iters t) \<and> (\<exists>e. deref t it = Some e \<and> elem_key e = k)"
    using assms(1) by (simp add: ht_inv_def)
  have r: "\<And>it e. deref t it = Some e \<Longrightarrow> it \<notin> set (snapshot_invalid_iters t) \<Longrightarrow>
      ht_map t (elem_key e) = Some it"
    using assms(1) by (simp add: ht_inv_def)
  have i: "\<forall>it\<in>set (snapshot_invalid_iters t). deref t it \<noteq> None"
    using assms(1) by (simp add: ht_inv_def)
  have "it < ht_next_iter t" if "it \<in> set (snapshot_invalid_iters t @ old)" for it
    using that i lt m assms(3) by (fastforce split: option.splits)
  then have fresh: "ht_next_iter t \<notin> set (snapshot_invalid_iters t @ old)" by blast
  show ?thesis
    using assms fresh ht_next_fresh [OF assms(1)] ht_next_fresh_list [OF assms(1)]
    unfolding ht_inv_def deref_append [OF assms(1)] ht_append_fields
    apply (intro conjI allI impI ballI)
    subgoal by simp
    subgoal by (auto split: if_splits dest: lt)
    subgoal for k' it by (auto split: if_splits option.splits dest: m ht_map_inj [OF assms(1)])
    subgoal for k' it by (auto split: if_splits dest: m)
    subgoal for it e' by (auto split: if_splits option.splits dest: r)
    subgoal by (auto split: if_splits option.splits dest: m)
    subgoal by (auto split: option.splits dest: m)
    done
qed

lemma ht_find_append:
  assumes "ht_inv t"
  shows "ht_find (ht_append k e old t) = (ht_find t)(k \<mapsto> elem_value e)"
proof
  fix k'
  have "it \<noteq> ht_next_iter t" if "ht_map t k' = Some it" for it
    using that assms by (auto elim: ht_inv_map_deref)
  then show "ht_find (ht_append k e old t) k' = ((ht_find t)(k \<mapsto> elem_value e)) k'"
    using assms by (auto simp: ht_find_def ht_findIter_def split: option.splits)
qed

text \<open>The operations in terms of in-place rewriting and appending.\<close>

lemma map_entry_push: 
  "ht_inv t \<Longrightarrow> AList.map_entry (ht_next_iter t) f (ht_list t @ [(ht_next_iter t, e)]) =
     ht_list t @ [(ht_next_iter t, f e)]"
  by (simp add: map_entry_append_notin ht_next_fresh_list)

lemma ht_insert_new:
  assumes "ht_inv t" "ht_map t k = None"
  shows "ht_insert vo k v t = (True, updateDataSize INSERT (key_size k) (sizeInBytes vo v) 0 True
     (ht_append k (setActiveInMap (new_elem t k (copyValue vo v))) [] t))"
  using assms by (simp add: ht_insert_def list_push_back_def list_modify_def ht_append_def map_entry_push
      updateDataSize.simps)

lemma ht_insert_old: "ht_map t k = Some it \<Longrightarrow> ht_insert vo k v t = (False, t)"
  by (simp add: ht_insert_def)

lemma ht_insertOrReplace_new:
  assumes "ht_inv t" "ht_map t k = None"
  shows "ht_insertOrReplace vo k v t =
     updateDataSize INSERT_OR_REPLACE (key_size k) (sizeInBytes vo v) 0 (\<not> snapshot_mode t)
       (ht_append k (setActiveInMap (new_elem t k (copyValue vo v))) [] t)"
  using assms
  by (simp add: ht_insertOrReplace_def list_push_back_def list_modify_def ht_append_def map_entry_push
      ht_find_def ht_findIter_def Let_def updateDataSize.simps)

lemma ht_insertOrReplace_old:
  assumes "ht_inv t" "ht_map t k = Some it" "deref t it = Some e"
  shows "ht_insertOrReplace vo k v t =
     updateDataSize INSERT_OR_REPLACE (key_size k) (sizeInBytes vo v) (sizeInBytes vo (elem_value e))
       (\<not> snapshot_mode t)
       (if snapshot_mode t
        then ht_append k (new_elem t k (copyValue vo v)) [it] (list_modify it setInactiveInMap t)
        else list_modify it (elem_value_update (\<lambda>old. assignValue vo old v)) t)"
  using assms
  by (simp add: ht_insertOrReplace_def list_push_back_def list_modify_def ht_append_def
      ht_find_def ht_findIter_def Let_def updateDataSize.simps)

lemma ht_updateValue_old:
  assumes "ht_map t k = Some it" "deref t it = Some e"
  shows "ht_updateValue vo k f t = Some
     (if snapshot_mode t \<and> elem_version e \<le> snapshot_up_to_version t
      then updateDataSize UPDATE_VALUE (key_size k) (sizeInBytes vo (f (copyValue vo (elem_value e))))
             (sizeInBytes vo (elem_value e)) False
             (ht_append k (e\<lparr>elem_value := f (copyValue vo (elem_value e)),
                             elem_version := current_version t\<rparr>) [it]
                (list_modify it setInactiveInMap t))
      else updateDataSize UPDATE_VALUE (key_size k) (sizeInBytes vo (f (elem_value e)))
             (sizeInBytes vo (elem_value e)) True (list_modify it (elem_value_update f) t))"
  using assms
  by (simp add: ht_updateValue_def ht_findIter_def list_push_back_def list_modify_def ht_append_def Let_def)

lemma ht_updateValue_None: "ht_inv t \<Longrightarrow> ht_updateValue vo k f t = None \<longleftrightarrow> ht_find t k = None"
  by (auto simp: ht_updateValue_def ht_find_def Let_def list_push_back_def split: option.split)

lemma setInactive_key [simp]: "elem_key (setInactiveInMap e) = elem_key e"
  "elem_value (setInactiveInMap e) = elem_value e"
  by (simp_all add: setInactiveInMap_def)

lemma ht_find_setInactive [simp]:
  "ht_find (list_modify it setInactiveInMap t) = ht_find t"
  by (auto simp: fun_eq_iff ht_find_def ht_findIter_def option.map_comp comp_def split: option.split)


subsection \<open>The operations keep the invariant\<close>

lemma ht_inv_insert [intro]: "ht_inv t \<Longrightarrow> ht_inv (snd (ht_insert vo k v t))"
  by (cases "ht_map t k")
    (auto simp: ht_insert_new ht_insert_old setActiveInMap_def new_elem_def intro!: ht_inv_append)

lemma ht_inv_retire_append:
  assumes "ht_inv t" "ht_map t k = Some it" "elem_key e = k"
  shows "ht_inv (ht_append k e [it] (list_modify it setInactiveInMap t))"
  using assms by (intro ht_inv_append ht_inv_modify) auto

lemma ht_inv_insertOrReplace [intro]:
  assumes "ht_inv t"
  shows "ht_inv (ht_insertOrReplace vo k v t)"
proof (cases "ht_map t k")
  case None
  then show ?thesis
    using assms by (simp add: ht_insertOrReplace_new ht_inv_append setActiveInMap_def new_elem_def)
next
  case (Some it)
  then obtain e where "deref t it = Some e" using assms by (blast elim: ht_inv_map_deref)
  with Some assms show ?thesis
    by (simp add: ht_insertOrReplace_old ht_inv_retire_append ht_inv_modify new_elem_def)
qed

lemma ht_inv_updateValue [intro]:
  assumes "ht_inv t" "ht_updateValue vo k f t = Some t'"
  shows "ht_inv t'"
proof -
  from assms obtain it e where it: "ht_map t k = Some it" and e: "deref t it = Some e" "elem_key e = k"
    using ht_updateValue_None [of t vo k f] ht_find_None [of t k]
    by (cases "ht_map t k") (auto elim: ht_inv_map_deref)
  show ?thesis
    using assms(2) unfolding ht_updateValue_old [OF it e(1)]
    using assms(1) it e(2) by (auto simp: ht_inv_retire_append ht_inv_modify split: if_splits)
qed

lemma ht_inv_poke [intro]: "ht_inv t \<Longrightarrow> ht_inv (ht_poke k f t)"
  by (auto simp: ht_poke_def ht_inv_modify split: option.split)

lemma ht_inv_facts:
  assumes "ht_inv t"
  shows "distinct (map fst (ht_list t))" "deref t it = Some e \<Longrightarrow> it < ht_next_iter t"
    "ht_map t k = Some it \<Longrightarrow> it \<notin> set (snapshot_invalid_iters t)"
    "deref t it = Some e \<Longrightarrow> it \<notin> set (snapshot_invalid_iters t) \<Longrightarrow> ht_map t (elem_key e) = Some it"
    "it \<in> set (snapshot_invalid_iters t) \<Longrightarrow> \<exists>e. deref t it = Some e" "distinct (snapshot_invalid_iters t)"
  using assms by (auto simp: ht_inv_def)

lemma ht_live_unique:
  assumes "ht_inv t" "ht_map t k = Some it" "deref t it' = Some e" "elem_key e = k"
    "it' \<notin> set (snapshot_invalid_iters t)"
  shows "it' = it"
  using ht_inv_facts(4) [OF assms(1,3,5)] assms(2,4) by simp

lemma ht_inv_unindex:
  assumes "ht_inv t" "ht_map t k = Some it"
  shows "ht_inv (t\<lparr>snapshot_invalid_iters := snapshot_invalid_iters t @ [it],
                   ht_map := (ht_map t)(k := None)\<rparr>)"
proof -
  obtain e where e: "deref t it = Some e" "elem_key e = k" using ht_map_SomeD [OF assms] by blast
  show ?thesis
    unfolding ht_inv_def
    using ht_inv_facts [OF assms(1)] assms(2) e
    by (auto dest: ht_map_inj [OF assms] ht_map_SomeD [OF assms(1)] ht_live_unique [OF assms])
qed

lemma ht_inv_unlink:
  assumes "ht_inv t" "ht_map t k = Some it"
  shows "ht_inv (list_erase it (t\<lparr>ht_map := (ht_map t)(k := None)\<rparr>))"
proof -
  obtain e where e: "deref t it = Some e" "elem_key e = k" using ht_map_SomeD [OF assms] by blast
  have d: "deref (list_erase it (t\<lparr>ht_map := (ht_map t)(k := None)\<rparr>)) = (deref t)(it := None)"
    by (simp add: list_erase_def deref_def AList.delete_conv' fun_eq_iff)
  show ?thesis
    unfolding ht_inv_def d
    using ht_inv_facts [OF assms(1)] assms(2) e
    by (auto simp: list_erase_def AList.distinct_delete
        dest: ht_map_inj [OF assms] ht_map_SomeD [OF assms(1)] ht_live_unique [OF assms])
qed

lemma ht_erase_old:
  assumes "ht_map t k = Some it" "deref t it = Some e"
  shows "ht_erase vo k t = (True, updateDataSize ERASE (key_size k) 0 (sizeInBytes vo (elem_value e))
     (\<not> snapshot_mode t)
     (if snapshot_mode t
      then list_modify it (setFreeKey \<circ> setInactiveInMap)
             (t\<lparr>snapshot_invalid_iters := snapshot_invalid_iters t @ [it], ht_map := (ht_map t)(k := None)\<rparr>)
      else list_erase it (t\<lparr>ht_map := (ht_map t)(k := None)\<rparr>)))"
  using assms by (simp add: ht_erase_def ht_findIter_def list_modify_def updateDataSize.simps Let_def)

lemma ht_erase_absent: "ht_map t k = None \<Longrightarrow> ht_erase vo k t = (False, t)"
  by (simp add: ht_erase_def ht_findIter_def)

lemma ht_inv_erase [intro]:
  assumes "ht_inv t"
  shows "ht_inv (snd (ht_erase vo k t))"
proof (cases "ht_map t k")
  case None
  then show ?thesis using assms by (simp add: ht_erase_absent)
next
  case (Some it)
  then obtain e where "deref t it = Some e" using assms by (blast elim: ht_inv_map_deref)
  with Some assms show ?thesis
    by (auto simp: ht_erase_old ht_inv_unlink ht_inv_unindex setFreeKey_def intro!: ht_inv_modify)
qed

subsection \<open>The operations as map updates\<close>

lemma ht_find_insert_new:
  assumes "ht_inv t" "ht_find t k = None"
  shows "ht_find (snd (ht_insert vo k v t)) = (ht_find t)(k \<mapsto> copyValue vo v)"
proof -
  have "ht_map t k = None" using assms by (simp add: ht_find_None)
  with assms show ?thesis
    by (simp add: ht_insert_new ht_find_append setActiveInMap_def new_elem_def)
qed

lemma ht_find_insertOrReplace:
  assumes "ht_inv t"
  obtains v' where "v' = copyValue vo v \<or> (\<exists>old. ht_find t k = Some old \<and> v' = assignValue vo old v)"
    "ht_find (ht_insertOrReplace vo k v t) = (ht_find t)(k \<mapsto> v')"
proof (cases "ht_map t k")
  case None
  show ?thesis
    using assms None
    by (intro that [of "copyValue vo v"])
      (simp_all add: ht_insertOrReplace_new ht_find_append setActiveInMap_def new_elem_def)
next
  case (Some it)
  then obtain e where e: "deref t it = Some e" using assms by (blast elim: ht_inv_map_deref)
  have old: "ht_find t k = Some (elem_value e)" using Some e assms by (auto simp: ht_find_Some)
  show ?thesis
  proof (cases "snapshot_mode t")
    case True
    then show ?thesis
      using assms Some e
      by (intro that [of "copyValue vo v"])
        (simp_all add: ht_insertOrReplace_old ht_find_append ht_inv_modify new_elem_def)
  next
    case False
    then show ?thesis
      using assms Some e old
      by (intro that [of "assignValue vo (elem_value e) v"])
        (simp_all add: ht_insertOrReplace_old ht_find_modify)
  qed
qed

lemma ht_find_erase:
  assumes "ht_inv t"
  shows "ht_find (snd (ht_erase vo k t)) = (ht_find t)(k := None)"
proof (cases "ht_map t k")
  case None
  then show ?thesis
    using assms by (auto simp: ht_erase_absent ht_find_None fun_eq_iff)
next
  case (Some it)
  then obtain e where e: "deref t it = Some e" using assms by (blast elim: ht_inv_map_deref)
  have ne: "it' \<noteq> it" if "ht_map t k' = Some it'" "k' \<noteq> k" for it' k'
    using that ht_map_inj [OF assms Some] by blast
  show ?thesis
    using ne by (auto simp: ht_erase_old [OF Some e] fun_eq_iff ht_find_def ht_findIter_def
        list_erase_def AList.delete_conv' deref_def list_modify_def map_of_map_entry
        split: option.splits)
qed

lemma ht_find_updateValue:
  assumes "ht_inv t" "ht_find t k = Some v"
  obtains t' v' where "ht_updateValue vo k f t = Some t'" "v' = v \<or> v' = copyValue vo v"
    "ht_find t' = (ht_find t)(k \<mapsto> f v')"
proof -
  from assms obtain it e where it: "ht_map t k = Some it" and e: "deref t it = Some e" "elem_value e = v"
    by (auto simp: ht_find_Some)
  show ?thesis
    using assms it e
    by (intro that [of _ "if snapshot_mode t \<and> elem_version e \<le> snapshot_up_to_version t
                          then copyValue vo v else v"])
      (auto simp: ht_updateValue_old [OF it e(1)] ht_find_append ht_find_modify ht_inv_modify)
qed

lemma ht_find_poke: "ht_inv t \<Longrightarrow> ht_find (ht_poke k f t) = (ht_find t)(k := map_option f (ht_find t k))"
  using ht_find_None [of t k]
  by (cases "ht_map t k") (auto simp: ht_poke_def ht_find_modify fun_upd_idem)


subsection \<open>Outdated nodes\<close>

lemma ht_inv_clear_step:
  assumes "ht_inv (t\<lparr>snapshot_invalid_iters := itr # its\<rparr>)"
  shows "ht_inv ((list_erase itr t)\<lparr>snapshot_invalid_iters := its\<rparr>)"
  using assms unfolding ht_inv_def
  by (auto simp: list_erase_def AList.distinct_delete deref_def AList.delete_conv' split: if_splits)

lemma list_erase_comm [simp]:
  "(updateDataSize op a b c d t)\<lparr>snapshot_invalid_iters := its\<rparr> =
     updateDataSize op a b c d (t\<lparr>snapshot_invalid_iters := its\<rparr>)"
  by (cases op) (simp_all add: updateDataSize.simps Let_def)

lemma list_erase_updateDataSize:
  "list_erase it (updateDataSize op a b c d t) = updateDataSize op a b c d (list_erase it t)"
  by (cases op) (simp_all add: updateDataSize.simps Let_def list_erase_def)

lemma clear_iters_inv:
  assumes "ht_inv (t\<lparr>snapshot_invalid_iters := its\<rparr>)"
  shows "ht_inv ((clear_iters vo its t)\<lparr>snapshot_invalid_iters := []\<rparr>)"
  using assms
proof (induction its arbitrary: t)
  case (Cons itr its)
  then obtain e where "deref t itr = Some e" by (auto simp: ht_inv_def deref_def)
  then show ?case
    using Cons.IH ht_inv_clear_step [OF Cons.prems] by (simp add: list_erase_updateDataSize)
qed simp

lemma ht_inv_clearOutdatedNodes [intro]: "ht_inv t \<Longrightarrow> ht_inv (ht_clearOutdatedNodes vo t)"
  by (simp add: ht_clearOutdatedNodes_def clear_iters_inv)

lemma clear_iters_find:
  assumes "\<And>k it. ht_map t k = Some it \<Longrightarrow> it \<notin> set its"
  shows "ht_find (clear_iters vo its t) = ht_find t \<and> ht_map (clear_iters vo its t) = ht_map t"
  using assms
proof (induction its arbitrary: t)
  case (Cons itr its)
  let ?t = "case deref t itr of None \<Rightarrow> t | Some e \<Rightarrow> list_erase itr
            (updateDataSize CLEAR_OUTDATED_NODES (key_size (elem_key e))
               (sizeInBytes vo (elem_value e)) 0 True t)"
  have m: "ht_map ?t = ht_map t" by (simp add: list_erase_def split: option.split)
  have "ht_find ?t = ht_find t"
    using Cons.prems
    by (auto simp: fun_eq_iff ht_find_def ht_findIter_def list_erase_updateDataSize list_erase_def
        deref_def AList.delete_conv' split: option.splits)
  with m Cons.IH [of ?t] Cons.prems show ?case by simp
qed simp

lemma ht_find_invalid [simp]: "ht_find (t\<lparr>snapshot_invalid_iters := x\<rparr>) = ht_find t"
  by (auto simp: fun_eq_iff ht_find_def ht_findIter_def deref_def split: option.split)

lemma ht_find_clearOutdatedNodes: "ht_inv t \<Longrightarrow> ht_find (ht_clearOutdatedNodes vo t) = ht_find t"
  using clear_iters_find [of t "snapshot_invalid_iters t" vo]
  by (auto simp: ht_clearOutdatedNodes_def ht_inv_def)

lemma ht_inv_clear [intro]: "ht_inv (ht_clear vo t)"
  by (simp add: ht_clear_def ht_clearOutdatedNodes_def ht_inv_def deref_def)

lemma ht_find_clear: "ht_find (ht_clear vo t) = Map.empty"
  by (simp add: ht_clear_def fun_eq_iff ht_find_def ht_findIter_def)

lemma ht_inv_snapshotMode [simp]:
  "ht_inv (ht_enableSnapshotMode n t) = ht_inv t"
  "ht_inv (ht_disableSnapshotMode t) = ht_inv t"
  by (simp_all add: ht_enableSnapshotMode_def ht_disableSnapshotMode_def ht_inv_def deref_def)

lemma ht_find_snapshotMode [simp]:
  "ht_find (ht_enableSnapshotMode n t) = ht_find t"
  "ht_find (ht_disableSnapshotMode t) = ht_find t"
  by (simp_all add: ht_enableSnapshotMode_def ht_disableSnapshotMode_def fun_eq_iff ht_find_def
      ht_findIter_def deref_def split: option.split)

text \<open>A table without outdated nodes holds one element per key.\<close>

lemma ht_list_live_keys:
  assumes "ht_inv t" "snapshot_invalid_iters t = []"
  shows "distinct (map (elem_key \<circ> snd) (ht_list t))"
    and "set (map (elem_key \<circ> snd) (ht_list t)) = dom (ht_find t)"
proof -
  have d: "deref t it = Some e \<longleftrightarrow> (it, e) \<in> set (ht_list t)" for it e
    using assms(1) by (simp add: deref_def ht_inv_def map_of_eq_Some_iff)
  have m: "(it, e) \<in> set (ht_list t) \<Longrightarrow> ht_map t (elem_key e) = Some it" for it e
    using assms d by (auto simp: ht_inv_def)
  have "distinct (ht_list t)" using assms(1) by (simp add: ht_inv_def distinct_map)
  moreover have "inj_on (elem_key \<circ> snd) (set (ht_list t))"
  proof (rule inj_onI)
    fix p q assume "p \<in> set (ht_list t)" "q \<in> set (ht_list t)" "(elem_key \<circ> snd) p = (elem_key \<circ> snd) q"
    then have "fst p = fst q"
      using m [of "fst p" "snd p"] m [of "fst q" "snd q"] by simp
    with \<open>p \<in> set (ht_list t)\<close> \<open>q \<in> set (ht_list t)\<close> show "p = q"
      using ht_inv_facts(1) [OF assms(1)] by (auto simp: distinct_map dest: inj_onD)
  qed
  ultimately show "distinct (map (elem_key \<circ> snd) (ht_list t))" by (simp add: distinct_map)
  show "set (map (elem_key \<circ> snd) (ht_list t)) = dom (ht_find t)"
  proof (intro equalityI subsetI)
    fix k assume "k \<in> set (map (elem_key \<circ> snd) (ht_list t))"
    then obtain it e where "(it, e) \<in> set (ht_list t)" "k = elem_key e" by auto
    then show "k \<in> dom (ht_find t)"
      using m d by (auto simp: dom_def ht_find_Some [OF assms(1)])
  next
    fix k assume "k \<in> dom (ht_find t)"
    then obtain it where "ht_map t k = Some it" by (auto simp: ht_find_Some [OF assms(1)])
    with ht_map_SomeD [OF assms(1)] obtain e where "deref t it = Some e" "elem_key e = k" by blast
    then show "k \<in> set (map (elem_key \<circ> snd) (ht_list t))" using d by force
  qed
qed

subsection \<open>Size accounting\<close>

lemma sum_sizes_alist_sum: "sum_sizes vo xs acc = acc + alist_sum (elem_size vo) xs"
  by (induction vo xs acc rule: sum_sizes.induct) (auto simp: elem_size_def algebra_simps)

lemma elem_size_flags [simp]:
  "elem_size vo (setInactiveInMap e) = elem_size vo e"
  "elem_size vo (setActiveInMap e) = elem_size vo e"
  "elem_size vo (setFreeKey e) = elem_size vo e"
  by (simp_all add: elem_size_def setInactiveInMap_def setActiveInMap_def setFreeKey_def)

lemma sum_modify_flag [simp]:
  "(\<And>e. elem_size vo (f e) = elem_size vo e) \<Longrightarrow>
     alist_sum (elem_size vo) (ht_list (list_modify it f t)) = alist_sum (elem_size vo) (ht_list t)"
  by (simp add: list_modify_def alist_sum_map_entry_eq)

lemma sum_modify:
  "deref t it = Some e \<Longrightarrow> alist_sum (elem_size vo) (ht_list (list_modify it f t)) =
     alist_sum (elem_size vo) (ht_list t) - elem_size vo e + elem_size vo (f e)"
  by (simp add: list_modify_def deref_def alist_sum_map_entry)

lemma approximate_data_size_prims [simp]:
  "approximate_data_size (list_modify it f t) = approximate_data_size t"
  "approximate_data_size (ht_append k e old t) = approximate_data_size t"
  "approximate_data_size (list_erase it t) = approximate_data_size t"
  "snapshot_mode (list_modify it f t) = snapshot_mode t"
  by (simp_all add: list_modify_def ht_append_def list_erase_def)

lemma vops_okD:
  assumes "vops_ok vo"
  shows "sizeInBytes vo (copyValue vo v) = sizeInBytes vo v"
    "sizeInBytes vo (assignValue vo v w) = sizeInBytes vo w"
  using assms by (simp_all add: vops_ok_def)

lemma ht_size_insert:
  assumes "ht_inv t" "vops_ok vo" "ht_size_ok vo t"
  shows "ht_size_ok vo (snd (ht_insert vo k v t))"
  using assms
  by (cases "ht_map t k")
    (auto simp: ht_insert_new ht_insert_old ht_size_ok_def updateDataSize.simps elem_size_def
      new_elem_def setActiveInMap_def vops_okD)

lemma ht_size_insertOrReplace:
  assumes "ht_inv t" "vops_ok vo" "ht_size_ok vo t" "sized vo t"
  shows "ht_size_ok vo (ht_insertOrReplace vo k v t)"
proof (cases "ht_map t k")
  case None
  then show ?thesis
    using assms by (simp add: ht_insertOrReplace_new ht_size_ok_def updateDataSize.simps elem_size_def
      new_elem_def setActiveInMap_def vops_okD)
next
  case (Some it)
  with ht_map_SomeD [OF assms(1)] obtain e where e: "deref t it = Some e" "elem_key e = k" by blast
  have "sizeInBytes vo (elem_value e) \<noteq> 0" using assms(4) e(1) by (auto simp: sized_def deref_def dest!: map_of_SomeD)
  then show ?thesis
    using assms by (simp add: ht_insertOrReplace_old [OF assms(1) Some e(1)] ht_size_ok_def
        updateDataSize.simps sum_modify [OF e(1)] elem_size_def e(2) new_elem_def vops_okD Let_def)
qed

lemma ht_size_updateValue:
  assumes "ht_inv t" "ht_size_ok vo t" "ht_updateValue vo k f t = Some t'"
  shows "ht_size_ok vo t'"
proof -
  from assms obtain it where it: "ht_map t k = Some it"
    using ht_updateValue_None [of t vo k f] ht_find_None [of t k] by (cases "ht_map t k") auto
  with ht_map_SomeD [OF assms(1)] obtain e where e: "deref t it = Some e" "elem_key e = k" by blast
  show ?thesis
    using assms(2,3) unfolding ht_updateValue_old [OF it e(1)]
    by (auto simp: ht_size_ok_def updateDataSize.simps sum_modify [OF e(1)] elem_size_def e(2)
        Let_def split: if_splits)
qed

lemma ht_size_erase:
  assumes "ht_inv t" "ht_size_ok vo t"
  shows "ht_size_ok vo (snd (ht_erase vo k t))"
proof (cases "ht_map t k")
  case None
  then show ?thesis using assms by (simp add: ht_erase_absent)
next
  case (Some it)
  with ht_map_SomeD [OF assms(1)] obtain e where e: "deref t it = Some e" "elem_key e = k" by blast
  have "distinct (map fst (ht_list t))" using assms(1) by (simp add: ht_inv_def)
  then have "alist_sum (elem_size vo) (AList.delete it (ht_list t)) =
      alist_sum (elem_size vo) (ht_list t) - elem_size vo e"
    using e(1) by (simp add: alist_sum_delete deref_def)
  moreover have "elem_size vo ((setFreeKey \<circ> setInactiveInMap) x) = elem_size vo x" for x
    by simp
  ultimately show ?thesis
    using assms(2) by (simp add: ht_erase_old [OF Some e(1)] ht_size_ok_def updateDataSize.simps
        sum_modify_flag) (simp add: list_erase_def elem_size_def e(2))
qed

lemma ht_size_poke:
  assumes "\<And>v. sizeInBytes vo (f v) = sizeInBytes vo v" "ht_size_ok vo t"
  shows "ht_size_ok vo (ht_poke k f t)"
  using assms by (auto simp: ht_poke_def ht_size_ok_def elem_size_def split: option.split)

lemma ht_size_clear_iters:
  assumes "distinct (map fst (ht_list t))" "ht_size_ok vo t"
  shows "ht_size_ok vo (clear_iters vo its t)"
  using assms
proof (induction its arbitrary: t)
  case (Cons itr its)
  show ?case
  proof (cases "deref t itr")
    case (Some e)
    then have "alist_sum (elem_size vo) (AList.delete itr (ht_list t)) =
        alist_sum (elem_size vo) (ht_list t) - elem_size vo e"
      using Cons.prems(1) by (simp add: alist_sum_delete deref_def)
    with Some Cons.prems show ?thesis
      by (simp, intro Cons.IH) (simp_all add: list_erase_def ht_size_ok_def updateDataSize.simps
          elem_size_def AList.distinct_delete)
  qed (use Cons in simp)
qed simp

lemma ht_size_clearOutdatedNodes:
  "ht_inv t \<Longrightarrow> ht_size_ok vo t \<Longrightarrow> ht_size_ok vo (ht_clearOutdatedNodes vo t)"
  using ht_size_clear_iters [of t vo "snapshot_invalid_iters t"]
  by (simp add: ht_inv_def ht_clearOutdatedNodes_def ht_size_ok_def)


subsection \<open>Snapshot isolation\<close>

text \<open>The mutations a request may apply while a snapshot is being written, and what the snapshot
  writer reads: the keys and values of the first \<open>n\<close> list elements, where \<open>n\<close> is the list size
  taken when snapshot mode was enabled.\<close>

datatype 'v ht_op =
  OpInsert string 'v
| OpInsertOrReplace string 'v
| OpErase string
| OpUpdate string "'v \<Rightarrow> 'v"

fun ht_exec :: "'v vops \<Rightarrow> 'v ht_op \<Rightarrow> 'v htable \<Rightarrow> 'v htable" where
  "ht_exec vo (OpInsert k v) t = snd (ht_insert vo k v t)"
| "ht_exec vo (OpInsertOrReplace k v) t = ht_insertOrReplace vo k v t"
| "ht_exec vo (OpErase k) t = snd (ht_erase vo k t)"
| "ht_exec vo (OpUpdate k f) t = (case ht_updateValue vo k f t of None \<Rightarrow> t | Some t' \<Rightarrow> t')"

definition snapshot_view :: "nat \<Rightarrow> 'v htable \<Rightarrow> (string \<times> 'v) list" where
  "snapshot_view n t = map (\<lambda>p. (elem_key (snd p), elem_value (snd p))) (take n (ht_list t))"

definition frozen :: "nat \<Rightarrow> nat \<Rightarrow> 'v htable \<Rightarrow> bool" where
  "frozen n ver t \<longleftrightarrow> ht_inv t \<and> snapshot_mode t \<and> snapshot_up_to_version t = ver \<and>
     n \<le> length (ht_list t) \<and> (\<forall>p \<in> set (take n (ht_list t)). elem_version (snd p) \<le> ver)"

definition versions_ok :: "'v htable \<Rightarrow> bool" where
  "versions_ok t \<longleftrightarrow> (\<forall>p \<in> set (ht_list t). elem_version (snd p) \<le> current_version t)"

lemma take_map_entry: "take n (AList.map_entry k f xs) = AList.map_entry k f (take n xs)"
  by (induction xs arbitrary: n) (auto simp: take_Cons split: nat.split)

lemma map_map_entry_eq:
  "(\<And>v. (k, v) \<in> set xs \<Longrightarrow> h (k, f v) = h (k, v)) \<Longrightarrow> map h (AList.map_entry k f xs) = map h xs"
  by (induction xs) auto

lemma set_map_entry_snd:
  "p \<in> set (AList.map_entry k f xs) \<Longrightarrow> p \<in> set xs \<or> (\<exists>v. (k, v) \<in> set xs \<and> p = (k, f v))"
  by (induction xs) (auto split: if_splits)

text \<open>In-place writes that keep key, value and version, and in-place writes to an element younger
  than the snapshot, both leave the view alone.\<close>

lemma frozen_modify_flag:
  assumes "frozen n ver t"
    "\<And>e. elem_key (f e) = elem_key e" "\<And>e. elem_value (f e) = elem_value e"
    "\<And>e. elem_version (f e) = elem_version e"
  shows "frozen n ver (list_modify it f t)" "snapshot_view n (list_modify it f t) = snapshot_view n t"
  using assms
  by (auto simp: frozen_def ht_inv_modify [unfolded list_modify_def] snapshot_view_def
      list_modify_def take_map_entry map_map_entry_eq dest!: set_map_entry_snd)

lemma frozen_modify_young:
  assumes "frozen n ver t" "deref t it = Some e" "ver < elem_version e"
    "\<And>e. elem_key (f e) = elem_key e"
  shows "frozen n ver (list_modify it f t)" "snapshot_view n (list_modify it f t) = snapshot_view n t"
proof -
  have d: "distinct (map fst (ht_list t))" using assms(1) by (simp add: frozen_def ht_inv_def)
  have "v = e" if "(it, v) \<in> set (ht_list t)" for v
    using map_of_is_SomeI [OF d that] assms(2) by (simp add: deref_def)
  then have old: "(it, v) \<notin> set (take n (ht_list t))" for v
    using assms(1,3) unfolding frozen_def
    by (metis leD set_take_subset snd_conv subsetD)
  have noop: "AList.map_entry it f (take n (ht_list t)) = take n (ht_list t)"
    using old by (intro map_entry_notin) auto
  show "frozen n ver (list_modify it f t)"
    using assms(1,4) noop by (simp add: frozen_def ht_inv_modify)
      (simp add: list_modify_def take_map_entry length_map_entry)
  show "snapshot_view n (list_modify it f t) = snapshot_view n t"
    by (simp add: snapshot_view_def list_modify_def take_map_entry noop)
qed

lemma frozen_append:
  assumes "frozen n ver t" "ht_inv (ht_append k e old t)"
  shows "frozen n ver (ht_append k e old t)" "snapshot_view n (ht_append k e old t) = snapshot_view n t"
  using assms by (auto simp: frozen_def snapshot_view_def) (simp add: ht_append_def)

lemma frozen_updateDataSize [simp]:
  "frozen n ver (updateDataSize op a b c d t) = frozen n ver t"
  "snapshot_view n (updateDataSize op a b c d t) = snapshot_view n t"
  by (simp_all add: frozen_def snapshot_view_def)

lemma frozen_unindex:
  assumes "frozen n ver t" "ht_map t k = Some it"
  shows "frozen n ver (t\<lparr>snapshot_invalid_iters := snapshot_invalid_iters t @ [it],
                   ht_map := (ht_map t)(k := None)\<rparr>)"
  using assms by (simp add: frozen_def ht_inv_unindex)

lemma frozen_retire_append:
  assumes "frozen n ver t" "ht_map t k = Some it" "elem_key e = k"
  shows "frozen n ver (ht_append k e [it] (list_modify it setInactiveInMap t))"
    "snapshot_view n (ht_append k e [it] (list_modify it setInactiveInMap t)) = snapshot_view n t"
proof -
  have "ht_inv (ht_append k e [it] (list_modify it setInactiveInMap t))"
    using assms by (simp add: frozen_def ht_inv_retire_append)
  moreover have "frozen n ver (list_modify it setInactiveInMap t)"
    "snapshot_view n (list_modify it setInactiveInMap t) = snapshot_view n t"
    using frozen_modify_flag [OF assms(1), of setInactiveInMap it]
    by (simp_all add: setInactiveInMap_def)
  ultimately show "frozen n ver (ht_append k e [it] (list_modify it setInactiveInMap t))"
    "snapshot_view n (ht_append k e [it] (list_modify it setInactiveInMap t)) = snapshot_view n t"
    using frozen_append [of n ver "list_modify it setInactiveInMap t" k e "[it]"] by simp_all
qed

lemma frozen_exec:
  assumes "frozen n ver t"
  shows "frozen n ver (ht_exec vo op t) \<and> snapshot_view n (ht_exec vo op t) = snapshot_view n t"
proof -
  have inv: "ht_inv t" and sm: "snapshot_mode t" and up: "snapshot_up_to_version t = ver"
    using assms by (simp_all add: frozen_def)
  show ?thesis
  proof (cases op)
    case (OpInsert k v)
    then show ?thesis
      using assms inv by (cases "ht_map t k")
        (simp_all add: ht_insert_new ht_insert_old frozen_append ht_inv_append setActiveInMap_def new_elem_def)
  next
    case (OpInsertOrReplace k v)
    show ?thesis
    proof (cases "ht_map t k")
      case None
      then show ?thesis
        using assms inv OpInsertOrReplace
        by (simp add: ht_insertOrReplace_new frozen_append ht_inv_append setActiveInMap_def new_elem_def)
    next
      case (Some it)
      with ht_map_SomeD [OF inv] obtain e where "deref t it = Some e" by blast
      then show ?thesis
        using assms inv sm Some OpInsertOrReplace
        by (simp add: ht_insertOrReplace_old frozen_retire_append new_elem_def)
    qed
  next
    case (OpErase k)
    show ?thesis
    proof (cases "ht_map t k")
      case None
      then show ?thesis using assms OpErase by (simp add: ht_erase_absent)
    next
      case (Some it)
      with ht_map_SomeD [OF inv] obtain e where e: "deref t it = Some e" by blast
      show ?thesis
        using frozen_modify_flag [OF frozen_unindex [OF assms Some], of "setFreeKey \<circ> setInactiveInMap" it] OpErase sm
        by (simp add: ht_erase_old [OF Some e] setFreeKey_def setInactiveInMap_def)
          (simp add: snapshot_view_def)
    qed
  next
    case (OpUpdate k f)
    show ?thesis
    proof (cases "ht_map t k")
      case None
      then show ?thesis
        using assms inv OpUpdate ht_updateValue_None [OF inv, of vo k f]
        by (simp add: ht_find_None)
    next
      case (Some it)
      with ht_map_SomeD [OF inv] obtain e where "deref t it = Some e" "elem_key e = k" by blast
      then show ?thesis
        using assms sm up Some OpUpdate
        by (simp add: ht_updateValue_old frozen_retire_append frozen_modify_young)
    qed
  qed
qed

lemma frozen_run:
  "frozen n ver t \<Longrightarrow> frozen n ver (fold (ht_exec vo) ops t) \<and>
     snapshot_view n (fold (ht_exec vo) ops t) = snapshot_view n t"
  by (induction ops arbitrary: t) (simp_all add: frozen_exec)

lemma frozen_enable:
  "ht_inv t \<Longrightarrow> versions_ok t \<Longrightarrow>
     frozen (length (ht_list t)) (current_version t) (ht_enableSnapshotMode (current_version t) t)"
  by (simp add: frozen_def) (simp add: ht_enableSnapshotMode_def versions_ok_def)


subsection \<open>Reachable tables\<close>

text \<open>The life of a container: mutations, entering snapshot mode at the current version, leaving it
  and dropping the outdated nodes.\<close>

inductive ht_reach :: "'v vops \<Rightarrow> 'v htable \<Rightarrow> bool" for vo where
  reach_empty: "ht_reach vo ht_empty"
| reach_exec: "ht_reach vo t \<Longrightarrow> ht_reach vo (ht_exec vo op t)"
| reach_enable: "ht_reach vo t \<Longrightarrow> ht_reach vo (ht_enableSnapshotMode (current_version t) t)"
| reach_disable: "ht_reach vo t \<Longrightarrow> ht_reach vo (ht_disableSnapshotMode t)"
| reach_clear: "ht_reach vo t \<Longrightarrow> ht_reach vo (ht_clearOutdatedNodes vo t)"

lemma ht_inv_exec: "ht_inv t \<Longrightarrow> ht_inv (ht_exec vo op t)"
  by (cases op) (auto split: option.split)

lemma ht_size_exec: "ht_inv t \<Longrightarrow> vops_ok vo \<Longrightarrow> ht_size_ok vo t \<Longrightarrow> sized vo t \<Longrightarrow> ht_size_ok vo (ht_exec vo op t)"
  by (cases op)
    (auto simp: ht_size_insert ht_size_insertOrReplace ht_size_erase ht_size_updateValue split: option.split)

lemma versions_ok_modify:
  "versions_ok t \<Longrightarrow> (\<And>e. elem_version (f e) = elem_version e) \<Longrightarrow> versions_ok (list_modify it f t)"
  by (auto simp: versions_ok_def list_modify_def dest!: set_map_entry_snd)

lemma versions_ok_append:
  "versions_ok t \<Longrightarrow> elem_version e \<le> current_version t \<Longrightarrow> versions_ok (ht_append k e old t)"
  by (auto simp: versions_ok_def ht_append_def)

lemma versions_ok_erase: "versions_ok t \<Longrightarrow> versions_ok (list_erase it t)"
  by (auto simp: versions_ok_def list_erase_def set_delete)

lemma versions_ok_fields [simp]:
  "versions_ok (updateDataSize op a b c d t) = versions_ok t"
  "versions_ok (t\<lparr>snapshot_invalid_iters := its\<rparr>) = versions_ok t"
  "versions_ok (t\<lparr>ht_map := m\<rparr>) = versions_ok t"
  "current_version (list_modify it f t) = current_version t"
  by (simp_all add: versions_ok_def list_modify_def)

lemmas versions_ok_intros = versions_ok_modify versions_ok_append versions_ok_erase

lemma versions_ok_exec:
  assumes "ht_inv t" "versions_ok t"
  shows "versions_ok (ht_exec vo op t)"
proof (cases op)
  case (OpInsert k v)
  then show ?thesis using assms
    by (cases "ht_map t k") (auto simp: ht_insert_new ht_insert_old setActiveInMap_def new_elem_def
        intro!: versions_ok_intros)
next
  case (OpInsertOrReplace k v)
  then show ?thesis using assms ht_map_SomeD [OF assms(1), of k]
    by (cases "ht_map t k") (auto simp: ht_insertOrReplace_new ht_insertOrReplace_old
        setActiveInMap_def setInactiveInMap_def new_elem_def intro!: versions_ok_intros)
next
  case (OpErase k)
  then show ?thesis using assms ht_map_SomeD [OF assms(1), of k]
    by (cases "ht_map t k") (auto simp: ht_erase_absent ht_erase_old setFreeKey_def
        setInactiveInMap_def intro!: versions_ok_intros)
next
  case (OpUpdate k f)
  then show ?thesis using assms ht_map_SomeD [OF assms(1), of k] ht_updateValue_None [OF assms(1), of vo k f]
    by (cases "ht_map t k") (auto simp: ht_updateValue_old ht_find_None setInactiveInMap_def
        intro!: versions_ok_intros)
qed

lemma versions_ok_clear_iters: "versions_ok t \<Longrightarrow> versions_ok (clear_iters vo its t)"
  by (induction its arbitrary: t) (simp_all add: versions_ok_erase split: option.split)

lemma ht_reach_inv:
  "ht_reach vo t \<Longrightarrow> ht_inv t \<and> versions_ok t"
proof (induction rule: ht_reach.induct)
  case reach_empty
  show ?case by (simp add: ht_inv_empty) (simp add: versions_ok_def ht_empty_def)
next
  case (reach_exec t op)
  then show ?case by (simp add: ht_inv_exec versions_ok_exec)
next
  case (reach_clear t)
  then show ?case
    by (auto simp: ht_clearOutdatedNodes_def versions_ok_clear_iters clear_iters_inv)
qed (auto, auto simp: versions_ok_def ht_enableSnapshotMode_def ht_disableSnapshotMode_def le_Suc_eq)

text \<open>The same life, during which the table never holds a value of size zero.\<close>

inductive ht_reach_sized :: "'v vops \<Rightarrow> 'v htable \<Rightarrow> bool" for vo where
  sized_empty: "ht_reach_sized vo ht_empty"
| sized_exec: "ht_reach_sized vo t \<Longrightarrow> sized vo t \<Longrightarrow> ht_reach_sized vo (ht_exec vo op t)"
| sized_enable: "ht_reach_sized vo t \<Longrightarrow> ht_reach_sized vo (ht_enableSnapshotMode (current_version t) t)"
| sized_disable: "ht_reach_sized vo t \<Longrightarrow> ht_reach_sized vo (ht_disableSnapshotMode t)"
| sized_clear: "ht_reach_sized vo t \<Longrightarrow> ht_reach_sized vo (ht_clearOutdatedNodes vo t)"

lemma ht_reach_sized_reach: "ht_reach_sized vo t \<Longrightarrow> ht_reach vo t"
  by (induction rule: ht_reach_sized.induct) (auto intro: ht_reach.intros)

lemma ht_reach_size:
  "ht_reach_sized vo t \<Longrightarrow> vops_ok vo \<Longrightarrow> ht_size_ok vo t"
proof (induction rule: ht_reach_sized.induct)
  case sized_empty
  show ?case by (simp add: ht_size_ok_def ht_empty_def)
next
  case (sized_exec t op)
  then show ?case using ht_reach_inv [OF ht_reach_sized_reach [OF sized_exec.hyps(1)]] by (simp add: ht_size_exec)
next
  case (sized_clear t)
  then show ?case using ht_reach_inv [OF ht_reach_sized_reach [OF sized_clear.hyps]] by (simp add: ht_size_clearOutdatedNodes)
qed (simp_all add: ht_size_ok_def ht_enableSnapshotMode_def ht_disableSnapshotMode_def)

lemma data_size_sum:
  assumes "ht_reach_sized vo t" "vops_ok vo"
  shows "approximate_data_size t = (\<Sum>(it, e) \<leftarrow> ht_list t. key_size (elem_key e) + sizeInBytes vo (elem_value e))"
    "ht_recalculateDataSize vo t = t"
proof -
  have t: "approximate_data_size t = alist_sum (elem_size vo) (ht_list t)"
    using ht_reach_size [OF assms] by (simp add: ht_size_ok_def)
  moreover have "alist_sum (elem_size vo) (ht_list t) =
      (\<Sum>(it, e) \<leftarrow> ht_list t. key_size (elem_key e) + sizeInBytes vo (elem_value e))"
    by (simp add: alist_sum_def elem_size_def comp_def case_prod_unfold)
  ultimately show "approximate_data_size t = (\<Sum>(it, e) \<leftarrow> ht_list t. key_size (elem_key e) + sizeInBytes vo (elem_value e))"
    by simp
  show "ht_recalculateDataSize vo t = t" using t by (simp add: ht_recalculateDataSize_def sum_sizes_alist_sum)
qed

lemma ht_reach_run: "ht_reach vo t \<Longrightarrow> ht_reach vo (fold (ht_exec vo) ops t)"
  by (induction ops arbitrary: t) (auto intro: ht_reach.intros)


section \<open>The container interface\<close>

text \<open>What the storage relies on when it uses a container: an invariant every operation keeps, and
  each operation as an update of the map \<open>find\<close>.  \<open>cp\<close> is the copy of a value the container may
  store in place of the value itself.\<close>

locale kv_container =
  fixes invar :: "'c \<Rightarrow> bool"
    and find :: "'c \<Rightarrow> string \<Rightarrow> 'v option"
    and ins :: "string \<Rightarrow> 'v \<Rightarrow> 'c \<Rightarrow> 'c"
    and del :: "string \<Rightarrow> 'c \<Rightarrow> 'c"
    and upd :: "string \<Rightarrow> ('v \<Rightarrow> 'v) \<Rightarrow> 'c \<Rightarrow> 'c option"
    and poke :: "string \<Rightarrow> ('v \<Rightarrow> 'v) \<Rightarrow> 'c \<Rightarrow> 'c"
    and cp :: "'v \<Rightarrow> 'v"
  assumes finite_find: "invar c \<Longrightarrow> finite (dom (find c))"
    and find_ins: "invar c \<Longrightarrow> find c k = None \<Longrightarrow> find (ins k v c) = (find c)(k \<mapsto> cp v)"
    and find_del: "invar c \<Longrightarrow> find (del k c) = (find c)(k := None)"
    and find_upd: "invar c \<Longrightarrow> find c k = Some v \<Longrightarrow>
          \<exists>c' v'. upd k f c = Some c' \<and> (v' = v \<or> v' = cp v) \<and> find c' = (find c)(k \<mapsto> f v')"
    and find_poke: "invar c \<Longrightarrow> find (poke k f c) = (find c)(k := map_option f (find c k))"
    and invar_ins: "invar c \<Longrightarrow> invar (ins k v c)"
    and invar_del: "invar c \<Longrightarrow> invar (del k c)"
    and invar_upd: "invar c \<Longrightarrow> upd k f c = Some c' \<Longrightarrow> invar c'"
    and invar_poke: "invar c \<Longrightarrow> invar (poke k f c)"
begin

text \<open>The sum of a weight over the contents, and how each operation changes it.\<close>

definition csum :: "(string \<Rightarrow> 'v \<Rightarrow> 'n::ab_group_add) \<Rightarrow> 'c \<Rightarrow> 'n" where
  "csum g c = (\<Sum>k \<in> dom (find c). g k (the (find c k)))"

lemma csum_split:
  assumes "invar c" "find c k = Some v"
  shows "csum g c = g k v + (\<Sum>j \<in> dom (find c) - {k}. g j (the (find c j)))"
  using assms finite_find [OF assms(1)] unfolding csum_def
  by (subst sum.remove [of _ k]) auto

lemma csum_ins:
  assumes "invar c" "find c k = None"
  shows "csum g (ins k v c) = csum g c + g k (cp v)"
proof -
  have "find (ins k v c) k = Some (cp v)" using assms by (simp add: find_ins)
  from csum_split [OF invar_ins [OF assms(1)] this]
  have "csum g (ins k v c) = g k (cp v) + (\<Sum>j \<in> dom (find c) - {k}. g j (the (find (ins k v c) j)))"
    using assms by (simp add: find_ins)
  also have "(\<Sum>j \<in> dom (find c) - {k}. g j (the (find (ins k v c) j))) = csum g c"
    unfolding csum_def using assms by (intro sum.cong) (auto simp: find_ins)
  finally show ?thesis by (simp add: add.commute)
qed

lemma csum_del:
  assumes "invar c" "find c k = Some v"
  shows "csum g (del k c) = csum g c - g k v"
proof -
  have "csum g (del k c) = (\<Sum>j \<in> dom (find c) - {k}. g j (the (find c j)))"
    unfolding csum_def using assms by (intro sum.cong) (auto simp: find_del split: if_splits)
  then show ?thesis using csum_split [OF assms, of g] by simp
qed

lemma csum_upd:
  assumes "invar c" "find c k = Some v" "upd k f c = Some c'"
  shows "\<exists>v'. (v' = v \<or> v' = cp v) \<and> find c' = (find c)(k \<mapsto> f v') \<and>
     csum g c' = csum g c - g k v + g k (f v')"
proof -
  obtain v' where v': "v' = v \<or> v' = cp v" "find c' = (find c)(k \<mapsto> f v')"
    using find_upd [OF assms(1,2), of f] assms(3) by auto
  have eq: "(\<Sum>j \<in> dom (find c') - {k}. g j (the (find c' j))) =
      (\<Sum>j \<in> dom (find c) - {k}. g j (the (find c j)))"
    by (intro sum.cong) (auto simp: v'(2))
  have "csum g c' = g k (f v') + (\<Sum>j \<in> dom (find c) - {k}. g j (the (find c j)))"
    using csum_split [OF invar_upd [OF assms(1,3)], of k "f v'" g] eq by (simp add: v'(2))
  with v' show ?thesis using csum_split [OF assms(1,2), of g] by (auto simp: algebra_simps)
qed

lemma csum_poke:
  assumes "invar c" "\<And>v. g k (f v) = g k v"
  shows "csum g (poke k f c) = csum g c"
proof -
  have "dom (find (poke k f c)) = dom (find c)"
    using assms(1) by (auto simp: find_poke split: if_splits)
  then show ?thesis
    unfolding csum_def using assms by (intro sum.cong) (auto simp: find_poke)
qed

end

interpretation ht: kv_container ht_inv ht_find "\<lambda>k v t. snd (ht_insert vo k v t)"
  "\<lambda>k t. snd (ht_erase vo k t)" "ht_updateValue vo" ht_poke "copyValue vo"
  for vo :: "'v vops"
proof (unfold_locales, goal_cases)
  case (4 c k v f)
  then show ?case by (blast elim: ht_find_updateValue [where vo = vo and f = f])
qed (auto simp: ht_finite_dom ht_find_insert_new ht_find_erase ht_find_poke)



section \<open>Properties\<close>

text \<open>C22: on a table that satisfies the invariant the container operations are the map operations:
  \<^verbatim>\<open>insert\<close> adds a copy of the value exactly when the key is absent and says so, \<^verbatim>\<open>erase\<close> removes the
  key and says whether it was there, \<^verbatim>\<open>updateValue\<close> is undefined exactly on an absent key and
  otherwise rewrites that key only (the updater sees the value or, in snapshot mode, its copy), and
  all keep the invariant.\<close>

theorem hash_table_refines_map:
  assumes "ht_inv t"
  shows "(case ht_insert vo k v t of (b, t') \<Rightarrow> b = (ht_find t k = None) \<and> ht_inv t' \<and>
        ht_find t' = (if b then (ht_find t)(k \<mapsto> copyValue vo v) else ht_find t)) \<and>
     (case ht_erase vo k t of (b, t') \<Rightarrow> b = (ht_find t k \<noteq> None) \<and> ht_inv t' \<and>
        ht_find t' = (ht_find t)(k := None)) \<and>
     (case ht_updateValue vo k f t of
        None \<Rightarrow> ht_find t k = None
      | Some t' \<Rightarrow> ht_inv t' \<and> (\<exists>old. ht_find t k = Some old \<and>
          ht_find t' \<in> {(ht_find t)(k \<mapsto> f old), (ht_find t)(k \<mapsto> f (copyValue vo old))}))"
proof (intro conjI)
  show "case ht_insert vo k v t of (b, t') \<Rightarrow> b = (ht_find t k = None) \<and> ht_inv t' \<and>
      ht_find t' = (if b then (ht_find t)(k \<mapsto> copyValue vo v) else ht_find t)"
  proof (cases "ht_map t k")
    case None
    then show ?thesis
      using assms ht_find_insert_new [OF assms, of k vo v] ht_inv_insert [OF assms, of vo k v]
        ht_find_None [OF assms, of k]
      by (simp add: ht_insert_new)
  next
    case (Some it)
    then show ?thesis using assms ht_find_None [OF assms, of k] by (auto simp: ht_insert_old)
  qed
  show "case ht_erase vo k t of (b, t') \<Rightarrow> b = (ht_find t k \<noteq> None) \<and> ht_inv t' \<and>
      ht_find t' = (ht_find t)(k := None)"
    using ht_find_erase [OF assms, of vo k] ht_inv_erase [OF assms, of vo k]
      ht_find_None [OF assms, of k] ht_map_SomeD [OF assms, of k]
    by (cases "ht_map t k") (auto simp: ht_erase_absent ht_erase_old)
  show "case ht_updateValue vo k f t of None \<Rightarrow> ht_find t k = None
      | Some t' \<Rightarrow> ht_inv t' \<and> (\<exists>old. ht_find t k = Some old \<and>
          ht_find t' \<in> {(ht_find t)(k \<mapsto> f old), (ht_find t)(k \<mapsto> f (copyValue vo old))})"
  proof (cases "ht_find t k")
    case None
    then show ?thesis using ht_updateValue_None [OF assms, of vo k f] by simp
  next
    case (Some old)
    from ht.find_upd [OF assms Some, of vo f] show ?thesis
      using Some by (auto intro: ht_inv_updateValue [OF assms])
  qed
qed

definition example_vops :: "nat vops" where
  "example_vops = \<lparr>sizeInBytes = (\<lambda>_. 8), copyValue = id, assignValue = (\<lambda>_ v. v)\<rparr>"

definition example_table :: "nat htable" where
  "example_table = fold (ht_exec example_vops) [OpInsert ''a'' 1, OpInsert ''b'' 2] ht_empty"

lemma example_table_reach: "ht_reach example_vops example_table"
  unfolding example_table_def by (intro ht_reach_run reach_empty)

theorem hash_table_refines_map_witness:
  "ht_find (snd (ht_erase example_vops ''a'' example_table)) = (ht_find example_table)(''a'' := None)"
  using hash_table_refines_map [of example_table "''a''" example_vops 3 Suc]
    ht_reach_inv [OF example_table_reach] by (auto simp: case_prod_unfold)

text \<open>C23: snapshot isolation.  Take a reachable table, enter snapshot mode at its current version and
  run any sequence of inserts, replacements, erasures and updates: the keys and values of the list
  elements that existed when snapshot mode was enabled, which is what the snapshot writer
  serialises, are unchanged, although the live contents move on.\<close>

theorem snapshot_isolation:
  assumes "ht_reach vo t"
  shows "snapshot_view (fst (ht_snapshotSizeWithVersion t))
       (fold (ht_exec vo) ops (ht_enableSnapshotMode (snd (ht_snapshotSizeWithVersion t)) t)) =
     map (\<lambda>(it, e). (elem_key e, elem_value e)) (ht_list t)"
proof -
  let ?n = "length (ht_list t)" and ?t = "ht_enableSnapshotMode (current_version t) t"
  have "frozen ?n (current_version t) ?t"
    using ht_reach_inv [OF assms] by (simp add: frozen_enable)
  then have "snapshot_view ?n (fold (ht_exec vo) ops ?t) = snapshot_view ?n ?t"
    by (rule frozen_run [THEN conjunct2])
  also have "snapshot_view ?n ?t = map (\<lambda>(it, e). (elem_key e, elem_value e)) (ht_list t)"
    by (simp add: snapshot_view_def ht_enableSnapshotMode_def case_prod_unfold)
  finally show ?thesis by (simp add: ht_snapshotSizeWithVersion_def)
qed

theorem snapshot_isolation_witness:
  "snapshot_view 2 (fold (ht_exec example_vops) [OpErase ''a'', OpUpdate ''b'' Suc]
     (ht_enableSnapshotMode 0 example_table)) = [(''a'', 1), (''b'', 2)] \<and>
   ht_find (fold (ht_exec example_vops) [OpErase ''a'', OpUpdate ''b'' Suc]
     (ht_enableSnapshotMode 0 example_table)) ''b'' = Some 3"
proof -
  have e: "ht_snapshotSizeWithVersion example_table = (2, 0)" by code_simp
  have l: "map (\<lambda>(it, e). (elem_key e, elem_value e)) (ht_list example_table) = [(''a'', 1), (''b'', 2)]"
    by code_simp
  have "ht_find (fold (ht_exec example_vops) [OpErase ''a'', OpUpdate ''b'' Suc]
     (ht_enableSnapshotMode 0 example_table)) ''b'' = Some 3" by code_simp
  then show ?thesis
    using snapshot_isolation [OF example_table_reach, of "[OpErase ''a'', OpUpdate ''b'' Suc]"]
    unfolding e l by simp
qed

text \<open>C36: dropping the outdated nodes of a reachable table changes no lookup and leaves exactly one
  list element per live key.\<close>

theorem clear_outdated_nodes_compacts:
  assumes "ht_reach vo t"
  shows "ht_find (ht_clearOutdatedNodes vo t) = ht_find t \<and>
     distinct (map (elem_key \<circ> snd) (ht_list (ht_clearOutdatedNodes vo t))) \<and>
     set (map (elem_key \<circ> snd) (ht_list (ht_clearOutdatedNodes vo t))) = dom (ht_find t)"
proof -
  have inv: "ht_inv t" using ht_reach_inv [OF assms] by simp
  have e: "snapshot_invalid_iters (ht_clearOutdatedNodes vo t) = []"
    by (simp add: ht_clearOutdatedNodes_def)
  show ?thesis
    using ht_list_live_keys [OF ht_inv_clearOutdatedNodes [OF inv] e] ht_find_clearOutdatedNodes [OF inv, of vo]
    by simp
qed

definition example_outdated :: "nat htable" where
  "example_outdated = fold (ht_exec example_vops) [OpErase ''a'', OpUpdate ''b'' Suc]
     (ht_enableSnapshotMode (current_version example_table) example_table)"

theorem clear_outdated_nodes_compacts_witness:
  "map (elem_key \<circ> snd) (ht_list example_outdated) = [''a'', ''b'', ''b''] \<and>
   ht_find (ht_clearOutdatedNodes example_vops example_outdated) ''b'' = Some 3 \<and>
   set (map (elem_key \<circ> snd) (ht_list (ht_clearOutdatedNodes example_vops example_outdated))) = dom (ht_find example_outdated)"
proof -
  have "ht_reach example_vops example_outdated"
    unfolding example_outdated_def by (intro ht_reach_run reach_enable example_table_reach)
  moreover have "map (elem_key \<circ> snd) (ht_list example_outdated) = [''a'', ''b'', ''b'']" "ht_find example_outdated ''b'' = Some 3"
    by code_simp+
  ultimately show ?thesis using clear_outdated_nodes_compacts by metis
qed

end
