(* ===== verification/KeeperNode.thy ===== *)
theory KeeperNode
  imports ZooKeeperTypes SipHash SnapshotableHashTable
begin

text \<open>
  \<^verbatim>\<open>KeeperMemNode\<close> of src/Coordination/KeeperStorage.h and KeeperStorage.cpp: the value type of the
  in-memory storage, and the digest of a node.

  The pair \<^verbatim>\<open>data\<close>, \<^verbatim>\<open>data_size\<close> is the string \<^verbatim>\<open>getData\<close> returns. The bit field \<^verbatim>\<open>ctime : 63\<close> is a
  63-bit word. The union \<^verbatim>\<open>ephemeral_or_children_data\<close> is a 64-bit word: the whole is the ephemeral
  owner, on a little-endian platform the low half is \<^verbatim>\<open>seq_num\<close> and the high half \<^verbatim>\<open>num_children\<close>.
  The set of child names is a list without repetition; the iteration order of the hash set, which is
  unspecified, is the order of insertion. \<open>sizeof_node\<close> and \<open>sizeof_stringref\<close> are \<^verbatim>\<open>sizeof(KeeperMemNode)\<close>
  and \<^verbatim>\<open>sizeof(StringRef)\<close>. Increments of \<^verbatim>\<open>int32_t\<close> members wrap around.
\<close>

section \<open>The node\<close>

record KeeperMemNode =
  n_czxid :: int64
  n_mzxid :: int64
  n_pzxid :: int64
  n_acl_id :: uint64
  n_mtime :: int64
  n_data :: string
  n_version :: int32
  n_cversion :: int32
  n_aversion :: int32
  n_cached_digest :: uint64
  n_is_ephemeral :: bool
  n_ctime63 :: "63 word"
  n_ephemeral_or_children :: uint64
  n_children :: "string list"

definition KeeperMemNode_new :: KeeperMemNode where
  "KeeperMemNode_new =
     \<lparr>n_czxid = 0, n_mzxid = 0, n_pzxid = 0, n_acl_id = 0, n_mtime = 0, n_data = [], n_version = 0,
      n_cversion = 0, n_aversion = 0, n_cached_digest = 0, n_is_ephemeral = False, n_ctime63 = 0,
      n_ephemeral_or_children = 0, n_children = []\<rparr>"

definition ephemeralOwner :: "KeeperMemNode \<Rightarrow> int64" where
  "ephemeralOwner n = (if n_is_ephemeral n then n_ephemeral_or_children n else 0)"

definition setEphemeralOwner :: "int64 \<Rightarrow> KeeperMemNode \<Rightarrow> KeeperMemNode" where
  "setEphemeralOwner owner n = n\<lparr>n_is_ephemeral := owner \<noteq> 0, n_ephemeral_or_children := owner\<rparr>"

text \<open>The two halves of the union.\<close>

definition hi32 :: "uint64 \<Rightarrow> int32" where "hi32 w = ucast (drop_bit 32 w)"
definition lo32 :: "uint64 \<Rightarrow> int32" where "lo32 w = ucast w"
definition mk64 :: "int32 \<Rightarrow> int32 \<Rightarrow> uint64" where "mk64 h l = push_bit 32 (ucast h) OR ucast l"

definition numChildren :: "KeeperMemNode \<Rightarrow> int32" where
  "numChildren n = (if n_is_ephemeral n then 0 else hi32 (n_ephemeral_or_children n))"

definition setNumChildren :: "int32 \<Rightarrow> KeeperMemNode \<Rightarrow> KeeperMemNode" where
  "setNumChildren c n = n\<lparr>n_ephemeral_or_children := mk64 c (lo32 (n_ephemeral_or_children n))\<rparr>"

definition increaseNumChildren :: "KeeperMemNode \<Rightarrow> KeeperMemNode" where
  "increaseNumChildren n = setNumChildren (hi32 (n_ephemeral_or_children n) + 1) n"

definition decreaseNumChildren :: "KeeperMemNode \<Rightarrow> KeeperMemNode" where
  "decreaseNumChildren n = setNumChildren (hi32 (n_ephemeral_or_children n) - 1) n"

definition seqNum :: "KeeperMemNode \<Rightarrow> int32" where
  "seqNum n = (if n_is_ephemeral n then 0 else lo32 (n_ephemeral_or_children n))"

definition setSeqNum :: "int32 \<Rightarrow> KeeperMemNode \<Rightarrow> KeeperMemNode" where
  "setSeqNum q n = n\<lparr>n_ephemeral_or_children := mk64 (hi32 (n_ephemeral_or_children n)) q\<rparr>"

definition increaseSeqNum :: "KeeperMemNode \<Rightarrow> KeeperMemNode" where
  "increaseSeqNum n = setSeqNum (lo32 (n_ephemeral_or_children n) + 1) n"

definition ctime :: "KeeperMemNode \<Rightarrow> int64" where
  "ctime n = scast (n_ctime63 n)"

definition setCtime :: "uint64 \<Rightarrow> KeeperMemNode \<Rightarrow> KeeperMemNode" where
  "setCtime c n = n\<lparr>n_ctime63 := ucast c\<rparr>"

text \<open>\<^verbatim>\<open>operator=(const KeeperMemNode &)\<close> and the move assignment copy everything but the cached digest;
  the copy and move constructors start from a default node.\<close>

definition node_assign :: "KeeperMemNode \<Rightarrow> KeeperMemNode \<Rightarrow> KeeperMemNode" where
  "node_assign dst src = src\<lparr>n_cached_digest := n_cached_digest dst\<rparr>"

definition node_copy :: "KeeperMemNode \<Rightarrow> KeeperMemNode" where
  "node_copy src = node_assign KeeperMemNode_new src"

definition node_empty :: "KeeperMemNode \<Rightarrow> bool" where
  "node_empty n \<longleftrightarrow> n_data n = [] \<and> n_mzxid n = 0"

definition copyStats :: "Stat \<Rightarrow> KeeperMemNode \<Rightarrow> KeeperMemNode" where
  "copyStats stat n =
     (let n = n\<lparr>n_czxid := st_czxid stat, n_mzxid := st_mzxid stat, n_pzxid := st_pzxid stat,
                n_mtime := st_mtime stat\<rparr>;
          n = setCtime (st_ctime stat) n;
          n = n\<lparr>n_version := st_version stat, n_cversion := st_cversion stat, n_aversion := st_aversion stat\<rparr>
      in if st_ephemeralOwner stat = 0
         then setNumChildren (st_numChildren stat) (n\<lparr>n_is_ephemeral := False\<rparr>)
         else setEphemeralOwner (st_ephemeralOwner stat) n)"

definition setResponseStat :: "KeeperMemNode \<Rightarrow> Stat" where
  "setResponseStat n =
     \<lparr>st_czxid = n_czxid n, st_mzxid = n_mzxid n, st_ctime = ctime n, st_mtime = n_mtime n,
      st_version = n_version n, st_cversion = n_cversion n, st_aversion = n_aversion n,
      st_ephemeralOwner = ephemeralOwner n, st_dataLength = word_of_nat (length (n_data n)),
      st_numChildren = numChildren n, st_pzxid = n_pzxid n\<rparr>"

definition node_sizeInBytes :: "nat \<Rightarrow> nat \<Rightarrow> KeeperMemNode \<Rightarrow> uint64" where
  "node_sizeInBytes sizeof_node sizeof_stringref n =
     word_of_nat sizeof_node + word_of_nat (length (n_children n)) * word_of_nat sizeof_stringref +
     word_of_nat (length (n_data n))"

text \<open>\<^verbatim>\<open>data_size\<close> is 32 bits wide: \<^verbatim>\<open>setData\<close> keeps the size modulo \<open>2 ^ 32\<close>.\<close>

definition setData :: "string \<Rightarrow> KeeperMemNode \<Rightarrow> KeeperMemNode" where
  "setData d n = n\<lparr>n_data := take (length d mod 2 ^ 32) d\<rparr>"

definition addChild :: "string \<Rightarrow> KeeperMemNode \<Rightarrow> KeeperMemNode" where
  "addChild c n = n\<lparr>n_children := (if c \<in> set (n_children n) then n_children n else n_children n @ [c])\<rparr>"

definition removeChild :: "string \<Rightarrow> KeeperMemNode \<Rightarrow> KeeperMemNode" where
  "removeChild c n = n\<lparr>n_children := removeAll c (n_children n)\<rparr>"

definition shallowCopy :: "KeeperMemNode \<Rightarrow> KeeperMemNode" where
  "shallowCopy other = other\<lparr>n_children := []\<rparr>"

section \<open>Digest\<close>

definition calculateDigest :: "string \<Rightarrow> KeeperMemNode \<Rightarrow> uint64" where
  "calculateDigest path n =
     (let h = sip_update_string (SipHash_new 0 0 False) path;
          h = (if n_data n \<noteq> [] then sip_update_string h (n_data n) else h);
          h = sip_update_int 8 h (n_czxid n);
          h = sip_update_int 8 h (n_mzxid n);
          h = sip_update_int 8 h (ctime n);
          h = sip_update_int 8 h (n_mtime n);
          h = sip_update_int 4 h (n_version n);
          h = sip_update_int 4 h (n_cversion n);
          h = sip_update_int 4 h (n_aversion n);
          h = sip_update_int 8 h (ephemeralOwner n);
          h = sip_update_int 4 h (numChildren n);
          h = sip_update_int 8 h (n_pzxid n);
          digest = get64 h
      in if digest = 0 then 1 else digest)"

definition invalidateDigestCache :: "KeeperMemNode \<Rightarrow> KeeperMemNode" where
  "invalidateDigestCache n = n\<lparr>n_cached_digest := 0\<rparr>"

text \<open>\<^verbatim>\<open>getDigest\<close> returns the digest and memoizes it in the node.\<close>

definition getDigest :: "string \<Rightarrow> KeeperMemNode \<Rightarrow> uint64" where
  "getDigest path n = (if n_cached_digest n = 0 then calculateDigest path n else n_cached_digest n)"

definition memoDigest :: "string \<Rightarrow> KeeperMemNode \<Rightarrow> KeeperMemNode" where
  "memoDigest path n = n\<lparr>n_cached_digest := getDigest path n\<rparr>"

text \<open>The instance of the container's value operations.\<close>

definition node_vops :: "nat \<Rightarrow> nat \<Rightarrow> KeeperMemNode vops" where
  "node_vops sizeof_node sizeof_stringref =
     \<lparr>sizeInBytes = node_sizeInBytes sizeof_node sizeof_stringref, copyValue = node_copy,
      assignValue = node_assign\<rparr>"

section \<open>Facts\<close>

lemma hi32_mk64 [simp]: "hi32 (mk64 h l) = h"
  by (simp add: hi32_def mk64_def, rule bit_word_eqI)
    (auto simp: bit_simps dest: bit_imp_le_length)

lemma lo32_mk64 [simp]: "lo32 (mk64 h l) = l"
  by (simp add: lo32_def mk64_def, rule bit_word_eqI)
    (auto simp: bit_simps)

lemma mk64_hi_lo [simp]: "mk64 (hi32 w) (lo32 w) = w"
  by (simp add: hi32_def lo32_def mk64_def, rule bit_word_eqI)
    (auto simp: bit_simps)

lemma mk64_zero [simp]: "mk64 0 0 = 0"
  by (simp add: mk64_def)

lemma hi_lo_zero [simp]: "hi32 0 = 0" "lo32 0 = 0"
  by (simp_all add: hi32_def lo32_def)

lemma calculateDigest_nonzero [simp]: "calculateDigest p n \<noteq> 0"
  by (simp add: calculateDigest_def Let_def)

text \<open>The counters of a node that is not ephemeral.\<close>

lemma counters [simp]:
  "\<not> n_is_ephemeral n \<Longrightarrow> numChildren (increaseNumChildren n) = numChildren n + 1"
  "\<not> n_is_ephemeral n \<Longrightarrow> numChildren (decreaseNumChildren n) = numChildren n - 1"
  "\<not> n_is_ephemeral n \<Longrightarrow> numChildren (increaseSeqNum n) = numChildren n"
  "\<not> n_is_ephemeral n \<Longrightarrow> seqNum (increaseSeqNum n) = seqNum n + 1"
  "\<not> n_is_ephemeral n \<Longrightarrow> seqNum (increaseNumChildren n) = seqNum n"
  "\<not> n_is_ephemeral n \<Longrightarrow> seqNum (decreaseNumChildren n) = seqNum n"
  by (simp_all add: numChildren_def seqNum_def increaseNumChildren_def decreaseNumChildren_def
      increaseSeqNum_def setNumChildren_def setSeqNum_def)

lemma counters_ephemeral [simp]:
  "n_is_ephemeral (increaseNumChildren n) = n_is_ephemeral n"
  "n_is_ephemeral (decreaseNumChildren n) = n_is_ephemeral n"
  "n_is_ephemeral (increaseSeqNum n) = n_is_ephemeral n"
  "n_is_ephemeral (setNumChildren c n) = n_is_ephemeral n"
  by (simp_all add: increaseNumChildren_def decreaseNumChildren_def increaseSeqNum_def
      setNumChildren_def setSeqNum_def)

lemma node_ops_fields [simp]:
  "n_is_ephemeral (setData d n) = n_is_ephemeral n" "numChildren (setData d n) = numChildren n"
  "numChildren (n\<lparr>n_acl_id := a\<rparr>) = numChildren n" "numChildren (n\<lparr>n_children := cs\<rparr>) = numChildren n"
  "numChildren (n\<lparr>n_cached_digest := g\<rparr>) = numChildren n"
  "ephemeralOwner (setData d n) = ephemeralOwner n"
  "n_children (setData d n) = n_children n" "n_acl_id (setData d n) = n_acl_id n"
  by (simp_all add: setData_def numChildren_def ephemeralOwner_def)

text \<open>The digest depends on neither the access control number, the child names nor the cache.\<close>

lemma calculateDigest_fields [simp]:
  "calculateDigest p (n\<lparr>n_acl_id := a\<rparr>) = calculateDigest p n"
  "calculateDigest p (n\<lparr>n_children := cs\<rparr>) = calculateDigest p n"
  "calculateDigest p (n\<lparr>n_cached_digest := g\<rparr>) = calculateDigest p n"
  by (simp_all add: calculateDigest_def ctime_def ephemeralOwner_def numChildren_def Let_def cong: if_cong)

lemma calculateDigest_ops [simp]:
  "calculateDigest p (shallowCopy n) = calculateDigest p n"
  "calculateDigest p (node_copy n) = calculateDigest p n"
  "calculateDigest p (addChild c n) = calculateDigest p n"
  "calculateDigest p (removeChild c n) = calculateDigest p n"
  "calculateDigest p (invalidateDigestCache n) = calculateDigest p n"
  "calculateDigest p (memoDigest p n) = calculateDigest p n"
  by (simp_all add: shallowCopy_def node_copy_def node_assign_def addChild_def removeChild_def
      invalidateDigestCache_def memoDigest_def)

text \<open>A node's cache is coherent for a path when it is empty or holds the digest.\<close>

definition digest_coherent :: "string \<Rightarrow> KeeperMemNode \<Rightarrow> bool" where
  "digest_coherent p n \<longleftrightarrow> n_cached_digest n = 0 \<or> n_cached_digest n = calculateDigest p n"

lemma getDigest_coherent: "digest_coherent p n \<Longrightarrow> getDigest p n = calculateDigest p n"
  by (auto simp: getDigest_def digest_coherent_def)

lemma digest_coherent_ops [simp]:
  "digest_coherent p (invalidateDigestCache n)"
  "digest_coherent p (node_copy n)"
  "digest_coherent p KeeperMemNode_new"
  by (simp_all add: digest_coherent_def invalidateDigestCache_def node_copy_def node_assign_def
      KeeperMemNode_new_def)

lemma digest_coherent_keep [simp]:
  "digest_coherent p (n\<lparr>n_acl_id := a\<rparr>) = digest_coherent p n"
  "digest_coherent p (n\<lparr>n_children := cs\<rparr>) = digest_coherent p n"
  "digest_coherent p (shallowCopy n) = digest_coherent p n"
  "digest_coherent p (addChild c n) = digest_coherent p n"
  "digest_coherent p (removeChild c n) = digest_coherent p n"
  "digest_coherent p n \<Longrightarrow> digest_coherent p (memoDigest p n)"
  by (auto simp: digest_coherent_def shallowCopy_def addChild_def removeChild_def memoDigest_def getDigest_def)

lemma node_vops_simps [simp]:
  "sizeInBytes (node_vops a b) = node_sizeInBytes a b"
  "copyValue (node_vops a b) = node_copy" "assignValue (node_vops a b) = node_assign"
  by (simp_all add: node_vops_def)

section \<open>Properties\<close>

text \<open>C40: what a client reads back.  A node created from statistics and data reports, through
  \<^verbatim>\<open>setResponseStat\<close>, those statistics: the creation time keeps its low 63 bits (sign-extended), the
  data length is that of the stored data modulo \<open>2 ^ 32\<close>, the number of children is reported for
  persistent nodes and is zero for ephemeral ones.  The two 32-bit counters packed into the owner
  word do not disturb each other.\<close>

theorem node_stat_roundtrip:
  "setResponseStat (setData d (copyStats st KeeperMemNode_new)) =
     st\<lparr>st_ctime := scast (ucast (st_ctime st) :: 63 word),
        st_dataLength := word_of_nat (length d),
        st_numChildren := (if st_ephemeralOwner st = 0 then st_numChildren st else 0)\<rparr>"
proof -
  have "word_of_nat (length (take (length d mod 2 ^ 32) d)) = (word_of_nat (length d) :: int32)"
    by (simp add: word_of_nat_eq_iff take_bit_eq_mod min_def)
  then show ?thesis
    by (cases "st_ephemeralOwner st = 0")
      (simp_all add: setResponseStat_def setData_def copyStats_def Let_def setCtime_def ctime_def
        setNumChildren_def setEphemeralOwner_def ephemeralOwner_def numChildren_def KeeperMemNode_new_def)
qed

text \<open>C35: the size counter of the table of nodes is exact. During every life of the table, in and out of snapshot mode,
  in which no node has a size that is 0 modulo the width of the counter, \<^verbatim>\<open>approximate_data_size\<close> is the sum over
  all list elements, outdated ones included, of key size, object size, children and data, modulo the width of the
  counter, so \<^verbatim>\<open>recalculateDataSize\<close> changes nothing.\<close>

theorem data_size_exact:
  assumes "ht_reach_sized (node_vops sizeof_node sizeof_stringref) t"
  shows "approximate_data_size t =
       (\<Sum>(it, e) \<leftarrow> ht_list t. word_of_nat (length (elem_key e) + sizeof_node +
          length (n_children (elem_value e)) * sizeof_stringref + length (n_data (elem_value e)))) \<and>
     ht_recalculateDataSize (node_vops sizeof_node sizeof_stringref) t = t"
proof -
  have "vops_ok (node_vops sizeof_node sizeof_stringref)"
    by (simp add: vops_ok_def node_sizeInBytes_def node_copy_def node_assign_def)
  from data_size_sum [OF assms this] show ?thesis
    by (simp add: key_size_def node_sizeInBytes_def case_prod_unfold add.assoc)
qed

definition example_nodes :: "KeeperMemNode htable" where
  "example_nodes =
     (let vo = node_vops 144 16;
          t = ht_exec vo (OpInsert ''/a'' KeeperMemNode_new) ht_empty;
          t = ht_exec vo (OpInsertOrReplace ''/a'' (KeeperMemNode_new\<lparr>n_data := ''data''\<rparr>)) t;
          t = ht_enableSnapshotMode (current_version t) t
      in ht_exec vo (OpUpdate ''/a'' (addChild ''b'')) t)"

theorem data_size_exact_witness:
  "map (elem_key \<circ> snd) (ht_list example_nodes) = [''/a'', ''/a''] \<and> approximate_data_size example_nodes = 2 * (2 + 144 + 4) + 16 \<and>
   ht_recalculateDataSize (node_vops 144 16) example_nodes = example_nodes"
proof -
  let ?vo = "node_vops 144 16"
  let ?t1 = "ht_exec ?vo (OpInsert ''/a'' KeeperMemNode_new) ht_empty"
  let ?t2 = "ht_exec ?vo (OpInsertOrReplace ''/a'' (KeeperMemNode_new\<lparr>n_data := ''data''\<rparr>)) ?t1"
  let ?t3 = "ht_enableSnapshotMode (current_version ?t2) ?t2"
  have "sized ?vo (ht_empty :: KeeperMemNode htable)" "sized ?vo ?t1" "sized ?vo ?t3" by code_simp+
  then have r: "ht_reach_sized ?vo example_nodes"
    unfolding example_nodes_def Let_def by (intro sized_exec sized_enable sized_empty)
  have "map (elem_key \<circ> snd) (ht_list example_nodes) = [''/a'', ''/a'']"
    "(\<Sum>(it, e) \<leftarrow> ht_list example_nodes. word_of_nat (length (elem_key e) + 144 +
        length (n_children (elem_value e)) * 16 + length (n_data (elem_value e)))) = (2 * (2 + 144 + 4) + 16 :: uint64)"
    by code_simp+
  then show ?thesis using data_size_exact [OF r] by simp
qed

end
