(* ===== verification/KeeperPaths.thy ===== *)
theory KeeperPaths
  imports Prelude
begin

text \<open>
  Paths of Keeper nodes: \<^verbatim>\<open>findLastSlash\<close>, \<^verbatim>\<open>parentNodePath\<close> and \<^verbatim>\<open>getBaseNodeName\<close> of
  src/Coordination/KeeperCommon.cpp and \<^verbatim>\<open>matchPath\<close> of src/Common/ZooKeeper/ZooKeeperCommon.cpp.

  The not-found result \<^verbatim>\<open>npos\<close> is \<open>None\<close>. For a path without a slash \<^verbatim>\<open>parentNodePath\<close> builds a
  \<^verbatim>\<open>StringRef\<close> of size \<^verbatim>\<open>npos\<close>, whose use is undefined behaviour; the model returns \<open>None\<close> there.
\<close>

section \<open>Parent and base name\<close>

abbreviation slash :: char where "slash \<equiv> CHR ''/''"

fun scan_slash :: "string \<Rightarrow> nat \<Rightarrow> nat option" where
  "scan_slash path 0 = (if path ! 0 = slash then Some 0 else None)"
| "scan_slash path (Suc i) = (if path ! Suc i = slash then Some (Suc i) else scan_slash path i)"

definition findLastSlash :: "string \<Rightarrow> nat option" where
  "findLastSlash path = (if path = [] then None else scan_slash path (length path - 1))"

definition parentNodePath :: "string \<Rightarrow> string option" where
  "parentNodePath path =
     (case findLastSlash path of
        None \<Rightarrow> None
      | Some rslash_pos \<Rightarrow> Some (if rslash_pos > 0 then take rslash_pos path else [slash]))"

definition getBaseNodeName :: "string \<Rightarrow> string" where
  "getBaseNodeName path =
     (case findLastSlash path of
        None \<Rightarrow> path
      | Some basename_start \<Rightarrow> drop (Suc basename_start) path)"

text \<open>\<^verbatim>\<open>(std::filesystem::path(dir) / name).generic_string()\<close>: an absolute \<open>name\<close> replaces the path, a
  separator is added when \<open>dir\<close> ends in a file name.\<close>

definition path_join :: "string \<Rightarrow> string \<Rightarrow> string" where
  "path_join dir name =
     (if name \<noteq> [] \<and> hd name = slash then name
      else if dir \<noteq> [] \<and> last dir \<noteq> slash then dir @ slash # name
      else dir @ name)"

section \<open>Matching against a prefix path\<close>

datatype PathMatchResult = NOT_MATCH | EXACT | IS_CHILD

definition strip_slash :: "string \<Rightarrow> string" where
  "strip_slash p = (if p \<noteq> [] \<and> last p = slash then butlast p else p)"

text \<open>\<^verbatim>\<open>std::mismatch\<close>: what is left of both ranges from the first difference on.\<close>

fun mismatch :: "'a list \<Rightarrow> 'a list \<Rightarrow> 'a list \<times> 'a list" where
  "mismatch (x # xs) (y # ys) = (if x = y then mismatch xs ys else (x # xs, y # ys))"
| "mismatch xs ys = (xs, ys)"

definition matchPath :: "string \<Rightarrow> string \<Rightarrow> PathMatchResult" where
  "matchPath path match_to =
     (let (first_it, second_it) = mismatch (strip_slash path) (strip_slash match_to)
      in if second_it \<noteq> [] then NOT_MATCH
         else if first_it = [] then EXACT
         else if hd first_it = slash then IS_CHILD else NOT_MATCH)"

section \<open>Facts\<close>

lemma scan_slash_Some:
  "scan_slash p i = Some n \<Longrightarrow> n \<le> i \<and> p ! n = slash \<and> (\<forall>j. n < j \<and> j \<le> i \<longrightarrow> p ! j \<noteq> slash)"
  by (induction p i rule: scan_slash.induct) (auto split: if_splits simp: le_Suc_eq)

lemma scan_slash_None: "scan_slash p i = None \<longleftrightarrow> (\<forall>j \<le> i. p ! j \<noteq> slash)"
  by (induction p i rule: scan_slash.induct) (auto simp: le_Suc_eq)

lemma findLastSlash_None: "findLastSlash p = None \<longleftrightarrow> slash \<notin> set p"
proof (cases "p = []")
  case False
  then show ?thesis
    by (auto simp: findLastSlash_def scan_slash_None in_set_conv_nth)
      (metis Suc_pred length_greater_0_conv less_Suc_eq_le)
qed (simp add: findLastSlash_def)

lemma findLastSlash_split:
  assumes "slash \<notin> set b"
  shows "findLastSlash (a @ slash # b) = Some (length a)"
proof -
  let ?p = "a @ slash # b"
  have "findLastSlash ?p \<noteq> None" by (simp add: findLastSlash_None)
  then obtain n where n: "findLastSlash ?p = Some n" by blast
  then have s: "scan_slash ?p (length a + length b) = Some n" by (simp add: findLastSlash_def)
  note f = scan_slash_Some [OF s]
  have "\<not> length a < n"
  proof
    assume "length a < n"
    then obtain m where m: "n = length a + Suc m" using less_imp_Suc_add by auto
    then have "m < length b" "?p ! n = b ! m" using f by (simp_all add: nth_append)
    then have "?p ! n \<in> set b" by simp
    with f assms show False by auto
  qed
  moreover have "\<not> n < length a"
  proof
    assume "n < length a"
    with f have "?p ! length a \<noteq> slash" by (metis le_add1)
    then show False by simp
  qed
  ultimately show ?thesis using n by simp
qed

lemma path_decompose:
  assumes "slash \<in> set p"
  obtains a b where "p = a @ slash # b" "slash \<notin> set b"
  using split_list_last [OF assms] by blast

lemma parentNodePath_split:
  "slash \<notin> set b \<Longrightarrow> parentNodePath (a @ slash # b) = Some (if a = [] then [slash] else a)"
  by (simp add: parentNodePath_def findLastSlash_split)

lemma getBaseNodeName_split: "slash \<notin> set b \<Longrightarrow> getBaseNodeName (a @ slash # b) = b"
  by (simp add: getBaseNodeName_def findLastSlash_split)

lemma parentNodePath_None: "parentNodePath p = None \<longleftrightarrow> slash \<notin> set p"
  by (simp add: parentNodePath_def findLastSlash_None split: option.split)
    (metis findLastSlash_None option.distinct(1))

lemma parentNodePath_root [simp]: "parentNodePath [slash] = Some [slash]"
  using parentNodePath_split [of "[]" "[]"] by simp

lemma getBaseNodeName_noslash: "slash \<notin> set (getBaseNodeName p)"
proof (cases "slash \<in> set p")
  case True
  then show ?thesis by (metis getBaseNodeName_split path_decompose)
next
  case False
  then show ?thesis by (simp add: getBaseNodeName_def findLastSlash_None [symmetric])
qed

text \<open>Appending slash-free text, such as a sequence number, keeps the parent.\<close>

lemma parentNodePath_append:
  assumes "parentNodePath p = Some q" "slash \<notin> set s"
  shows "parentNodePath (p @ s) = Some q"
proof -
  have "slash \<in> set p" using assms(1) parentNodePath_None [of p] by (cases "slash \<in> set p") auto
  then obtain a b where p: "p = a @ slash # b" "slash \<notin> set b" by (rule path_decompose)
  then show ?thesis using assms parentNodePath_split [of "b @ s" a] parentNodePath_split [of b a] by simp
qed

lemma getBaseNodeName_append:
  assumes "slash \<in> set p" "slash \<notin> set s"
  shows "getBaseNodeName (p @ s) = getBaseNodeName p @ s"
  using assms by (metis append.assoc append_Cons getBaseNodeName_split path_decompose set_append UnE)

lemma parentNodePath_shorter:
  assumes "parentNodePath p = Some q" "p \<noteq> [slash]"
  shows "length q < length p \<or> (q = [slash] \<and> hd p = slash)"
proof -
  have "slash \<in> set p" using assms(1) parentNodePath_None [of p] by (cases "slash \<in> set p") auto
  then obtain a b where p: "p = a @ slash # b" "slash \<notin> set b" by (rule path_decompose)
  then show ?thesis using assms by (auto simp: parentNodePath_split split: if_splits)
qed

lemma parentNodePath_join:
  assumes "name \<noteq> []" "slash \<notin> set name" "dir = [slash] \<or> (dir \<noteq> [] \<and> last dir \<noteq> slash)"
  shows "parentNodePath (path_join dir name) = Some dir"
    and "getBaseNodeName (path_join dir name) = name"
proof -
  have "hd name \<noteq> slash" using assms(1,2) by (cases name) auto
  then have "path_join dir name = (if dir = [slash] then [] else dir) @ slash # name"
    using assms by (auto simp: path_join_def)
  then show "parentNodePath (path_join dir name) = Some dir"
    "getBaseNodeName (path_join dir name) = name"
    using assms by (auto simp: parentNodePath_split getBaseNodeName_split
        parentNodePath_split [of name "[]", simplified] getBaseNodeName_split [of name "[]", simplified])
qed

lemma mismatch_split:
  "mismatch xs ys = (r, s) \<Longrightarrow> \<exists>c. xs = c @ r \<and> ys = c @ s \<and> (r = [] \<or> s = [] \<or> hd r \<noteq> hd s)"
proof (induction xs ys rule: mismatch.induct)
  case (1 x xs y ys)
  show ?case
  proof (cases "x = y")
    case True
    then have "mismatch xs ys = (r, s)" using 1(2) by simp
    then show ?thesis using 1(1) True by (metis append_Cons)
  qed (use 1(2) in auto)
qed auto

lemma mismatch_append: "mismatch (c @ r) c = (r, [])"
  by (induction c) (cases r, auto)

lemma matchPath_iff:
  "matchPath p q \<noteq> NOT_MATCH \<longleftrightarrow>
     (\<exists>r. strip_slash p = strip_slash q @ r \<and> (r = [] \<or> hd r = slash))"
proof
  assume "matchPath p q \<noteq> NOT_MATCH"
  then show "\<exists>r. strip_slash p = strip_slash q @ r \<and> (r = [] \<or> hd r = slash)"
    using mismatch_split [of "strip_slash p" "strip_slash q"]
    by (fastforce simp: matchPath_def Let_def split: prod.splits if_splits)
next
  assume "\<exists>r. strip_slash p = strip_slash q @ r \<and> (r = [] \<or> hd r = slash)"
  then obtain r where r: "strip_slash p = strip_slash q @ r" "r = [] \<or> hd r = slash" by blast
  have "mismatch (strip_slash p) (strip_slash q) = (r, [])" by (simp add: r(1) mismatch_append)
  then show "matchPath p q \<noteq> NOT_MATCH" using r(2) by (auto simp: matchPath_def)
qed

lemma strip_slash_cases: "p = strip_slash p \<or> p = strip_slash p @ [slash]"
  by (cases p rule: rev_cases) (auto simp: strip_slash_def)

lemma strip_slash_id: "p = [] \<or> last p \<noteq> slash \<Longrightarrow> strip_slash p = p"
  by (auto simp: strip_slash_def)

text \<open>Nothing is created below a matching path under a name that does not match.\<close>

lemma matchPath_child:
  assumes "matchPath q k \<noteq> NOT_MATCH" "parentNodePath p = Some q" "q \<noteq> [slash]" "getBaseNodeName p \<noteq> []"
  shows "matchPath p k \<noteq> NOT_MATCH"
proof -
  have "slash \<in> set p" using assms(2) parentNodePath_None [of p] by (cases "slash \<in> set p") auto
  then obtain a b where p: "p = a @ slash # b" "slash \<notin> set b" by (rule path_decompose)
  then have q: "a = q" "b \<noteq> []"
    using assms by (auto simp: parentNodePath_split getBaseNodeName_split split: if_splits)
  obtain r where r: "strip_slash q = strip_slash k @ r" "r = [] \<or> hd r = slash"
    using assms(1) matchPath_iff by blast
  have "last b \<noteq> slash" using p(2) q(2) by (metis last_in_set)
  then have "strip_slash p = p" using p q by (simp add: strip_slash_id)
  also obtain s where "q = strip_slash q @ s" "s = [] \<or> s = [slash]" using strip_slash_cases [of q] by fastforce
  then have "p = strip_slash k @ r @ s @ slash # b" "r @ s @ slash # b = [] \<or> hd (r @ s @ slash # b) = slash"
    using p q r by (auto simp: hd_append)
  ultimately show ?thesis using matchPath_iff by metis
qed

section \<open>Properties\<close>

text \<open>C39: the two halves of a path determine it and the path of a child leads back to its directory.
  Whenever \<^verbatim>\<open>parentNodePath\<close> is defined (the path has a slash) the path is the parent, a slash unless
  the parent is the root, and the base name; and the path that listing a directory forms for a child
  name has that directory as parent and that name as base name, for the root and for every directory
  path without a trailing slash.\<close>

theorem path_parent_base:
  assumes "slash \<in> set p" "name \<noteq> []" "slash \<notin> set name"
    "dir = [slash] \<or> (dir \<noteq> [] \<and> last dir \<noteq> slash)"
  shows "(\<exists>q. parentNodePath p = Some q \<and>
       (p = q @ slash # getBaseNodeName p \<or> (q = [slash] \<and> p = slash # getBaseNodeName p))) \<and>
     parentNodePath (path_join dir name) = Some dir \<and> getBaseNodeName (path_join dir name) = name"
proof -
  obtain a b where p: "p = a @ slash # b" "slash \<notin> set b" using assms(1) by (rule path_decompose)
  then show ?thesis
    using parentNodePath_join [OF assms(2-4)]
    by (cases "a = []") (auto simp: parentNodePath_split getBaseNodeName_split
        parentNodePath_split [of b "[]", simplified] getBaseNodeName_split [of b "[]", simplified])
qed

theorem path_parent_base_witness:
  "parentNodePath (path_join ''/a'' ''b'') = Some ''/a'' \<and> getBaseNodeName (path_join ''/a'' ''b'') = ''b''"
  using path_parent_base [of "''/x''" "''b''" "''/a''"] by simp

end
