(* ===== verification/ACLMap.thy ===== *)
theory ACLMap
  imports ZooKeeperTypes
begin

text \<open>
  \<^verbatim>\<open>ACLMap\<close> of src/Coordination/ACLMap.h and ACLMap.cpp: lists of access control entries are stored
  once and nodes refer to them by number, with a usage counter per number. The hash maps are maps;
  the hash function has no observable effect, the comparator is list equality
  (\<open>ACLsComparator_eq\<close>). Identifiers and counters are \<^verbatim>\<open>uint64_t\<close>.
\<close>

section \<open>Operations\<close>

record ACLMap =
  acl_to_num :: "ACLs \<rightharpoonup> uint64"
  num_to_acl :: "uint64 \<rightharpoonup> ACLs"
  usage_counter :: "uint64 \<rightharpoonup> uint64"
  max_acl_id :: uint64

definition ACLMap_empty :: ACLMap where
  "ACLMap_empty = \<lparr>acl_to_num = Map.empty, num_to_acl = Map.empty, usage_counter = Map.empty,
     max_acl_id = 1\<rparr>"

fun ACLs_equal_from :: "ACLs \<Rightarrow> ACLs \<Rightarrow> bool" where
  "ACLs_equal_from (l # ls) (r # rs) =
     (if permissions l \<noteq> permissions r then False
      else if scheme l \<noteq> scheme r then False
      else if acl_ident l \<noteq> acl_ident r then False
      else ACLs_equal_from ls rs)"
| "ACLs_equal_from _ _ = True"

definition ACLsComparator :: "ACLs \<Rightarrow> ACLs \<Rightarrow> bool" where
  "ACLsComparator left right = (if length left \<noteq> length right then False else ACLs_equal_from left right)"

definition convertACLs :: "ACLs \<Rightarrow> ACLMap \<Rightarrow> uint64 \<times> ACLMap" where
  "convertACLs acls m =
     (if acls = [] then (0, m)
      else case acl_to_num m acls of
             Some n \<Rightarrow> (n, m)
           | None \<Rightarrow>
               (let index = max_acl_id m
                in (index, m\<lparr>max_acl_id := max_acl_id m + 1,
                             acl_to_num := (acl_to_num m)(acls \<mapsto> index),
                             num_to_acl := (num_to_acl m)(index \<mapsto> acls)\<rparr>)))"

definition convertNumber :: "uint64 \<Rightarrow> ACLMap \<Rightarrow> exn + ACLs" where
  "convertNumber acls_id m =
     (if acls_id = 0 then Inr []
      else case num_to_acl m acls_id of None \<Rightarrow> Inl LOGICAL_ERROR | Some acls \<Rightarrow> Inr acls)"

definition addMapping :: "uint64 \<Rightarrow> ACLs \<Rightarrow> ACLMap \<Rightarrow> ACLMap" where
  "addMapping acls_id acls m =
     m\<lparr>num_to_acl := (num_to_acl m)(acls_id \<mapsto> acls),
       acl_to_num := (acl_to_num m)(acls \<mapsto> acls_id),
       max_acl_id := max (acls_id + 1) (max_acl_id m)\<rparr>"

definition usage :: "ACLMap \<Rightarrow> uint64 \<Rightarrow> uint64" where
  "usage m n = (case usage_counter m n of None \<Rightarrow> 0 | Some c \<Rightarrow> c)"

definition addUsage :: "uint64 \<Rightarrow> ACLMap \<Rightarrow> ACLMap" where
  "addUsage acl_id m = m\<lparr>usage_counter := (usage_counter m)(acl_id \<mapsto> usage m acl_id + 1)\<rparr>"

text \<open>\<^verbatim>\<open>num_to_acl[acl_id]\<close> of an unknown number is the empty list.\<close>

definition removeUsage :: "uint64 \<Rightarrow> ACLMap \<Rightarrow> ACLMap" where
  "removeUsage acl_id m =
     (case usage_counter m acl_id of
        None \<Rightarrow> m
      | Some c \<Rightarrow>
          (if c - 1 = 0
           then (let acls = (case num_to_acl m acl_id of None \<Rightarrow> [] | Some a \<Rightarrow> a)
                 in m\<lparr>num_to_acl := (num_to_acl m)(acl_id := None),
                      acl_to_num := (acl_to_num m)(acls := None),
                      usage_counter := (usage_counter m)(acl_id := None)\<rparr>)
           else m\<lparr>usage_counter := (usage_counter m)(acl_id \<mapsto> c - 1)\<rparr>))"

section \<open>Invariant\<close>

lemma ACLs_equal_from_eq: "length l = length r \<Longrightarrow> ACLs_equal_from l r \<longleftrightarrow> l = r"
  by (induction l r rule: list_induct2) auto

lemma ACLsComparator_eq: "ACLsComparator l r \<longleftrightarrow> l = r"
  by (auto simp: ACLsComparator_def ACLs_equal_from_eq)

text \<open>The two maps are inverse to each other, numbers in use lie between 1 and \<open>max_acl_id\<close>, counters
  are positive.\<close>

definition acl_inv :: "ACLMap \<Rightarrow> bool" where
  "acl_inv m \<longleftrightarrow>
     (\<forall>n a. num_to_acl m n = Some a \<longleftrightarrow> acl_to_num m a = Some n) \<and>
     (\<forall>n a. num_to_acl m n = Some a \<longrightarrow> n \<noteq> 0 \<and> a \<noteq> [] \<and> n < max_acl_id m) \<and>
     (\<forall>n c. usage_counter m n = Some c \<longrightarrow> c \<noteq> 0)"

text \<open>Numbers are never reused while \<open>max_acl_id\<close> does not wrap.\<close>

definition acl_room :: "ACLMap \<Rightarrow> bool" where
  "acl_room m \<longleftrightarrow> max_acl_id m \<noteq> - 1"

text \<open>What a number stands for.\<close>

definition acl_lookup :: "ACLMap \<Rightarrow> uint64 \<Rightarrow> ACLs option" where
  "acl_lookup m n = (if n = 0 then Some [] else num_to_acl m n)"

lemma convertNumber_lookup:
  "convertNumber n m = (case acl_lookup m n of None \<Rightarrow> Inl LOGICAL_ERROR | Some a \<Rightarrow> Inr a)"
  by (simp add: convertNumber_def acl_lookup_def)

lemma acl_inv_empty [simp]: "acl_inv ACLMap_empty"
  by (simp add: acl_inv_def ACLMap_empty_def)

lemma acl_inv_facts:
  assumes "acl_inv m"
  shows "num_to_acl m n = Some a \<longleftrightarrow> acl_to_num m a = Some n"
    "num_to_acl m n = Some a \<Longrightarrow> n \<noteq> 0" "num_to_acl m n = Some a \<Longrightarrow> a \<noteq> []"
    "num_to_acl m n = Some a \<Longrightarrow> n < max_acl_id m"
    "usage_counter m n = Some c \<Longrightarrow> c \<noteq> 0"
  using assms by (auto simp: acl_inv_def)

lemma max_acl_id_fresh: "acl_inv m \<Longrightarrow> num_to_acl m (max_acl_id m) = None"
  using acl_inv_facts(4) [of m "max_acl_id m"] by (cases "num_to_acl m (max_acl_id m)") auto

lemma convertACLs_inv:
  assumes "acl_inv m" "acl_room m" "max_acl_id m \<noteq> 0" "convertACLs acls m = (n, m')"
  shows "acl_inv m'" "acl_lookup m' n = Some acls" "max_acl_id m' \<noteq> 0"
    "\<And>i a. acl_lookup m i = Some a \<Longrightarrow> acl_lookup m' i = Some a" "usage_counter m' = usage_counter m"
proof -
  note inv = acl_inv_facts [OF assms(1)] and fresh = max_acl_id_fresh [OF assms(1)]
  show "acl_inv m'"
  proof (cases "acls = [] \<or> acl_to_num m acls \<noteq> None")
    case True
    then have "m' = m" using assms(4) by (auto simp: convertACLs_def split: if_splits option.splits)
    then show ?thesis using assms(1) by simp
  next
    case False
    then have m': "m' = m\<lparr>max_acl_id := max_acl_id m + 1,
        acl_to_num := (acl_to_num m)(acls \<mapsto> max_acl_id m),
        num_to_acl := (num_to_acl m)(max_acl_id m \<mapsto> acls)\<rparr>"
      using assms(4) by (auto simp: convertACLs_def Let_def split: if_splits option.splits)
    have room: "max_acl_id m \<noteq> - 1" using assms(2) by (simp add: acl_room_def)
    have nofresh: "acl_to_num m a \<noteq> Some (max_acl_id m)" for a
      using fresh inv(1) [of "max_acl_id m" a] by simp
    have noacl: "num_to_acl m k \<noteq> Some acls" for k using False inv(1) [of k acls] by auto
    show ?thesis
      unfolding m' acl_inv_def
      using False inv noacl nofresh assms(3) word_less_succ [OF _ room] word_self_less_succ [OF room]
      by auto
  qed
  show "acl_lookup m' n = Some acls" "max_acl_id m' \<noteq> 0" "usage_counter m' = usage_counter m"
    using assms inv by (auto simp: convertACLs_def acl_lookup_def Let_def acl_room_def
        add_eq_0_iff2 split: if_splits option.splits)
  show "acl_lookup m' i = Some a" if "acl_lookup m i = Some a" for i a
    using assms(4) that fresh by (auto simp: convertACLs_def acl_lookup_def Let_def split: if_splits option.splits)
qed

lemma addUsage_inv:
  assumes "acl_inv m" "usage m n \<noteq> - 1"
  shows "acl_inv (addUsage n m)"
proof -
  have "usage m n + 1 \<noteq> 0" using assms(2) by (simp add: add_eq_0_iff2)
  then show ?thesis using assms(1) by (auto simp: acl_inv_def addUsage_def)
qed

lemma addUsage_lookup [simp]:
  "acl_lookup (addUsage n m) = acl_lookup m" "max_acl_id (addUsage n m) = max_acl_id m"
  "num_to_acl (addUsage n m) = num_to_acl m"
  "usage (addUsage n m) i = (if i = n then usage m n + 1 else usage m i)"
  by (auto simp: addUsage_def acl_lookup_def usage_def fun_eq_iff)

lemma removeUsage_inv:
  assumes "acl_inv m"
  shows "acl_inv (removeUsage n m)" "max_acl_id (removeUsage n m) = max_acl_id m"
    "usage (removeUsage n m) i = (if i = n \<and> usage m n \<noteq> 0 then usage m n - 1 else usage m i)"
    "acl_lookup (removeUsage n m) i = (if i = n \<and> n \<noteq> 0 \<and> usage m n = 1 then None else acl_lookup m i)"
proof -
  note inv = acl_inv_facts [OF assms]
  show "acl_inv (removeUsage n m)"
  proof (cases "usage_counter m n")
    case None
    then show ?thesis using assms by (simp add: removeUsage_def)
  next
    case (Some c)
    show ?thesis
    proof (cases "c - 1 = 0")
      case True
      define b where "b = (case num_to_acl m n of None \<Rightarrow> [] | Some a \<Rightarrow> a)"
      have r: "removeUsage n m = m\<lparr>num_to_acl := (num_to_acl m)(n := None),
          acl_to_num := (acl_to_num m)(b := None), usage_counter := (usage_counter m)(n := None)\<rparr>"
        using True Some by (simp add: removeUsage_def b_def)
      have e: "acl_to_num m [] = None" using inv(1,3) by (cases "acl_to_num m []") auto
      have "((num_to_acl m)(n := None)) k = Some a \<longleftrightarrow> ((acl_to_num m)(b := None)) a = Some k" for k a
      proof (cases "num_to_acl m n")
        case None
        then show ?thesis using e inv(1) [of k a] by (auto simp: b_def)
      next
        case (Some a')
        then have "acl_to_num m a' = Some n" by (simp add: inv(1))
        with Some show ?thesis using inv(1) [of k a] inv(1) [of n a] by (auto simp: b_def)
      qed
      then show ?thesis
        using assms unfolding r acl_inv_def by (auto split: if_splits)
    next
      case False
      then show ?thesis using assms Some unfolding acl_inv_def removeUsage_def by auto
    qed
  qed
  show "max_acl_id (removeUsage n m) = max_acl_id m"
    by (simp add: removeUsage_def Let_def split: option.split)
  show "usage (removeUsage n m) i = (if i = n \<and> usage m n \<noteq> 0 then usage m n - 1 else usage m i)"
    using inv(5) by (auto simp: removeUsage_def usage_def Let_def split: option.splits)
  show "acl_lookup (removeUsage n m) i = (if i = n \<and> n \<noteq> 0 \<and> usage m n = 1 then None else acl_lookup m i)"
    using inv(5) by (auto simp: removeUsage_def usage_def acl_lookup_def Let_def split: option.splits)
qed


section \<open>The registry interface\<close>

text \<open>What the storage relies on: interning a list gives a number that resolves to the list and keeps
  what other numbers resolve to; a number in use keeps resolving until its last use is dropped.\<close>

locale acl_registry =
  fixes ok :: "'r \<Rightarrow> bool"
    and room :: "'r \<Rightarrow> bool"
    and intern :: "ACLs \<Rightarrow> 'r \<Rightarrow> uint64 \<times> 'r"
    and resolve :: "'r \<Rightarrow> uint64 \<Rightarrow> ACLs option"
    and acquire :: "uint64 \<Rightarrow> 'r \<Rightarrow> 'r"
    and release :: "uint64 \<Rightarrow> 'r \<Rightarrow> 'r"
    and uses :: "'r \<Rightarrow> uint64 \<Rightarrow> uint64"
  assumes intern_ok: "ok r \<Longrightarrow> room r \<Longrightarrow> intern a r = (n, r') \<Longrightarrow> ok r'"
    and intern_resolve: "ok r \<Longrightarrow> room r \<Longrightarrow> intern a r = (n, r') \<Longrightarrow> resolve r' n = Some a"
    and intern_keeps: "ok r \<Longrightarrow> room r \<Longrightarrow> intern a r = (n, r') \<Longrightarrow> resolve r i = Some b \<Longrightarrow> resolve r' i = Some b"
    and intern_uses: "ok r \<Longrightarrow> room r \<Longrightarrow> intern a r = (n, r') \<Longrightarrow> uses r' = uses r"
    and acquire_ok: "ok r \<Longrightarrow> uses r n \<noteq> - 1 \<Longrightarrow> ok (acquire n r)"
    and acquire_resolve: "resolve (acquire n r) = resolve r"
    and acquire_uses: "uses (acquire n r) i = (if i = n then uses r n + 1 else uses r i)"
    and release_ok: "ok r \<Longrightarrow> ok (release n r)"
    and release_room: "ok r \<Longrightarrow> room r \<Longrightarrow> room (release n r)"
    and release_resolve: "ok r \<Longrightarrow> i \<noteq> n \<or> uses r n \<noteq> 1 \<Longrightarrow> resolve (release n r) i = resolve r i"
    and release_uses: "ok r \<Longrightarrow> uses (release n r) i = (if i = n \<and> uses r n \<noteq> 0 then uses r n - 1 else uses r i)"
begin

text \<open>Taking a reference to a list, and moving a reference from one number to another list.\<close>

definition take_ref :: "ACLs \<Rightarrow> 'r \<Rightarrow> uint64 \<times> 'r" where
  "take_ref a r = (case intern a r of (n, r') \<Rightarrow> (n, acquire n r'))"

definition move_ref :: "uint64 \<Rightarrow> ACLs \<Rightarrow> 'r \<Rightarrow> uint64 \<times> 'r" where
  "move_ref old a r = take_ref a (release old r)"

lemma take_ref:
  assumes "ok r" "room r" "\<And>n. uses r n \<noteq> - 1" "take_ref a r = (n, r')"
  shows "ok r'" "resolve r' n = Some a" "uses r' i = uses r i + (if i = n then 1 else 0)"
    "resolve r i = Some b \<Longrightarrow> resolve r' i = Some b"
proof -
  obtain r1 where r1: "intern a r = (n, r1)" "r' = acquire n r1"
    using assms(4) by (auto simp: take_ref_def split: prod.splits)
  note u = intern_uses [OF assms(1,2) r1(1)]
  show "ok r'" using acquire_ok [OF intern_ok [OF assms(1,2) r1(1)]] assms(3) by (simp add: r1 u)
  show "resolve r' n = Some a" using intern_resolve [OF assms(1,2) r1(1)] by (simp add: r1 acquire_resolve)
  show "uses r' i = uses r i + (if i = n then 1 else 0)" by (simp add: r1 acquire_uses u)
  show "resolve r i = Some b \<Longrightarrow> resolve r' i = Some b"
    using intern_keeps [OF assms(1,2) r1(1)] by (simp add: r1 acquire_resolve)
qed

lemma move_ref:
  assumes "ok r" "room r" "\<And>n. uses r n \<noteq> - 1" "uses r old \<noteq> 0" "move_ref old a r = (n, r')"
  shows "ok r'" "resolve r' n = Some a"
    "uses r' i = uses r i - (if i = old then 1 else 0) + (if i = n then 1 else 0)"
    "resolve r i = Some b \<Longrightarrow> i \<noteq> old \<or> uses r old \<noteq> 1 \<Longrightarrow> resolve r' i = Some b"
proof -
  let ?r = "release old r"
  have u: "uses ?r i = uses r i - (if i = old then 1 else 0)" for i
    using release_uses [OF assms(1), of old i] assms(4) by simp
  have no_max: "uses ?r i \<noteq> - 1" for i using assms(3) [of i] assms(4) by (auto simp: u)
  have t: "take_ref a ?r = (n, r')" using assms(5) by (simp add: move_ref_def)
  note t = take_ref [OF release_ok [OF assms(1)] release_room [OF assms(1,2)] no_max t]
  show "ok r'" "resolve r' n = Some a"
    "uses r' i = uses r i - (if i = old then 1 else 0) + (if i = n then 1 else 0)"
    using t u by simp_all
  show "resolve r' i = Some b" if "resolve r i = Some b" "i \<noteq> old \<or> uses r old \<noteq> 1"
    using t(4) release_resolve [OF assms(1) that(2)] that(1) by simp
qed

end

interpretation acl: acl_registry
  "\<lambda>m. acl_inv m \<and> max_acl_id m \<noteq> 0" acl_room convertACLs acl_lookup addUsage removeUsage usage
proof (unfold_locales, goal_cases)
  case (1 r a n r')
  then show ?case using convertACLs_inv(1,3) by blast
next
  case (2 r a n r')
  then show ?case using convertACLs_inv(2) by blast
next
  case (3 r a n r' i b)
  then show ?case using convertACLs_inv(4) by blast
next
  case (4 r a n r')
  then have "usage_counter r' = usage_counter r" using convertACLs_inv(5) by blast
  then show ?case by (simp add: usage_def fun_eq_iff)
next
  case (10 r i n)
  then show ?case using removeUsage_inv(4) by (auto simp: acl_lookup_def)
qed (auto simp: addUsage_inv removeUsage_inv acl_room_def)

section \<open>Properties\<close>

text \<open>C32: interning is a bijection that survives.  Converting a list of entries to a number and back
  returns the list; every number that resolved before resolves to the same list; converting an equal
  list again yields the same number and changes nothing; and two lists get the same number only when
  they are equal.  The hypotheses are the map's invariant and that the 64-bit number counter has not
  reached its maximum.\<close>

theorem acl_number_roundtrip:
  assumes "acl_inv m" "acl_room m" "max_acl_id m \<noteq> 0" "convertACLs a m = (n, m')"
  shows "convertNumber n m' = Inr a \<and>
     (\<forall>i b. convertNumber i m = Inr b \<longrightarrow> convertNumber i m' = Inr b) \<and>
     convertACLs a m' = (n, m') \<and>
     (\<forall>b k m''. convertACLs b m' = (k, m'') \<longrightarrow> acl_room m' \<longrightarrow> (k = n \<longleftrightarrow> b = a)) \<and> acl_inv m'"
proof -
  note c = convertACLs_inv [OF assms]
  have again: "convertACLs a m' = (n, m')"
    using c(1,2) acl_inv_facts(1) [OF c(1), of n a]
    by (auto simp: convertACLs_def acl_lookup_def split: if_splits)
      (use assms(4) in \<open>auto simp: convertACLs_def split: if_splits option.splits\<close>)
  have "k = n \<longleftrightarrow> b = a" if k: "convertACLs b m' = (k, m'')" and room: "acl_room m'" for b k m''
  proof
    assume "k = n"
    have "acl_lookup m'' k = Some b" "acl_lookup m'' n = Some a"
      using convertACLs_inv(2,4) [OF c(1) room c(3) k] c(2) by blast+
    with \<open>k = n\<close> show "b = a" by simp
  next
    assume "b = a"
    with again k show "k = n" by simp
  qed
  with again c show ?thesis
    by (auto simp: convertNumber_lookup split: option.splits)
qed

definition example_acl :: ACLs where
  "example_acl = [\<lparr>permissions = 31, scheme = ''digest'', acl_ident = ''u:p''\<rparr>]"

theorem acl_number_roundtrip_witness:
  "convertNumber 1 (snd (convertACLs example_acl ACLMap_empty)) = Inr example_acl"
  using acl_number_roundtrip [of ACLMap_empty example_acl 1 "snd (convertACLs example_acl ACLMap_empty)"]
  by (simp add: acl_room_def ACLMap_empty_def convertACLs_def example_acl_def acl_inv_def Let_def)

end
