(* ===== verification/SessionExpiryQueue.thy ===== *)
theory SessionExpiryQueue
  imports Prelude "HOL-Library.Signed_Division"
begin

text \<open>
  \<^verbatim>\<open>SessionExpiryQueue\<close> of src/Coordination/SessionExpiryQueue.h and SessionExpiryQueue.cpp: sessions
  are kept in buckets by their expiration time rounded up to a multiple of the check interval.

  Times are \<^verbatim>\<open>int64_t\<close> milliseconds, modelled by integers; an addition or multiplication whose result
  does not fit 64 bits, or a zero interval, is undefined behaviour (\<open>Undefined\<close>). The ordered map of
  buckets is a list sorted by time, a bucket is a list of sessions without repetition. The clock
  \<^verbatim>\<open>getNowMilliseconds\<close> is an argument.
\<close>

section \<open>Operations\<close>

definition int64_fits :: "int \<Rightarrow> bool" where
  "int64_fits x \<longleftrightarrow> - (2 ^ 63) \<le> x \<and> x < 2 ^ 63"

record SessionExpiryQueue =
  session_to_expiration_time :: "int64 \<rightharpoonup> int"
  expiry_to_sessions :: "(int \<times> int64 list) list"
  expiration_interval :: int

definition SessionExpiryQueue_new :: "int \<Rightarrow> SessionExpiryQueue" where
  "SessionExpiryQueue_new interval =
     \<lparr>session_to_expiration_time = Map.empty, expiry_to_sessions = [], expiration_interval = interval\<rparr>"

definition roundToNextInterval :: "int \<Rightarrow> SessionExpiryQueue \<Rightarrow> exn + int" where
  "roundToNextInterval time q =
     (if expiration_interval q = 0 then Inl Undefined
      else (let d = time sdiv expiration_interval q; r = (d + 1) * expiration_interval q
            in if int64_fits d \<and> int64_fits (d + 1) \<and> int64_fits r then Inr r else Inl Undefined))"

text \<open>\<^verbatim>\<open>std::map::emplace\<close> of an empty bucket where there is none, then insertion into the bucket.\<close>

fun bucket_insert :: "int \<Rightarrow> int64 \<Rightarrow> (int \<times> int64 list) list \<Rightarrow> (int \<times> int64 list) list" where
  "bucket_insert t s [] = [(t, [s])]"
| "bucket_insert t s ((t', ss) # bs) =
     (if t < t' then (t, [s]) # (t', ss) # bs
      else if t = t' then (t', List.insert s ss) # bs
      else (t', ss) # bucket_insert t s bs)"

text \<open>Erasing a session from the bucket of a time, and the bucket when it gets empty. When there is no
  such bucket the code dereferences the end iterator.\<close>

definition bucket_remove :: "int \<Rightarrow> int64 \<Rightarrow> (int \<times> int64 list) list \<Rightarrow> exn + (int \<times> int64 list) list" where
  "bucket_remove t s bs =
     (case map_of bs t of
        None \<Rightarrow> Inl Undefined
      | Some ss \<Rightarrow>
          Inr (if removeAll s ss = [] then AList.delete t bs
               else AList.map_entry t (removeAll s) bs))"

definition queue_remove :: "int64 \<Rightarrow> SessionExpiryQueue \<Rightarrow> exn + bool \<times> SessionExpiryQueue" where
  "queue_remove session_id q =
     (case session_to_expiration_time q session_id of
        None \<Rightarrow> Inr (False, q)
      | Some t \<Rightarrow>
          bindE (bucket_remove t session_id (expiry_to_sessions q)) (\<lambda>bs.
            Inr (True, q\<lparr>expiry_to_sessions := bs,
                        session_to_expiration_time := (session_to_expiration_time q)(session_id := None)\<rparr>)))"

definition addNewSessionOrUpdate ::
  "int \<Rightarrow> int64 \<Rightarrow> int \<Rightarrow> SessionExpiryQueue \<Rightarrow> exn + SessionExpiryQueue" where
  "addNewSessionOrUpdate now session_id timeout_ms q =
     (if \<not> int64_fits (now + timeout_ms) then Inl Undefined
      else
        bindE (roundToNextInterval (now + timeout_ms) q) (\<lambda>new_expiry_time.
          case session_to_expiration_time q session_id of
            Some prev_expiry_time \<Rightarrow>
              (let q1 = q\<lparr>session_to_expiration_time :=
                           (session_to_expiration_time q)(session_id \<mapsto> new_expiry_time)\<rparr>
               in if new_expiry_time = prev_expiry_time then Inr q1
                  else
                    bindE (bucket_remove prev_expiry_time session_id
                             (bucket_insert new_expiry_time session_id (expiry_to_sessions q1)))
                      (\<lambda>bs. Inr (q1\<lparr>expiry_to_sessions := bs\<rparr>)))
          | None \<Rightarrow>
              Inr (q\<lparr>session_to_expiration_time :=
                       (session_to_expiration_time q)(session_id \<mapsto> new_expiry_time),
                     expiry_to_sessions :=
                       bucket_insert new_expiry_time session_id (expiry_to_sessions q)\<rparr>)))"

definition getExpiredSessions :: "int \<Rightarrow> SessionExpiryQueue \<Rightarrow> int64 list" where
  "getExpiredSessions now q =
     concat (map snd (takeWhile (\<lambda>b. fst b \<le> now) (expiry_to_sessions q)))"

definition queue_clear :: "SessionExpiryQueue \<Rightarrow> SessionExpiryQueue" where
  "queue_clear q = q\<lparr>session_to_expiration_time := Map.empty, expiry_to_sessions := []\<rparr>"

section \<open>Invariant\<close>

text \<open>Buckets are sorted by time, not empty, without repetitions, and a session is in the bucket of a
  time exactly when that is its expiration time.\<close>

definition in_bucket :: "(int \<times> int64 list) list \<Rightarrow> int \<Rightarrow> int64 \<Rightarrow> bool" where
  "in_bucket bs t s \<longleftrightarrow> (\<exists>ss. (t, ss) \<in> set bs \<and> s \<in> set ss)"

definition buckets_ok :: "(int \<times> int64 list) list \<Rightarrow> bool" where
  "buckets_ok bs \<longleftrightarrow> sorted_wrt (<) (map fst bs) \<and> (\<forall>(t, ss) \<in> set bs. ss \<noteq> [] \<and> distinct ss)"

definition queue_inv :: "SessionExpiryQueue \<Rightarrow> bool" where
  "queue_inv q \<longleftrightarrow> buckets_ok (expiry_to_sessions q) \<and>
     (\<forall>s t. in_bucket (expiry_to_sessions q) t s \<longleftrightarrow> session_to_expiration_time q s = Some t)"

lemma buckets_ok_distinct: "buckets_ok bs \<Longrightarrow> distinct (map fst bs)"
  by (simp add: buckets_ok_def strict_sorted_iff)

lemma buckets_ok_Cons:
  "buckets_ok ((t, ss) # bs) \<longleftrightarrow> buckets_ok bs \<and> (\<forall>b \<in> set bs. t < fst b) \<and> ss \<noteq> [] \<and> distinct ss"
  by (auto simp: buckets_ok_def)

lemma bucket_insert_fst: "b \<in> set (bucket_insert t s bs) \<Longrightarrow> fst b = t \<or> fst b \<in> fst ` set bs"
  by (induction t s bs rule: bucket_insert.induct) (auto split: if_splits)

lemma bucket_insert_ok: "buckets_ok bs \<Longrightarrow> buckets_ok (bucket_insert t s bs)"
proof (induction t s bs rule: bucket_insert.induct)
  case (1 t s)
  then show ?case by (simp add: buckets_ok_def)
next
  case (2 t s t' ss bs)
  consider "t < t'" | "t = t'" | "t' < t" by linarith
  then show ?case
  proof cases
    case 3
    then show ?thesis using 2 by (auto simp: buckets_ok_Cons dest!: bucket_insert_fst)
  qed (use 2(2) in \<open>auto simp: buckets_ok_Cons List.insert_def\<close>)
qed

lemma in_bucket_Cons: "in_bucket ((t', ss) # bs) t s \<longleftrightarrow> (t = t' \<and> s \<in> set ss) \<or> in_bucket bs t s"
  by (auto simp: in_bucket_def)

lemma in_bucket_insert: "in_bucket (bucket_insert t s bs) t' s' \<longleftrightarrow> (t' = t \<and> s' = s) \<or> in_bucket bs t' s'"
proof (induction t s bs rule: bucket_insert.induct)
  case (1 t s)
  then show ?case by (simp add: in_bucket_def)
next
  case (2 t s t0 ss bs)
  then show ?case by (cases t t0 rule: linorder_cases) (auto simp: in_bucket_Cons)
qed

lemma bucket_remove_ok:
  assumes "buckets_ok bs" "in_bucket bs t s"
  shows "\<exists>bs'. bucket_remove t s bs = Inr bs' \<and> buckets_ok bs' \<and>
    (\<forall>t' s'. in_bucket bs' t' s' \<longleftrightarrow> in_bucket bs t' s' \<and> \<not> (t' = t \<and> s' = s))"
proof -
  have d: "distinct (map fst bs)" using assms(1) by (rule buckets_ok_distinct)
  obtain ss where ss: "(t, ss) \<in> set bs" "s \<in> set ss" using assms(2) by (auto simp: in_bucket_def)
  have m: "map_of bs t = Some ss" using d ss(1) by simp
  have ss_eq: "ss' = ss" if "(t, ss') \<in> set bs" for ss' using that d m by simp
  show ?thesis
  proof (cases "removeAll s ss = []")
    case True
    let ?bs = "AList.delete t bs"
    have "sorted_wrt (<) (map fst ?bs)"
      using assms(1) by (simp add: buckets_ok_def AList.delete_eq sorted_wrt_map sorted_wrt_filter)
    then have "buckets_ok ?bs" using assms(1) by (auto simp: buckets_ok_def)
    moreover have "set ss \<subseteq> {s}" using True by (metis Diff_eq_empty_iff set_empty set_removeAll)
    then have "in_bucket ?bs t' s' \<longleftrightarrow> in_bucket bs t' s' \<and> \<not> (t' = t \<and> s' = s)" for t' s'
      using ss_eq by (auto simp: in_bucket_def)
    ultimately show ?thesis using m True by (simp add: bucket_remove_def)
  next
    case False
    let ?bs = "AList.map_entry t (removeAll s) bs"
    have se: "set ?bs = {p \<in> set bs. fst p \<noteq> t} \<union> {(t, removeAll s v) |v. (t, v) \<in> set bs}"
      using d by (rule set_map_entry)
    have "buckets_ok ?bs"
      using assms(1) False ss_eq unfolding buckets_ok_def se by (auto simp: distinct_removeAll)
    moreover have "in_bucket ?bs t' s' \<longleftrightarrow> in_bucket bs t' s' \<and> \<not> (t' = t \<and> s' = s)" for t' s'
    proof (cases "t' = t")
      case True
      then show ?thesis unfolding in_bucket_def se using ss(1) ss_eq by auto
    next
      case False
      then show ?thesis unfolding in_bucket_def se by auto
    qed
    ultimately show ?thesis using m False by (simp add: bucket_remove_def)
  qed
qed

lemma queue_inv_new [simp]: "queue_inv (SessionExpiryQueue_new i)" "queue_inv (queue_clear q)"
  by (simp_all add: queue_inv_def SessionExpiryQueue_new_def queue_clear_def buckets_ok_def in_bucket_def)

lemma queue_remove_spec:
  assumes "queue_inv q"
  obtains b q' where "queue_remove s q = Inr (b, q')" "queue_inv q'"
    "b \<longleftrightarrow> session_to_expiration_time q s \<noteq> None"
    "session_to_expiration_time q' = (session_to_expiration_time q)(s := None)"
    "expiration_interval q' = expiration_interval q"
proof (cases "session_to_expiration_time q s")
  case None
  show ?thesis by (rule that [of False q]) (use None assms in \<open>auto simp: queue_remove_def\<close>)
next
  case (Some t)
  then have b: "buckets_ok (expiry_to_sessions q)" "in_bucket (expiry_to_sessions q) t s"
    using assms by (simp_all add: queue_inv_def)
  obtain bs' where bs': "bucket_remove t s (expiry_to_sessions q) = Inr bs'" "buckets_ok bs'"
    "\<And>t' s'. in_bucket bs' t' s' \<longleftrightarrow> in_bucket (expiry_to_sessions q) t' s' \<and> \<not> (t' = t \<and> s' = s)"
    using bucket_remove_ok [OF b] by blast
  show ?thesis
    by (rule that [of True "q\<lparr>expiry_to_sessions := bs',
          session_to_expiration_time := (session_to_expiration_time q)(s := None)\<rparr>"])
      (use assms Some bs' in \<open>auto simp: queue_remove_def queue_inv_def\<close>)
qed

lemma addNewSessionOrUpdate_spec:
  assumes "queue_inv q" "int64_fits (now + timeout)" "roundToNextInterval (now + timeout) q = Inr t"
  obtains q' where "addNewSessionOrUpdate now s timeout q = Inr q'" "queue_inv q'"
    "session_to_expiration_time q' = (session_to_expiration_time q)(s \<mapsto> t)"
    "expiration_interval q' = expiration_interval q"
proof (cases "session_to_expiration_time q s")
  case None
  show ?thesis
    by (rule that [of "q\<lparr>session_to_expiration_time := (session_to_expiration_time q)(s \<mapsto> t),
          expiry_to_sessions := bucket_insert t s (expiry_to_sessions q)\<rparr>"])
      (use assms None in \<open>auto simp: addNewSessionOrUpdate_def queue_inv_def bucket_insert_ok in_bucket_insert\<close>)
next
  case (Some p)
  let ?q = "q\<lparr>session_to_expiration_time := (session_to_expiration_time q)(s \<mapsto> t)\<rparr>"
  show ?thesis
  proof (cases "t = p")
    case True
    have "?q = q" "session_to_expiration_time q = (session_to_expiration_time q)(s \<mapsto> p)"
      using Some True by (simp_all add: fun_upd_idem)
    then show ?thesis
      by (intro that [of q]) (use assms Some True in \<open>simp_all add: addNewSessionOrUpdate_def\<close>)
  next
    case False
    let ?bs = "bucket_insert t s (expiry_to_sessions q)"
    have b: "buckets_ok ?bs" "in_bucket ?bs p s"
      using assms(1) Some by (simp_all add: queue_inv_def bucket_insert_ok in_bucket_insert)
    obtain bs' where bs': "bucket_remove p s ?bs = Inr bs'" "buckets_ok bs'"
      "\<And>t' s'. in_bucket bs' t' s' \<longleftrightarrow> in_bucket ?bs t' s' \<and> \<not> (t' = p \<and> s' = s)"
      using bucket_remove_ok [OF b] by blast
    show ?thesis
      by (rule that [of "?q\<lparr>expiry_to_sessions := bs'\<rparr>"])
        (use assms Some False bs' in \<open>auto simp: addNewSessionOrUpdate_def queue_inv_def in_bucket_insert Let_def\<close>)
  qed
qed

lemma sorted_takeWhile_le:
  "sorted_wrt (<) (map fst bs) \<Longrightarrow> set (takeWhile (\<lambda>b. fst b \<le> now) bs) = {b \<in> set bs. fst b \<le> (now :: int)}"
  by (induction bs) fastforce+

lemma getExpiredSessions_set:
  assumes "queue_inv q"
  shows "s \<in> set (getExpiredSessions now q) \<longleftrightarrow> (\<exists>t. session_to_expiration_time q s = Some t \<and> t \<le> now)"
proof -
  have "set (takeWhile (\<lambda>b. fst b \<le> now) (expiry_to_sessions q)) = {b \<in> set (expiry_to_sessions q). fst b \<le> now}"
    using assms by (intro sorted_takeWhile_le) (simp add: queue_inv_def buckets_ok_def)
  then have "s \<in> set (getExpiredSessions now q) \<longleftrightarrow> (\<exists>t. in_bucket (expiry_to_sessions q) t s \<and> t \<le> now)"
    by (auto simp: getExpiredSessions_def in_bucket_def)
  then show ?thesis using assms by (simp add: queue_inv_def)
qed

lemma roundToNextInterval_bounds:
  assumes "roundToNextInterval time q = Inr t" "0 < expiration_interval q" "0 \<le> time"
  shows "time < t \<and> t \<le> time + expiration_interval q \<and> expiration_interval q dvd t"
proof -
  let ?i = "expiration_interval q"
  have t: "t = (time div ?i + 1) * ?i"
    using assms by (auto simp: roundToNextInterval_def Let_def signed_divide_int_def sgn_if split: if_splits)
  have e: "?i * (time div ?i) + time mod ?i = time" by simp
  have "0 \<le> time mod ?i" "time mod ?i < ?i" using assms by simp_all
  with e have "time < ?i * (time div ?i) + ?i" "?i * (time div ?i) \<le> time" by linarith+
  then show ?thesis unfolding t by (simp add: algebra_simps)
qed


section \<open>The expiry service interface\<close>

text \<open>What the storage relies on: touching a session sets its deadline, dropping it removes the
  deadline, and the expired sessions are those whose deadline has passed.\<close>

locale expiry_service =
  fixes ok :: "'q \<Rightarrow> bool"
    and deadline :: "'q \<Rightarrow> int64 \<rightharpoonup> int"
    and touch :: "int \<Rightarrow> int64 \<Rightarrow> int \<Rightarrow> 'q \<Rightarrow> exn + 'q"
    and drop_session :: "int64 \<Rightarrow> 'q \<Rightarrow> exn + bool \<times> 'q"
    and expired :: "int \<Rightarrow> 'q \<Rightarrow> int64 list"
    and slack :: "'q \<Rightarrow> int"
    and in_range :: "int \<Rightarrow> 'q \<Rightarrow> bool"
  assumes touch_deadline: "ok q \<Longrightarrow> in_range (now + timeout) q \<Longrightarrow>
      \<exists>q' t. touch now s timeout q = Inr q' \<and> ok q' \<and> deadline q' = (deadline q)(s \<mapsto> t) \<and>
        now + timeout < t \<and> t \<le> now + timeout + slack q \<and> slack q' = slack q"
    and drop_deadline: "ok q \<Longrightarrow>
      \<exists>q'. drop_session s q = Inr (deadline q s \<noteq> None, q') \<and> ok q' \<and> deadline q' = (deadline q)(s := None) \<and>
        slack q' = slack q"
    and expired_iff: "ok q \<Longrightarrow> s \<in> set (expired now q) \<longleftrightarrow> (\<exists>t. deadline q s = Some t \<and> t \<le> now)"
begin

lemma touch_not_expired:
  assumes "ok q" "in_range (now + timeout) q" "touch now s timeout q = Inr q'" "later \<le> now + timeout"
  shows "s \<notin> set (expired later q')"
proof -
  obtain t where "ok q'" "deadline q' = (deadline q)(s \<mapsto> t)" "now + timeout < t"
    using touch_deadline [OF assms(1,2), of s] assms(3) by auto
  then show ?thesis using expired_iff [of q' s later] assms(4) by simp
qed

lemma touch_expires:
  assumes "ok q" "in_range (now + timeout) q" "touch now s timeout q = Inr q'"
    "now + timeout + slack q \<le> later"
  shows "s \<in> set (expired later q')"
proof -
  obtain t where "ok q'" "deadline q' = (deadline q)(s \<mapsto> t)" "t \<le> now + timeout + slack q"
    using touch_deadline [OF assms(1,2), of s] assms(3) by auto
  then show ?thesis using expired_iff [of q' s later] assms(4) by simp
qed

lemma touch_others:
  assumes "ok q" "in_range (now + timeout) q" "touch now s timeout q = Inr q'" "s' \<noteq> s"
  shows "s' \<in> set (expired later q') \<longleftrightarrow> s' \<in> set (expired later q)"
proof -
  obtain t where "ok q'" "deadline q' = (deadline q)(s \<mapsto> t)"
    using touch_deadline [OF assms(1,2), of s] assms(3) by auto
  then show ?thesis using expired_iff [of q' s' later] expired_iff [of q s' later] assms(1,4) by simp
qed

end

definition queue_in_range :: "int \<Rightarrow> SessionExpiryQueue \<Rightarrow> bool" where
  "queue_in_range t q \<longleftrightarrow> 0 \<le> t \<and> t + expiration_interval q < 2 ^ 63 \<and> 0 < expiration_interval q"

lemma roundToNextInterval_in_range:
  assumes "queue_in_range t q"
  shows "\<exists>r. roundToNextInterval t q = Inr r"
proof -
  let ?i = "expiration_interval q" and ?r = "(t sdiv expiration_interval q + 1) * expiration_interval q"
  have i: "0 < ?i" "0 \<le> t" "t + ?i < 2 ^ 63" using assms by (simp_all add: queue_in_range_def)
  have r: "?r = (t div ?i) * ?i + ?i" using i by (simp add: signed_divide_int_def sgn_if algebra_simps)
  moreover have "0 \<le> (t div ?i) * ?i" using i by (simp add: pos_imp_zdiv_nonneg_iff)
  moreover have "(t div ?i) * ?i \<le> t"
    using i pos_mod_sign [of ?i t] minus_mod_eq_div_mult [of t ?i] by linarith
  ultimately have "int64_fits ?r" using i by (simp add: int64_fits_def)
  moreover have "0 \<le> t div ?i" "t div ?i \<le> t" using i zdiv_mono2 [of t 1 ?i] by (simp_all add: pos_imp_zdiv_nonneg_iff)
  then have "int64_fits (t sdiv ?i)" "int64_fits (t sdiv ?i + 1)" using i by (simp_all add: int64_fits_def signed_divide_int_def sgn_if)
  ultimately show ?thesis using i by (simp add: roundToNextInterval_def Let_def)
qed

interpretation seq: expiry_service queue_inv session_to_expiration_time addNewSessionOrUpdate
  queue_remove getExpiredSessions expiration_interval queue_in_range
proof (unfold_locales, goal_cases)
  case (1 q now timeout s)
  obtain t where t: "roundToNextInterval (now + timeout) q = Inr t"
    using roundToNextInterval_in_range [OF 1(2)] by blast
  have f: "int64_fits (now + timeout)" using 1(2) by (simp add: queue_in_range_def int64_fits_def)
  have b: "now + timeout < t \<and> t \<le> now + timeout + expiration_interval q"
    using roundToNextInterval_bounds [OF t] 1(2) by (simp add: queue_in_range_def)
  show ?case
    by (rule addNewSessionOrUpdate_spec [OF 1(1) f t, of s]) (use b in blast)
next
  case (2 q s)
  show ?case by (rule queue_remove_spec [OF 2, of s]) auto
next
  case (3 q s now)
  then show ?case by (rule getExpiredSessions_set)
qed

section \<open>Properties\<close>

text \<open>C33: a heartbeat postpones expiry by the session timeout, rounded up to the check interval.  If a
  session is added or updated at time \<open>now\<close> with a timeout, the operation succeeds, the session is
  not reported expired up to \<open>now + timeout\<close>, it is reported from \<open>now + timeout + interval\<close> on, and
  the expiry of no other session changes.  The hypotheses: the queue's invariant, a positive
  interval and times in the range of \<^verbatim>\<open>int64_t\<close>.\<close>

theorem session_expiry_window:
  assumes "queue_inv q" "queue_in_range (now + timeout) q"
  shows "\<exists>q'. addNewSessionOrUpdate now s timeout q = Inr q' \<and> queue_inv q' \<and>
     (\<forall>later \<le> now + timeout. s \<notin> set (getExpiredSessions later q')) \<and>
     (\<forall>later \<ge> now + timeout + expiration_interval q. s \<in> set (getExpiredSessions later q')) \<and>
     (\<forall>s' later. s' \<noteq> s \<longrightarrow> (s' \<in> set (getExpiredSessions later q') \<longleftrightarrow> s' \<in> set (getExpiredSessions later q)))"
proof -
  obtain q' where q': "addNewSessionOrUpdate now s timeout q = Inr q'" "queue_inv q'"
    using seq.touch_deadline [OF assms, of s] by blast
  then show ?thesis
    using seq.touch_not_expired [OF assms q'(1)] seq.touch_expires [OF assms q'(1)]
      seq.touch_others [OF assms q'(1)] by blast
qed

definition example_queue :: SessionExpiryQueue where
  "example_queue = SessionExpiryQueue_new 500"

theorem session_expiry_window_witness:
  "\<exists>q'. addNewSessionOrUpdate 1000 7 30000 example_queue = Inr q' \<and> 7 \<notin> set (getExpiredSessions 31000 q') \<and>
     7 \<in> set (getExpiredSessions 31500 q')"
proof -
  have "queue_inv example_queue" "queue_in_range (1000 + 30000) example_queue"
    "expiration_interval example_queue = 500"
    by (simp_all add: example_queue_def queue_in_range_def) (simp_all add: SessionExpiryQueue_new_def)
  with session_expiry_window [of example_queue 1000 30000 7] obtain q'
    where "addNewSessionOrUpdate 1000 7 30000 example_queue = Inr q'"
      "\<forall>later \<le> 31000. 7 \<notin> set (getExpiredSessions later q')"
      "\<forall>later \<ge> 31500. 7 \<in> set (getExpiredSessions later q')"
    by auto
  then show ?thesis by (intro exI [of _ q']) simp
qed

text \<open>C34: the queue never dereferences a missing bucket.  On every queue that satisfies the invariant
  removing a session succeeds, reports whether the session was registered, keeps the invariant, and
  afterwards the session is never reported as expired; expired sessions are listed without
  repetition.\<close>

theorem session_remove_safe:
  assumes "queue_inv q"
  shows "(\<exists>q'. queue_remove s q = Inr (session_to_expiration_time q s \<noteq> None, q') \<and> queue_inv q' \<and>
       (\<forall>now. s \<notin> set (getExpiredSessions now q'))) \<and> distinct (getExpiredSessions now q)"
proof
  obtain q' where q': "queue_remove s q = Inr (session_to_expiration_time q s \<noteq> None, q')" "queue_inv q'"
    "session_to_expiration_time q' = (session_to_expiration_time q)(s := None)"
    using seq.drop_deadline [OF assms, of s] by blast
  then show "\<exists>q'. queue_remove s q = Inr (session_to_expiration_time q s \<noteq> None, q') \<and> queue_inv q' \<and>
       (\<forall>now. s \<notin> set (getExpiredSessions now q'))"
    by (auto simp: getExpiredSessions_set)
  let ?bs = "takeWhile (\<lambda>b. fst b \<le> now) (expiry_to_sessions q)"
  have sub: "set ?bs \<subseteq> set (expiry_to_sessions q)" by (auto dest: set_takeWhileD)
  have d: "distinct (map fst (expiry_to_sessions q))"
    using assms by (simp add: queue_inv_def buckets_ok_distinct)
  have ss: "ss \<noteq> [] \<and> distinct ss" if "(t, ss) \<in> set ?bs" for t ss
    using that sub assms by (auto simp: queue_inv_def buckets_ok_def)
  have disj: "t = t' \<and> ss = ss'" if "(t, ss) \<in> set ?bs" "(t', ss') \<in> set ?bs" "x \<in> set ss" "x \<in> set ss'" for t t' ss ss' x
  proof -
    have "session_to_expiration_time q x = Some t" "session_to_expiration_time q x = Some t'"
      using assms that sub by (auto simp: queue_inv_def in_bucket_def)
    then have "t = t'" by simp
    moreover have "(t, ss) \<in> set (expiry_to_sessions q)" "(t', ss') \<in> set (expiry_to_sessions q)"
      using that sub by auto
    ultimately show ?thesis using d by (auto dest: eq_key_imp_eq_value)
  qed
  have "distinct (map snd ?bs)"
  proof -
    have "distinct ?bs" using d by (simp add: distinct_map)
    moreover have "inj_on snd (set ?bs)"
    proof (rule inj_onI)
      fix p p' assume "p \<in> set ?bs" "p' \<in> set ?bs" "snd p = snd p'"
      moreover have "snd p \<noteq> []" using ss [of "fst p" "snd p"] \<open>p \<in> set ?bs\<close> by simp
      then obtain x where "x \<in> set (snd p)" by fastforce
      ultimately show "p = p'"
        using disj [of "fst p" "snd p" "fst p'" "snd p'" x] by (metis prod.collapse)
    qed
    ultimately show ?thesis by (simp add: distinct_map)
  qed
  then show "distinct (getExpiredSessions now q)"
    unfolding getExpiredSessions_def using ss disj by (intro distinct_concat) fastforce+
qed

definition example_busy_queue :: SessionExpiryQueue where
  "example_busy_queue =
     \<lparr>session_to_expiration_time = [7 \<mapsto> 31500, 8 \<mapsto> 31500], expiry_to_sessions = [(31500, [7, 8])], expiration_interval = 500\<rparr>"

theorem session_remove_safe_witness:
  "\<exists>q'. queue_remove 7 example_busy_queue = Inr (True, q') \<and> getExpiredSessions 31500 example_busy_queue = [7, 8] \<and>
     7 \<notin> set (getExpiredSessions 31500 q') \<and> 8 \<in> set (getExpiredSessions 31500 q')"
proof -
  have "queue_inv example_busy_queue"
    by (auto simp: example_busy_queue_def queue_inv_def buckets_ok_def in_bucket_def split: if_splits)
  from session_remove_safe [OF this, of 7 31500] obtain q' where
    q': "queue_remove 7 example_busy_queue = Inr (True, q')" "7 \<notin> set (getExpiredSessions 31500 q')"
    by (auto simp: example_busy_queue_def)
  then have "8 \<in> set (getExpiredSessions 31500 q')" "getExpiredSessions 31500 example_busy_queue = [7, 8]"
    by (auto simp: queue_remove_def bucket_remove_def example_busy_queue_def getExpiredSessions_def)
  then show ?thesis using q' by blast
qed

end
