(* ===== verification/KeeperStorage.thy ===== *)
theory KeeperStorage
  imports KeeperNode KeeperPaths ACLMap SessionExpiryQueue
begin

text \<open>
  The state of \<^verbatim>\<open>KeeperStorage<SnapshotableHashTable<KeeperMemNode>>\<close> (src/Coordination/KeeperStorage.h)
  and the operations below the request processors (KeeperStorage.cpp): deltas, the uncommitted
  state with its overlay of nodes, committing deltas into the container, access control and
  digests. The RocksDB instance of the template is not modelled.

  Modelling decisions: \<^verbatim>\<open>std::unordered_map\<close> is a map, except \<^verbatim>\<open>session_and_auth\<close>, which the code
  reads with \<^verbatim>\<open>operator[]\<close> and which is a total function (absent is empty); sets are lists without
  repetition, iterated in insertion order. Pointers to deltas (\<^verbatim>\<open>deltas_for_path\<close>, the uncommitted
  \<^verbatim>\<open>session_and_auth\<close>) are pairs of an address, fresh for each delta, and the value. The update
  closures of \<^verbatim>\<open>UpdateNodeDelta\<close> are the constructors of \<open>UpdateFn\<close>. Everything outside the storage
  that its results depend on is in the record \<open>KeeperContext\<close>.
\<close>

section \<open>Parameters\<close>

record KeeperContext =
  digestEnabled :: bool
  phase_INIT :: bool
  ignoreSystemPathOnStartup :: bool
  getSystemNodesWithData :: "(string \<times> string) list"
  serializedClusterConfig :: string
  superdigest :: string
  sha1_base64 :: "string \<Rightarrow> string"
  sizeof_KeeperMemNode :: nat
  sizeof_StringRef :: nat

abbreviation vo :: "KeeperContext \<Rightarrow> KeeperMemNode vops" where
  "vo ctx \<equiv> node_vops (sizeof_KeeperMemNode ctx) (sizeof_StringRef ctx)"

section \<open>Data\<close>

text \<open>\<^verbatim>\<open>enum DigestVersion : uint8_t\<close>; a version read from the log can be any byte.\<close>

datatype DigestVersion = NO_DIGEST | V1 | V2 | V3 | V4 | UnknownVersion byte

record Digest =
  dg_version :: DigestVersion
  dg_value :: uint64

definition CURRENT_DIGEST_VERSION :: DigestVersion where
  "CURRENT_DIGEST_VERSION = V4"

record ResponseForSession =
  rs_session_id :: int64
  rs_response :: Response

record AuthID =
  aid_scheme :: string
  aid_id :: string

datatype UpdateFn =
    CreateParentUpdate int32 int64
  | RemoveParentUpdate
  | PzxidUpdate int64
  | SetNodeUpdate int64 string int64
  | SetParentUpdate
  | AversionUpdate

datatype Operation =
    CreateNodeDelta Stat ACLs string
  | RemoveNodeDelta int32 int64
  | UpdateNodeDelta UpdateFn int32
  | SetACLDelta ACLs int32
  | AddAuthDelta int64 AuthID
  | ErrorDelta Error
  | SubDeltaEnd
  | FailedMultiDelta "Error list" Error
  | CloseSessionDelta int64

record Delta =
  d_path :: string
  d_zxid :: int64
  d_operation :: Operation

definition delta_error :: "int64 \<Rightarrow> Error \<Rightarrow> Delta" where
  "delta_error z e = \<lparr>d_path = [], d_zxid = z, d_operation = ErrorDelta e\<rparr>"

definition delta_plain :: "int64 \<Rightarrow> Operation \<Rightarrow> Delta" where
  "delta_plain z op = \<lparr>d_path = [], d_zxid = z, d_operation = op\<rparr>"

definition delta_at :: "string \<Rightarrow> int64 \<Rightarrow> Operation \<Rightarrow> Delta" where
  "delta_at p z op = \<lparr>d_path = p, d_zxid = z, d_operation = op\<rparr>"

record UncommittedNode =
  u_node :: "KeeperMemNode option"
  u_acls :: ACLs
  u_zxid :: int64

record UncommittedState =
  us_session_and_auth :: "int64 \<rightharpoonup> (nat \<times> AuthID) list"
  us_closed_sessions :: "int64 list"
  us_nodes :: "string \<rightharpoonup> UncommittedNode"
  us_deltas_for_path :: "string \<rightharpoonup> (nat \<times> Delta) list"
  us_deltas :: "(nat \<times> Delta) list"
  us_next :: nat

definition UncommittedState_new :: UncommittedState where
  "UncommittedState_new = \<lparr>us_session_and_auth = Map.empty, us_closed_sessions = [],
     us_nodes = Map.empty, us_deltas_for_path = Map.empty, us_deltas = [], us_next = 0\<rparr>"

record TransactionInfo =
  t_zxid :: int64
  t_nodes_digest :: Digest
  t_log_idx :: int64

record KeeperStorage =
  session_id_counter :: int64
  session_and_auth :: "int64 \<Rightarrow> AuthID list"
  container :: "KeeperMemNode htable"
  uncommitted_state :: UncommittedState
  ephemerals :: "int64 \<rightharpoonup> string list"
  sessions_and_watchers :: "int64 \<rightharpoonup> string list"
  session_expiry_queue :: SessionExpiryQueue
  session_and_timeout :: "int64 \<rightharpoonup> int"
  acl_map :: ACLMap
  ks_zxid :: int64
  old_snapshot_zxid :: int64
  uncommitted_transactions :: "TransactionInfo list"
  nodes_digest :: uint64
  finalized :: bool
  watches :: "string \<rightharpoonup> int64 list"
  list_watches :: "string \<rightharpoonup> int64 list"
  initialized :: bool

text \<open>\<^verbatim>\<open>unordered_set::emplace\<close>.\<close>

definition set_emplace :: "'a \<Rightarrow> 'a list \<Rightarrow> 'a list" where
  "set_emplace x xs = (if x \<in> set xs then xs else xs @ [x])"

definition map_emplace :: "'k \<Rightarrow> 'a \<Rightarrow> ('k \<rightharpoonup> 'a list) \<Rightarrow> ('k \<rightharpoonup> 'a list)" where
  "map_emplace k x m = m(k \<mapsto> set_emplace x (case m k of None \<Rightarrow> [] | Some xs \<Rightarrow> xs))"

section \<open>Update closures\<close>

definition create_parent_update :: "int32 \<Rightarrow> int64 \<Rightarrow> KeeperMemNode \<Rightarrow> KeeperMemNode" where
  "create_parent_update parent_cversion z n =
     (let n = increaseSeqNum n;
          n = (if parent_cversion = -1 then n\<lparr>n_cversion := n_cversion n + 1\<rparr>
               else if n_cversion n <s parent_cversion then n\<lparr>n_cversion := parent_cversion\<rparr>
               else n);
          n = n\<lparr>n_pzxid := smax z (n_pzxid n)\<rparr>
      in increaseNumChildren n)"

definition remove_parent_update :: "KeeperMemNode \<Rightarrow> KeeperMemNode" where
  "remove_parent_update n = decreaseNumChildren (n\<lparr>n_cversion := n_cversion n + 1\<rparr>)"

definition parent_pzxid_update :: "int64 \<Rightarrow> KeeperMemNode \<Rightarrow> KeeperMemNode" where
  "parent_pzxid_update z n = n\<lparr>n_pzxid := smax (n_pzxid n) z\<rparr>"

definition set_node_update :: "int64 \<Rightarrow> string \<Rightarrow> int64 \<Rightarrow> KeeperMemNode \<Rightarrow> KeeperMemNode" where
  "set_node_update z data time n =
     setData data (n\<lparr>n_version := n_version n + 1, n_mzxid := z, n_mtime := time\<rparr>)"

definition set_parent_update :: "KeeperMemNode \<Rightarrow> KeeperMemNode" where
  "set_parent_update n = n\<lparr>n_cversion := n_cversion n + 1\<rparr>"

definition aversion_update :: "KeeperMemNode \<Rightarrow> KeeperMemNode" where
  "aversion_update n = n\<lparr>n_aversion := n_aversion n + 1\<rparr>"

fun apply_update :: "UpdateFn \<Rightarrow> KeeperMemNode \<Rightarrow> KeeperMemNode" where
  "apply_update (CreateParentUpdate parent_cversion z) = create_parent_update parent_cversion z"
| "apply_update RemoveParentUpdate = remove_parent_update"
| "apply_update (PzxidUpdate z) = parent_pzxid_update z"
| "apply_update (SetNodeUpdate z data time) = set_node_update z data time"
| "apply_update SetParentUpdate = set_parent_update"
| "apply_update AversionUpdate = aversion_update"

section \<open>Digests\<close>

definition getNodesDigest :: "KeeperContext \<Rightarrow> bool \<Rightarrow> KeeperStorage \<Rightarrow> Digest" where
  "getNodesDigest ctx committed s =
     (if \<not> digestEnabled ctx then \<lparr>dg_version = NO_DIGEST, dg_value = 0\<rparr>
      else if committed \<or> uncommitted_transactions s = []
      then \<lparr>dg_version = CURRENT_DIGEST_VERSION, dg_value = nodes_digest s\<rparr>
      else t_nodes_digest (last (uncommitted_transactions s)))"

text \<open>\<^verbatim>\<open>removeDigest\<close> and \<^verbatim>\<open>addDigest\<close> applied to the container's node at a path: they memoize the digest
  in the node; \<open>removeDigest_of\<close> is \<^verbatim>\<open>removeDigest\<close> of a local copy.\<close>

definition removeDigest_of :: "KeeperContext \<Rightarrow> KeeperMemNode \<Rightarrow> string \<Rightarrow> KeeperStorage \<Rightarrow> KeeperStorage" where
  "removeDigest_of ctx n path s =
     (if digestEnabled ctx then s\<lparr>nodes_digest := nodes_digest s - getDigest path n\<rparr> else s)"

definition removeDigest :: "KeeperContext \<Rightarrow> string \<Rightarrow> KeeperStorage \<Rightarrow> KeeperStorage" where
  "removeDigest ctx path s =
     (if digestEnabled ctx
      then case ht_find (container s) path of
             None \<Rightarrow> s
           | Some n \<Rightarrow> s\<lparr>nodes_digest := nodes_digest s - getDigest path n,
                         container := ht_poke path (memoDigest path) (container s)\<rparr>
      else s)"

definition addDigest :: "KeeperContext \<Rightarrow> string \<Rightarrow> KeeperStorage \<Rightarrow> KeeperStorage" where
  "addDigest ctx path s =
     (if digestEnabled ctx
      then case ht_find (container s) path of
             None \<Rightarrow> s
           | Some n \<Rightarrow>
               s\<lparr>nodes_digest := nodes_digest s + getDigest path (invalidateDigestCache n),
                 container := ht_poke path (\<lambda>n. memoDigest path (invalidateDigestCache n)) (container s)\<rparr>
      else s)"

text \<open>\<^verbatim>\<open>addDigest\<close> of a local node, as in the constructor.\<close>

definition addDigest_of :: "KeeperContext \<Rightarrow> KeeperMemNode \<Rightarrow> string \<Rightarrow> KeeperStorage \<Rightarrow> KeeperStorage" where
  "addDigest_of ctx n path s =
     (if digestEnabled ctx
      then s\<lparr>nodes_digest := nodes_digest s + getDigest path (invalidateDigestCache n)\<rparr> else s)"

definition checkDigest :: "Digest \<Rightarrow> Digest \<Rightarrow> bool" where
  "checkDigest first second =
     (if dg_version first \<noteq> dg_version second then True
      else if dg_version first = NO_DIGEST then True
      else dg_value first = dg_value second)"

section \<open>Construction\<close>

definition storage_update_value ::
  "KeeperContext \<Rightarrow> string \<Rightarrow> (KeeperMemNode \<Rightarrow> KeeperMemNode) \<Rightarrow> KeeperStorage \<Rightarrow> exn + KeeperStorage" where
  "storage_update_value ctx path f s =
     (case ht_updateValue (vo ctx) path f (container s) of
        None \<Rightarrow> Inl Undefined
      | Some c \<Rightarrow> Inr (s\<lparr>container := c\<rparr>))"

definition storage_insert :: "KeeperContext \<Rightarrow> string \<Rightarrow> KeeperMemNode \<Rightarrow> KeeperStorage \<Rightarrow> KeeperStorage" where
  "storage_insert ctx path n s = s\<lparr>container := snd (ht_insert (vo ctx) path n (container s))\<rparr>"

fun insert_system_nodes :: "KeeperContext \<Rightarrow> (string \<times> string) list \<Rightarrow> KeeperStorage \<Rightarrow> exn + KeeperStorage" where
  "insert_system_nodes ctx [] s = Inr s"
| "insert_system_nodes ctx ((path, data) # rest) s =
     (let s = storage_insert ctx path (setData data KeeperMemNode_new) s
      in case parentNodePath path of
           None \<Rightarrow> Inl Undefined
         | Some parent \<Rightarrow>
             bindE (storage_update_value ctx parent (addChild (getBaseNodeName path)) s)
               (insert_system_nodes ctx rest))"

definition initializeSystemNodes :: "KeeperContext \<Rightarrow> KeeperStorage \<Rightarrow> exn + KeeperStorage" where
  "initializeSystemNodes ctx s =
     (if initialized s then Inl LOGICAL_ERROR
      else
        bindE
          (if ht_find (container s) keeper_system_path = None
           then (let s = storage_insert ctx keeper_system_path KeeperMemNode_new s;
                     s = addDigest_of ctx KeeperMemNode_new keeper_system_path s;
                     s = removeDigest ctx ''/'' s
                 in bindE (storage_update_value ctx ''/''
                      (\<lambda>n. addChild (getBaseNodeName keeper_system_path) (increaseNumChildren n)) s)
                    (\<lambda>s. Inr (addDigest ctx ''/'' s)))
           else Inr s)
          (\<lambda>s. bindE (insert_system_nodes ctx (getSystemNodesWithData ctx) s)
             (\<lambda>s. Inr (s\<lparr>initialized := True\<rparr>))))"

definition KeeperStorage_empty :: "int \<Rightarrow> KeeperStorage" where
  "KeeperStorage_empty tick_time_ms =
     \<lparr>session_id_counter = 1, session_and_auth = (\<lambda>_. []), container = ht_empty,
      uncommitted_state = UncommittedState_new, ephemerals = Map.empty,
      sessions_and_watchers = Map.empty, session_expiry_queue = SessionExpiryQueue_new tick_time_ms,
      session_and_timeout = Map.empty, acl_map = ACLMap_empty, ks_zxid = 0, old_snapshot_zxid = 0,
      uncommitted_transactions = [], nodes_digest = 0, finalized = False, watches = Map.empty,
      list_watches = Map.empty, initialized = False\<rparr>"

definition KeeperStorage_new :: "KeeperContext \<Rightarrow> int \<Rightarrow> bool \<Rightarrow> exn + KeeperStorage" where
  "KeeperStorage_new ctx tick_time_ms initialize_system_nodes =
     (let s = storage_insert ctx ''/'' KeeperMemNode_new (KeeperStorage_empty tick_time_ms);
          s = addDigest_of ctx KeeperMemNode_new ''/'' s
      in if initialize_system_nodes then initializeSystemNodes ctx s else Inr s)"

section \<open>The uncommitted state\<close>

definition tryGetNodeFromStorage :: "string \<Rightarrow> KeeperStorage \<Rightarrow> KeeperMemNode option" where
  "tryGetNodeFromStorage path s = map_option shallowCopy (ht_find (container s) path)"

text \<open>The effect of a delta on the cached node; \<^verbatim>\<open>UpdateNodeDelta\<close> dereferences the node pointer.\<close>

definition apply_operation :: "Delta \<Rightarrow> UncommittedNode \<Rightarrow> exn + UncommittedNode" where
  "apply_operation d u =
     (case d_operation d of
        CreateNodeDelta stat acls data \<Rightarrow>
          Inr \<lparr>u_node = Some (setData data (copyStats stat KeeperMemNode_new)), u_acls = acls,
               u_zxid = d_zxid d\<rparr>
      | RemoveNodeDelta _ _ \<Rightarrow> Inr (u\<lparr>u_node := None, u_zxid := d_zxid d\<rparr>)
      | UpdateNodeDelta f _ \<Rightarrow>
          (case u_node u of
             None \<Rightarrow> Inl Undefined
           | Some n \<Rightarrow> Inr (u\<lparr>u_node := Some (apply_update f (invalidateDigestCache n)),
                             u_zxid := d_zxid d\<rparr>))
      | SetACLDelta acls _ \<Rightarrow> Inr (u\<lparr>u_acls := acls, u_zxid := d_zxid d\<rparr>)
      | _ \<Rightarrow> Inr u)"

definition cached_node :: "string \<Rightarrow> KeeperStorage \<Rightarrow> UncommittedNode" where
  "cached_node path s =
     (case us_nodes (uncommitted_state s) path of
        Some u \<Rightarrow> u
      | None \<Rightarrow> \<lparr>u_node = tryGetNodeFromStorage path s, u_acls = [], u_zxid = 0\<rparr>)"

definition applyDelta :: "Delta \<Rightarrow> KeeperStorage \<Rightarrow> exn + KeeperStorage" where
  "applyDelta d s =
     bindE (apply_operation d (cached_node (d_path d) s)) (\<lambda>u.
       Inr (s\<lparr>uncommitted_state := (uncommitted_state s)
                \<lparr>us_nodes := (us_nodes (uncommitted_state s))(d_path d \<mapsto> u)\<rparr>\<rparr>))"

definition check_auth :: "(AuthID \<Rightarrow> bool) \<Rightarrow> AuthID list \<Rightarrow> bool" where
  "check_auth predicate auth_ids = list_ex predicate auth_ids"

definition hasACL :: "int64 \<Rightarrow> bool \<Rightarrow> (AuthID \<Rightarrow> bool) \<Rightarrow> KeeperStorage \<Rightarrow> bool" where
  "hasACL session_id is_local predicate s =
     (if is_local then check_auth predicate (session_and_auth s session_id)
      else if session_id \<in> set (us_closed_sessions (uncommitted_state s)) then False
      else if check_auth predicate (session_and_auth s session_id) then True
      else case us_session_and_auth (uncommitted_state s) session_id of
             None \<Rightarrow> False
           | Some auths \<Rightarrow> check_auth predicate (map snd auths))"

definition addDelta :: "Delta \<Rightarrow> KeeperStorage \<Rightarrow> exn + KeeperStorage" where
  "addDelta d s =
     (let us = uncommitted_state s; p = (us_next us, d);
          us1 = us\<lparr>us_deltas := us_deltas us @ [p], us_next := Suc (us_next us)\<rparr>
      in if d_path d \<noteq> []
         then applyDelta d
                (s\<lparr>uncommitted_state := us1
                     \<lparr>us_deltas_for_path := (us_deltas_for_path us1)
                        (d_path d \<mapsto> (case us_deltas_for_path us1 (d_path d) of None \<Rightarrow> [] | Some ds \<Rightarrow> ds) @ [p])\<rparr>\<rparr>)
         else
           Inr (s\<lparr>uncommitted_state :=
             (case d_operation d of
                AddAuthDelta session_id auth_id \<Rightarrow>
                  us1\<lparr>us_session_and_auth := (us_session_and_auth us1)
                        (session_id \<mapsto> (case us_session_and_auth us1 session_id of None \<Rightarrow> [] | Some as \<Rightarrow> as)
                                     @ [(us_next us, auth_id)])\<rparr>
              | CloseSessionDelta session_id \<Rightarrow>
                  us1\<lparr>us_closed_sessions := set_emplace session_id (us_closed_sessions us1)\<rparr>
              | _ \<Rightarrow> us1)\<rparr>))"

fun addDeltas :: "Delta list \<Rightarrow> KeeperStorage \<Rightarrow> exn + KeeperStorage" where
  "addDeltas [] s = Inr s"
| "addDeltas (d # ds) s = bindE (addDelta d s) (addDeltas ds)"

text \<open>\<^verbatim>\<open>UncommittedState::commit\<close>: the body of the loop over the front of the list of deltas, which
  also collects the modified nodes, the loop, then the removal of cached nodes.\<close>

definition us_commit_step ::
  "int64 \<Rightarrow> Delta \<Rightarrow> UncommittedState \<Rightarrow> string list \<Rightarrow> exn + UncommittedState \<times> string list" where
  "us_commit_step z d us modified =
     (if d_path d \<noteq> []
      then (case us_deltas_for_path us (d_path d) of
              None \<Rightarrow> Inl OutOfRange
            | Some [] \<Rightarrow> Inl Undefined
            | Some (_ # path_deltas) \<Rightarrow>
                (if path_deltas = []
                 then Inr (us\<lparr>us_deltas_for_path := (us_deltas_for_path us)(d_path d := None)\<rparr>,
                           set_emplace (d_path d) modified)
                 else Inr (us\<lparr>us_deltas_for_path := (us_deltas_for_path us)(d_path d \<mapsto> path_deltas)\<rparr>,
                           if z <s d_zxid (snd (hd path_deltas)) then set_emplace (d_path d) modified
                           else modified)))
      else (case d_operation d of
              AddAuthDelta session_id _ \<Rightarrow>
                (case us_session_and_auth us session_id of
                   Some (_ # auths) \<Rightarrow>
                     Inr (us\<lparr>us_session_and_auth := (us_session_and_auth us)
                               (session_id := (if auths = [] then None else Some auths))\<rparr>, modified)
                 | _ \<Rightarrow> Inl Undefined)
            | CloseSessionDelta session_id \<Rightarrow>
                Inr (us\<lparr>us_closed_sessions := removeAll session_id (us_closed_sessions us)\<rparr>, modified)
            | _ \<Rightarrow> Inr (us, modified)))"

fun us_commit_loop ::
  "int64 \<Rightarrow> (nat \<times> Delta) list \<Rightarrow> UncommittedState \<Rightarrow> string list \<Rightarrow> exn + UncommittedState \<times> string list" where
  "us_commit_loop z [] us modified = Inr (us\<lparr>us_deltas := []\<rparr>, modified)"
| "us_commit_loop z ((i, d) # ds) us modified =
     (if d_zxid d \<noteq> z then Inr (us\<lparr>us_deltas := (i, d) # ds\<rparr>, modified)
      else if d_operation d = SubDeltaEnd then Inr (us\<lparr>us_deltas := ds\<rparr>, modified)
      else bindE (us_commit_step z d us modified) (\<lambda>(us, modified). us_commit_loop z ds us modified))"

text \<open>\<^verbatim>\<open>nodes[node]\<close> inserts a default entry when there is none.\<close>

definition us_drop_node :: "int64 \<Rightarrow> string \<Rightarrow> (string \<rightharpoonup> UncommittedNode) \<Rightarrow> (string \<rightharpoonup> UncommittedNode)" where
  "us_drop_node z p nodes =
     (let u = (case nodes p of None \<Rightarrow> \<lparr>u_node = None, u_acls = [], u_zxid = 0\<rparr> | Some u \<Rightarrow> u)
      in if u_zxid u = z then nodes(p := None) else nodes(p \<mapsto> u))"

definition us_commit :: "int64 \<Rightarrow> KeeperStorage \<Rightarrow> exn + KeeperStorage" where
  "us_commit z s =
     bindE (us_commit_loop z (us_deltas (uncommitted_state s)) (uncommitted_state s) [])
       (\<lambda>(us, modified). Inr (s\<lparr>uncommitted_state := us\<lparr>us_nodes := fold (us_drop_node z) modified (us_nodes us)\<rparr>\<rparr>))"

definition unregisterEphemeralPath :: "int64 \<Rightarrow> string \<Rightarrow> KeeperStorage \<Rightarrow> exn + KeeperStorage" where
  "unregisterEphemeralPath session_id path s =
     (case ephemerals s session_id of
        None \<Rightarrow> Inl LOGICAL_ERROR
      | Some paths \<Rightarrow>
          (let rest = removeAll path paths
           in Inr (s\<lparr>ephemerals := (ephemerals s)(session_id := (if rest = [] then None else Some rest))\<rparr>)))"

text \<open>\<^verbatim>\<open>UncommittedState::rollback\<close>: the body of the loop from the back of the list of deltas, and the
  loop itself, over the reversed list; it returns the deltas that stay, in reverse.\<close>

definition rollback_ephemerals :: "Delta \<Rightarrow> KeeperStorage \<Rightarrow> exn + KeeperStorage" where
  "rollback_ephemerals d s =
     (case d_operation d of
        CreateNodeDelta stat _ _ \<Rightarrow>
          (if st_ephemeralOwner stat \<noteq> 0
           then unregisterEphemeralPath (st_ephemeralOwner stat) (d_path d) s else Inr s)
      | RemoveNodeDelta _ owner \<Rightarrow>
          Inr (if owner \<noteq> 0 then s\<lparr>ephemerals := map_emplace owner (d_path d) (ephemerals s)\<rparr> else s)
      | _ \<Rightarrow> Inr s)"

text \<open>\<^verbatim>\<open>if (list.back() == pointer) list.pop_back()\<close>, erasing an emptied list.\<close>

definition pop_back_if :: "nat \<Rightarrow> (nat \<times> 'a) list \<Rightarrow> (nat \<times> 'a) list option" where
  "pop_back_if i xs =
     (if fst (last xs) = i then (if butlast xs = [] then None else Some (butlast xs)) else Some xs)"

definition us_rollback_step :: "nat \<Rightarrow> Delta \<Rightarrow> UncommittedState \<Rightarrow> exn + UncommittedState" where
  "us_rollback_step i d us =
     (if d_path d \<noteq> []
      then (case us_deltas_for_path us (d_path d) of
              None \<Rightarrow> Inl OutOfRange
            | Some path_deltas \<Rightarrow>
                (if path_deltas = [] then Inl Undefined
                 else Inr (us\<lparr>us_deltas_for_path := (us_deltas_for_path us)
                                (d_path d := pop_back_if i path_deltas)\<rparr>)))
      else (case d_operation d of
              AddAuthDelta session_id _ \<Rightarrow>
                (case us_session_and_auth us session_id of
                   None \<Rightarrow> Inl Undefined
                 | Some auths \<Rightarrow>
                     (if auths = [] then Inl Undefined
                      else Inr (us\<lparr>us_session_and_auth := (us_session_and_auth us)
                                     (session_id := pop_back_if i auths)\<rparr>)))
            | CloseSessionDelta session_id \<Rightarrow>
                Inr (us\<lparr>us_closed_sessions := removeAll session_id (us_closed_sessions us)\<rparr>)
            | _ \<Rightarrow> Inr us))"

fun us_rollback_loop ::
  "int64 \<Rightarrow> (nat \<times> Delta) list \<Rightarrow> KeeperStorage \<Rightarrow> exn + KeeperStorage \<times> (nat \<times> Delta) list" where
  "us_rollback_loop z [] s = Inr (s, [])"
| "us_rollback_loop z ((i, d) # ds) s =
     (if d_zxid d <s z then Inr (s, (i, d) # ds)
      else bindE (if d_path d \<noteq> [] then rollback_ephemerals d s else Inr s) (\<lambda>s.
             bindE (us_rollback_step i d (uncommitted_state s)) (\<lambda>us.
               us_rollback_loop z ds (s\<lparr>uncommitted_state := us\<rparr>))))"

fun apply_operations :: "Delta list \<Rightarrow> UncommittedNode \<Rightarrow> exn + UncommittedNode" where
  "apply_operations [] u = Inr u"
| "apply_operations (d # ds) u = bindE (apply_operation d u) (apply_operations ds)"

text \<open>Erasing the cached nodes last changed by the transaction and applying the remaining deltas of
  their paths again; every path is independent of the others.\<close>

definition recalculated_node :: "int64 \<Rightarrow> KeeperStorage \<Rightarrow> string \<Rightarrow> exn + UncommittedNode option" where
  "recalculated_node z s p =
     (case us_nodes (uncommitted_state s) p of
        None \<Rightarrow> Inr None
      | Some u \<Rightarrow>
          (if u_zxid u = z
           then (case us_deltas_for_path (uncommitted_state s) p of
                   None \<Rightarrow> Inr None
                 | Some ds \<Rightarrow>
                     bindE (apply_operations (map snd ds)
                              \<lparr>u_node = tryGetNodeFromStorage p s, u_acls = [], u_zxid = 0\<rparr>) (Inr \<circ> Some))
           else Inr (Some u)))"

definition us_rollback :: "int64 \<Rightarrow> KeeperStorage \<Rightarrow> exn + KeeperStorage" where
  "us_rollback z s =
     (let us = uncommitted_state s
      in if us_deltas us \<noteq> [] \<and> z <s d_zxid (snd (last (us_deltas us))) then Inl LOGICAL_ERROR
         else
           bindE (us_rollback_loop z (rev (us_deltas us)) s) (\<lambda>(s, kept).
             let s = s\<lparr>uncommitted_state := (uncommitted_state s)\<lparr>us_deltas := rev kept\<rparr>\<rparr>
             in if list_ex (\<lambda>(i, d). case recalculated_node z s (d_path d) of Inl _ \<Rightarrow> True | Inr _ \<Rightarrow> False) (rev kept)
                then Inl Undefined
                else Inr (s\<lparr>uncommitted_state := (uncommitted_state s)
                  \<lparr>us_nodes := (\<lambda>p. case recalculated_node z s p of Inl _ \<Rightarrow> None | Inr u \<Rightarrow> u)\<rparr>\<rparr>)))"

definition us_getNode :: "string \<Rightarrow> KeeperStorage \<Rightarrow> KeeperMemNode option" where
  "us_getNode path s =
     (case us_nodes (uncommitted_state s) path of
        Some u \<Rightarrow> u_node u
      | None \<Rightarrow> tryGetNodeFromStorage path s)"

definition us_getACLs :: "string \<Rightarrow> KeeperStorage \<Rightarrow> exn + ACLs" where
  "us_getACLs path s =
     (case us_nodes (uncommitted_state s) path of
        Some u \<Rightarrow> Inr (u_acls u)
      | None \<Rightarrow>
          (case ht_find (container s) path of
             None \<Rightarrow> Inr []
           | Some n \<Rightarrow> convertNumber (n_acl_id n) (acl_map s)))"

text \<open>\<^verbatim>\<open>forEachAuthInSession\<close>: the identities the callback is called with, in order.\<close>

definition authsInSession :: "int64 \<Rightarrow> KeeperStorage \<Rightarrow> AuthID list" where
  "authsInSession session_id s =
     session_and_auth s session_id @
     (case us_session_and_auth (uncommitted_state s) session_id of None \<Rightarrow> [] | Some as \<Rightarrow> map snd as)"

section \<open>Committing\<close>

definition createNode ::
  "KeeperContext \<Rightarrow> string \<Rightarrow> string \<Rightarrow> Stat \<Rightarrow> ACLs \<Rightarrow> KeeperStorage \<Rightarrow> exn + bool \<times> KeeperStorage" where
  "createNode ctx path data stat node_acls s =
     (case parentNodePath path of
        None \<Rightarrow> Inl Undefined
      | Some parent_path \<Rightarrow>
          (case ht_find (container s) parent_path of
             None \<Rightarrow> Inr (False, s)
           | Some parent \<Rightarrow>
               if n_is_ephemeral parent then Inr (False, s)
               else if ht_contains (container s) path then Inr (False, s)
               else
                 (let (acl_id, m) = convertACLs node_acls (acl_map s);
                      s = s\<lparr>acl_map := addUsage acl_id m\<rparr>;
                      created_node = setData data (copyStats stat (KeeperMemNode_new\<lparr>n_acl_id := acl_id\<rparr>));
                      s = storage_insert ctx path created_node s
                  in bindE (storage_update_value ctx parent_path (addChild (getBaseNodeName path)) s)
                       (\<lambda>s. Inr (True, addDigest ctx path s)))))"

definition removeNode :: "KeeperContext \<Rightarrow> string \<Rightarrow> int32 \<Rightarrow> KeeperStorage \<Rightarrow> exn + bool \<times> KeeperStorage" where
  "removeNode ctx path version s =
     (case ht_find (container s) path of
        None \<Rightarrow> Inr (False, s)
      | Some n \<Rightarrow>
          (if version \<noteq> -1 \<and> version \<noteq> n_version n then Inr (False, s)
           else if numChildren n \<noteq> 0 then Inr (False, s)
           else
             (let prev_node = shallowCopy n;
                  s = s\<lparr>acl_map := removeUsage (n_acl_id n) (acl_map s)\<rparr>
              in case parentNodePath path of
                   None \<Rightarrow> Inl Undefined
                 | Some parent \<Rightarrow>
                     bindE (storage_update_value ctx parent (removeChild (getBaseNodeName path)) s)
                       (\<lambda>s. let s = s\<lparr>container := snd (ht_erase (vo ctx) path (container s))\<rparr>
                            in Inr (True, removeDigest_of ctx prev_node path s)))))"

definition storage_commit_delta :: "KeeperContext \<Rightarrow> Delta \<Rightarrow> KeeperStorage \<Rightarrow> exn + Error \<times> KeeperStorage" where
  "storage_commit_delta ctx d s =
     (case d_operation d of
        CreateNodeDelta stat acls data \<Rightarrow>
          bindE (createNode ctx (d_path d) data stat acls s)
            (\<lambda>(ok, s). if ok then Inr (ZOK, s) else Inl Terminate)
      | UpdateNodeDelta f version \<Rightarrow>
          (case ht_find (container s) (d_path d) of
             None \<Rightarrow> Inl Terminate
           | Some n \<Rightarrow>
               if version \<noteq> -1 \<and> version \<noteq> n_version n then Inl Terminate
               else bindE (storage_update_value ctx (d_path d) (apply_update f) (removeDigest ctx (d_path d) s))
                      (\<lambda>s. Inr (ZOK, addDigest ctx (d_path d) s)))
      | RemoveNodeDelta version _ \<Rightarrow>
          bindE (removeNode ctx (d_path d) version s)
            (\<lambda>(ok, s). if ok then Inr (ZOK, s) else Inl Terminate)
      | SetACLDelta acls version \<Rightarrow>
          (case ht_find (container s) (d_path d) of
             None \<Rightarrow> Inl Terminate
           | Some n \<Rightarrow>
               if version \<noteq> -1 \<and> version \<noteq> n_aversion n then Inl Terminate
               else (let (acl_id, m) = convertACLs acls (removeUsage (n_acl_id n) (acl_map s))
                     in bindE (storage_update_value ctx (d_path d) (n_acl_id_update (\<lambda>_. acl_id))
                                 (s\<lparr>acl_map := addUsage acl_id m\<rparr>))
                          (\<lambda>s. Inr (ZOK, s))))
      | ErrorDelta e \<Rightarrow> Inr (e, s)
      | SubDeltaEnd \<Rightarrow> Inr (ZOK, s)
      | AddAuthDelta session_id auth_id \<Rightarrow>
          Inr (ZOK, s\<lparr>session_and_auth := (session_and_auth s)
                        (session_id := session_and_auth s session_id @ [auth_id])\<rparr>)
      | CloseSessionDelta _ \<Rightarrow> Inr (ZOK, s)
      | FailedMultiDelta _ _ \<Rightarrow> Inl Terminate)"

fun commit_loop :: "KeeperContext \<Rightarrow> int64 \<Rightarrow> Delta list \<Rightarrow> KeeperStorage \<Rightarrow> exn + Error \<times> KeeperStorage" where
  "commit_loop ctx z [] s = Inr (ZOK, s)"
| "commit_loop ctx z (d # ds) s =
     (if z <s d_zxid d then Inr (ZOK, s)
      else bindE (storage_commit_delta ctx d s)
             (\<lambda>(result, s). if result \<noteq> ZOK then Inr (result, s)
                            else if d_operation d = SubDeltaEnd then Inr (ZOK, s)
                            else commit_loop ctx z ds s))"

definition storage_commit :: "KeeperContext \<Rightarrow> int64 \<Rightarrow> KeeperStorage \<Rightarrow> exn + Error \<times> KeeperStorage" where
  "storage_commit ctx z s = commit_loop ctx z (map snd (us_deltas (uncommitted_state s))) s"

section \<open>Access control\<close>

definition getNodeACLs :: "string \<Rightarrow> bool \<Rightarrow> KeeperStorage \<Rightarrow> exn + ACLs" where
  "getNodeACLs path is_local s =
     (if is_local
      then (case ht_find (container s) path of
              None \<Rightarrow> Inr []
            | Some n \<Rightarrow> convertNumber (n_acl_id n) (acl_map s))
      else us_getACLs path s)"

definition acl_allows :: "int32 \<Rightarrow> int64 \<Rightarrow> bool \<Rightarrow> KeeperStorage \<Rightarrow> ACL \<Rightarrow> bool" where
  "acl_allows permission session_id is_local s acl \<longleftrightarrow>
     permissions acl AND permission \<noteq> 0 \<and>
     (scheme acl = ''world'' \<and> acl_ident acl = ''anyone'' \<or>
      hasACL session_id is_local (\<lambda>a. aid_scheme a = scheme acl \<and> aid_id a = acl_ident acl) s)"

definition checkACL :: "string \<Rightarrow> int32 \<Rightarrow> int64 \<Rightarrow> bool \<Rightarrow> KeeperStorage \<Rightarrow> exn + bool" where
  "checkACL path permission session_id is_local s =
     bindE (getNodeACLs path is_local s) (\<lambda>node_acls.
       Inr (node_acls = [] \<or>
            hasACL session_id is_local (\<lambda>a. aid_scheme a = ''super'') s \<or>
            list_ex (acl_allows permission session_id is_local s) node_acls))"

text \<open>\<^verbatim>\<open>fixupACL\<close>: \<open>None\<close> is the result false, otherwise the resulting list.\<close>

fun fixupACL_loop :: "AuthID list \<Rightarrow> ACLs \<Rightarrow> bool \<Rightarrow> ACLs \<Rightarrow> ACLs option" where
  "fixupACL_loop auths [] valid_found result = (if valid_found then Some result else None)"
| "fixupACL_loop auths (a # as) valid_found result =
     (if scheme a = ''auth''
      then fixupACL_loop auths as (valid_found \<or> auths \<noteq> [])
             (result @ map (\<lambda>i. a\<lparr>scheme := aid_scheme i, acl_ident := aid_id i\<rparr>) auths)
      else if scheme a = ''world'' \<and> acl_ident a = ''anyone''
      then fixupACL_loop auths as True result
      else if scheme a = ''digest''
      then (if length (filter (\<lambda>c. c = CHR '':'') (acl_ident a)) \<noteq> 1 then None
            else fixupACL_loop auths as True (result @ [a]))
      else fixupACL_loop auths as valid_found result)"

definition fixupACL :: "ACLs \<Rightarrow> int64 \<Rightarrow> KeeperStorage \<Rightarrow> ACLs option" where
  "fixupACL request_acls session_id s =
     (if request_acls = [] then Some []
      else fixupACL_loop (authsInSession session_id s) request_acls False [])"

text \<open>\<^verbatim>\<open>generateDigest\<close>: the part before the first colon, a colon, and the hash of the whole.\<close>

definition generateDigest :: "KeeperContext \<Rightarrow> string \<Rightarrow> string" where
  "generateDigest ctx userdata =
     takeWhile (\<lambda>c. c \<noteq> CHR '':'') userdata @ '':'' @ sha1_base64 ctx userdata"

section \<open>Sessions and snapshots\<close>

text \<open>\<^verbatim>\<open>emplace\<close> keeps an existing entry.\<close>

definition addSessionID :: "int \<Rightarrow> int64 \<Rightarrow> int \<Rightarrow> KeeperStorage \<Rightarrow> exn + KeeperStorage" where
  "addSessionID now session_id timeout_ms s =
     bindE (addNewSessionOrUpdate now session_id timeout_ms (session_expiry_queue s)) (\<lambda>q.
       Inr (s\<lparr>session_and_timeout := (case session_and_timeout s session_id of
                  None \<Rightarrow> (session_and_timeout s)(session_id \<mapsto> timeout_ms)
                | Some _ \<Rightarrow> session_and_timeout s),
              session_expiry_queue := q\<rparr>))"

definition getSessionID :: "int \<Rightarrow> int \<Rightarrow> KeeperStorage \<Rightarrow> exn + int64 \<times> KeeperStorage" where
  "getSessionID now timeout_ms s =
     (let result = session_id_counter s
      in bindE (addSessionID now result timeout_ms (s\<lparr>session_id_counter := session_id_counter s + 1\<rparr>))
           (\<lambda>s. Inr (result, s)))"

definition storage_enableSnapshotMode :: "nat \<Rightarrow> KeeperStorage \<Rightarrow> KeeperStorage" where
  "storage_enableSnapshotMode up_to_version s =
     s\<lparr>container := ht_enableSnapshotMode up_to_version (container s)\<rparr>"

definition storage_disableSnapshotMode :: "KeeperStorage \<Rightarrow> KeeperStorage" where
  "storage_disableSnapshotMode s = s\<lparr>container := ht_disableSnapshotMode (container s)\<rparr>"

definition clearGarbageAfterSnapshot :: "KeeperContext \<Rightarrow> KeeperStorage \<Rightarrow> KeeperStorage" where
  "clearGarbageAfterSnapshot ctx s = s\<lparr>container := ht_clearOutdatedNodes (vo ctx) (container s)\<rparr>"

definition recalculateStats :: "KeeperContext \<Rightarrow> KeeperStorage \<Rightarrow> KeeperStorage" where
  "recalculateStats ctx s = s\<lparr>container := ht_recalculateDataSize (vo ctx) (container s)\<rparr>"

definition getDeadSessions :: "int \<Rightarrow> KeeperStorage \<Rightarrow> int64 list" where
  "getDeadSessions now s = getExpiredSessions now (session_expiry_queue s)"

definition storage_finalize :: "KeeperStorage \<Rightarrow> exn + KeeperStorage" where
  "storage_finalize s =
     (if finalized s then Inl LOGICAL_ERROR
      else Inr (s\<lparr>finalized := True, ephemerals := Map.empty, watches := Map.empty,
                  list_watches := Map.empty, sessions_and_watchers := Map.empty,
                  session_expiry_queue := queue_clear (session_expiry_queue s)\<rparr>))"

definition getNextZXID :: "KeeperStorage \<Rightarrow> int64" where
  "getNextZXID s =
     (if uncommitted_transactions s = [] then ks_zxid s + 1
      else t_zxid (last (uncommitted_transactions s)) + 1)"

text \<open>\<^verbatim>\<open>applyUncommittedState\<close>: transactions and deltas newer than a log index are added to another
  storage.\<close>

fun transactions_to_apply :: "int64 \<Rightarrow> TransactionInfo list \<Rightarrow> exn + TransactionInfo list" where
  "transactions_to_apply last_log_idx [] = Inr []"
| "transactions_to_apply last_log_idx (t # ts) =
     (if t_log_idx t = 0 then Inl LOGICAL_ERROR
      else bindE (transactions_to_apply last_log_idx ts)
             (\<lambda>r. Inr (if t_log_idx t \<le>s last_log_idx then r else t # r)))"

definition applyUncommittedState :: "KeeperStorage \<Rightarrow> int64 \<Rightarrow> KeeperStorage \<Rightarrow> exn + KeeperStorage" where
  "applyUncommittedState s last_log_idx other =
     bindE (transactions_to_apply last_log_idx (uncommitted_transactions s)) (\<lambda>ts.
       addDeltas
         (filter (\<lambda>d. d_zxid d \<in> set (map t_zxid ts)) (map snd (us_deltas (uncommitted_state s))))
         (other\<lparr>uncommitted_transactions := uncommitted_transactions other @ ts\<rparr>))"

end
