(* ===== verification/KeeperLogEntries.thy ===== *)
theory KeeperLogEntries
  imports ZooKeeperWire KeeperStorage
begin

text \<open>
  The entries of the Raft log: how a server serialises a request for the log
  (\<^verbatim>\<open>getZooKeeperLogEntry\<close> in src/Coordination/KeeperServer.cpp), how the leader fills in the zxid and the digest just
  before the entry is appended (\<^verbatim>\<open>PreAppendLogLeader\<close> in \<^verbatim>\<open>KeeperServer::callbackFunc\<close>), and how every server parses an
  entry, with the cache of parsed requests (\<^verbatim>\<open>IKeeperStateMachine::parseRequest\<close> in
  src/Coordination/KeeperStateMachine.cpp).

  Integers outside the request are in the byte order of the machine, little-endian. The version of a digest is read as
  a byte. The bytes of a newly allocated buffer that are not written are the argument \<open>fill\<close>, the system clock is the
  argument \<open>now\<close>.
\<close>

section \<open>Entries\<close>

record RequestForSession =
  rfs_session_id :: int64
  rfs_time :: int64
  rfs_request :: ZooKeeperRequest
  rfs_zxid :: int64
  rfs_digest :: "(byte \<times> uint64) option"

datatype SerializationVersion = INITIAL | WITH_TIME | WITH_ZXID_DIGEST

definition digest_code :: "DigestVersion \<Rightarrow> byte" where
  "digest_code v = (case v of NO_DIGEST \<Rightarrow> 0 | V1 \<Rightarrow> 1 | V2 \<Rightarrow> 2 | V3 \<Rightarrow> 3 | V4 \<Rightarrow> 4 | UnknownVersion b \<Rightarrow> b)"

definition digest_version_of_code :: "byte \<Rightarrow> DigestVersion" where
  "digest_version_of_code b =
     (if b = 0 then NO_DIGEST else if b = 1 then V1 else if b = 2 then V2 else if b = 3 then V3 else if b = 4 then V4
      else UnknownVersion b)"

definition writeIntBinary :: "nat \<Rightarrow> 'a::len word \<Rightarrow> bytes" where
  "writeIntBinary n x = le_bytes n x"

definition readIntBinary :: "nat \<Rightarrow> 'a::len word reader" where
  "readIntBinary n inp = bindE (readStrict n inp) (\<lambda>(bs, inp). Inr (word_of_bytes bs, inp))"

definition getZooKeeperLogEntry :: "RequestForSession \<Rightarrow> bytes" where
  "getZooKeeperLogEntry r =
     writeIntBinary 8 (rfs_session_id r) @ request_write (rfs_request r) @ writeIntBinary 8 (rfs_time r) @
     writeIntBinary 8 (0 :: int64) @ writeIntBinary 1 (digest_code NO_DIGEST) @ writeIntBinary 8 (0 :: uint64)"

text \<open>The leader writes the zxid and the digest into the end of the entry, after it has made room for the fields that entries
  of older versions lack.\<close>

definition bytes_missing :: "SerializationVersion \<Rightarrow> nat" where
  "bytes_missing version = (case version of INITIAL \<Rightarrow> 8 + 17 | WITH_TIME \<Rightarrow> 17 | WITH_ZXID_DIGEST \<Rightarrow> 0)"

definition fill_in_entry :: "bytes \<Rightarrow> SerializationVersion \<Rightarrow> RequestForSession \<Rightarrow> byte \<times> uint64 \<Rightarrow> bytes \<Rightarrow> bytes" where
  "fill_in_entry fill version r digest buf =
     (let buf = buf @ take (bytes_missing version) fill;
          header_size = 17 + (if version = INITIAL then 8 else 0);
          header = (if version = INITIAL then writeIntBinary 8 (rfs_time r) else []) @ writeIntBinary 8 (rfs_zxid r) @
                   writeIntBinary 1 (fst digest) @ (if fst digest \<noteq> digest_code NO_DIGEST then writeIntBinary 8 (snd digest) else []);
          start = length buf - header_size
      in take start buf @ header @ drop (start + length header) buf)"

section \<open>Parsing\<close>

type_synonym parsed_request_cache = "int64 \<rightharpoonup> (int32 \<rightharpoonup> RequestForSession)"

definition non_cacheable_xids :: "int32 list" where
  "non_cacheable_xids = [WATCH_XID, PING_XID, AUTH_XID, CLOSE_XID]"

definition should_cache :: "nat \<Rightarrow> int64 \<Rightarrow> int32 \<Rightarrow> bytes \<Rightarrow> bool" where
  "should_cache min_request_size_to_cache session_id x data \<longleftrightarrow>
     min_request_size_to_cache \<noteq> 0 \<and> session_id \<noteq> -1 \<and> min_request_size_to_cache \<le> length data \<and> x \<notin> set non_cacheable_xids"

definition cache_lookup :: "int64 \<Rightarrow> int32 \<Rightarrow> parsed_request_cache \<Rightarrow> RequestForSession option" where
  "cache_lookup session_id x cache = (case cache session_id of None \<Rightarrow> None | Some m \<Rightarrow> m x)"

definition cache_erase :: "int64 \<Rightarrow> int32 \<Rightarrow> parsed_request_cache \<Rightarrow> parsed_request_cache" where
  "cache_erase session_id x cache = cache(session_id := map_option (\<lambda>m. m(x := None)) (cache session_id))"

definition cache_emplace :: "int64 \<Rightarrow> int32 \<Rightarrow> RequestForSession \<Rightarrow> parsed_request_cache \<Rightarrow> parsed_request_cache" where
  "cache_emplace session_id x r cache =
     (let m = (case cache session_id of None \<Rightarrow> Map.empty | Some m \<Rightarrow> m)
      in cache(session_id \<mapsto> (if m x = None then m(x \<mapsto> r) else m)))"

text \<open>The fields after the request, by the version of the entry.\<close>

definition parse_tail :: "int64 \<Rightarrow> int64 \<Rightarrow> ZooKeeperRequest \<Rightarrow> bytes \<Rightarrow> wire_exn + RequestForSession \<times> SerializationVersion" where
  "parse_tail now session_id r inp =
     (if inp = []
      then Inr (\<lparr>rfs_session_id = session_id, rfs_time = now, rfs_request = r, rfs_zxid = 0, rfs_digest = None\<rparr>, INITIAL)
      else
        bindE (readIntBinary 8 inp) (\<lambda>(time, inp).
          if inp = []
          then Inr (\<lparr>rfs_session_id = session_id, rfs_time = time, rfs_request = r, rfs_zxid = 0, rfs_digest = None\<rparr>, WITH_TIME)
          else
            bindE (readIntBinary 8 inp) (\<lambda>(z, inp).
              bindE (readIntBinary 1 inp) (\<lambda>(version, inp).
                bindE (if version \<noteq> digest_code NO_DIGEST \<or> inp \<noteq> [] then readIntBinary 8 inp else Inr (0, inp)) (\<lambda>(value, inp).
                  Inr (\<lparr>rfs_session_id = session_id, rfs_time = time, rfs_request = r, rfs_zxid = z,
                        rfs_digest = Some (version, value)\<rparr>, WITH_ZXID_DIGEST))))))"

text \<open>The version is not reported when the request comes from the cache.\<close>

definition parseRequest ::
  "nat \<Rightarrow> int64 \<Rightarrow> bool \<Rightarrow> bytes \<Rightarrow> parsed_request_cache \<Rightarrow>
     wire_exn + RequestForSession \<times> SerializationVersion option \<times> parsed_request_cache" where
  "parseRequest min_request_size_to_cache now final data cache =
     bindE (readIntBinary 8 data) (\<lambda>(session_id, inp).
       bindE (read_int32 inp) (\<lambda>(len, inp).
         bindE (read_int32 inp) (\<lambda>(x, inp).
           let caching = should_cache min_request_size_to_cache session_id x data
           in case (if caching then cache_lookup session_id x cache else None) of
                Some r \<Rightarrow> Inr (r, None, if final then cache_erase session_id x cache else cache)
              | None \<Rightarrow>
                  bindE (read_opnum inp) (\<lambda>(op, inp).
                    bindE (readImpl op inp) (\<lambda>(r, inp).
                      bindE (parse_tail now session_id \<lparr>xid = x, request = r\<rparr> inp) (\<lambda>(rfs, version).
                        Inr (rfs, Some version,
                             if caching \<and> \<not> final then cache_emplace session_id x rfs cache else cache)))))))"

text \<open>\<^verbatim>\<open>parsed_request_cache.erase(session_id)\<close> when the session is closed.\<close>

definition cache_close :: "int64 \<Rightarrow> parsed_request_cache \<Rightarrow> parsed_request_cache" where
  "cache_close session_id cache = cache(session_id := None)"

section \<open>Round trips\<close>

lemma readIntBinary_write:
  fixes x :: "'a::len word"
  assumes "LENGTH('a) \<le> 8 * n"
  shows "readIntBinary n (writeIntBinary n x @ rest) = Inr (x, rest)"
  using assms by (simp add: readIntBinary_def writeIntBinary_def readStrict_def word_of_le_bytes take_bit_word_eq_self)

lemma length_writeIntBinary [simp]: "length (writeIntBinary n x) = n"
  by (simp add: writeIntBinary_def)

lemma readIntBinary_all:
  fixes x :: "'a::len word"
  shows "LENGTH('a) \<le> 8 * n \<Longrightarrow> readIntBinary n (writeIntBinary n x) = Inr (x, [])"
  using readIntBinary_write [of n x "[]"] by simp

lemma writeIntBinary_nonempty [simp]: "0 < n \<Longrightarrow> writeIntBinary n x \<noteq> []"
  by (metis length_writeIntBinary less_numeral_extra(3) list.size(3))

lemma readIntBinary_byte: "readIntBinary (Suc 0) (writeIntBinary (Suc 0) (x :: byte) @ rest) = Inr (x, rest)"
  by (rule readIntBinary_write) simp

lemma parse_tail_cases:
  "parse_tail now sid r [] =
     Inr (\<lparr>rfs_session_id = sid, rfs_time = now, rfs_request = r, rfs_zxid = 0, rfs_digest = None\<rparr>, INITIAL)"
  "parse_tail now sid r (writeIntBinary 8 (time :: int64)) =
     Inr (\<lparr>rfs_session_id = sid, rfs_time = time, rfs_request = r, rfs_zxid = 0, rfs_digest = None\<rparr>, WITH_TIME)"
  "parse_tail now sid r (writeIntBinary 8 (time :: int64) @ writeIntBinary 8 (z :: int64) @ writeIntBinary 1 (v :: byte) @ writeIntBinary 8 (g :: uint64)) =
     Inr (\<lparr>rfs_session_id = sid, rfs_time = time, rfs_request = r, rfs_zxid = z, rfs_digest = Some (v, g)\<rparr>, WITH_ZXID_DIGEST)"
  by (simp_all add: parse_tail_def readIntBinary_write readIntBinary_all readIntBinary_byte)

text \<open>Parsing an entry that is not cached: the request, then the tail.\<close>

lemma parse_entry:
  assumes "request_fits (request r)" "should_cache m sid (xid r) data \<Longrightarrow> cache_lookup sid (xid r) cache = None"
    "data = writeIntBinary 8 sid @ request_write r @ tail"
  shows "parseRequest m now final data cache =
     bindE (parse_tail now sid r tail) (\<lambda>(rfs, version).
       Inr (rfs, Some version,
            if should_cache m sid (xid r) data \<and> \<not> final then cache_emplace sid (xid r) rfs cache else cache))"
proof -
  obtain x q where r: "r = \<lparr>xid = x, request = q\<rparr>" by (cases r)
  have "(if should_cache m sid x data then cache_lookup sid x cache else None) = None" using assms(2) r by simp
  then show ?thesis
    using assms(1) unfolding parseRequest_def assms(3) request_write_def write_blob_def append_assoc r
    by (simp add: readIntBinary_write codec_read_write readImpl_writeImpl Let_def cong: if_cong)
qed

text \<open>Parsing an entry whose session and xid are in the cache.\<close>

lemma parse_hit:
  assumes "cache_lookup sid (xid r) cache = Some other" "should_cache m sid (xid r) data"
    "data = writeIntBinary 8 sid @ request_write r @ tail"
  shows "parseRequest m now final data cache = Inr (other, None, if final then cache_erase sid (xid r) cache else cache)"
  using assms(1,2) unfolding parseRequest_def assms(3) request_write_def write_blob_def append_assoc
  by (simp add: readIntBinary_write codec_read_write Let_def)

lemma cache_lookup_simps [simp]:
  "cache_lookup sid x (cache_erase sid x cache) = None"
  "cache_lookup sid x cache = None \<Longrightarrow> cache_lookup sid x (cache_emplace sid x r cache) = Some r"
  by (auto simp: cache_lookup_def cache_erase_def cache_emplace_def Let_def split: option.splits)

text \<open>Entries of the three versions: those of old servers lack the last fields.\<close>

definition entry_of :: "SerializationVersion \<Rightarrow> RequestForSession \<Rightarrow> bytes" where
  "entry_of version r =
     (case version of
        INITIAL \<Rightarrow> writeIntBinary 8 (rfs_session_id r) @ request_write (rfs_request r)
      | WITH_TIME \<Rightarrow> writeIntBinary 8 (rfs_session_id r) @ request_write (rfs_request r) @ writeIntBinary 8 (rfs_time r)
      | WITH_ZXID_DIGEST \<Rightarrow> getZooKeeperLogEntry r)"

lemma fill_in_entry_of:
  assumes "fst d \<noteq> digest_code NO_DIGEST" "25 \<le> length fill"
  shows "fill_in_entry fill version r d (entry_of version r) =
     writeIntBinary 8 (rfs_session_id r) @ request_write (rfs_request r) @ writeIntBinary 8 (rfs_time r) @
     writeIntBinary 8 (rfs_zxid r) @ writeIntBinary 1 (fst d) @ writeIntBinary 8 (snd d)"
  using assms by (cases version) (simp_all add: fill_in_entry_def entry_of_def bytes_missing_def getZooKeeperLogEntry_def Let_def)

text \<open>C29: the log carries requests. An entry of any version that the leader has completed with the zxid and the digest, and that is
  not in the cache, is parsed by every server as the request of the client with its session, xid and time, and with
  the zxid and the digest of the leader.\<close>

theorem log_entry_roundtrip:
  assumes "request_fits (request (rfs_request r))" "fst d \<noteq> digest_code NO_DIGEST" "25 \<le> length fill"
    "cache_lookup (rfs_session_id r) (xid (rfs_request r)) cache = None"
  shows "\<exists>cache'. parseRequest m now final (fill_in_entry fill version r d (entry_of version r)) cache =
     Inr (r\<lparr>rfs_digest := Some d\<rparr>, Some WITH_ZXID_DIGEST, cache')"
proof -
  let ?data = "fill_in_entry fill version r d (entry_of version r)"
  have "parse_tail now (rfs_session_id r) (rfs_request r)
      (writeIntBinary 8 (rfs_time r) @ writeIntBinary 8 (rfs_zxid r) @ writeIntBinary 1 (fst d) @ writeIntBinary 8 (snd d)) =
      Inr (r\<lparr>rfs_digest := Some d\<rparr>, WITH_ZXID_DIGEST)" unfolding parse_tail_cases(3) by (cases r) simp
  then show ?thesis
    using parse_entry [OF assms(1), of m "rfs_session_id r" ?data cache, OF assms(4)] fill_in_entry_of [OF assms(2,3)] by auto
qed

theorem log_entry_roundtrip_witness:
  "\<exists>cache'. parseRequest 100 0 True
     (fill_in_entry (replicate 25 0) INITIAL \<lparr>rfs_session_id = 3, rfs_time = 8, rfs_request = \<lparr>xid = 1, request = GetRequest ''/a'' False\<rparr>, rfs_zxid = 6, rfs_digest = None\<rparr>
        (4, 77) (entry_of INITIAL \<lparr>rfs_session_id = 3, rfs_time = 8, rfs_request = \<lparr>xid = 1, request = GetRequest ''/a'' False\<rparr>, rfs_zxid = 6, rfs_digest = None\<rparr>)) Map.empty =
     Inr (\<lparr>rfs_session_id = 3, rfs_time = 8, rfs_request = \<lparr>xid = 1, request = GetRequest ''/a'' False\<rparr>, rfs_zxid = 6, rfs_digest = Some (4, 77)\<rparr>,
       Some WITH_ZXID_DIGEST, cache')"
  using log_entry_roundtrip [of "\<lparr>rfs_session_id = 3, rfs_time = 8, rfs_request = \<lparr>xid = 1, request = GetRequest ''/a'' False\<rparr>, rfs_zxid = 6, rfs_digest = None\<rparr>"
      "(4, 77)" "replicate 25 0" Map.empty 100 0 True INITIAL]
  by (simp add: MAX_STRING_OR_ARRAY_SIZE_def digest_code_def cache_lookup_def)

text \<open>C30: the cache serves what was parsed, once for the last use. A cacheable entry that was parsed before it is appended is found
  again when it is committed, without parsing, and is then no longer in the cache.\<close>

theorem parse_cached:
  assumes "request_fits (request r)" "data = writeIntBinary 8 sid @ request_write r @ tail" "should_cache m sid (xid r) data"
    "cache_lookup sid (xid r) cache = None" "parseRequest m now False data cache = Inr (rfs, version, cache')"
  shows "parseRequest m now' True data cache' = Inr (rfs, None, cache_erase sid (xid r) cache') \<and>
     cache_lookup sid (xid r) (cache_erase sid (xid r) cache') = None"
proof -
  have "\<exists>v. cache' = cache_emplace sid (xid r) rfs cache \<and> version = Some v"
    using parse_entry [OF assms(1) assms(4,2), of m now False] assms(3,5) by (cases "parse_tail now sid r tail") auto
  then have c: "cache_lookup sid (xid r) cache' = Some rfs" using assms(4) by auto
  show ?thesis using parse_hit [OF c assms(3,2), of now' True] by simp
qed

theorem parse_cached_witness:
  "\<exists>rfs version cache'. let r = \<lparr>xid = 1, request = GetRequest ''/a'' False\<rparr>; data = writeIntBinary 8 (3 :: int64) @ request_write r @ [] in
     parseRequest 1 9 False data Map.empty = Inr (rfs, version, cache') \<and>
     parseRequest 1 10 True data cache' = Inr (rfs, None, cache_erase 3 1 cache')"
proof -
  let ?r = "\<lparr>xid = 1, request = GetRequest ''/a'' False\<rparr>" and ?sid = "3 :: int64"
  let ?data = "writeIntBinary 8 ?sid @ request_write ?r @ []"
  have f: "request_fits (request ?r)" by (simp add: MAX_STRING_OR_ARRAY_SIZE_def)
  have k: "should_cache 1 ?sid (xid ?r) ?data"
    by (simp add: should_cache_def non_cacheable_xids_def request_write_def write_blob_def)
  have l: "cache_lookup ?sid (xid ?r) Map.empty = None" by (simp add: cache_lookup_def)
  obtain rfs version cache' where p: "parseRequest 1 9 False ?data Map.empty = Inr (rfs, version, cache')"
    using parse_entry [OF f l refl, where m = 1 and now = 9 and final = False and tail = "[]"] unfolding parse_tail_cases(1) by simp
  show ?thesis using parse_cached [OF f refl k l p, of 10] p unfolding Let_def
    by (intro exI [of _ rfs] exI [of _ version] exI [of _ cache']) simp
qed

text \<open>C31: the cache is keyed by session and xid alone. When a session has an uncommitted cacheable request, another request of the
  session with the same xid is parsed as the first one, whatever it asks for.\<close>

theorem duplicate_xid_from_cache:
  assumes "cache_lookup sid (xid r) cache = Some other" "should_cache m sid (xid r) data"
    "data = writeIntBinary 8 sid @ request_write r @ tail"
  shows "parseRequest m now False data cache = Inr (other, None, cache)"
  using parse_hit [OF assms, of now False] by simp

theorem duplicate_xid_from_cache_witness:
  "let other = \<lparr>rfs_session_id = 3, rfs_time = 8, rfs_request = \<lparr>xid = 1, request = GetRequest ''/a'' False\<rparr>, rfs_zxid = 6, rfs_digest = None\<rparr>;
       cache = [3 \<mapsto> [1 \<mapsto> other]]; r = \<lparr>xid = 1, request = RemoveRequest ''/b'' (-1) False\<rparr>
   in parseRequest 1 9 False (writeIntBinary 8 (3 :: int64) @ request_write r @ []) cache = Inr (other, None, cache)"
  unfolding Let_def
  by (rule duplicate_xid_from_cache [OF _ _ refl])
    (simp_all add: cache_lookup_def should_cache_def non_cacheable_xids_def request_write_def write_blob_def)

end
