(* ===== verification/KeeperProcessors.thy ===== *)
theory KeeperProcessors
  imports KeeperStorage
begin

text \<open>
  The request processors of src/Coordination/KeeperStorage.cpp: for every request class its
  \<^verbatim>\<open>checkAuth\<close>, \<^verbatim>\<open>preprocess\<close>, \<^verbatim>\<open>process\<close>, \<^verbatim>\<open>processLocal\<close> and \<^verbatim>\<open>processWatches\<close>, and the factory
  that selects them.

  \<^verbatim>\<open>preprocess\<close> returns the deltas or the exception, and in both cases the storage and the digest
  it leaves behind, because the caller goes on with them. The processors of a multi request hold
  processors of plain requests only (its constructor rejects every other operation), so the plain
  processors are defined first and the multi processor over lists of plain requests.
\<close>

section \<open>Watches\<close>

definition watch_response :: "string \<Rightarrow> Event \<Rightarrow> Response" where
  "watch_response path event_type =
     Response ZOK (-1) WATCH_XID (WatchResponse (event_code event_type) State_CONNECTED path)"

definition fire_watch ::
  "string \<Rightarrow> Event \<Rightarrow> (string \<rightharpoonup> int64 list) \<Rightarrow> ResponseForSession list \<times> (string \<rightharpoonup> int64 list)" where
  "fire_watch path event_type ws =
     (case ws path of
        None \<Rightarrow> ([], ws)
      | Some sessions \<Rightarrow>
          (map (\<lambda>sid. \<lparr>rs_session_id = sid, rs_response = watch_response path event_type\<rparr>) sessions,
           ws(path := None)))"

fun fire_list_watches ::
  "string \<Rightarrow> string list \<Rightarrow> (string \<rightharpoonup> int64 list) \<Rightarrow> ResponseForSession list \<times> (string \<rightharpoonup> int64 list)" where
  "fire_list_watches parent_path [] lws = ([], lws)"
| "fire_list_watches parent_path (p # ps) lws =
     (let (rs, lws1) = fire_watch p (if p = parent_path then CHILD else DELETED) lws;
          (rs', lws2) = fire_list_watches parent_path ps lws1
      in (rs @ rs', lws2))"

definition processWatchesImpl :: "string \<Rightarrow> Event \<Rightarrow> KeeperStorage \<Rightarrow> exn + ResponseForSession list \<times> KeeperStorage" where
  "processWatchesImpl path event_type s =
     (let (rs, ws) = fire_watch path event_type (watches s);
          s1 = s\<lparr>watches := ws\<rparr>
      in if event_type = CREATED \<or> event_type = DELETED
         then (case parentNodePath path of
                 None \<Rightarrow> Inl Undefined
               | Some parent_path \<Rightarrow>
                   (let (rs', lws) = fire_list_watches parent_path
                          (if event_type = CREATED then [parent_path] else [path, parent_path])
                          (list_watches s1)
                    in Inr (rs @ rs', s1\<lparr>list_watches := lws\<rparr>)))
         else Inr (rs, s1))"

definition clear_watch :: "int64 \<Rightarrow> string \<Rightarrow> (string \<rightharpoonup> int64 list) \<Rightarrow> (string \<rightharpoonup> int64 list)" where
  "clear_watch session_id path ws =
     (case ws path of
        None \<Rightarrow> ws
      | Some ss \<Rightarrow> ws(path := (if removeAll session_id ss = [] then None else Some (removeAll session_id ss))))"

definition clearDeadWatches :: "int64 \<Rightarrow> KeeperStorage \<Rightarrow> KeeperStorage" where
  "clearDeadWatches session_id s =
     (case sessions_and_watchers s session_id of
        None \<Rightarrow> s
      | Some paths \<Rightarrow>
          s\<lparr>watches := fold (clear_watch session_id) paths (watches s),
            list_watches := fold (clear_watch session_id) paths (list_watches s),
            sessions_and_watchers := (sessions_and_watchers s)(session_id := None)\<rparr>)"

section \<open>The digest of preprocessed changes\<close>

text \<open>The digest of an uncommitted node is memoized in the cached node.\<close>

definition memo_uncommitted :: "string \<Rightarrow> KeeperStorage \<Rightarrow> KeeperStorage" where
  "memo_uncommitted path s =
     (case us_nodes (uncommitted_state s) path of
        None \<Rightarrow> s
      | Some u \<Rightarrow> s\<lparr>uncommitted_state := (uncommitted_state s)
                    \<lparr>us_nodes := (us_nodes (uncommitted_state s))
                       (path \<mapsto> u\<lparr>u_node := map_option (memoDigest path) (u_node u)\<rparr>)\<rparr>\<rparr>)"

type_synonym updated_nodes = "(string \<times> KeeperMemNode option) list"

definition nodes_digest_step ::
  "Delta \<Rightarrow> uint64 \<times> updated_nodes \<times> KeeperStorage \<Rightarrow> exn + uint64 \<times> updated_nodes \<times> KeeperStorage" where
  "nodes_digest_step d st =
     (let (digest, updated, s) = st; path = d_path d
      in case d_operation d of
           CreateNodeDelta stat _ data \<Rightarrow>
             Inr (digest,
                  (if map_of updated path = None
                   then (path, Some (setData data (copyStats stat KeeperMemNode_new))) # updated
                   else updated), s)
         | RemoveNodeDelta _ _ \<Rightarrow>
             (if map_of updated path = None
              then (case us_getNode path s of
                      None \<Rightarrow> Inl Undefined
                    | Some n \<Rightarrow> Inr (digest - getDigest path n, AList.update path None updated,
                                    memo_uncommitted path s))
              else Inr (digest, AList.update path None updated, s))
         | UpdateNodeDelta f _ \<Rightarrow>
             (case map_of updated path of
                None \<Rightarrow>
                  (case us_getNode path s of
                     None \<Rightarrow> Inl Undefined
                   | Some n \<Rightarrow>
                       Inr (digest - getDigest path (shallowCopy n),
                            (path, Some (apply_update f (memoDigest path (shallowCopy n)))) # updated, s))
              | Some None \<Rightarrow> Inl Undefined
              | Some (Some n) \<Rightarrow> Inr (digest, AList.update path (Some (apply_update f n)) updated, s))
         | _ \<Rightarrow> Inr (digest, updated, s))"

fun nodes_digest_loop ::
  "Delta list \<Rightarrow> uint64 \<times> updated_nodes \<times> KeeperStorage \<Rightarrow> exn + uint64 \<times> updated_nodes \<times> KeeperStorage" where
  "nodes_digest_loop [] st = Inr st"
| "nodes_digest_loop (d # ds) st = bindE (nodes_digest_step d st) (nodes_digest_loop ds)"

definition updated_digest :: "updated_nodes \<Rightarrow> uint64 \<Rightarrow> uint64" where
  "updated_digest updated digest =
     fold (\<lambda>(path, n) acc. case n of None \<Rightarrow> acc | Some n \<Rightarrow> acc + getDigest path (invalidateDigestCache n))
       updated digest"

definition calculateNodesDigest ::
  "KeeperContext \<Rightarrow> uint64 \<Rightarrow> Delta list \<Rightarrow> KeeperStorage \<Rightarrow> exn + uint64 \<times> KeeperStorage" where
  "calculateNodesDigest ctx current_digest new_deltas s =
     (if \<not> digestEnabled ctx then Inr (current_digest, s)
      else bindE (nodes_digest_loop new_deltas (current_digest, [], s))
             (\<lambda>(digest, updated, s). Inr (updated_digest updated digest, s)))"

section \<open>Results of preprocessing\<close>

type_synonym prep = "(exn + Delta list) \<times> KeeperStorage \<times> uint64"

definition prep_error :: "int64 \<Rightarrow> Error \<Rightarrow> KeeperStorage \<Rightarrow> uint64 \<Rightarrow> prep" where
  "prep_error z e s digest = (Inr [delta_error z e], s, digest)"

definition handleSystemNodeModification :: "KeeperContext \<Rightarrow> exn + unit" where
  "handleSystemNodeModification ctx =
     (if phase_INIT ctx \<and> \<not> ignoreSystemPathOnStartup ctx then Inl LOGICAL_ERROR else Inr ())"

definition prep_system_path :: "KeeperContext \<Rightarrow> int64 \<Rightarrow> KeeperStorage \<Rightarrow> uint64 \<Rightarrow> prep" where
  "prep_system_path ctx z s digest =
     (case handleSystemNodeModification ctx of
        Inl e \<Rightarrow> (Inl e, s, digest)
      | Inr _ \<Rightarrow> prep_error z ZBADARGUMENTS s digest)"

text \<open>The common end of the processors that change nodes.\<close>

definition prep_deltas :: "KeeperContext \<Rightarrow> Delta list \<Rightarrow> KeeperStorage \<Rightarrow> uint64 \<Rightarrow> prep" where
  "prep_deltas ctx new_deltas s digest =
     (case calculateNodesDigest ctx digest new_deltas s of
        Inl e \<Rightarrow> (Inl e, s, digest)
      | Inr (digest', s') \<Rightarrow> (Inr new_deltas, s', digest'))"

section \<open>Create\<close>

text \<open>\<^verbatim>\<open>std::setw(10) << std::setfill('0') << seq_num\<close>: right-aligned, so a minus sign follows the fill.\<close>

definition seq_num_str :: "int32 \<Rightarrow> string" where
  "seq_num_str seq_num =
     (let digits = dec_int (sint seq_num) in replicate (10 - length digits) CHR ''0'' @ digits)"

definition create_stat :: "int64 \<Rightarrow> int64 \<Rightarrow> int64 \<Rightarrow> Stat" where
  "create_stat z time owner =
     Stat_default\<lparr>st_czxid := z, st_mzxid := z, st_pzxid := z, st_ctime := time, st_mtime := time,
       st_numChildren := 0, st_version := 0, st_aversion := 0, st_cversion := 0,
       st_ephemeralOwner := owner\<rparr>"

definition create_preprocess ::
  "KeeperContext \<Rightarrow> CreateReq \<Rightarrow> int64 \<Rightarrow> int64 \<Rightarrow> int64 \<Rightarrow> uint64 \<Rightarrow> KeeperStorage \<Rightarrow> prep" where
  "create_preprocess ctx r z session_id time digest s =
     (case parentNodePath (cr_path r) of
        None \<Rightarrow> (Inl Undefined, s, digest)
      | Some parent_path \<Rightarrow>
          (case us_getNode parent_path s of
             None \<Rightarrow> prep_error z ZNONODE s digest
           | Some parent_node \<Rightarrow>
               if n_is_ephemeral parent_node then prep_error z ZNOCHILDRENFOREPHEMERALS s digest
               else if cr_is_sequential r \<and> cr_not_exists r then prep_error z ZBADARGUMENTS s digest
               else
                 (let path_created = (if cr_is_sequential r then cr_path r @ seq_num_str (seqNum parent_node)
                                      else cr_path r)
                  in if matchPath path_created keeper_system_path \<noteq> NOT_MATCH
                     then prep_system_path ctx z s digest
                     else if us_getNode path_created s \<noteq> None
                     then (if cr_not_exists r then (Inr [], s, digest) else prep_error z ZNODEEXISTS s digest)
                     else if getBaseNodeName path_created = [] then prep_error z ZBADARGUMENTS s digest
                     else
                       (case fixupACL (cr_acls r) session_id s of
                          None \<Rightarrow> prep_error z ZINVALIDACL s digest
                        | Some node_acls \<Rightarrow>
                            prep_deltas ctx
                              [delta_at parent_path z (UpdateNodeDelta (CreateParentUpdate (cr_parent_cversion r) z) (-1)),
                               delta_at path_created z
                                 (CreateNodeDelta
                                    (create_stat z time (if cr_is_ephemeral r then session_id else 0))
                                    node_acls (cr_data r))]
                              (if cr_is_ephemeral r
                               then s\<lparr>ephemerals := map_emplace session_id path_created (ephemerals s)\<rparr> else s)
                              digest))))"

definition is_create_delta :: "int64 \<Rightarrow> Delta \<Rightarrow> bool" where
  "is_create_delta z d \<longleftrightarrow>
     d_zxid d = z \<and> (case d_operation d of CreateNodeDelta _ _ _ \<Rightarrow> True | _ \<Rightarrow> False)"

definition create_response :: "CreateReq \<Rightarrow> string \<Rightarrow> Response" where
  "create_response r path_created =
     set_body (if cr_not_exists r then CreateIfNotExistsResponse path_created else CreateResponse path_created)
       (makeResponse (CreateRequest r))"

definition create_process :: "KeeperContext \<Rightarrow> CreateReq \<Rightarrow> int64 \<Rightarrow> KeeperStorage \<Rightarrow> exn + Response \<times> KeeperStorage" where
  "create_process ctx r z s =
     (case us_deltas (uncommitted_state s) of
        [] \<Rightarrow> Inl Undefined
      | (_, front) # _ \<Rightarrow>
          (if d_zxid front \<noteq> z then Inr (create_response r (cr_path r), s)
           else
             bindE (storage_commit ctx z s) (\<lambda>(result, s).
               if result \<noteq> ZOK then Inr (set_error result (makeResponse (CreateRequest r)), s)
               else case find (is_create_delta z) (map snd (us_deltas (uncommitted_state s))) of
                      None \<Rightarrow> Inl Undefined
                    | Some d \<Rightarrow> Inr (create_response r (d_path d), s))))"

section \<open>Remove\<close>

definition remove_preprocess ::
  "KeeperContext \<Rightarrow> string \<Rightarrow> int32 \<Rightarrow> bool \<Rightarrow> int64 \<Rightarrow> uint64 \<Rightarrow> KeeperStorage \<Rightarrow> prep" where
  "remove_preprocess ctx path version restored z digest s =
     (if matchPath path keeper_system_path \<noteq> NOT_MATCH then prep_system_path ctx z s digest
      else case us_getNode path s of
             None \<Rightarrow>
               (if restored \<and> parentNodePath path = None then (Inl Undefined, s, digest)
                else prep_error z ZNONODE s digest)
           | Some n \<Rightarrow>
               if version \<noteq> -1 \<and> version \<noteq> n_version n then prep_error z ZBADVERSION s digest
               else if numChildren n \<noteq> 0 then prep_error z ZNOTEMPTY s digest
               else
                 (case parentNodePath path of
                    None \<Rightarrow> (Inl Undefined, s, digest)
                  | Some parent_path \<Rightarrow>
                      (let new_deltas =
                             (if restored \<and> us_getNode parent_path s \<noteq> None
                              then [delta_at parent_path z (UpdateNodeDelta (PzxidUpdate z) (-1))] else [])
                             @ [delta_at parent_path z (UpdateNodeDelta RemoveParentUpdate (-1)),
                                delta_at path z (RemoveNodeDelta version (ephemeralOwner n))]
                       in if n_is_ephemeral n
                          then (case unregisterEphemeralPath (ephemeralOwner n) path s of
                                  Inl e \<Rightarrow> (Inl e, s, digest)
                                | Inr s' \<Rightarrow> prep_deltas ctx new_deltas s' digest)
                          else prep_deltas ctx new_deltas s digest)))"

section \<open>Set, set ACL and the reading requests\<close>

definition set_preprocess ::
  "KeeperContext \<Rightarrow> string \<Rightarrow> string \<Rightarrow> int32 \<Rightarrow> int64 \<Rightarrow> int64 \<Rightarrow> uint64 \<Rightarrow> KeeperStorage \<Rightarrow> prep" where
  "set_preprocess ctx path data version z time digest s =
     (if matchPath path keeper_system_path \<noteq> NOT_MATCH then prep_system_path ctx z s digest
      else case us_getNode path s of
             None \<Rightarrow> prep_error z ZNONODE s digest
           | Some n \<Rightarrow>
               if version \<noteq> -1 \<and> version \<noteq> n_version n then prep_error z ZBADVERSION s digest
               else (case parentNodePath path of
                       None \<Rightarrow> (Inl Undefined, s, digest)
                     | Some parent_path \<Rightarrow>
                         prep_deltas ctx
                           [delta_at path z (UpdateNodeDelta (SetNodeUpdate z data time) version),
                            delta_at parent_path z (UpdateNodeDelta SetParentUpdate (-1))] s digest))"

definition set_acl_preprocess ::
  "KeeperContext \<Rightarrow> string \<Rightarrow> ACLs \<Rightarrow> int32 \<Rightarrow> int64 \<Rightarrow> int64 \<Rightarrow> uint64 \<Rightarrow> KeeperStorage \<Rightarrow> prep" where
  "set_acl_preprocess ctx path acls version z session_id digest s =
     (if matchPath path keeper_system_path \<noteq> NOT_MATCH then prep_system_path ctx z s digest
      else case us_getNode path s of
             None \<Rightarrow> prep_error z ZNONODE s digest
           | Some n \<Rightarrow>
               if version \<noteq> -1 \<and> version \<noteq> n_aversion n then prep_error z ZBADVERSION s digest
               else (case fixupACL acls session_id s of
                       None \<Rightarrow> prep_error z ZINVALIDACL s digest
                     | Some node_acls \<Rightarrow>
                         prep_deltas ctx
                           [delta_at path z (SetACLDelta node_acls version),
                            delta_at path z (UpdateNodeDelta AversionUpdate (-1))] s digest))"

text \<open>\<^verbatim>\<open>preprocess\<close> of exists, list and get ACL.\<close>

definition read_preprocess :: "string \<Rightarrow> int64 \<Rightarrow> uint64 \<Rightarrow> KeeperStorage \<Rightarrow> prep" where
  "read_preprocess path z digest s =
     (if us_getNode path s = None then prep_error z ZNONODE s digest else (Inr [], s, digest))"

definition get_preprocess :: "string \<Rightarrow> int64 \<Rightarrow> uint64 \<Rightarrow> KeeperStorage \<Rightarrow> prep" where
  "get_preprocess path z digest s =
     (if path = keeper_api_feature_flags_path \<or> path = keeper_config_path \<or> path = keeper_availability_zone_path
      then (Inr [], s, digest) else read_preprocess path z digest s)"

definition check_preprocess :: "string \<Rightarrow> int32 \<Rightarrow> bool \<Rightarrow> int64 \<Rightarrow> uint64 \<Rightarrow> KeeperStorage \<Rightarrow> prep" where
  "check_preprocess path version not_exists z digest s =
     (case us_getNode path s of
        None \<Rightarrow> if not_exists then (Inr [], s, digest) else prep_error z ZNONODE s digest
      | Some n \<Rightarrow>
          if not_exists
          then (if version = -1 \<or> version = n_version n then prep_error z ZNODEEXISTS s digest
                else (Inr [], s, digest))
          else if version \<noteq> -1 \<and> version \<noteq> n_version n then prep_error z ZBADVERSION s digest
          else (Inr [], s, digest))"

definition auth_preprocess ::
  "KeeperContext \<Rightarrow> string \<Rightarrow> string \<Rightarrow> int64 \<Rightarrow> int64 \<Rightarrow> uint64 \<Rightarrow> KeeperStorage \<Rightarrow> prep" where
  "auth_preprocess ctx sch data z session_id digest s =
     (if sch \<noteq> ''digest'' \<or> length (filter (\<lambda>c. c = CHR '':'') data) \<noteq> 1
      then prep_error z ZAUTHFAILED s digest
      else
        (let auth_digest = generateDigest ctx data
         in if auth_digest = superdigest ctx
            then (Inr [delta_plain z (AddAuthDelta session_id \<lparr>aid_scheme = ''super'', aid_id = []\<rparr>)], s, digest)
            else
              (let new_auth = \<lparr>aid_scheme = sch, aid_id = auth_digest\<rparr>
               in if hasACL session_id False (\<lambda>a. new_auth = a) s then (Inr [], s, digest)
                  else (Inr [delta_plain z (AddAuthDelta session_id new_auth)], s, digest))))"

section \<open>Processing\<close>

text \<open>A processor that commits and continues only on success.\<close>

definition after_commit ::
  "KeeperContext \<Rightarrow> Request \<Rightarrow> int64 \<Rightarrow> KeeperStorage \<Rightarrow> (KeeperStorage \<Rightarrow> exn + Response) \<Rightarrow> exn + Response \<times> KeeperStorage" where
  "after_commit ctx req z s k =
     bindE (storage_commit ctx z s) (\<lambda>(result, s).
       if result \<noteq> ZOK then Inr (set_error result (makeResponse req), s)
       else bindE (k s) (\<lambda>resp. Inr (resp, s)))"

definition missing_node :: "bool \<Rightarrow> Request \<Rightarrow> Error \<Rightarrow> exn + Response" where
  "missing_node is_local req e = (if is_local then Inr (set_error e (makeResponse req)) else Inl Terminate)"

definition get_response :: "KeeperContext \<Rightarrow> bool \<Rightarrow> string \<Rightarrow> bool \<Rightarrow> KeeperStorage \<Rightarrow> exn + Response" where
  "get_response ctx is_local path watch s =
     (let req = GetRequest path watch
      in if path = keeper_config_path
         then Inr (set_body (GetResponse (serializedClusterConfig ctx) Stat_default) (makeResponse req))
         else case ht_find (container s) path of
                None \<Rightarrow> missing_node is_local req ZNONODE
              | Some n \<Rightarrow> Inr (set_body (GetResponse (n_data n) (setResponseStat n)) (makeResponse req)))"

definition exists_response :: "bool \<Rightarrow> string \<Rightarrow> bool \<Rightarrow> KeeperStorage \<Rightarrow> exn + Response" where
  "exists_response is_local path watch s =
     (case ht_find (container s) path of
        None \<Rightarrow> missing_node is_local (ExistsRequest path watch) ZNONODE
      | Some n \<Rightarrow> Inr (set_body (ExistsResponse (setResponseStat n)) (makeResponse (ExistsRequest path watch))))"

definition set_response :: "Request \<Rightarrow> (Stat \<Rightarrow> ResponseBody) \<Rightarrow> string \<Rightarrow> KeeperStorage \<Rightarrow> exn + Response" where
  "set_response req body path s =
     (case ht_find (container s) path of
        None \<Rightarrow> Inl Terminate
      | Some n \<Rightarrow> Inr (set_body (body (setResponseStat n)) (makeResponse req)))"

definition LIST_ALL :: byte where "LIST_ALL = 0"
definition LIST_PERSISTENT_ONLY :: byte where "LIST_PERSISTENT_ONLY = 1"
definition LIST_EPHEMERAL_ONLY :: byte where "LIST_EPHEMERAL_ONLY = 2"

definition list_add_child :: "byte \<Rightarrow> string \<Rightarrow> KeeperStorage \<Rightarrow> string \<Rightarrow> exn + bool" where
  "list_add_child list_type path s child =
     (if list_type = LIST_ALL then Inr True
      else case ht_find (container s) (path_join path child) of
             None \<Rightarrow> Inl Terminate
           | Some n \<Rightarrow> Inr (n_is_ephemeral n \<and> list_type = LIST_EPHEMERAL_ONLY \<or>
                           \<not> n_is_ephemeral n \<and> list_type = LIST_PERSISTENT_ONLY))"

fun list_children :: "byte \<Rightarrow> string \<Rightarrow> KeeperStorage \<Rightarrow> string list \<Rightarrow> exn + string list" where
  "list_children list_type path s [] = Inr []"
| "list_children list_type path s (c # cs) =
     bindE (list_add_child list_type path s c) (\<lambda>b.
       bindE (list_children list_type path s cs) (\<lambda>names. Inr (if b then c # names else names)))"

definition list_body :: "Request \<Rightarrow> string list \<Rightarrow> Stat \<Rightarrow> ResponseBody" where
  "list_body req names stat =
     (case req of SimpleListRequest _ _ \<Rightarrow> SimpleListResponse names stat | _ \<Rightarrow> ListResponse names stat)"

definition list_response :: "bool \<Rightarrow> Request \<Rightarrow> byte \<Rightarrow> string \<Rightarrow> KeeperStorage \<Rightarrow> exn + Response" where
  "list_response is_local req list_type path s =
     (case ht_find (container s) path of
        None \<Rightarrow> missing_node is_local req ZNONODE
      | Some n \<Rightarrow>
          if path = [] then Inl LOGICAL_ERROR
          else bindE (list_children list_type path s (n_children n)) (\<lambda>names.
                 Inr (set_body (list_body req names (setResponseStat n)) (makeResponse req))))"

definition check_response :: "bool \<Rightarrow> string \<Rightarrow> int32 \<Rightarrow> bool \<Rightarrow> KeeperStorage \<Rightarrow> exn + Response" where
  "check_response is_local path version not_exists s =
     (let req = CheckRequest path version not_exists
      in case ht_find (container s) path of
           None \<Rightarrow> if not_exists then Inr (makeResponse req) else missing_node is_local req ZNONODE
         | Some n \<Rightarrow>
             if not_exists
             then (if version = -1 \<or> version = n_version n then missing_node is_local req ZNODEEXISTS
                   else Inr (makeResponse req))
             else if version \<noteq> -1 \<and> version \<noteq> n_version n then missing_node is_local req ZBADVERSION
             else Inr (makeResponse req))"

definition get_acl_response :: "bool \<Rightarrow> string \<Rightarrow> KeeperStorage \<Rightarrow> exn + Response" where
  "get_acl_response is_local path s =
     (case ht_find (container s) path of
        None \<Rightarrow> missing_node is_local (GetACLRequest path) ZNONODE
      | Some n \<Rightarrow>
          bindE (convertNumber (n_acl_id n) (acl_map s)) (\<lambda>acls.
            Inr (set_body (GetACLResponse acls (setResponseStat n)) (makeResponse (GetACLRequest path)))))"

section \<open>Plain requests\<close>

definition checkACL_parent :: "string \<Rightarrow> int32 \<Rightarrow> int64 \<Rightarrow> bool \<Rightarrow> KeeperStorage \<Rightarrow> exn + bool" where
  "checkACL_parent path permission session_id is_local s =
     (case parentNodePath path of
        None \<Rightarrow> Inl Undefined
      | Some parent_path \<Rightarrow> checkACL parent_path permission session_id is_local s)"

definition plain_checkAuth :: "Request \<Rightarrow> int64 \<Rightarrow> bool \<Rightarrow> KeeperStorage \<Rightarrow> exn + bool" where
  "plain_checkAuth req session_id is_local s =
     (case req of
        CreateRequest r \<Rightarrow> checkACL_parent (cr_path r) ACL_Create session_id is_local s
      | RemoveRequest p _ _ \<Rightarrow> checkACL_parent p ACL_Delete session_id is_local s
      | GetRequest p _ \<Rightarrow> checkACL p ACL_Read session_id is_local s
      | SetRequest p _ _ \<Rightarrow> checkACL p ACL_Write session_id is_local s
      | ListRequest p _ \<Rightarrow> checkACL p ACL_Read session_id is_local s
      | SimpleListRequest p _ \<Rightarrow> checkACL p ACL_Read session_id is_local s
      | FilteredListRequest p _ _ \<Rightarrow> checkACL p ACL_Read session_id is_local s
      | CheckRequest p _ ne \<Rightarrow>
          (if ne then checkACL_parent p ACL_Read session_id is_local s
           else checkACL p ACL_Read session_id is_local s)
      | SetACLRequest p _ _ \<Rightarrow> checkACL p ACL_Admin session_id is_local s
      | GetACLRequest p \<Rightarrow> checkACL p (ACL_Admin OR ACL_Read) session_id is_local s
      | _ \<Rightarrow> Inr True)"

definition plain_preprocess ::
  "KeeperContext \<Rightarrow> Request \<Rightarrow> int64 \<Rightarrow> int64 \<Rightarrow> int64 \<Rightarrow> uint64 \<Rightarrow> KeeperStorage \<Rightarrow> prep" where
  "plain_preprocess ctx req z session_id time digest s =
     (case req of
        CreateRequest r \<Rightarrow> create_preprocess ctx r z session_id time digest s
      | RemoveRequest p v restored \<Rightarrow> remove_preprocess ctx p v restored z digest s
      | SetRequest p data v \<Rightarrow> set_preprocess ctx p data v z time digest s
      | SetACLRequest p acls v \<Rightarrow> set_acl_preprocess ctx p acls v z session_id digest s
      | ExistsRequest p _ \<Rightarrow> read_preprocess p z digest s
      | ListRequest p _ \<Rightarrow> read_preprocess p z digest s
      | SimpleListRequest p _ \<Rightarrow> read_preprocess p z digest s
      | FilteredListRequest p _ _ \<Rightarrow> read_preprocess p z digest s
      | GetACLRequest p \<Rightarrow> read_preprocess p z digest s
      | GetRequest p _ \<Rightarrow> get_preprocess p z digest s
      | CheckRequest p v ne \<Rightarrow> check_preprocess p v ne z digest s
      | AuthRequest _ sch data \<Rightarrow> auth_preprocess ctx sch data z session_id digest s
      | _ \<Rightarrow> (Inr [], s, digest))"

definition plain_process :: "KeeperContext \<Rightarrow> Request \<Rightarrow> int64 \<Rightarrow> KeeperStorage \<Rightarrow> exn + Response \<times> KeeperStorage" where
  "plain_process ctx req z s =
     (case req of
        HeartbeatRequest \<Rightarrow>
          bindE (storage_commit ctx z s) (\<lambda>(result, s). Inr (set_error result (makeResponse req), s))
      | SyncRequest p \<Rightarrow> Inr (set_body (SyncResponse p) (makeResponse req), s)
      | AuthRequest _ _ _ \<Rightarrow>
          bindE (storage_commit ctx z s) (\<lambda>(result, s). Inr (set_error result (makeResponse req), s))
      | CreateRequest r \<Rightarrow> create_process ctx r z s
      | RemoveRequest _ _ _ \<Rightarrow>
          bindE (storage_commit ctx z s) (\<lambda>(result, s). Inr (set_error result (makeResponse req), s))
      | GetRequest p w \<Rightarrow> after_commit ctx req z s (get_response ctx False p w)
      | ExistsRequest p w \<Rightarrow> after_commit ctx req z s (exists_response False p w)
      | SetRequest p _ _ \<Rightarrow> after_commit ctx req z s (set_response req SetResponse p)
      | SetACLRequest p _ _ \<Rightarrow> after_commit ctx req z s (set_response req SetACLResponse p)
      | ListRequest p _ \<Rightarrow> after_commit ctx req z s (list_response False req LIST_ALL p)
      | SimpleListRequest p _ \<Rightarrow> after_commit ctx req z s (list_response False req LIST_ALL p)
      | FilteredListRequest p _ t \<Rightarrow> after_commit ctx req z s (list_response False req t p)
      | CheckRequest p v ne \<Rightarrow> after_commit ctx req z s (check_response False p v ne)
      | GetACLRequest p \<Rightarrow> after_commit ctx req z s (get_acl_response False p)
      | _ \<Rightarrow> Inl LOGICAL_ERROR)"

definition plain_processLocal :: "KeeperContext \<Rightarrow> Request \<Rightarrow> KeeperStorage \<Rightarrow> exn + Response" where
  "plain_processLocal ctx req s =
     (case req of
        GetRequest p w \<Rightarrow> get_response ctx True p w s
      | ExistsRequest p w \<Rightarrow> exists_response True p w s
      | ListRequest p _ \<Rightarrow> list_response True req LIST_ALL p s
      | SimpleListRequest p _ \<Rightarrow> list_response True req LIST_ALL p s
      | FilteredListRequest p _ t \<Rightarrow> list_response True req t p s
      | CheckRequest p v ne \<Rightarrow> check_response True p v ne s
      | GetACLRequest p \<Rightarrow> get_acl_response True p s
      | _ \<Rightarrow> Inl LOGICAL_ERROR)"

definition plain_processWatches :: "Request \<Rightarrow> KeeperStorage \<Rightarrow> exn + ResponseForSession list \<times> KeeperStorage" where
  "plain_processWatches req s =
     (case req of
        CreateRequest r \<Rightarrow> processWatchesImpl (cr_path r) CREATED s
      | RemoveRequest p _ _ \<Rightarrow> processWatchesImpl p DELETED s
      | SetRequest p _ _ \<Rightarrow> processWatchesImpl p CHANGED s
      | _ \<Rightarrow> Inr ([], s))"

section \<open>Multi requests\<close>

fun multi_kind :: "Request \<Rightarrow> OperationKind option" where
  "multi_kind (CreateRequest _) = Some KindWrite"
| "multi_kind (RemoveRequest _ _ _) = Some KindWrite"
| "multi_kind (SetRequest _ _ _) = Some KindWrite"
| "multi_kind (CheckRequest _ _ _) = Some KindWrite"
| "multi_kind (GetRequest _ _) = Some KindRead"
| "multi_kind (ExistsRequest _ _) = Some KindRead"
| "multi_kind (ListRequest _ _) = Some KindRead"
| "multi_kind (SimpleListRequest _ _) = Some KindRead"
| "multi_kind (FilteredListRequest _ _ _) = Some KindRead"
| "multi_kind _ = None"

text \<open>The constructor: the common kind of the subrequests.\<close>

fun multi_processor :: "Request list \<Rightarrow> OperationKind option \<Rightarrow> exn + OperationKind option" where
  "multi_processor [] kind = Inr kind"
| "multi_processor (r # rs) kind =
     (case multi_kind r of
        None \<Rightarrow> Inl BAD_ARGUMENTS
      | Some k \<Rightarrow> if kind \<noteq> None \<and> kind \<noteq> Some k then Inl BAD_ARGUMENTS else multi_processor rs (Some k))"

fun multi_checkAuth :: "Request list \<Rightarrow> int64 \<Rightarrow> bool \<Rightarrow> KeeperStorage \<Rightarrow> exn + bool" where
  "multi_checkAuth [] session_id is_local s = Inr True"
| "multi_checkAuth (r # rs) session_id is_local s =
     bindE (plain_checkAuth r session_id is_local s) (\<lambda>ok.
       if ok then multi_checkAuth rs session_id is_local s else Inr False)"

definition last_error :: "Delta list \<Rightarrow> Error option" where
  "last_error ds =
     (if ds = [] then None else case d_operation (last ds) of ErrorDelta e \<Rightarrow> Some e | _ \<Rightarrow> None)"

text \<open>The loop of \<^verbatim>\<open>preprocess\<close>: \<open>errors\<close> are the codes collected so far, the digest the loop carries is
  copied to the caller's only at the end.\<close>

fun multi_preprocess_loop ::
  "KeeperContext \<Rightarrow> OperationKind option \<Rightarrow> int64 \<Rightarrow> int64 \<Rightarrow> int64 \<Rightarrow> uint64 \<Rightarrow> Request list \<Rightarrow> Error list \<Rightarrow>
     uint64 \<Rightarrow> KeeperStorage \<Rightarrow> prep" where
  "multi_preprocess_loop ctx kind z session_id time digest [] errors current_digest s =
     (Inr [], s, current_digest)"
| "multi_preprocess_loop ctx kind z session_id time digest (r # rs) errors current_digest s =
     (case plain_preprocess ctx r z session_id time current_digest s of
        (Inl e, s, _) \<Rightarrow> (Inl e, s, digest)
      | (Inr new_deltas, s, current_digest) \<Rightarrow>
          (case (last_error new_deltas, kind) of
             (Some e, Some KindWrite) \<Rightarrow>
               (case us_rollback z s of
                  Inl x \<Rightarrow> (Inl x, s, digest)
                | Inr s \<Rightarrow>
                    (Inr [delta_plain z (FailedMultiDelta
                            (errors @ [e] @ replicate (length rs) ZRUNTIMEINCONSISTENCY) ZOK)], s, digest))
           | _ \<Rightarrow>
               (case addDeltas (new_deltas @ [delta_plain z SubDeltaEnd]) s of
                  Inl x \<Rightarrow> (Inl x, s, digest)
                | Inr s \<Rightarrow>
                    multi_preprocess_loop ctx kind z session_id time digest rs (errors @ [ZOK])
                      current_digest s)))"

definition multi_preprocess ::
  "KeeperContext \<Rightarrow> Request list \<Rightarrow> int64 \<Rightarrow> int64 \<Rightarrow> int64 \<Rightarrow> uint64 \<Rightarrow> KeeperStorage \<Rightarrow> prep" where
  "multi_preprocess ctx rs z session_id time digest s =
     (case multi_processor rs None of
        Inl e \<Rightarrow> (Inl e, s, digest)
      | Inr kind \<Rightarrow> multi_preprocess_loop ctx kind z session_id time digest rs [] digest s)"

definition multi_body :: "Request \<Rightarrow> Response list \<Rightarrow> ResponseBody" where
  "multi_body req rs = (if getOpNum req = Op_Multi then MultiWriteResponse rs else MultiReadResponse rs)"

fun multi_process_loop :: "KeeperContext \<Rightarrow> int64 \<Rightarrow> Request list \<Rightarrow> KeeperStorage \<Rightarrow> exn + Response list \<times> KeeperStorage" where
  "multi_process_loop ctx z [] s = Inr ([], s)"
| "multi_process_loop ctx z (r # rs) s =
     bindE (plain_process ctx r z s) (\<lambda>(resp, s).
       bindE (us_commit z s) (\<lambda>s.
         bindE (multi_process_loop ctx z rs s) (\<lambda>(resps, s). Inr (resp # resps, s))))"

definition multi_process :: "KeeperContext \<Rightarrow> Request \<Rightarrow> Request list \<Rightarrow> int64 \<Rightarrow> KeeperStorage \<Rightarrow> exn + Response \<times> KeeperStorage" where
  "multi_process ctx req rs z s =
     (case us_deltas (uncommitted_state s) of
        [] \<Rightarrow> Inl Undefined
      | (_, front) # _ \<Rightarrow>
          (case d_operation front of
             FailedMultiDelta codes global_error \<Rightarrow>
               (if length codes < length rs then Inl Undefined
                else
                  bindE (us_commit z s) (\<lambda>s.
                    Inr (set_error global_error
                           (set_body (multi_body req
                              (map (\<lambda>e. Response e 0 0 ErrorResponse) (take (length rs) codes)))
                              (makeResponse req)), s)))
           | _ \<Rightarrow>
               bindE (multi_process_loop ctx z rs s) (\<lambda>(resps, s).
                 Inr (set_body (multi_body req resps) (makeResponse req), s))))"

fun multi_processLocal_loop :: "KeeperContext \<Rightarrow> Request list \<Rightarrow> KeeperStorage \<Rightarrow> exn + Response list" where
  "multi_processLocal_loop ctx [] s = Inr []"
| "multi_processLocal_loop ctx (r # rs) s =
     bindE (plain_processLocal ctx r s) (\<lambda>resp.
       bindE (multi_processLocal_loop ctx rs s) (\<lambda>resps. Inr (resp # resps)))"

fun multi_processWatches :: "Request list \<Rightarrow> KeeperStorage \<Rightarrow> exn + ResponseForSession list \<times> KeeperStorage" where
  "multi_processWatches [] s = Inr ([], s)"
| "multi_processWatches (r # rs) s =
     bindE (plain_processWatches r s) (\<lambda>(ws, s).
       bindE (multi_processWatches rs s) (\<lambda>(ws', s). Inr (ws @ ws', s)))"

section \<open>All requests\<close>

text \<open>The factory: which requests have a processor, and the failures of its construction.\<close>

definition get_processor :: "Request \<Rightarrow> exn + unit" where
  "get_processor req =
     (case req of
        ReconfigRequest _ _ _ _ \<Rightarrow> Inl LOGICAL_ERROR
      | SessionIDRequest _ _ _ \<Rightarrow> Inl LOGICAL_ERROR
      | MultiRequest rs _ \<Rightarrow> bindE (multi_processor rs None) (\<lambda>_. Inr ())
      | _ \<Rightarrow> Inr ())"

definition checkAuth :: "Request \<Rightarrow> int64 \<Rightarrow> bool \<Rightarrow> KeeperStorage \<Rightarrow> exn + bool" where
  "checkAuth req session_id is_local s =
     (case req of
        MultiRequest rs _ \<Rightarrow> multi_checkAuth rs session_id is_local s
      | _ \<Rightarrow> plain_checkAuth req session_id is_local s)"

definition preprocess ::
  "KeeperContext \<Rightarrow> Request \<Rightarrow> int64 \<Rightarrow> int64 \<Rightarrow> int64 \<Rightarrow> uint64 \<Rightarrow> KeeperStorage \<Rightarrow> prep" where
  "preprocess ctx req z session_id time digest s =
     (case req of
        MultiRequest rs _ \<Rightarrow> multi_preprocess ctx rs z session_id time digest s
      | _ \<Rightarrow> plain_preprocess ctx req z session_id time digest s)"

definition process :: "KeeperContext \<Rightarrow> Request \<Rightarrow> int64 \<Rightarrow> KeeperStorage \<Rightarrow> exn + Response \<times> KeeperStorage" where
  "process ctx req z s =
     (case req of
        MultiRequest rs _ \<Rightarrow> multi_process ctx req rs z s
      | _ \<Rightarrow> plain_process ctx req z s)"

definition processLocal :: "KeeperContext \<Rightarrow> Request \<Rightarrow> KeeperStorage \<Rightarrow> exn + Response" where
  "processLocal ctx req s =
     (case req of
        MultiRequest rs _ \<Rightarrow>
          bindE (multi_processLocal_loop ctx rs s) (\<lambda>resps.
            Inr (set_body (multi_body req resps) (makeResponse req)))
      | _ \<Rightarrow> plain_processLocal ctx req s)"

definition processWatches :: "Request \<Rightarrow> KeeperStorage \<Rightarrow> exn + ResponseForSession list \<times> KeeperStorage" where
  "processWatches req s =
     (case req of
        MultiRequest rs _ \<Rightarrow> multi_processWatches rs s
      | _ \<Rightarrow> plain_processWatches req s)"

end
