(* ===== verification/KeeperRequests.thy ===== *)
theory KeeperRequests
  imports KeeperProcessors
begin

text \<open>
  The three entry points of the storage (src/Coordination/KeeperStorage.cpp) that the replicated
  state machine calls for a log entry: \<^verbatim>\<open>preprocessRequest\<close> when the entry is appended,
  \<^verbatim>\<open>processRequest\<close> when it is committed and \<^verbatim>\<open>rollbackRequest\<close> when it is dropped.

  \<^verbatim>\<open>preprocessRequest\<close> has a scope guard that registers the transaction and its deltas on every way
  out after the zxid checks, exceptions included; so it returns the storage along with the
  exception. The wall clock is the argument \<open>now\<close>.
\<close>

section \<open>Preprocessing\<close>

text \<open>The scope guard.\<close>

definition register_transaction ::
  "KeeperContext \<Rightarrow> int64 \<Rightarrow> int64 \<Rightarrow> uint64 \<Rightarrow> Delta list \<Rightarrow> KeeperStorage \<Rightarrow> exn + KeeperStorage" where
  "register_transaction ctx new_last_zxid log_idx new_digest new_deltas s =
     (let transaction =
            \<lparr>t_zxid = new_last_zxid,
             t_nodes_digest = (if digestEnabled ctx
                               then \<lparr>dg_version = CURRENT_DIGEST_VERSION, dg_value = new_digest\<rparr>
                               else \<lparr>dg_version = NO_DIGEST, dg_value = 0\<rparr>),
             t_log_idx = log_idx\<rparr>
      in addDeltas new_deltas (s\<lparr>uncommitted_transactions := uncommitted_transactions s @ [transaction]\<rparr>))"

text \<open>The deltas of a close request: every ephemeral node of the session is removed.\<close>

fun close_deltas :: "int64 \<Rightarrow> int64 \<Rightarrow> string list \<Rightarrow> exn + Delta list" where
  "close_deltas z session_id [] = Inr [delta_plain z (CloseSessionDelta session_id)]"
| "close_deltas z session_id (p # ps) =
     (case parentNodePath p of
        None \<Rightarrow> Inl Undefined
      | Some parent \<Rightarrow>
          bindE (close_deltas z session_id ps) (\<lambda>ds.
            Inr (delta_at parent z (UpdateNodeDelta RemoveParentUpdate (-1)) #
                 delta_at p z (RemoveNodeDelta (-1) session_id) # ds)))"

definition close_preprocess :: "KeeperContext \<Rightarrow> int64 \<Rightarrow> int64 \<Rightarrow> uint64 \<Rightarrow> KeeperStorage \<Rightarrow> prep" where
  "close_preprocess ctx z session_id digest s =
     (case close_deltas z session_id (case ephemerals s session_id of None \<Rightarrow> [] | Some ps \<Rightarrow> ps) of
        Inl e \<Rightarrow> (Inl e, s, digest)
      | Inr new_deltas \<Rightarrow>
          prep_deltas ctx new_deltas (s\<lparr>ephemerals := (ephemerals s)(session_id := None)\<rparr>) digest)"

text \<open>\<^verbatim>\<open>uncommitted_state.deltas.emplace_back\<close>: a delta without path, registered in the list only.\<close>

definition push_delta :: "Delta \<Rightarrow> KeeperStorage \<Rightarrow> KeeperStorage" where
  "push_delta d s =
     (let us = uncommitted_state s
      in s\<lparr>uncommitted_state := us\<lparr>us_deltas := us_deltas us @ [(us_next us, d)], us_next := Suc (us_next us)\<rparr>\<rparr>)"

definition no_auth_delta :: "int64 \<Rightarrow> Request \<Rightarrow> Delta" where
  "no_auth_delta z req =
     (case req of
        MultiRequest rs _ \<Rightarrow> delta_plain z (FailedMultiDelta (replicate (length rs) ZOK) ZNOAUTH)
      | _ \<Rightarrow> delta_error z ZNOAUTH)"

definition preprocess_body ::
  "KeeperContext \<Rightarrow> Request \<Rightarrow> int64 \<Rightarrow> int64 \<Rightarrow> int64 \<Rightarrow> bool \<Rightarrow> uint64 \<Rightarrow> KeeperStorage \<Rightarrow> prep" where
  "preprocess_body ctx req session_id time z check_acl digest s =
     (case get_processor req of
        Inl e \<Rightarrow> (Inl e, s, digest)
      | Inr _ \<Rightarrow>
          if getOpNum req = Op_Close then close_preprocess ctx z session_id digest s
          else
            (case (if check_acl then checkAuth req session_id False s else Inr True) of
               Inl e \<Rightarrow> (Inl e, s, digest)
             | Inr False \<Rightarrow> (Inr [], push_delta (no_auth_delta z req) s, digest)
             | Inr True \<Rightarrow> preprocess ctx req z session_id time digest s))"

definition preprocessRequest ::
  "KeeperContext \<Rightarrow> Request \<Rightarrow> int64 \<Rightarrow> int64 \<Rightarrow> int64 \<Rightarrow> bool \<Rightarrow> Digest option \<Rightarrow> int64 \<Rightarrow> KeeperStorage \<Rightarrow>
     (exn + unit) \<times> KeeperStorage" where
  "preprocessRequest ctx req session_id time new_last_zxid check_acl digest log_idx s =
     (let last_zxid = getNextZXID s - 1
      in if \<not> initialized s then (Inl LOGICAL_ERROR, s)
         else if uncommitted_transactions s = [] \<and> last_zxid \<noteq> old_snapshot_zxid s \<and> new_last_zxid \<le>s last_zxid
         then (Inl LOGICAL_ERROR, s)
         else if uncommitted_transactions s \<noteq> [] \<and> last_zxid = new_last_zxid \<and>
                 (case digest of None \<Rightarrow> False | Some d \<Rightarrow> checkDigest d (getNodesDigest ctx False s))
         then (Inr (), s\<lparr>uncommitted_transactions := butlast (uncommitted_transactions s) @
                          [(last (uncommitted_transactions s))\<lparr>t_log_idx := log_idx\<rparr>]\<rparr>)
         else if uncommitted_transactions s \<noteq> [] \<and> new_last_zxid \<le>s last_zxid
         then (Inl LOGICAL_ERROR, s)
         else
           (let (result, s1, new_digest) =
                  preprocess_body ctx req session_id time new_last_zxid check_acl
                    (dg_value (getNodesDigest ctx False s)) s
            in case register_transaction ctx new_last_zxid log_idx new_digest
                      (case result of Inl _ \<Rightarrow> [] | Inr ds \<Rightarrow> ds) s1 of
                 Inl e \<Rightarrow> (Inl e, s1)
               | Inr s2 \<Rightarrow> (case result of Inl e \<Rightarrow> (Inl e, s2) | Inr _ \<Rightarrow> (Inr (), s2))))"

section \<open>Processing\<close>

definition add_watch :: "bool \<Rightarrow> string \<Rightarrow> int64 \<Rightarrow> KeeperStorage \<Rightarrow> KeeperStorage" where
  "add_watch is_list path session_id s =
     (let ws = (if is_list then list_watches s else watches s);
          present = (case ws path of None \<Rightarrow> False | Some ss \<Rightarrow> session_id \<in> set ss);
          ws' = map_emplace path session_id ws;
          s = (if is_list then s\<lparr>list_watches := ws'\<rparr> else s\<lparr>watches := ws'\<rparr>)
      in if present then s
         else s\<lparr>sessions_and_watchers := map_emplace session_id path (sessions_and_watchers s)\<rparr>)"

definition register_watch :: "Request \<Rightarrow> int64 \<Rightarrow> Error \<Rightarrow> KeeperStorage \<Rightarrow> KeeperStorage" where
  "register_watch req session_id err s =
     (if \<not> has_watch req then s
      else if err = ZOK
      then add_watch (getOpNum req \<in> {Op_List, Op_SimpleList, Op_FilteredList}) (getPath req) session_id s
      else if err = ZNONODE \<and> getOpNum req = Op_Exists then add_watch False (getPath req) session_id s
      else s)"

fun close_watches :: "int64 \<Rightarrow> Delta list \<Rightarrow> KeeperStorage \<Rightarrow> exn + ResponseForSession list \<times> KeeperStorage" where
  "close_watches z [] s = Inr ([], s)"
| "close_watches z (d # ds) s =
     (if z <s d_zxid d then Inr ([], s)
      else bindE (case d_operation d of
                    RemoveNodeDelta _ _ \<Rightarrow> processWatchesImpl (d_path d) DELETED s
                  | _ \<Rightarrow> Inr ([], s))
             (\<lambda>(rs, s). bindE (close_watches z ds s) (\<lambda>(rs', s). Inr (rs @ rs', s))))"

definition process_close ::
  "KeeperContext \<Rightarrow> int32 \<Rightarrow> int64 \<Rightarrow> KeeperStorage \<Rightarrow> exn + ResponseForSession list \<times> KeeperStorage" where
  "process_close ctx x session_id s =
     bindE (storage_commit ctx (ks_zxid s) s) (\<lambda>(_, s).
       bindE (close_watches (ks_zxid s) (map snd (us_deltas (uncommitted_state s))) s) (\<lambda>(results, s).
         let s = clearDeadWatches session_id s;
             s = s\<lparr>session_and_auth := (session_and_auth s)(session_id := [])\<rparr>
         in bindE (queue_remove session_id (session_expiry_queue s)) (\<lambda>(_, q).
              Inr (results @ [\<lparr>rs_session_id = session_id,
                               rs_response = set_ids (ks_zxid s) x (makeResponse CloseRequest)\<rparr>],
                   s\<lparr>session_expiry_queue := q,
                     session_and_timeout := (session_and_timeout s)(session_id := None)\<rparr>))))"

definition process_heartbeat ::
  "KeeperContext \<Rightarrow> int32 \<Rightarrow> int64 \<Rightarrow> KeeperStorage \<Rightarrow> exn + ResponseForSession list \<times> KeeperStorage" where
  "process_heartbeat ctx x session_id s =
     bindE (process ctx HeartbeatRequest (ks_zxid s) s) (\<lambda>(response, s).
       Inr ([\<lparr>rs_session_id = session_id, rs_response = set_ids (ks_zxid s) x response\<rparr>], s))"

definition process_normal ::
  "KeeperContext \<Rightarrow> int32 \<Rightarrow> Request \<Rightarrow> int64 \<Rightarrow> bool \<Rightarrow> bool \<Rightarrow> KeeperStorage \<Rightarrow> exn + ResponseForSession list \<times> KeeperStorage" where
  "process_normal ctx x req session_id check_acl is_local s =
     bindE (get_processor req) (\<lambda>_.
       bindE
         (if is_local
          then bindE (if check_acl then checkAuth req session_id True s else Inr True) (\<lambda>ok.
                 if ok then bindE (processLocal ctx req s) (\<lambda>response. Inr (response, s))
                 else Inr (set_error ZNOAUTH (makeResponse req), s))
          else process ctx req (ks_zxid s) s)
         (\<lambda>(response, s).
            let s = register_watch req session_id (resp_error response) s
            in bindE (if resp_error response = ZOK then processWatches req s else Inr ([], s))
                 (\<lambda>(watch_responses, s).
                    Inr (watch_responses @
                         [\<lparr>rs_session_id = session_id, rs_response = set_ids (ks_zxid s) x response\<rparr>], s))))"

definition start_commit :: "int64 option \<Rightarrow> KeeperStorage \<Rightarrow> exn + KeeperStorage" where
  "start_commit new_last_zxid s =
     (case new_last_zxid of
        None \<Rightarrow> Inr s
      | Some z \<Rightarrow>
          (case uncommitted_transactions s of
             [] \<Rightarrow> Inl LOGICAL_ERROR
           | t # ts \<Rightarrow> if t_zxid t \<noteq> z then Inl LOGICAL_ERROR
                       else Inr (s\<lparr>ks_zxid := z, uncommitted_transactions := ts\<rparr>)))"

definition touch_session :: "int \<Rightarrow> int64 \<Rightarrow> KeeperStorage \<Rightarrow> exn + KeeperStorage" where
  "touch_session now session_id s =
     (let timeout = (case session_and_timeout s session_id of None \<Rightarrow> 0 | Some t \<Rightarrow> t)
      in bindE (addNewSessionOrUpdate now session_id timeout (session_expiry_queue s)) (\<lambda>q.
           Inr (s\<lparr>session_and_timeout := (session_and_timeout s)(session_id \<mapsto> timeout),
                  session_expiry_queue := q\<rparr>)))"

definition processRequest ::
  "KeeperContext \<Rightarrow> int \<Rightarrow> ZooKeeperRequest \<Rightarrow> int64 \<Rightarrow> int64 option \<Rightarrow> bool \<Rightarrow> bool \<Rightarrow> KeeperStorage \<Rightarrow>
     exn + ResponseForSession list \<times> KeeperStorage" where
  "processRequest ctx now zk_request session_id new_last_zxid check_acl is_local s =
     (if \<not> initialized s then Inl LOGICAL_ERROR
      else
        bindE (start_commit new_last_zxid s) (\<lambda>s.
          bindE (touch_session now session_id s) (\<lambda>s.
            bindE (case getOpNum (request zk_request) of
                     Op_Close \<Rightarrow> process_close ctx (xid zk_request) session_id s
                   | Op_Heartbeat \<Rightarrow> process_heartbeat ctx (xid zk_request) session_id s
                   | _ \<Rightarrow> process_normal ctx (xid zk_request) (request zk_request) session_id check_acl is_local s)
              (\<lambda>(results, s).
                 bindE (us_commit (ks_zxid s) s) (\<lambda>s. Inr (results, s))))))"

section \<open>Rolling back\<close>

definition rollbackRequest :: "int64 \<Rightarrow> bool \<Rightarrow> KeeperStorage \<Rightarrow> exn + KeeperStorage" where
  "rollbackRequest rollback_zxid allow_missing s =
     (let ts = uncommitted_transactions s
      in if allow_missing \<and> (ts = [] \<or> t_zxid (last ts) <s rollback_zxid) then Inr s
         else if ts = [] \<or> t_zxid (last ts) \<noteq> rollback_zxid then Inl LOGICAL_ERROR
         else case us_rollback rollback_zxid (s\<lparr>uncommitted_transactions := butlast ts\<rparr>) of
                Inl Undefined \<Rightarrow> Inl Undefined
              | Inl _ \<Rightarrow> Inl Terminate
              | Inr s' \<Rightarrow> Inr s')"

end
