(* ===== verification/KeeperTree.thy ===== *)
theory KeeperTree
  imports KeeperRequests
begin

text \<open>
  The abstract specification of the storage: a tree is a finite map from paths to nodes without
  the fields that only the container has (the number of the access control list, the memoized
  digest, the names of the children). A delta is a step on trees; \<open>enabled\<close> says when a delta fits a
  tree, which is what the checks of preprocessing establish and what committing relies on. The well-
  formedness of trees and how the groups of deltas of the requests keep it are proved here.
\<close>

section \<open>Nodes without container fields\<close>

definition core :: "KeeperMemNode \<Rightarrow> KeeperMemNode" where
  "core n = n\<lparr>n_acl_id := 0, n_cached_digest := 0, n_children := []\<rparr>"

lemma core_fields [simp]:
  "n_version (core n) = n_version n" "n_aversion (core n) = n_aversion n" "n_data (core n) = n_data n"
  "n_is_ephemeral (core n) = n_is_ephemeral n" "numChildren (core n) = numChildren n"
  "seqNum (core n) = seqNum n" "ephemeralOwner (core n) = ephemeralOwner n"
  "setResponseStat (core n) = setResponseStat n" "core (core n) = core n"
  by (simp_all add: core_def numChildren_def seqNum_def ephemeralOwner_def setResponseStat_def ctime_def)

lemma core_ops [simp]:
  "core (shallowCopy n) = core n" "core (invalidateDigestCache n) = core n"
  "core (memoDigest p n) = core n" "core (addChild c n) = core n" "core (removeChild c n) = core n"
  "core (n\<lparr>n_acl_id := a\<rparr>) = core n" "core (n\<lparr>n_children := cs\<rparr>) = core n"
  "core (n_acl_id_update g n) = core n"
  "core (n\<lparr>n_cached_digest := g'\<rparr>) = core n" "core (node_copy n) = core n"
  by (simp_all add: core_def shallowCopy_def invalidateDigestCache_def memoDigest_def addChild_def
      removeChild_def node_copy_def node_assign_def KeeperMemNode_new_def)

lemmas update_defs = create_parent_update_def remove_parent_update_def parent_pzxid_update_def
  set_node_update_def set_parent_update_def aversion_update_def

lemmas node_defs = increaseSeqNum_def increaseNumChildren_def decreaseNumChildren_def setNumChildren_def
  setSeqNum_def numChildren_def seqNum_def ephemeralOwner_def setData_def

lemma core_apply_update: "core (apply_update f n) = apply_update f (core n)"
  by (cases f) (simp_all add: update_defs node_defs core_def Let_def)

lemma core_apply_update_idem [simp]: "core (apply_update f (core n)) = apply_update f (core n)"
  by (simp add: core_apply_update)

lemma calculateDigest_core [simp]: "calculateDigest p (core n) = calculateDigest p n"
  by (simp add: core_def)

definition created_node :: "Stat \<Rightarrow> string \<Rightarrow> KeeperMemNode" where
  "created_node stat data = setData data (copyStats stat KeeperMemNode_new)"

lemma core_created [simp]: "core (created_node stat data) = created_node stat data"
  by (simp add: created_node_def core_def setData_def copyStats_def KeeperMemNode_new_def
      setCtime_def setNumChildren_def setEphemeralOwner_def Let_def)

lemma core_created_acl [simp]:
  "core (setData data (copyStats stat (KeeperMemNode_new\<lparr>n_acl_id := a\<rparr>))) = created_node stat data"
  by (simp add: created_node_def core_def setData_def copyStats_def KeeperMemNode_new_def
      setCtime_def setNumChildren_def setEphemeralOwner_def Let_def)

text \<open>Which updates touch the counters of children, and what they leave alone.\<close>

fun counts_children :: "UpdateFn \<Rightarrow> bool" where
  "counts_children (CreateParentUpdate _ _) = True"
| "counts_children RemoveParentUpdate = True"
| "counts_children _ = False"

lemma apply_update_ephemeral [simp]: "n_is_ephemeral (apply_update f n) = n_is_ephemeral n"
  by (cases f) (simp_all add: update_defs node_defs Let_def)

lemma apply_update_owner:
  "counts_children f \<longrightarrow> \<not> n_is_ephemeral n \<Longrightarrow> ephemeralOwner (apply_update f n) = ephemeralOwner n"
  by (cases f) (simp_all add: update_defs node_defs Let_def)

lemma apply_update_children:
  "\<not> counts_children f \<Longrightarrow> numChildren (apply_update f n) = numChildren n"
  "\<not> n_is_ephemeral n \<Longrightarrow> numChildren (apply_update (CreateParentUpdate c z) n) = numChildren n + 1"
  "\<not> n_is_ephemeral n \<Longrightarrow> numChildren (apply_update RemoveParentUpdate n) = numChildren n - 1"
  by (cases f; simp add: update_defs node_defs Let_def)+

section \<open>Trees and deltas\<close>

type_synonym tree = "string \<rightharpoonup> KeeperMemNode"

definition tstep :: "Delta \<Rightarrow> tree \<Rightarrow> tree" where
  "tstep d t =
     (case d_operation d of
        CreateNodeDelta stat _ data \<Rightarrow> t(d_path d \<mapsto> created_node stat data)
      | RemoveNodeDelta _ _ \<Rightarrow> t(d_path d := None)
      | UpdateNodeDelta f _ \<Rightarrow> t(d_path d := map_option (apply_update f) (t (d_path d)))
      | _ \<Rightarrow> t)"

definition user_path :: "string \<Rightarrow> bool" where
  "user_path p \<longleftrightarrow> matchPath p keeper_system_path = NOT_MATCH"

definition kids :: "tree \<Rightarrow> string \<Rightarrow> string set" where
  "kids t q = {p \<in> dom t. p \<noteq> [slash] \<and> parentNodePath p = Some q}"

text \<open>The path that listing the parent forms for the name of the node is the path of the node.\<close>

definition joined :: "string \<Rightarrow> bool" where
  "joined p \<longleftrightarrow> (\<exists>q. parentNodePath p = Some q \<and> path_join q (getBaseNodeName p) = p)"

definition enabled :: "Delta \<Rightarrow> tree \<Rightarrow> bool" where
  "enabled d t =
     (case d_operation d of
        CreateNodeDelta stat _ _ \<Rightarrow>
          d_path d \<noteq> [] \<and> user_path (d_path d) \<and> t (d_path d) = None \<and>
          joined (d_path d) \<and> d_path d \<noteq> [slash] \<and> kids t (d_path d) = {} \<and>
          (\<exists>q n. parentNodePath (d_path d) = Some q \<and> t q = Some n \<and> \<not> n_is_ephemeral n)
      | RemoveNodeDelta version owner \<Rightarrow>
          d_path d \<noteq> [] \<and> user_path (d_path d) \<and>
          (\<exists>n. t (d_path d) = Some n \<and> (version = -1 \<or> version = n_version n) \<and> numChildren n = 0 \<and>
             owner = ephemeralOwner n) \<and>
          d_path d \<noteq> [slash] \<and> kids t (d_path d) = {} \<and>
          (\<exists>q n. parentNodePath (d_path d) = Some q \<and> t q = Some n \<and> q \<noteq> d_path d)
      | UpdateNodeDelta f version \<Rightarrow>
          d_path d \<noteq> [] \<and> user_path (d_path d) \<and>
          (\<exists>n. t (d_path d) = Some n \<and> (version = -1 \<or> version = n_version n) \<and>
             (counts_children f \<longrightarrow> \<not> n_is_ephemeral n))
      | SetACLDelta _ version \<Rightarrow>
          d_path d \<noteq> [] \<and> (\<exists>n. t (d_path d) = Some n \<and> (version = -1 \<or> version = n_aversion n))
      | _ \<Rightarrow> d_path d = [])"

fun enabled_all :: "Delta list \<Rightarrow> tree \<Rightarrow> bool" where
  "enabled_all [] t = True"
| "enabled_all (d # ds) t = (enabled d t \<and> enabled_all ds (tstep d t))"

abbreviation replay :: "Delta list \<Rightarrow> tree \<Rightarrow> tree" where
  "replay ds t \<equiv> fold tstep ds t"

lemma enabled_all_append [simp]:
  "enabled_all (ds @ es) t \<longleftrightarrow> enabled_all ds t \<and> enabled_all es (replay ds t)"
  by (induction ds arbitrary: t) auto

lemma tstep_other: "p \<noteq> d_path d \<Longrightarrow> tstep d t p = t p"
  by (simp add: tstep_def split: Operation.split)

lemma tstep_local: "t (d_path d) = u (d_path d) \<Longrightarrow> tstep d t (d_path d) = tstep d u (d_path d)"
  by (simp add: tstep_def split: Operation.split)

text \<open>A path is affected by its own deltas only.\<close>

lemma replay_path:
  "t p = u p \<Longrightarrow> replay ds t p = replay (filter (\<lambda>d. d_path d = p) ds) u p"
proof (induction ds arbitrary: t u)
  case (Cons d ds)
  show ?case
  proof (cases "d_path d = p")
    case True
    then have "tstep d t p = tstep d u p" using Cons.prems tstep_local [of t d u] by simp
    then show ?thesis using True Cons.IH by simp
  next
    case False
    then have "tstep d t p = u p" using Cons.prems by (simp add: tstep_other)
    then show ?thesis using False Cons.IH by simp
  qed
qed simp

lemma replay_untouched: "\<forall>d \<in> set ds. d_path d \<noteq> p \<Longrightarrow> replay ds t p = t p"
  using replay_path [of t p t ds] by (simp add: filter_False)

lemma dom_tstep: "dom (tstep d t) \<subseteq> insert (d_path d) (dom t)"
proof
  fix p assume "p \<in> dom (tstep d t)"
  then show "p \<in> insert (d_path d) (dom t)" by (cases "p = d_path d") (auto simp: tstep_other)
qed

lemma finite_tstep [simp]: "finite (dom t) \<Longrightarrow> finite (dom (tstep d t))"
  using finite_subset [OF dom_tstep] by blast

section \<open>Digests of trees\<close>

text \<open>Abstract trees satisfy the laws of the container too, so the facts on sums hold for them.\<close>

definition tree_update :: "string \<Rightarrow> ('v \<Rightarrow> 'v) \<Rightarrow> (string \<rightharpoonup> 'v) \<Rightarrow> (string \<rightharpoonup> 'v) option" where
  "tree_update k f t = (case t k of None \<Rightarrow> None | Some v \<Rightarrow> Some (t(k \<mapsto> f v)))"

interpretation tr: kv_container "\<lambda>t. finite (dom t)" "\<lambda>t. t" "\<lambda>k v t. t(k \<mapsto> v)" "\<lambda>k t. t(k := None)"
  tree_update "\<lambda>k f t. t(k := map_option f (t k))" "\<lambda>v. v"
  by unfold_locales (auto simp: tree_update_def dom_if split: option.splits if_splits)

text \<open>The nodes below the system path are not part of the digest.\<close>

definition digest_weight :: "string \<Rightarrow> KeeperMemNode \<Rightarrow> uint64" where
  "digest_weight p n = (if matchPath p keeper_system_path = IS_CHILD then 0 else calculateDigest p n)"

definition tree_digest :: "tree \<Rightarrow> uint64" where
  "tree_digest t = tr.csum digest_weight t"

lemma digest_weight_user [simp]: "user_path p \<Longrightarrow> digest_weight p n = calculateDigest p n"
  by (simp add: digest_weight_def user_path_def)

lemma tree_digest_insert:
  "finite (dom t) \<Longrightarrow> t p = None \<Longrightarrow> tree_digest (t(p \<mapsto> n)) = tree_digest t + digest_weight p n"
  by (simp add: tree_digest_def tr.csum_ins)

lemma tree_digest_delete:
  "finite (dom t) \<Longrightarrow> t p = Some n \<Longrightarrow> tree_digest (t(p := None)) = tree_digest t - digest_weight p n"
  by (simp add: tree_digest_def tr.csum_del)

lemma tree_digest_update:
  assumes "finite (dom t)" "t p = Some n"
  shows "tree_digest (t(p \<mapsto> n')) = tree_digest t - digest_weight p n + digest_weight p n'"
proof -
  have "tree_update p (\<lambda>_. n') t = Some (t(p \<mapsto> n'))" using assms(2) by (simp add: tree_update_def)
  from tr.csum_upd [OF assms this, where g = digest_weight] show ?thesis by (auto simp: tree_digest_def)
qed


section \<open>Well-formed trees\<close>

text \<open>Every node but the root has a parent, which is not ephemeral, and a name; the system node is there;
  the counter of children of every node outside the system path is the number of children, modulo
  the width of the counter; ephemeral nodes have an owner and are outside the system path.\<close>

definition tree_wf :: "tree \<Rightarrow> bool" where
  "tree_wf t \<longleftrightarrow>
     finite (dom t) \<and>
     (\<exists>r. t [slash] = Some r \<and> \<not> n_is_ephemeral r) \<and>
     t keeper_system_path \<noteq> None \<and>
     (\<forall>p n. t p = Some n \<longrightarrow> p \<noteq> [slash] \<longrightarrow>
        getBaseNodeName p \<noteq> [] \<and>
        (\<exists>q pn. parentNodePath p = Some q \<and> t q = Some pn \<and> \<not> n_is_ephemeral pn)) \<and>
     (\<forall>p n. t p = Some n \<longrightarrow> \<not> n_is_ephemeral n \<longrightarrow> user_path p \<longrightarrow>
        numChildren n = word_of_nat (card (kids t p))) \<and>
     (\<forall>p n. t p = Some n \<longrightarrow> n_is_ephemeral n \<longrightarrow> ephemeralOwner n \<noteq> 0 \<and> user_path p)"

lemma tree_wfD:
  assumes "tree_wf t"
  shows "finite (dom t)" "\<exists>r. t [slash] = Some r \<and> \<not> n_is_ephemeral r" "t keeper_system_path \<noteq> None"
    "t p = Some n \<Longrightarrow> p \<noteq> [slash] \<Longrightarrow> getBaseNodeName p \<noteq> []"
    "t p = Some n \<Longrightarrow> p \<noteq> [slash] \<Longrightarrow> \<exists>q pn. parentNodePath p = Some q \<and> t q = Some pn \<and> \<not> n_is_ephemeral pn"
    "t p = Some n \<Longrightarrow> \<not> n_is_ephemeral n \<Longrightarrow> user_path p \<Longrightarrow> numChildren n = word_of_nat (card (kids t p))"
    "t p = Some n \<Longrightarrow> n_is_ephemeral n \<Longrightarrow> ephemeralOwner n \<noteq> 0"
    "t p = Some n \<Longrightarrow> n_is_ephemeral n \<Longrightarrow> user_path p"
  using assms by (auto simp: tree_wf_def)

lemma keeper_system_path_facts:
  "parentNodePath keeper_system_path = Some [slash]" "keeper_system_path \<noteq> [slash]"
  "\<not> user_path keeper_system_path" "user_path [slash]"
  by (simp_all add: keeper_system_path_def user_path_def matchPath_def strip_slash_def parentNodePath_def
      findLastSlash_def numeral_eq_Suc)

lemma parent_neq:
  assumes "parentNodePath p = Some q" "p \<noteq> [slash]"
  shows "q \<noteq> p"
  using parentNodePath_shorter [OF assms] assms(2) by auto

lemma user_path_parent:
  assumes "user_path p" "parentNodePath p = Some q" "getBaseNodeName p \<noteq> []"
  shows "user_path q"
proof (cases "q = [slash]")
  case False
  then show ?thesis using matchPath_child [OF _ assms(2) False assms(3)] assms(1) by (auto simp: user_path_def)
qed (simp add: keeper_system_path_facts)

lemma finite_kids [simp]: "finite (dom t) \<Longrightarrow> finite (kids t q)"
  by (rule finite_subset [of _ "dom t"]) (auto simp: kids_def)

lemma root_kids: "tree_wf t \<Longrightarrow> keeper_system_path \<in> kids t [slash]"
  using tree_wfD(3) by (auto simp: kids_def keeper_system_path_facts)

lemma no_kids_ephemeral:
  assumes "tree_wf t" "t p = Some n" "n_is_ephemeral n"
  shows "kids t p = {}"
  using tree_wfD(5) [OF assms(1)] assms(2,3) by (fastforce simp: kids_def)

lemma no_kids_absent:
  assumes "tree_wf t" "t p = None"
  shows "kids t p = {}"
  using tree_wfD(5) [OF assms(1)] assms(2) by (fastforce simp: kids_def)

lemma no_kids_counter:
  assumes wf: "tree_wf t" and small: "card (dom t) < 2 ^ 32"
    and n: "t p = Some n" "numChildren n = 0" "user_path p"
  shows "kids t p = {}"
proof (cases "n_is_ephemeral n")
  case True
  then show ?thesis using no_kids_ephemeral [OF wf n(1)] by simp
next
  case False
  have "card (kids t p) \<le> card (dom t)" by (rule card_mono) (use tree_wfD(1) [OF wf] in \<open>auto simp: kids_def\<close>)
  then have lt: "card (kids t p) < 2 ^ 32" using small by simp
  have "word_of_nat (card (kids t p)) = (0 :: int32)" using tree_wfD(6) [OF wf n(1) False n(3)] n(2) by simp
  then have "card (kids t p) = 0" using lt by (auto simp: word_of_nat_eq_0_iff dest: nat_dvd_not_less)
  then show ?thesis using tree_wfD(1) [OF wf] by simp
qed

lemma root_not_removable:
  "tree_wf t \<Longrightarrow> kids t p = {} \<Longrightarrow> p \<noteq> [slash]"
  using root_kids by auto

text \<open>The three ways requests change trees.\<close>

definition has_parent :: "tree \<Rightarrow> string \<Rightarrow> bool" where
  "has_parent t p \<longleftrightarrow> (\<exists>q pn. parentNodePath p = Some q \<and> t q = Some pn \<and> \<not> n_is_ephemeral pn)"

lemma tree_wfI:
  assumes "finite (dom t)" "\<exists>r. t [slash] = Some r \<and> \<not> n_is_ephemeral r" "t keeper_system_path \<noteq> None"
    "\<And>p n. t p = Some n \<Longrightarrow> p \<noteq> [slash] \<Longrightarrow> getBaseNodeName p \<noteq> [] \<and> has_parent t p"
    "\<And>p n. t p = Some n \<Longrightarrow> \<not> n_is_ephemeral n \<Longrightarrow> user_path p \<Longrightarrow> numChildren n = word_of_nat (card (kids t p))"
    "\<And>p n. t p = Some n \<Longrightarrow> n_is_ephemeral n \<Longrightarrow> ephemeralOwner n \<noteq> 0 \<and> user_path p"
  shows "tree_wf t"
  using assms unfolding tree_wf_def has_parent_def by blast

lemma tree_wf_parent: "tree_wf t \<Longrightarrow> t p = Some n \<Longrightarrow> p \<noteq> [slash] \<Longrightarrow> has_parent t p"
  using tree_wfD(5) unfolding has_parent_def by blast

lemma kids_dom: "dom t' = dom t \<Longrightarrow> kids t' = kids t"
  by (simp add: kids_def fun_eq_iff)

lemma tree_wf_shape:
  assumes wf: "tree_wf t" and dom: "dom t' = dom t"
    and eph: "\<And>p n n'. t p = Some n \<Longrightarrow> t' p = Some n' \<Longrightarrow>
       n_is_ephemeral n' = n_is_ephemeral n \<and> ephemeralOwner n' = ephemeralOwner n"
    and cnt: "\<And>p n'. t' p = Some n' \<Longrightarrow> \<not> n_is_ephemeral n' \<Longrightarrow> user_path p \<Longrightarrow>
       numChildren n' = word_of_nat (card (kids t p))"
  shows "tree_wf t'"
proof (rule tree_wfI)
  have old: "\<exists>n. t p = Some n" if "t' p = Some n'" for p n' using that dom by blast
  have new: "\<exists>n'. t' p = Some n'" if "t p = Some n" for p n using that dom by blast
  show "finite (dom t')" using tree_wfD(1) [OF wf] dom by simp
  show "\<exists>r. t' [slash] = Some r \<and> \<not> n_is_ephemeral r" using tree_wfD(2) [OF wf] new eph by metis
  show "t' keeper_system_path \<noteq> None" using tree_wfD(3) [OF wf] dom by blast
  show "getBaseNodeName p \<noteq> [] \<and> has_parent t' p" if p: "t' p = Some n'" "p \<noteq> [slash]" for p n'
    using old [OF p(1)] tree_wfD(4,5) [OF wf _ p(2)] new eph unfolding has_parent_def by metis
  show "numChildren n' = word_of_nat (card (kids t' p))"
    if "t' p = Some n'" "\<not> n_is_ephemeral n'" "user_path p" for p n'
    using cnt [OF that] kids_dom [OF dom] by simp
  show "ephemeralOwner n' \<noteq> 0 \<and> user_path p" if "t' p = Some n'" "n_is_ephemeral n'" for p n'
    using old [OF that(1)] eph that tree_wfD(7,8) [OF wf] by metis
qed

lemma tree_wf_update:
  assumes wf: "tree_wf t" and n: "t p = Some n" "\<not> counts_children f"
  shows "tree_wf (t(p \<mapsto> apply_update f n))"
proof (rule tree_wf_shape [OF wf])
  show "dom (t(p \<mapsto> apply_update f n)) = dom t" using n(1) by auto
qed (use n tree_wfD(6) [OF wf] in
    \<open>auto simp: apply_update_owner apply_update_children split: if_splits\<close>)

lemmas parent_update_ephemeral [simp] =
  apply_update_ephemeral [of "CreateParentUpdate c z" for c z, simplified]
  apply_update_ephemeral [of RemoveParentUpdate, simplified]

lemma tree_wf_insert:
  assumes wf: "tree_wf t" and q: "parentNodePath p = Some q" "t q = Some pn" "\<not> n_is_ephemeral pn"
    and p: "t p = None" "user_path p" "getBaseNodeName p \<noteq> []"
    and st: "st_numChildren st = 0"
  shows "tree_wf (t(q \<mapsto> apply_update (CreateParentUpdate c z) pn, p \<mapsto> created_node st data))"
    (is "tree_wf ?t")
proof (rule tree_wfI)
  have neq: "q \<noteq> p" using q(2) p(1) by auto
  have root: "p \<noteq> [slash]" using tree_wfD(2) [OF wf] p(1) by auto
  have par: "has_parent ?t r" if hp: "has_parent t r" for r
  proof -
    obtain s sn where s: "parentNodePath r = Some s" "t s = Some sn" "\<not> n_is_ephemeral sn"
      using hp unfolding has_parent_def by blast
    then have "s \<noteq> p" using p(1) by auto
    then show ?thesis using s q(2,3) neq unfolding has_parent_def by (intro exI [of _ s]) simp
  qed
  have kids: "kids ?t r = (if r = q then insert p (kids t r) else kids t r)" for r
    using q p(1) root neq by (auto simp: kids_def)
  show "finite (dom ?t)" using tree_wfD(1) [OF wf] by simp
  show "\<exists>r. ?t [slash] = Some r \<and> \<not> n_is_ephemeral r" using tree_wfD(2) [OF wf] root q(3) by auto
  show "?t keeper_system_path \<noteq> None" using tree_wfD(3) [OF wf] p by auto
  show "getBaseNodeName r \<noteq> [] \<and> has_parent ?t r" if r: "?t r = Some n" "r \<noteq> [slash]" for r n
  proof (cases "r = p")
    case True
    have "has_parent ?t p" unfolding has_parent_def using q neq by (intro exI [of _ q]) simp
    then show ?thesis using True p(3) by simp
  next
    case False
    then obtain n' where n': "t r = Some n'" using r(1) q(2) by (cases "r = q") auto
    show ?thesis using tree_wfD(4) [OF wf n' r(2)] par [OF tree_wf_parent [OF wf n' r(2)]] by simp
  qed
  have nc: "\<not> n_is_ephemeral (created_node st data) \<Longrightarrow> numChildren (created_node st data) = 0"
    using st by (auto simp: created_node_def setData_def copyStats_def KeeperMemNode_new_def setCtime_def
        setNumChildren_def setEphemeralOwner_def numChildren_def Let_def)
  have notin: "p \<notin> kids t r" for r using p(1) by (simp add: kids_def domIff)
  show "numChildren n = word_of_nat (card (kids ?t r))"
    if r: "?t r = Some n" "\<not> n_is_ephemeral n" "user_path r" for r n
  proof -
    consider "r = p" | "r = q" | "r \<noteq> p" "r \<noteq> q" by blast
    then show ?thesis
    proof cases
      case 1
      then show ?thesis using r nc neq no_kids_absent [OF wf p(1)] kids by auto
    next
      case 2
      then show ?thesis
        using r neq q tree_wfD(6) [OF wf q(2,3)] notin tree_wfD(1) [OF wf] kids [of q]
          apply_update_children(2) [OF q(3), of c z]
        by auto
    next
      case 3
      then show ?thesis using r tree_wfD(6) [OF wf, of r n] kids [of r] by simp
    qed
  qed
  have cr: "n_is_ephemeral (created_node st data) \<Longrightarrow> ephemeralOwner (created_node st data) \<noteq> 0"
    by (auto simp: created_node_def setData_def copyStats_def KeeperMemNode_new_def setCtime_def
        setNumChildren_def setEphemeralOwner_def ephemeralOwner_def Let_def split: if_splits)
  show "ephemeralOwner n \<noteq> 0 \<and> user_path r" if r: "?t r = Some n" "n_is_ephemeral n" for r n
    using r p(2) cr q(3) tree_wfD(7,8) [OF wf] by (auto split: if_splits)
qed

lemma tree_wf_remove:
  assumes wf: "tree_wf t" and p: "t p = Some n" "user_path p" "kids t p = {}"
    and q: "parentNodePath p = Some q" "t q = Some pn"
  shows "tree_wf (t(q \<mapsto> apply_update RemoveParentUpdate pn, p := None))" (is "tree_wf ?t")
proof (rule tree_wfI)
  have root: "p \<noteq> [slash]" using root_not_removable [OF wf p(3)] .
  have neq: "q \<noteq> p" using parent_neq [OF q(1) root] .
  have pe: "\<not> n_is_ephemeral pn" using tree_wfD(5) [OF wf p(1) root] q by auto
  have par: "has_parent ?t r" if hp: "has_parent t r" and r: "t r = Some rn" "r \<noteq> [slash]" for r rn
  proof -
    obtain s sn where s: "parentNodePath r = Some s" "t s = Some sn" "\<not> n_is_ephemeral sn"
      using hp unfolding has_parent_def by blast
    have "s \<noteq> p" using s(1) r p(3) by (auto simp: kids_def)
    then show ?thesis using s neq pe q(2) unfolding has_parent_def by (intro exI [of _ s]) simp
  qed
  have kids: "kids ?t r = (if r = q then kids t r - {p} else kids t r)" for r
    using q p(1) root neq by (auto simp: kids_def)
  show "finite (dom ?t)" using tree_wfD(1) [OF wf] by simp
  show "\<exists>r. ?t [slash] = Some r \<and> \<not> n_is_ephemeral r" using tree_wfD(2) [OF wf] root pe by auto
  show "?t keeper_system_path \<noteq> None"
    using tree_wfD(3) [OF wf] p(2) keeper_system_path_facts(3) by auto
  show "getBaseNodeName r \<noteq> [] \<and> has_parent ?t r" if r: "?t r = Some m" "r \<noteq> [slash]" for r m
  proof -
    obtain n' where n': "t r = Some n'" using r(1) q(2) by (auto split: if_splits)
    show ?thesis using tree_wfD(4) [OF wf n' r(2)] par [OF tree_wf_parent [OF wf n' r(2)] n' r(2)] by simp
  qed
  have inq: "p \<in> kids t q" using p(1) q(1) root by (auto simp: kids_def)
  show "numChildren m = word_of_nat (card (kids ?t r))"
    if r: "?t r = Some m" "\<not> n_is_ephemeral m" "user_path r" for r m
  proof (cases "r = q")
    case True
    obtain k where "card (kids t q) = Suc k"
      using inq tree_wfD(1) [OF wf] by (cases "card (kids t q)") auto
    then have "word_of_nat (card (kids t q - {p})) = (word_of_nat (card (kids t q)) - 1 :: int32)"
      using inq tree_wfD(1) [OF wf] by (simp add: card_Diff_singleton)
    then show ?thesis
      using True r neq tree_wfD(6) [OF wf q(2) pe] kids [of q] apply_update_children(3) [OF pe]
      by auto
  next
    case False
    then show ?thesis using r tree_wfD(6) [OF wf, of r m] kids [of r] by (auto split: if_splits)
  qed
  show "ephemeralOwner m \<noteq> 0 \<and> user_path r" if r: "?t r = Some m" "n_is_ephemeral m" for r m
    using r pe tree_wfD(7,8) [OF wf] by (auto split: if_splits)
qed


section \<open>Names of children\<close>

text \<open>All paths can be formed from the names; then the nodes of a parent have different names.\<close>

definition proper :: "tree \<Rightarrow> bool" where
  "proper t \<longleftrightarrow> (\<forall>p \<in> dom t. p \<noteq> [slash] \<longrightarrow> joined p)"

lemma proper_inj: "proper t \<Longrightarrow> inj_on getBaseNodeName (kids t q)"
proof (rule inj_onI)
  fix p p' assume wf: "proper t" and p: "p \<in> kids t q" "p' \<in> kids t q" "getBaseNodeName p = getBaseNodeName p'"
  have "path_join q (getBaseNodeName r) = r" if "r \<in> kids t q" for r
    using wf that by (auto simp: proper_def kids_def joined_def)
  from this [OF p(1)] this [OF p(2)] p(3) show "p = p'" by metis
qed

lemma proper_tstep: "proper t \<Longrightarrow> enabled d t \<Longrightarrow> proper (tstep d t)"
  by (cases "d_operation d") (auto simp: proper_def tstep_def enabled_def split: if_splits)

lemma proper_replay: "proper t \<Longrightarrow> enabled_all ds t \<Longrightarrow> proper (replay ds t)"
  by (induction ds arbitrary: t) (auto simp: proper_tstep)

text \<open>Only a path that starts with two slashes cannot be formed.\<close>

lemma joined_created:
  assumes wf: "tree_wf t" and q: "parentNodePath p = Some q" "t q = Some pn"
    and p: "getBaseNodeName p \<noteq> []" "\<nexists>r. p = slash # slash # r"
  shows "joined p"
proof -
  have "slash \<in> set p" using q(1) parentNodePath_None [of p] by (cases "slash \<in> set p") auto
  then obtain a b where ab: "p = a @ slash # b" "slash \<notin> set b" by (rule path_decompose)
  then have b: "getBaseNodeName p = b" "b \<noteq> []" and qa: "q = (if a = [] then [slash] else a)"
    using p(1) q(1) by (auto simp: getBaseNodeName_split parentNodePath_split)
  then have hd: "hd b \<noteq> slash" using ab(2) by (cases b) auto
  have "path_join q b = p"
  proof (cases "a = [] \<or> q = [slash]")
    case True
    then show ?thesis using ab p(2) qa b hd by (auto simp: path_join_def split: if_splits)
  next
    case False
    then have "getBaseNodeName q \<noteq> []" "q = a" using tree_wfD(4) [OF wf q(2)] qa by auto
    moreover have "last q \<noteq> slash"
    proof
      assume l: "last q = slash"
      have "q = butlast q @ slash # []" using l False qa by (metis append_butlast_last_id)
      then have "getBaseNodeName q = []" using getBaseNodeName_split [of "[]" "butlast q"] by simp
      with \<open>getBaseNodeName q \<noteq> []\<close> show False by simp
    qed
    ultimately show ?thesis using ab b hd False by (simp add: path_join_def)
  qed
  then show ?thesis using q(1) b(1) by (auto simp: joined_def)
qed

end
