(* ===== verification/KeeperOverlay.thy ===== *)
theory KeeperOverlay
  imports KeeperTree
begin

text \<open>
  The uncommitted state as an overlay: its lists and maps are projections of one list of pending
  deltas, and its cached nodes are what replaying the pending deltas on the committed tree gives.
  Adding a delta, dropping the committed ones and rolling back a transaction keep this, and none of
  them runs into the undefined behaviour of the code (missing entries, empty lists, null nodes).
\<close>

section \<open>Views\<close>

definition pending :: "KeeperStorage \<Rightarrow> Delta list" where
  "pending s = map snd (us_deltas (uncommitted_state s))"

definition ctree :: "KeeperStorage \<Rightarrow> tree" where
  "ctree s = (\<lambda>p. map_option core (ht_find (container s) p))"

definition vtree :: "KeeperStorage \<Rightarrow> tree" where
  "vtree s = (\<lambda>p. map_option core (us_getNode p s))"

lemma ctree_us [simp]: "ctree (s\<lparr>uncommitted_state := us\<rparr>) = ctree s"
  by (simp add: ctree_def)

lemma tryGetNode_other [simp]:
  "tryGetNodeFromStorage p (s\<lparr>uncommitted_state := us\<rparr>) = tryGetNodeFromStorage p s"
  "tryGetNodeFromStorage p (s\<lparr>ephemerals := e\<rparr>) = tryGetNodeFromStorage p s"
  "tryGetNodeFromStorage p (s\<lparr>uncommitted_transactions := ts\<rparr>) = tryGetNodeFromStorage p s"
  by (simp_all add: tryGetNodeFromStorage_def)

lemma getNode_other [simp]:
  "us_getNode p (s\<lparr>ephemerals := e\<rparr>) = us_getNode p s"
  "us_getNode p (s\<lparr>uncommitted_transactions := ts\<rparr>) = us_getNode p s"
  by (simp_all add: us_getNode_def split: option.split)

lemma views_other [simp]:
  "ctree (s\<lparr>ephemerals := e\<rparr>) = ctree s" "vtree (s\<lparr>ephemerals := e\<rparr>) = vtree s"
  "pending (s\<lparr>ephemerals := e\<rparr>) = pending s"
  "ctree (s\<lparr>uncommitted_transactions := ts\<rparr>) = ctree s" "vtree (s\<lparr>uncommitted_transactions := ts\<rparr>) = vtree s"
  "pending (s\<lparr>uncommitted_transactions := ts\<rparr>) = pending s"
  by (simp_all add: ctree_def vtree_def pending_def)

lemma tryGetNode_core: "map_option core (tryGetNodeFromStorage p s) = ctree s p"
  by (simp add: tryGetNodeFromStorage_def ctree_def option.map_comp o_def)

section \<open>Structure\<close>

type_synonym delta_entry = "nat \<times> Delta"

definition opt_list :: "'a list \<Rightarrow> 'a list option" where
  "opt_list xs = (if xs = [] then None else Some xs)"

definition path_pairs :: "string \<Rightarrow> delta_entry list \<Rightarrow> delta_entry list" where
  "path_pairs p xs = filter (\<lambda>x. d_path (snd x) = p) xs"

definition auth_pair :: "int64 \<Rightarrow> delta_entry \<Rightarrow> (nat \<times> AuthID) list" where
  "auth_pair sid x =
     (if d_path (snd x) = []
      then (case d_operation (snd x) of AddAuthDelta i a \<Rightarrow> if i = sid then [(fst x, a)] else [] | _ \<Rightarrow> [])
      else [])"

definition auth_pairs :: "int64 \<Rightarrow> delta_entry list \<Rightarrow> (nat \<times> AuthID) list" where
  "auth_pairs sid xs = concat (map (auth_pair sid) xs)"

fun tree_op :: "Operation \<Rightarrow> bool" where
  "tree_op (CreateNodeDelta _ _ _) = True"
| "tree_op (RemoveNodeDelta _ _) = True"
| "tree_op (UpdateNodeDelta _ _) = True"
| "tree_op (SetACLDelta _ _) = True"
| "tree_op _ = False"

lemma enabled_tree_op: "enabled d t \<Longrightarrow> tree_op (d_operation d) \<longleftrightarrow> d_path d \<noteq> []"
  by (auto simp: enabled_def split: Operation.splits)

definition zx :: "delta_entry \<Rightarrow> int" where
  "zx x = sint (d_zxid (snd x))"

text \<open>The maps of the state are the projections of the list \<open>xs\<close>.\<close>

definition maps_ok :: "delta_entry list \<Rightarrow> UncommittedState \<Rightarrow> bool" where
  "maps_ok xs us \<longleftrightarrow>
     (\<forall>p. us_deltas_for_path us p = (if p = [] then None else opt_list (path_pairs p xs))) \<and>
     (\<forall>sid. us_session_and_auth us sid = opt_list (auth_pairs sid xs))"

definition entries_ok :: "delta_entry list \<Rightarrow> bool" where
  "entries_ok xs \<longleftrightarrow>
     distinct (map fst xs) \<and> sorted (map zx xs) \<and>
     (\<forall>x \<in> set xs. d_path (snd x) \<noteq> [] \<longrightarrow> tree_op (d_operation (snd x)))"

text \<open>A node is cached exactly for the paths with pending deltas, under the zxid of the last one.\<close>

definition entry_ok :: "string \<Rightarrow> delta_entry list \<Rightarrow> UncommittedNode option \<Rightarrow> bool" where
  "entry_ok p ps uo =
     (case uo of
        None \<Rightarrow> ps = []
      | Some u \<Rightarrow> ps \<noteq> [] \<and> u_zxid u = d_zxid (snd (last ps)) \<and>
                  (\<forall>n. u_node u = Some n \<longrightarrow> digest_coherent p n))"

definition nodes_ok :: "delta_entry list \<Rightarrow> UncommittedState \<Rightarrow> bool" where
  "nodes_ok xs us \<longleftrightarrow>
     us_nodes us [] = None \<and> (\<forall>p. p \<noteq> [] \<longrightarrow> entry_ok p (path_pairs p xs) (us_nodes us p))"

lemma entry_ok_simps [simp]:
  "entry_ok p ps None \<longleftrightarrow> ps = []"
  "entry_ok p ps (Some u) \<longleftrightarrow> ps \<noteq> [] \<and> u_zxid u = d_zxid (snd (last ps)) \<and>
     (\<forall>n. u_node u = Some n \<longrightarrow> digest_coherent p n)"
  by (simp_all add: entry_ok_def)

lemma nodes_okD:
  assumes "nodes_ok xs us"
  shows "p \<noteq> [] \<Longrightarrow> us_nodes us p = None \<Longrightarrow> path_pairs p xs = []"
    and "us_nodes us p = Some u \<Longrightarrow> p \<noteq> []"
    and "us_nodes us p = Some u \<Longrightarrow> path_pairs p xs \<noteq> []"
    and "us_nodes us p = Some u \<Longrightarrow> u_zxid u = d_zxid (snd (last (path_pairs p xs)))"
    and "us_nodes us p = Some u \<Longrightarrow> u_node u = Some n \<Longrightarrow> digest_coherent p n"
  using assms unfolding nodes_ok_def by (metis entry_ok_simps option.simps(3))+

definition us_struct :: "UncommittedState \<Rightarrow> bool" where
  "us_struct us \<longleftrightarrow>
     maps_ok (us_deltas us) us \<and> entries_ok (us_deltas us) \<and> nodes_ok (us_deltas us) us \<and>
     (\<forall>x \<in> set (us_deltas us). fst x < us_next us)"

text \<open>The cached nodes show the tree \<open>t\<close>.\<close>

definition shows_tree :: "UncommittedState \<Rightarrow> tree \<Rightarrow> bool" where
  "shows_tree us t \<longleftrightarrow> (\<forall>p u. us_nodes us p = Some u \<longrightarrow> map_option core (u_node u) = t p)"

definition coherent :: "KeeperStorage \<Rightarrow> bool" where
  "coherent s \<longleftrightarrow> (\<forall>p n. ht_find (container s) p = Some n \<longrightarrow> digest_coherent p n)"

definition us_inv :: "KeeperStorage \<Rightarrow> bool" where
  "us_inv s \<longleftrightarrow>
     us_struct (uncommitted_state s) \<and> coherent s \<and>
     shows_tree (uncommitted_state s) (replay (pending s) (ctree s)) \<and>
     enabled_all (pending s) (ctree s)"

lemma path_pairs_simps [simp]:
  "path_pairs p [] = []"
  "path_pairs p (x # xs) = (if d_path (snd x) = p then x # path_pairs p xs else path_pairs p xs)"
  "path_pairs p (xs @ ys) = path_pairs p xs @ path_pairs p ys"
  by (simp_all add: path_pairs_def)

lemma path_pairs_empty: "path_pairs p xs = [] \<longleftrightarrow> (\<forall>x \<in> set xs. d_path (snd x) \<noteq> p)"
  by (auto simp: path_pairs_def filter_empty_conv)

lemma path_pairs_set: "x \<in> set (path_pairs p xs) \<longleftrightarrow> x \<in> set xs \<and> d_path (snd x) = p"
  by (auto simp: path_pairs_def)

lemma path_pairs_snd: "map snd (path_pairs p xs) = filter (\<lambda>d. d_path d = p) (map snd xs)"
  by (induction xs) auto

lemma auth_pairs_simps [simp]:
  "auth_pairs sid [] = []"
  "auth_pairs sid (x # xs) = auth_pair sid x @ auth_pairs sid xs"
  "auth_pairs sid (xs @ ys) = auth_pairs sid xs @ auth_pairs sid ys"
  by (simp_all add: auth_pairs_def)

lemma opt_list_simps [simp]:
  "opt_list [] = None" "opt_list (x # xs) = Some (x # xs)" "opt_list (xs @ [x]) = Some (xs @ [x])"
  "opt_list xs = None \<longleftrightarrow> xs = []" "opt_list xs = Some ys \<longleftrightarrow> xs = ys \<and> ys \<noteq> []"
  by (auto simp: opt_list_def)

lemma opt_list_nonempty [simp]: "xs \<noteq> [] \<Longrightarrow> opt_list xs = Some xs"
  by (simp add: opt_list_def)

lemma us_nodes_untouched:
  assumes "nodes_ok (us_deltas (uncommitted_state s)) (uncommitted_state s)"
    "us_nodes (uncommitted_state s) p = None" "enabled_all (pending s) t"
  shows "replay (pending s) t p = t p"
proof (cases "p = []")
  case True
  have "tstep d t [] = t []" if "enabled d t" for d t
    using that by (cases "d_operation d") (auto simp: enabled_def tstep_def)
  then have "enabled_all ds t \<Longrightarrow> replay ds t [] = t []" for ds t
    by (induction ds arbitrary: t) auto
  then show ?thesis using assms(3) True by simp
next
  case False
  with assms have "\<forall>d \<in> set (pending s). d_path d \<noteq> p"
    using nodes_okD(1) [OF assms(1)] by (auto simp: path_pairs_empty pending_def)
  then show ?thesis by (rule replay_untouched)
qed

text \<open>What preprocessing reads is the replay of the pending deltas on the committed tree.\<close>

lemma vtree_replay:
  assumes "us_inv s"
  shows "vtree s = replay (pending s) (ctree s)"
proof
  fix p
  show "vtree s p = replay (pending s) (ctree s) p"
  proof (cases "us_nodes (uncommitted_state s) p")
    case None
    then show ?thesis
      using assms us_nodes_untouched [of s p "ctree s"]
      by (simp add: vtree_def us_getNode_def tryGetNode_core us_inv_def us_struct_def)
  next
    case (Some u)
    then show ?thesis using assms by (simp add: vtree_def us_getNode_def us_inv_def shows_tree_def)
  qed
qed

section \<open>Adding deltas\<close>

definition later_than :: "KeeperStorage \<Rightarrow> Delta \<Rightarrow> bool" where
  "later_than s d \<longleftrightarrow> (\<forall>e \<in> set (pending s). sint (d_zxid e) \<le> sint (d_zxid d))"

lemma digest_coherent_nocache: "n_cached_digest n = 0 \<Longrightarrow> digest_coherent p n"
  by (simp add: digest_coherent_def)

lemma apply_update_nocache [simp]:
  "n_cached_digest (apply_update f n) = n_cached_digest n"
  by (cases f) (simp_all add: update_defs node_defs Let_def)

lemma created_node_nocache [simp]: "n_cached_digest (created_node st d) = 0"
  by (simp add: created_node_def setData_def copyStats_def KeeperMemNode_new_def setCtime_def
      setNumChildren_def setEphemeralOwner_def Let_def)

text \<open>The operation of a delta on a cached node is the step on the tree.\<close>

lemma apply_operation_ok:
  assumes "enabled d t" "map_option core (u_node u) = t (d_path d)" "d_path d \<noteq> []"
    "\<forall>n. u_node u = Some n \<longrightarrow> digest_coherent (d_path d) n"
  shows "\<exists>u'. apply_operation d u = Inr u' \<and> map_option core (u_node u') = tstep d t (d_path d) \<and>
     u_zxid u' = d_zxid d \<and> (\<forall>n. u_node u' = Some n \<longrightarrow> digest_coherent (d_path d) n)"
proof (cases "d_operation d")
  case (CreateNodeDelta st acls data)
  then show ?thesis
    by (auto simp: apply_operation_def tstep_def created_node_def [symmetric] digest_coherent_nocache)
next
  case (UpdateNodeDelta f v)
  then obtain n where "u_node u = Some n" "t (d_path d) = Some (core n)"
    using assms(1,2) by (auto simp: enabled_def)
  then show ?thesis
    using UpdateNodeDelta
    by (auto simp: apply_operation_def tstep_def core_apply_update digest_coherent_nocache
        invalidateDigestCache_def)
qed (use assms in \<open>auto simp: apply_operation_def tstep_def enabled_def\<close>)

lemma nodes_ok_fields [simp]:
  "nodes_ok xs (us\<lparr>us_session_and_auth := a\<rparr>) = nodes_ok xs us"
  "nodes_ok xs (us\<lparr>us_closed_sessions := c\<rparr>) = nodes_ok xs us"
  "nodes_ok xs (us\<lparr>us_deltas_for_path := m\<rparr>) = nodes_ok xs us"
  "nodes_ok xs (us\<lparr>us_deltas := ds\<rparr>) = nodes_ok xs us"
  "nodes_ok xs (us\<lparr>us_next := k\<rparr>) = nodes_ok xs us"
  by (simp_all add: nodes_ok_def)

lemma shows_tree_fields [simp]:
  "shows_tree (us\<lparr>us_session_and_auth := a\<rparr>) t = shows_tree us t"
  "shows_tree (us\<lparr>us_closed_sessions := c\<rparr>) t = shows_tree us t"
  "shows_tree (us\<lparr>us_deltas_for_path := m\<rparr>) t = shows_tree us t"
  "shows_tree (us\<lparr>us_deltas := ds\<rparr>) t = shows_tree us t"
  "shows_tree (us\<lparr>us_next := k\<rparr>) t = shows_tree us t"
  by (simp_all add: shows_tree_def)

lemma maps_ok_fields [simp]:
  "maps_ok xs (us\<lparr>us_closed_sessions := c\<rparr>) = maps_ok xs us"
  "maps_ok xs (us\<lparr>us_nodes := m\<rparr>) = maps_ok xs us"
  "maps_ok xs (us\<lparr>us_deltas := ds\<rparr>) = maps_ok xs us"
  "maps_ok xs (us\<lparr>us_next := k\<rparr>) = maps_ok xs us"
  by (simp_all add: maps_ok_def)

lemma entries_ok_snoc:
  "entries_ok (xs @ [x]) \<longleftrightarrow> entries_ok xs \<and> fst x \<notin> fst ` set xs \<and> (\<forall>y \<in> set xs. zx y \<le> zx x) \<and>
     (d_path (snd x) \<noteq> [] \<longrightarrow> tree_op (d_operation (snd x)))"
  by (auto simp: entries_ok_def sorted_append)

lemma nodes_ok_plain: "d_path (snd x) = [] \<Longrightarrow> nodes_ok (xs @ [x]) us \<longleftrightarrow> nodes_ok xs us"
  by (auto simp: nodes_ok_def)

text \<open>The state after appending an entry without a path.\<close>

lemma us_inv_append_plain:
  assumes inv: "us_inv s" and d: "d_path d = []" "enabled d (vtree s)" "later_than s d"
    and us': "us_deltas us' = us_deltas (uncommitted_state s) @ [(us_next (uncommitted_state s), d)]"
      "us_next us' = Suc (us_next (uncommitted_state s))" "us_nodes us' = us_nodes (uncommitted_state s)"
      "us_deltas_for_path us' = us_deltas_for_path (uncommitted_state s)"
      "\<forall>sid. us_session_and_auth us' sid =
         opt_list (auth_pairs sid (us_deltas (uncommitted_state s) @ [(us_next (uncommitted_state s), d)]))"
  shows "us_inv (s\<lparr>uncommitted_state := us'\<rparr>) \<and> pending (s\<lparr>uncommitted_state := us'\<rparr>) = pending s @ [d]"
proof -
  let ?us = "uncommitted_state s"
  have st: "tstep d = id"
    using d(1,2) by (auto simp: enabled_def tstep_def fun_eq_iff split: Operation.splits)
  have p: "pending (s\<lparr>uncommitted_state := us'\<rparr>) = pending s @ [d]" using us' by (simp add: pending_def)
  have s: "us_struct ?us" "coherent s" "shows_tree ?us (replay (pending s) (ctree s))"
    "enabled_all (pending s) (ctree s)"
    using inv by (simp_all add: us_inv_def)
  have fresh: "us_next ?us \<notin> fst ` set (us_deltas ?us)" using s(1) by (auto simp: us_struct_def)
  have "nodes_ok (us_deltas us') us' = nodes_ok (us_deltas ?us) ?us"
    using us' d(1) by (auto simp: nodes_ok_def)
  then have "us_struct us'"
    using s(1) us' d fresh
    by (auto simp: us_struct_def maps_ok_def entries_ok_snoc later_than_def pending_def zx_def less_Suc_eq)
  moreover have "shows_tree us' (replay (pending s @ [d]) (ctree s))"
    using s(3) us'(3) st by (simp add: shows_tree_def)
  moreover have "enabled_all (pending s @ [d]) (ctree s)"
    using s(4) d(2) vtree_replay [OF inv] by simp
  ultimately show ?thesis using p s(2) by (simp add: us_inv_def coherent_def)
qed


lemma later_than_zx:
  "later_than s d \<Longrightarrow> x \<in> set (us_deltas (uncommitted_state s)) \<Longrightarrow> zx x \<le> sint (d_zxid d)"
  by (auto simp: later_than_def pending_def zx_def)

lemma cached_node_ok:
  assumes "us_inv s" "p \<noteq> []"
  shows "map_option core (u_node (cached_node p s)) = vtree s p \<and>
     (\<forall>n. u_node (cached_node p s) = Some n \<longrightarrow> digest_coherent p n)"
proof (cases "us_nodes (uncommitted_state s) p")
  case None
  then show ?thesis
    using assms
    by (auto simp: cached_node_def vtree_def us_getNode_def us_inv_def coherent_def tryGetNodeFromStorage_def)
next
  case (Some u)
  then show ?thesis
    using assms nodes_okD(5) [of "us_deltas (uncommitted_state s)" "uncommitted_state s" p u]
    by (auto simp: cached_node_def vtree_def us_getNode_def us_inv_def us_struct_def)
qed

text \<open>The state after appending an entry for a path and applying its operation to the cached node.\<close>

lemma us_inv_append_path:
  assumes inv: "us_inv s" and d: "d_path d \<noteq> []" "enabled d (vtree s)" "later_than s d"
    and u: "map_option core (u_node u) = tstep d (vtree s) (d_path d)" "u_zxid u = d_zxid d"
      "\<forall>n. u_node u = Some n \<longrightarrow> digest_coherent (d_path d) n"
    and x: "x = (us_next (uncommitted_state s), d)"
    and us': "us_deltas us' = us_deltas (uncommitted_state s) @ [x]"
      "us_next us' = Suc (us_next (uncommitted_state s))"
      "us_nodes us' = (us_nodes (uncommitted_state s))(d_path d \<mapsto> u)"
      "us_deltas_for_path us' = (us_deltas_for_path (uncommitted_state s))
         (d_path d \<mapsto> path_pairs (d_path d) (us_deltas (uncommitted_state s)) @ [x])"
      "us_session_and_auth us' = us_session_and_auth (uncommitted_state s)"
  shows "us_inv (s\<lparr>uncommitted_state := us'\<rparr>) \<and> pending (s\<lparr>uncommitted_state := us'\<rparr>) = pending s @ [d]"
proof -
  let ?us = "uncommitted_state s"
  have p: "pending (s\<lparr>uncommitted_state := us'\<rparr>) = pending s @ [d]" using us' x by (simp add: pending_def)
  have s: "us_struct ?us" "coherent s" "shows_tree ?us (replay (pending s) (ctree s))"
    "enabled_all (pending s) (ctree s)"
    using inv by (simp_all add: us_inv_def)
  have v: "vtree s = replay (pending s) (ctree s)" using inv by (rule vtree_replay)
  have fresh: "us_next ?us \<notin> fst ` set (us_deltas ?us)" using s(1) by (auto simp: us_struct_def)
  have "maps_ok (us_deltas us') us'"
    using s(1) us' x d(1) by (auto simp: us_struct_def maps_ok_def auth_pair_def)
  moreover have "entries_ok (us_deltas us')"
    using s(1) us' x d fresh enabled_tree_op [OF d(2)] later_than_zx [OF d(3)]
    by (auto simp: us_struct_def entries_ok_snoc zx_def)
  moreover have "nodes_ok (us_deltas us') us'"
    using s(1) us' x d(1) u by (auto simp: us_struct_def nodes_ok_def)
  ultimately have "us_struct us'"
    using s(1) us' x by (auto simp: us_struct_def less_Suc_eq)
  moreover have "shows_tree us' (replay (pending s @ [d]) (ctree s))"
    using s(3) us'(3) u(1) v by (auto simp: shows_tree_def tstep_other)
  moreover have "enabled_all (pending s @ [d]) (ctree s)"
    using s(4) d(2) v by simp
  ultimately show ?thesis using p s(2) by (simp add: us_inv_def coherent_def)
qed

text \<open>Adding a delta that fits the uncommitted tree always succeeds and appends it to the pending ones.\<close>

lemma addDelta_ok:
  assumes inv: "us_inv s" and d: "enabled d (vtree s)" "later_than s d"
  shows "\<exists>us'. addDelta d s = Inr (s\<lparr>uncommitted_state := us'\<rparr>) \<and>
     us_inv (s\<lparr>uncommitted_state := us'\<rparr>) \<and> pending (s\<lparr>uncommitted_state := us'\<rparr>) = pending s @ [d]"
proof (cases "d_path d = []")
  case True
  let ?us = "uncommitted_state s"
  define us' where "us' = (let us1 = ?us\<lparr>us_deltas := us_deltas ?us @ [(us_next ?us, d)], us_next := Suc (us_next ?us)\<rparr>
    in case d_operation d of
         AddAuthDelta session_id auth_id \<Rightarrow>
           us1\<lparr>us_session_and_auth := (us_session_and_auth us1)
             (session_id \<mapsto> (case us_session_and_auth us1 session_id of None \<Rightarrow> [] | Some as \<Rightarrow> as)
                @ [(us_next ?us, auth_id)])\<rparr>
       | CloseSessionDelta session_id \<Rightarrow>
           us1\<lparr>us_closed_sessions := set_emplace session_id (us_closed_sessions us1)\<rparr>
       | _ \<Rightarrow> us1)"
  have "addDelta d s = Inr (s\<lparr>uncommitted_state := us'\<rparr>)"
    using True by (simp add: addDelta_def us'_def Let_def)
  moreover have "\<forall>sid. us_session_and_auth ?us sid = opt_list (auth_pairs sid (us_deltas ?us))"
    using inv by (simp add: us_inv_def us_struct_def maps_ok_def)
  then have "\<forall>sid. us_session_and_auth us' sid = opt_list (auth_pairs sid (us_deltas ?us @ [(us_next ?us, d)]))"
    using True by (auto simp: us'_def Let_def auth_pair_def opt_list_def split: Operation.splits)
  then have "us_inv (s\<lparr>uncommitted_state := us'\<rparr>) \<and> pending (s\<lparr>uncommitted_state := us'\<rparr>) = pending s @ [d]"
    using inv True d by (intro us_inv_append_plain) (auto simp: us'_def Let_def split: Operation.splits)
  ultimately show ?thesis by blast
next
  case False
  let ?us = "uncommitted_state s"
  let ?x = "(us_next ?us, d)"
  obtain u where u: "apply_operation d (cached_node (d_path d) s) = Inr u"
    "map_option core (u_node u) = tstep d (vtree s) (d_path d)" "u_zxid u = d_zxid d"
    "\<forall>n. u_node u = Some n \<longrightarrow> digest_coherent (d_path d) n"
    using apply_operation_ok [OF d(1), of "cached_node (d_path d) s"] cached_node_ok [OF inv False] False by blast
  have for_path: "us_deltas_for_path ?us (d_path d) = opt_list (path_pairs (d_path d) (us_deltas ?us))"
    using inv False by (simp add: us_inv_def us_struct_def maps_ok_def)
  define us' where "us' = ?us\<lparr>us_deltas := us_deltas ?us @ [?x], us_next := Suc (us_next ?us),
    us_deltas_for_path := (us_deltas_for_path ?us)(d_path d \<mapsto> path_pairs (d_path d) (us_deltas ?us) @ [?x]),
    us_nodes := (us_nodes ?us)(d_path d \<mapsto> u)\<rparr>"
  have "addDelta d s = Inr (s\<lparr>uncommitted_state := us'\<rparr>)"
    using False u(1) for_path
    by (auto simp: addDelta_def us'_def Let_def applyDelta_def cached_node_def opt_list_def split: option.splits)
  moreover have "us_inv (s\<lparr>uncommitted_state := us'\<rparr>) \<and> pending (s\<lparr>uncommitted_state := us'\<rparr>) = pending s @ [d]"
    using inv False d u by (intro us_inv_append_path [where x = ?x and u = u]) (auto simp: us'_def)
  ultimately show ?thesis by blast
qed

lemma addDeltas_ok:
  assumes "us_inv s" "enabled_all ds (vtree s)" "\<forall>d \<in> set ds. d_zxid d = z"
    "\<forall>e \<in> set (pending s). sint (d_zxid e) \<le> sint z"
  shows "\<exists>us'. addDeltas ds s = Inr (s\<lparr>uncommitted_state := us'\<rparr>) \<and>
     us_inv (s\<lparr>uncommitted_state := us'\<rparr>) \<and> pending (s\<lparr>uncommitted_state := us'\<rparr>) = pending s @ ds"
  using assms
proof (induction ds arbitrary: s)
  case Nil
  then show ?case by (intro exI [of _ "uncommitted_state s"]) simp
next
  case (Cons d ds)
  obtain us1 where 1: "addDelta d s = Inr (s\<lparr>uncommitted_state := us1\<rparr>)"
    "us_inv (s\<lparr>uncommitted_state := us1\<rparr>)" "pending (s\<lparr>uncommitted_state := us1\<rparr>) = pending s @ [d]"
    using addDelta_ok [of s d] Cons.prems by (auto simp: later_than_def)
  let ?s1 = "s\<lparr>uncommitted_state := us1\<rparr>"
  have "vtree ?s1 = tstep d (vtree s)"
    using vtree_replay [OF 1(2)] vtree_replay [OF Cons.prems(1)] 1(3) by simp
  then obtain us2 where "addDeltas ds ?s1 = Inr (?s1\<lparr>uncommitted_state := us2\<rparr>)"
    "us_inv (?s1\<lparr>uncommitted_state := us2\<rparr>)" "pending (?s1\<lparr>uncommitted_state := us2\<rparr>) = pending ?s1 @ ds"
    using Cons.IH [of ?s1] 1 Cons.prems by auto
  then show ?case using 1 by auto
qed


section \<open>Dropping committed deltas\<close>

text \<open>The deltas one call of \<^verbatim>\<open>UncommittedState::commit\<close> drops: those of the zxid, up to the end of a
  subrequest.\<close>

fun take_group :: "int64 \<Rightarrow> delta_entry list \<Rightarrow> delta_entry list" where
  "take_group z [] = []"
| "take_group z (x # xs) =
     (if d_zxid (snd x) \<noteq> z then [] else if d_operation (snd x) = SubDeltaEnd then [x] else x # take_group z xs)"

fun drop_group :: "int64 \<Rightarrow> delta_entry list \<Rightarrow> delta_entry list" where
  "drop_group z [] = []"
| "drop_group z (x # xs) =
     (if d_zxid (snd x) \<noteq> z then x # xs else if d_operation (snd x) = SubDeltaEnd then xs else drop_group z xs)"

lemma take_drop_group: "take_group z xs @ drop_group z xs = xs"
  by (induction xs) auto

lemma take_group_zxid: "x \<in> set (take_group z xs) \<Longrightarrow> d_zxid (snd x) = z"
  by (induction xs) (auto split: if_splits)

lemma set_emplace_facts [simp]:
  "set (set_emplace x xs) = insert x (set xs)" "distinct (set_emplace x xs) \<longleftrightarrow> distinct xs"
  by (auto simp: set_emplace_def)

lemma entries_ok_Cons:
  "entries_ok (x # xs) \<longleftrightarrow> entries_ok xs \<and> fst x \<notin> fst ` set xs \<and> (\<forall>y \<in> set xs. zx x \<le> zx y) \<and>
     (d_path (snd x) \<noteq> [] \<longrightarrow> tree_op (d_operation (snd x)))"
  by (auto simp: entries_ok_def)

text \<open>One iteration of the loop pops the entry from the maps.\<close>

lemma us_commit_step_ok:
  assumes maps: "maps_ok (x # xs) us" and ent: "entries_ok (x # xs)" and x: "d_zxid (snd x) = z"
  shows "\<exists>us' m'. us_commit_step z (snd x) us m = Inr (us', m') \<and> maps_ok xs us' \<and>
     us_nodes us' = us_nodes us \<and> us_next us' = us_next us \<and> us_deltas us' = us_deltas us \<and>
     (distinct m \<longrightarrow> distinct m') \<and> set m \<subseteq> set m' \<and>
     (\<forall>p \<in> set m' - set m. p \<noteq> [] \<and> p = d_path (snd x) \<and> (\<forall>y \<in> set (path_pairs p xs). d_zxid (snd y) \<noteq> z)) \<and>
     (d_path (snd x) \<noteq> [] \<longrightarrow> path_pairs (d_path (snd x)) xs = [] \<longrightarrow> d_path (snd x) \<in> set m')"
proof (cases "d_path (snd x) = []")
  case False
  let ?p = "d_path (snd x)"
  have f: "us_deltas_for_path us ?p = Some (x # path_pairs ?p xs)"
    using maps False by (simp add: maps_ok_def)
  have late: "\<forall>y \<in> set (path_pairs ?p xs). d_zxid (snd y) \<noteq> z"
    if y: "path_pairs ?p xs = y # ys" "z <s d_zxid (snd y)" for y ys
  proof
    fix w assume w: "w \<in> set (path_pairs ?p xs)"
    have "sorted (map zx (path_pairs ?p xs))"
      using ent by (simp add: entries_ok_Cons entries_ok_def path_pairs_def sorted_filter)
    with w y(1) have "zx y \<le> zx w" by auto
    with y(2) have "sint z < zx w" by (simp add: zx_def word_sless_alt)
    then show "d_zxid (snd w) \<noteq> z" by (auto simp: zx_def)
  qed
  show ?thesis
  proof (cases "path_pairs ?p xs")
    case Nil
    then show ?thesis
      using maps False f by (auto simp: us_commit_step_def maps_ok_def auth_pair_def)
  next
    case (Cons y ys)
    have "maps_ok xs (us\<lparr>us_deltas_for_path := (us_deltas_for_path us)(?p \<mapsto> y # ys)\<rparr>)"
      using maps False Cons by (auto simp: maps_ok_def auth_pair_def)
    then show ?thesis
      using False f Cons late [OF Cons] by (auto simp: us_commit_step_def) force
  qed
next
  case True
  then have "maps_ok xs us" if "\<And>sid. auth_pair sid x = []" using maps that by (auto simp: maps_ok_def)
  then show ?thesis
    using maps True
    by (cases "d_operation (snd x)")
      (auto simp: us_commit_step_def maps_ok_def auth_pair_def split: if_splits)
qed

lemma us_commit_loop_ok:
  assumes "maps_ok xs us" "entries_ok xs" "distinct m"
  shows "\<exists>us' m'. us_commit_loop z xs us m = Inr (us', m') \<and> maps_ok (drop_group z xs) us' \<and>
     us_nodes us' = us_nodes us \<and> us_next us' = us_next us \<and> us_deltas us' = drop_group z xs \<and>
     distinct m' \<and> set m \<subseteq> set m' \<and>
     (\<forall>p \<in> set m' - set m. p \<noteq> [] \<and> path_pairs p (take_group z xs) \<noteq> [] \<and>
        (\<forall>y \<in> set (path_pairs p (drop_group z xs)). d_zxid (snd y) \<noteq> z)) \<and>
     (\<forall>p. p \<noteq> [] \<longrightarrow> path_pairs p (take_group z xs) \<noteq> [] \<longrightarrow> path_pairs p (drop_group z xs) = [] \<longrightarrow> p \<in> set m')"
  using assms
proof (induction xs arbitrary: us m)
  case (Cons x xs)
  have xs: "entries_ok xs" using Cons.prems(2) by (simp add: entries_ok_Cons)
  obtain i d where x: "x = (i, d)" by (cases x)
  consider (other) "d_zxid d \<noteq> z" | (fin) "d_zxid d = z" "d_operation d = SubDeltaEnd"
    | (pop) "d_zxid d = z" "d_operation d \<noteq> SubDeltaEnd"
    by blast
  then show ?case
  proof cases
    case other
    then show ?thesis using Cons.prems x by auto
  next
    case fin
    then have "d_path d = []" using Cons.prems(2) x by (auto simp: entries_ok_def)
    then have "maps_ok xs us" using Cons.prems(1) x fin by (auto simp: maps_ok_def auth_pair_def)
    then show ?thesis using Cons.prems x fin \<open>d_path d = []\<close> by auto
  next
    case pop
    obtain us1 m1 where 1: "us_commit_step z d us m = Inr (us1, m1)" "maps_ok xs us1"
      "us_nodes us1 = us_nodes us" "us_next us1 = us_next us" "distinct m1" "set m \<subseteq> set m1"
      "\<forall>p \<in> set m1 - set m. p \<noteq> [] \<and> p = d_path d \<and> (\<forall>y \<in> set (path_pairs p xs). d_zxid (snd y) \<noteq> z)"
      "d_path d \<noteq> [] \<longrightarrow> path_pairs (d_path d) xs = [] \<longrightarrow> d_path d \<in> set m1"
      using us_commit_step_ok [OF Cons.prems(1,2), of z m] pop x Cons.prems(3) by auto
    obtain us2 m2 where 2: "us_commit_loop z xs us1 m1 = Inr (us2, m2)" "maps_ok (drop_group z xs) us2"
      "us_nodes us2 = us_nodes us1" "us_next us2 = us_next us1" "us_deltas us2 = drop_group z xs"
      "distinct m2" "set m1 \<subseteq> set m2"
      "\<forall>p \<in> set m2 - set m1. p \<noteq> [] \<and> path_pairs p (take_group z xs) \<noteq> [] \<and>
        (\<forall>y \<in> set (path_pairs p (drop_group z xs)). d_zxid (snd y) \<noteq> z)"
      "\<forall>p. p \<noteq> [] \<longrightarrow> path_pairs p (take_group z xs) \<noteq> [] \<longrightarrow> path_pairs p (drop_group z xs) = [] \<longrightarrow> p \<in> set m2"
      using Cons.IH [OF 1(2) xs 1(5)] by blast
    have split: "path_pairs p xs = path_pairs p (take_group z xs) @ path_pairs p (drop_group z xs)" for p
      by (metis path_pairs_simps(3) take_drop_group)
    have step: "us_commit_loop z (x # xs) us m = Inr (us2, m2)"
      using pop x 1(1) 2(1) by simp
    have grp: "take_group z (x # xs) = x # take_group z xs" "drop_group z (x # xs) = drop_group z xs"
      using pop x by simp_all
    have A: "\<forall>p \<in> set m2 - set m. p \<noteq> [] \<and> path_pairs p (take_group z (x # xs)) \<noteq> [] \<and>
        (\<forall>y \<in> set (path_pairs p (drop_group z (x # xs))). d_zxid (snd y) \<noteq> z)"
    proof
      fix p assume p: "p \<in> set m2 - set m"
      show "p \<noteq> [] \<and> path_pairs p (take_group z (x # xs)) \<noteq> [] \<and>
        (\<forall>y \<in> set (path_pairs p (drop_group z (x # xs))). d_zxid (snd y) \<noteq> z)"
      proof (cases "p \<in> set m1")
        case True
        with p 1(7) have "p \<noteq> []" "p = d_path d" "\<forall>y \<in> set (path_pairs p xs). d_zxid (snd y) \<noteq> z" by blast+
        then show ?thesis unfolding grp using x split [of p] by simp
      next
        case False
        with p 2(8) have "p \<noteq> []" "path_pairs p (take_group z xs) \<noteq> []"
          "\<forall>y \<in> set (path_pairs p (drop_group z xs)). d_zxid (snd y) \<noteq> z" by blast+
        then show ?thesis unfolding grp by simp
      qed
    qed
    have B: "\<forall>p. p \<noteq> [] \<longrightarrow> path_pairs p (take_group z (x # xs)) \<noteq> [] \<longrightarrow>
        path_pairs p (drop_group z (x # xs)) = [] \<longrightarrow> p \<in> set m2"
    proof (intro allI impI)
      fix p assume p: "p \<noteq> []" "path_pairs p (take_group z (x # xs)) \<noteq> []" "path_pairs p (drop_group z (x # xs)) = []"
      show "p \<in> set m2"
      proof (cases "path_pairs p (take_group z xs) = []")
        case True
        with p grp x split have "p = d_path d" "path_pairs p xs = []" by (auto split: if_splits)
        with 1(8) 2(7) p(1) show ?thesis by blast
      qed (use 2(9) p grp in auto)
    qed
    have sub: "set m \<subseteq> set m2" using 1(6) 2(7) by blast
    have C: "maps_ok (drop_group z (x # xs)) us2" "us_deltas us2 = drop_group z (x # xs)"
      unfolding grp(2) by (rule 2(2), rule 2(5))
    have D: "us_nodes us2 = us_nodes us" "us_next us2 = us_next us" using 1(3,4) 2(3,4) by simp_all
    show ?thesis
      by (rule exI [of _ us2], rule exI [of _ m2], intro conjI) (rule step A B sub 2(6) C D)+
  qed
qed simp

lemma us_drop_nodes:
  assumes "distinct m" "\<forall>p \<in> set m. nodes p \<noteq> None"
  shows "fold (us_drop_node z) m nodes p =
     (if p \<in> set m \<and> u_zxid (the (nodes p)) = z then None else nodes p)"
  using assms
proof (induction m arbitrary: nodes)
  case (Cons q m)
  obtain u where u: "nodes q = Some u" using Cons.prems(2) by auto
  have "us_drop_node z q nodes = (if u_zxid u = z then nodes(q := None) else nodes)"
    using u by (auto simp: us_drop_node_def)
  moreover have "\<forall>p \<in> set m. (if u_zxid u = z then nodes(q := None) else nodes) p \<noteq> None"
    using Cons.prems by auto
  ultimately show ?case
    using Cons.prems(1) Cons.IH [of "if u_zxid u = z then nodes(q := None) else nodes"] u
    by (auto split: if_splits)
qed simp

text \<open>Once the storage holds the effect of the group, dropping the group restores the overlay.\<close>

lemma us_commit_ok:
  assumes st: "us_struct (uncommitted_state s)" and coh: "coherent s"
    and rest: "rest = drop_group z (us_deltas (uncommitted_state s))"
    and t: "shows_tree (uncommitted_state s) (replay (map snd rest) (ctree s))"
      "enabled_all (map snd rest) (ctree s)"
  shows "\<exists>us'. us_commit z s = Inr (s\<lparr>uncommitted_state := us'\<rparr>) \<and> us_inv (s\<lparr>uncommitted_state := us'\<rparr>) \<and>
     us_deltas us' = rest"
proof -
  let ?us = "uncommitted_state s" and ?xs = "us_deltas (uncommitted_state s)"
  have st': "maps_ok ?xs ?us" "entries_ok ?xs" "nodes_ok ?xs ?us" "\<forall>x \<in> set ?xs. fst x < us_next ?us"
    using st by (simp_all add: us_struct_def)
  obtain us' m where l: "us_commit_loop z ?xs ?us [] = Inr (us', m)" "maps_ok rest us'"
    "us_nodes us' = us_nodes ?us" "us_next us' = us_next ?us" "us_deltas us' = rest" "distinct m"
    "\<forall>p \<in> set m. p \<noteq> [] \<and> path_pairs p (take_group z ?xs) \<noteq> [] \<and>
        (\<forall>y \<in> set (path_pairs p rest). d_zxid (snd y) \<noteq> z)"
    "\<forall>p. p \<noteq> [] \<longrightarrow> path_pairs p (take_group z ?xs) \<noteq> [] \<longrightarrow> path_pairs p rest = [] \<longrightarrow> p \<in> set m"
    using us_commit_loop_ok [OF st'(1,2), of "[]" z] rest by auto
  have split: "path_pairs p ?xs = path_pairs p (take_group z ?xs) @ path_pairs p rest" for p
    unfolding rest by (metis path_pairs_simps(3) take_drop_group)
  have sub: "set rest \<subseteq> set ?xs" unfolding rest by (metis Un_iff set_append subsetI take_drop_group)
  have ent: "entries_ok rest"
    using st'(2) take_drop_group [of z ?xs] unfolding rest
    by (metis (no_types, lifting) entries_ok_def Un_iff distinct_append map_append set_append sorted_append)
  have some: "\<forall>p \<in> set m. us_nodes ?us p \<noteq> None"
    using l(7) nodes_okD(1) [OF st'(3)] split by fastforce
  define nodes' where "nodes' = fold (us_drop_node z) m (us_nodes ?us)"
  have n': "nodes' p = (if path_pairs p rest = [] then None else us_nodes ?us p)" if "p \<noteq> []" for p
  proof (cases "us_nodes ?us p")
    case None
    then show ?thesis using us_drop_nodes [OF l(6) some, of z p] by (auto simp: nodes'_def)
  next
    case (Some u)
    note u = nodes_okD(3,4) [OF st'(3) Some]
    show ?thesis
    proof (cases "path_pairs p rest = []")
      case True
      then have grp: "path_pairs p (take_group z ?xs) \<noteq> []" using u(1) split by simp
      have "last (path_pairs p ?xs) \<in> set (path_pairs p (take_group z ?xs))" using True grp split by simp
      then have "u_zxid u = z" using u(2) take_group_zxid [of _ z ?xs] unfolding path_pairs_set by metis
      then show ?thesis
        using us_drop_nodes [OF l(6) some, of z p] l(8) True grp Some that by (auto simp: nodes'_def)
    next
      case False
      then have "last (path_pairs p ?xs) \<in> set (path_pairs p rest)" using split by simp
      then have "p \<in> set m \<Longrightarrow> u_zxid u \<noteq> z" using l(7) u(2) by auto
      then show ?thesis using us_drop_nodes [OF l(6) some, of z p] False Some by (auto simp: nodes'_def)
    qed
  qed
  have n0: "nodes' [] = None"
    using us_drop_nodes [OF l(6) some, of z "[]"] l(7) st'(3) by (auto simp: nodes'_def nodes_ok_def)
  let ?us' = "us'\<lparr>us_nodes := nodes'\<rparr>"
  have "nodes_ok rest ?us'"
    unfolding nodes_ok_def
  proof (intro conjI allI impI)
    fix p :: string assume p: "p \<noteq> []"
    show "entry_ok p (path_pairs p rest) (us_nodes ?us' p)"
    proof (cases "path_pairs p rest = []")
      case False
      with split [of p] have "last (path_pairs p rest) = last (path_pairs p ?xs)" "path_pairs p ?xs \<noteq> []"
        by simp_all
      then have "entry_ok p (path_pairs p rest) = entry_ok p (path_pairs p ?xs)"
        using False by (auto simp: entry_ok_def fun_eq_iff split: option.split)
      then show ?thesis using False n' [OF p] st'(3) p by (simp add: nodes_ok_def)
    qed (simp add: n' [OF p])
  qed (simp add: n0)
  then have "us_struct ?us'" using l ent st'(4) sub by (auto simp: us_struct_def)
  moreover have "shows_tree ?us' (replay (map snd rest) (ctree s))"
    using t(1) n0 n' by (auto simp: shows_tree_def split: if_splits) (metis option.simps(3))
  ultimately have "us_inv (s\<lparr>uncommitted_state := ?us'\<rparr>)"
    using l(5) t(2) coh by (simp add: us_inv_def pending_def coherent_def)
  moreover have "us_commit z s = Inr (s\<lparr>uncommitted_state := ?us'\<rparr>)"
    using l(1,3) by (simp add: us_commit_def nodes'_def)
  ultimately show ?thesis using l(5) by (intro exI [of _ ?us']) simp
qed


section \<open>Ephemeral nodes\<close>

definition eph_set :: "tree \<Rightarrow> int64 \<Rightarrow> string set" where
  "eph_set t sid = {p. \<exists>n. t p = Some n \<and> n_is_ephemeral n \<and> ephemeralOwner n = sid}"

text \<open>The table of ephemeral paths of the storage is that of the tree \<open>t\<close>.\<close>

definition eph_entry :: "string list option \<Rightarrow> string set \<Rightarrow> bool" where
  "eph_entry e ps = (case e of None \<Rightarrow> ps = {} | Some qs \<Rightarrow> distinct qs \<and> set qs = ps \<and> qs \<noteq> [])"

definition eph_ok :: "KeeperStorage \<Rightarrow> tree \<Rightarrow> bool" where
  "eph_ok s t \<longleftrightarrow> (\<forall>sid. eph_entry (ephemerals s sid) (eph_set t sid))"

definition owners_ok :: "tree \<Rightarrow> bool" where
  "owners_ok t \<longleftrightarrow> (\<forall>p n. t p = Some n \<longrightarrow> n_is_ephemeral n \<longrightarrow> ephemeralOwner n \<noteq> 0)"

lemma created_node_ephemeral [simp]:
  "n_is_ephemeral (created_node st data) \<longleftrightarrow> st_ephemeralOwner st \<noteq> 0"
  "ephemeralOwner (created_node st data) = st_ephemeralOwner st"
  by (auto simp: created_node_def setData_def copyStats_def KeeperMemNode_new_def setCtime_def
      setNumChildren_def setEphemeralOwner_def ephemeralOwner_def Let_def)

lemma not_ephemeral_owner: "\<not> n_is_ephemeral n \<Longrightarrow> ephemeralOwner n = 0"
  by (simp add: ephemeralOwner_def)

lemma owners_ok_tstep: "owners_ok t \<Longrightarrow> enabled d t \<Longrightarrow> owners_ok (tstep d t)"
  by (cases "d_operation d") (auto simp: owners_ok_def enabled_def tstep_def apply_update_owner split: if_splits)

lemma owners_ok_replay: "owners_ok t \<Longrightarrow> enabled_all ds t \<Longrightarrow> owners_ok (replay ds t)"
  by (induction ds arbitrary: t) (auto simp: owners_ok_tstep)

text \<open>How a delta changes the ephemeral paths.\<close>

lemma eph_set_tstep:
  assumes "enabled d t"
  shows "eph_set (tstep d t) sid =
     (case d_operation d of
        CreateNodeDelta st _ _ \<Rightarrow>
          if st_ephemeralOwner st \<noteq> 0 \<and> st_ephemeralOwner st = sid then insert (d_path d) (eph_set t sid)
          else eph_set t sid
      | RemoveNodeDelta _ owner \<Rightarrow> if owner = sid then eph_set t sid - {d_path d} else eph_set t sid
      | _ \<Rightarrow> eph_set t sid)"
proof (cases "d_operation d")
  case (UpdateNodeDelta f v)
  then obtain n where "t (d_path d) = Some n" "counts_children f \<longrightarrow> \<not> n_is_ephemeral n"
    using assms by (auto simp: enabled_def)
  then show ?thesis using UpdateNodeDelta by (auto simp: eph_set_def tstep_def apply_update_owner)
qed (use assms in \<open>auto simp: eph_set_def tstep_def enabled_def split: if_splits\<close>)

lemma eph_entry_emplace:
  "eph_entry (m k) ps \<Longrightarrow> eph_entry (map_emplace k p m k) (insert p ps)"
  by (auto simp: eph_entry_def map_emplace_def set_emplace_def split: option.splits)

lemma map_emplace_other [simp]: "k \<noteq> k' \<Longrightarrow> map_emplace k p m k' = m k'"
  by (simp add: map_emplace_def)

lemma unregister_ok:
  assumes "eph_entry (ephemerals s sid) (insert p ps)" "p \<notin> ps"
  shows "\<exists>e. unregisterEphemeralPath sid p s = Inr (s\<lparr>ephemerals := e\<rparr>) \<and> eph_entry (e sid) ps \<and>
     (\<forall>k. k \<noteq> sid \<longrightarrow> e k = ephemerals s k)"
proof (cases "ephemerals s sid")
  case (Some qs)
  then have "distinct qs" "set qs = insert p ps" using assms(1) by (auto simp: eph_entry_def)
  then have r: "set (removeAll p qs) = ps" "distinct (removeAll p qs)"
    using assms(2) by (auto simp: removeAll_filter_not_eq)
  then have "removeAll p qs = [] \<longleftrightarrow> ps = {}" using set_empty by metis
  with r Some show ?thesis
    by (intro exI [of _ "(ephemerals s)(sid := (if removeAll p qs = [] then None else Some (removeAll p qs)))"])
      (auto simp: unregisterEphemeralPath_def eph_entry_def Let_def)
qed (use assms in \<open>simp add: eph_entry_def\<close>)

text \<open>Undoing the effect of a delta on the table of ephemeral paths.\<close>

lemma rollback_ephemerals_ok:
  assumes en: "enabled d t" and own: "owners_ok t" and eph: "eph_ok s (tstep d t)"
  shows "\<exists>e. rollback_ephemerals d s = Inr (s\<lparr>ephemerals := e\<rparr>) \<and> eph_ok (s\<lparr>ephemerals := e\<rparr>) t"
proof (cases "d_operation d")
  case (CreateNodeDelta st acls data)
  have not_in: "d_path d \<notin> eph_set t sid" for sid
    using en CreateNodeDelta by (simp add: enabled_def eph_set_def)
  show ?thesis
  proof (cases "st_ephemeralOwner st = 0")
    case True
    then have "eph_ok s t" using eph en CreateNodeDelta by (simp add: eph_ok_def eph_set_tstep)
    then show ?thesis using True CreateNodeDelta
      by (intro exI [of _ "ephemerals s"]) (simp add: rollback_ephemerals_def)
  next
    case False
    let ?o = "st_ephemeralOwner st"
    have "eph_entry (ephemerals s ?o) (insert (d_path d) (eph_set t ?o))"
      using eph en CreateNodeDelta False unfolding eph_ok_def by (auto simp: eph_set_tstep dest: spec [of _ ?o])
    from unregister_ok [OF this not_in] obtain e where
      e: "unregisterEphemeralPath ?o (d_path d) s = Inr (s\<lparr>ephemerals := e\<rparr>)"
      "eph_entry (e ?o) (eph_set t ?o)" "\<forall>k. k \<noteq> ?o \<longrightarrow> e k = ephemerals s k" by blast
    have "eph_entry (e k) (eph_set t k)" for k
    proof (cases "k = ?o")
      case False
      then have "eph_entry (ephemerals s k) (eph_set t k)"
        using eph en CreateNodeDelta by (auto simp: eph_ok_def eph_set_tstep dest: spec [of _ k])
      then show ?thesis using e(3) False by simp
    qed (use e(2) in simp)
    then show ?thesis using e(1) False CreateNodeDelta by (auto simp: rollback_ephemerals_def eph_ok_def)
  qed
next
  case (RemoveNodeDelta v owner)
  obtain n where n: "t (d_path d) = Some n" "owner = ephemeralOwner n"
    using en RemoveNodeDelta by (auto simp: enabled_def)
  show ?thesis
  proof (cases "owner = 0")
    case True
    then have "eph_set t 0 = {}" using own by (auto simp: eph_set_def owners_ok_def)
    then have "eph_set (tstep d t) sid = eph_set t sid" for sid
      using en RemoveNodeDelta True by (auto simp: eph_set_tstep)
    then have "eph_ok s t" using eph by (simp add: eph_ok_def)
    then show ?thesis using True RemoveNodeDelta
      by (intro exI [of _ "ephemerals s"]) (simp add: rollback_ephemerals_def)
  next
    case False
    then have "n_is_ephemeral n" using n(2) not_ephemeral_owner by blast
    then have "d_path d \<in> eph_set t owner" using n by (simp add: eph_set_def)
    then have ins: "insert (d_path d) (eph_set (tstep d t) owner) = eph_set t owner"
      using en RemoveNodeDelta by (auto simp: eph_set_tstep)
    let ?e = "map_emplace owner (d_path d) (ephemerals s)"
    have "eph_entry (?e k) (eph_set t k)" for k
    proof (cases "k = owner")
      case True
      then show ?thesis using eph_entry_emplace [of "ephemerals s" owner] eph ins by (metis eph_ok_def)
    next
      case False
      then show ?thesis
        using eph en RemoveNodeDelta by (auto simp: eph_ok_def eph_set_tstep dest: spec [of _ k])
    qed
    then show ?thesis using False RemoveNodeDelta by (auto simp: rollback_ephemerals_def eph_ok_def)
  qed
qed (use en eph in \<open>auto simp: rollback_ephemerals_def eph_ok_def eph_set_tstep intro!: exI [of _ "ephemerals s"]\<close>)


section \<open>Rolling back\<close>

lemma maps_ok_snoc_pop:
  assumes "maps_ok (xs @ [x]) us"
  shows "d_path (snd x) \<noteq> [] \<Longrightarrow> us_deltas_for_path us (d_path (snd x)) = Some (path_pairs (d_path (snd x)) xs @ [x])"
    and "d_path (snd x) = [] \<Longrightarrow> d_operation (snd x) = AddAuthDelta sid a \<Longrightarrow>
      us_session_and_auth us sid = Some (auth_pairs sid xs @ [(fst x, a)])"
  using assms by (simp_all add: maps_ok_def auth_pair_def)

text \<open>One iteration removes the entry from the maps.\<close>

lemma us_rollback_step_ok:
  assumes maps: "maps_ok (xs @ [x]) us"
  shows "\<exists>us'. us_rollback_step (fst x) (snd x) us = Inr us' \<and> maps_ok xs us' \<and>
     us_nodes us' = us_nodes us \<and> us_next us' = us_next us \<and> us_deltas us' = us_deltas us"
proof (cases "d_path (snd x) = []")
  case False
  let ?p = "d_path (snd x)"
  have "us_rollback_step (fst x) (snd x) us =
      Inr (us\<lparr>us_deltas_for_path := (us_deltas_for_path us)(?p := opt_list (path_pairs ?p xs))\<rparr>)"
    using maps_ok_snoc_pop(1) [OF maps False] False
    by (simp add: us_rollback_step_def pop_back_if_def opt_list_def)
  moreover have "maps_ok xs (us\<lparr>us_deltas_for_path := (us_deltas_for_path us)(?p := opt_list (path_pairs ?p xs))\<rparr>)"
    using maps False by (auto simp: maps_ok_def auth_pair_def)
  ultimately show ?thesis by simp
next
  case True
  then have plain: "maps_ok xs us" if "\<And>sid. auth_pair sid x = []"
    using maps that by (auto simp: maps_ok_def)
  show ?thesis
  proof (cases "d_operation (snd x)")
    case (AddAuthDelta sid a)
    let ?us = "us\<lparr>us_session_and_auth := (us_session_and_auth us)(sid := opt_list (auth_pairs sid xs))\<rparr>"
    have "us_rollback_step (fst x) (snd x) us = Inr ?us"
      using maps_ok_snoc_pop(2) [OF maps True AddAuthDelta] True AddAuthDelta
      by (simp add: us_rollback_step_def pop_back_if_def opt_list_def)
    moreover have "maps_ok xs ?us"
      using maps True AddAuthDelta by (auto simp: maps_ok_def auth_pair_def)
    ultimately show ?thesis by simp
  qed (use plain True in \<open>auto simp: us_rollback_step_def auth_pair_def\<close>)
qed

lemma us_rollback_loop_ok:
  assumes "maps_ok (A @ B) (uncommitted_state s)"
    "\<forall>x \<in> set B. \<not> d_zxid (snd x) <s z" "A = [] \<or> d_zxid (snd (last A)) <s z"
    "enabled_all (map snd B) t" "owners_ok t" "eph_ok s (replay (map snd B) t)"
  shows "\<exists>us' e. us_rollback_loop z (rev (A @ B)) s = Inr (s\<lparr>uncommitted_state := us', ephemerals := e\<rparr>, rev A) \<and>
     maps_ok A us' \<and> us_nodes us' = us_nodes (uncommitted_state s) \<and>
     us_next us' = us_next (uncommitted_state s) \<and> eph_ok (s\<lparr>ephemerals := e\<rparr>) t"
  using assms
proof (induction B arbitrary: s rule: rev_induct)
  case Nil
  let ?e = "ephemerals s" and ?us = "uncommitted_state s"
  have "us_rollback_loop z (rev A) s = Inr (s, rev A)"
    using Nil.prems(3) by (cases A rule: rev_cases) auto
  then show ?case using Nil.prems by (intro exI [of _ ?us] exI [of _ ?e]) simp
next
  case (snoc x B)
  obtain i d where x: "x = (i, d)" by (cases x)
  let ?t = "replay (map snd B) t"
  have en: "enabled d ?t" "enabled_all (map snd B) t" using snoc.prems(4) x by simp_all
  have own: "owners_ok ?t" using snoc.prems(5) en(2) by (rule owners_ok_replay)
  obtain e where e: "(if d_path d \<noteq> [] then rollback_ephemerals d s else Inr s) = Inr (s\<lparr>ephemerals := e\<rparr>)"
    "eph_ok (s\<lparr>ephemerals := e\<rparr>) ?t"
  proof (cases "d_path d = []")
    case True
    then have "tstep d ?t = ?t" using en(1) by (auto simp: enabled_def tstep_def split: Operation.splits)
    then show ?thesis using that [of "ephemerals s"] True snoc.prems(6) x by simp
  next
    case False
    then show ?thesis using that rollback_ephemerals_ok [OF en(1) own, of s] snoc.prems(6) x by auto
  qed
  obtain us1 where 1: "us_rollback_step i d (uncommitted_state s) = Inr us1" "maps_ok (A @ B) us1"
    "us_nodes us1 = us_nodes (uncommitted_state s)" "us_next us1 = us_next (uncommitted_state s)"
    using us_rollback_step_ok [of "A @ B" x "uncommitted_state s"] snoc.prems(1) x by auto
  let ?s1 = "s\<lparr>ephemerals := e, uncommitted_state := us1\<rparr>"
  have "us_rollback_loop z (rev (A @ B @ [x])) s = us_rollback_loop z (rev (A @ B)) ?s1"
    using snoc.prems(2) x e(1) 1(1) by simp
  moreover have "eph_ok ?s1 ?t" using e(2) by (simp add: eph_ok_def)
  then obtain us2 e2 where
    "us_rollback_loop z (rev (A @ B)) ?s1 = Inr (?s1\<lparr>uncommitted_state := us2, ephemerals := e2\<rparr>, rev A)"
    "maps_ok A us2" "us_nodes us2 = us_nodes us1" "us_next us2 = us_next us1" "eph_ok (?s1\<lparr>ephemerals := e2\<rparr>) t"
    using snoc.IH [of ?s1] 1 snoc.prems(2,3,5) en(2) by auto
  ultimately show ?case
    using 1 by (intro exI [of _ us2] exI [of _ e2]) (simp add: eph_ok_def)
qed

text \<open>Applying the deltas of one path again gives the node the replay of all deltas has there.\<close>

lemma apply_operations_ok:
  assumes "enabled_all ds t" "p \<noteq> []" "map_option core (u_node u) = t p"
    "\<forall>n. u_node u = Some n \<longrightarrow> digest_coherent p n"
  shows "\<exists>u'. apply_operations (filter (\<lambda>d. d_path d = p) ds) u = Inr u' \<and>
     map_option core (u_node u') = replay ds t p \<and> (\<forall>n. u_node u' = Some n \<longrightarrow> digest_coherent p n) \<and>
     (filter (\<lambda>d. d_path d = p) ds \<noteq> [] \<longrightarrow> u_zxid u' = d_zxid (last (filter (\<lambda>d. d_path d = p) ds)))"
  using assms
proof (induction ds arbitrary: t u)
  case (Cons d ds)
  show ?case
  proof (cases "d_path d = p")
    case True
    obtain u1 where u1: "apply_operation d u = Inr u1" "map_option core (u_node u1) = tstep d t p"
      "u_zxid u1 = d_zxid d" "\<forall>n. u_node u1 = Some n \<longrightarrow> digest_coherent p n"
      using apply_operation_ok [of d t u] Cons.prems True by auto
    obtain u2 where u2: "apply_operations (filter (\<lambda>d. d_path d = p) ds) u1 = Inr u2"
      "map_option core (u_node u2) = replay ds (tstep d t) p" "\<forall>n. u_node u2 = Some n \<longrightarrow> digest_coherent p n"
      "filter (\<lambda>d. d_path d = p) ds \<noteq> [] \<longrightarrow> u_zxid u2 = d_zxid (last (filter (\<lambda>d. d_path d = p) ds))"
      using Cons.IH [of "tstep d t" u1] Cons.prems u1 by auto
    then show ?thesis
      using True u1 by (cases "filter (\<lambda>d. d_path d = p) ds = []") auto
  next
    case False
    then have "tstep d t p = t p" by (simp add: tstep_other)
    then show ?thesis using Cons.IH [of "tstep d t" u] Cons.prems False by simp
  qed
qed simp


text \<open>The node cached for a path after the rollback.\<close>

lemma recalculated_node_ok:
  assumes inv: "us_inv s" and AB: "us_deltas (uncommitted_state s) = A @ B" "\<forall>x \<in> set B. d_zxid (snd x) = z"
      "\<forall>x \<in> set A. d_zxid (snd x) \<noteq> z"
    and s': "ht_find (container s') = ht_find (container s)" "maps_ok A (uncommitted_state s')"
      "us_nodes (uncommitted_state s') = us_nodes (uncommitted_state s)"
    and p: "p \<noteq> []"
  shows "\<exists>uo. recalculated_node z s' p = Inr uo \<and> entry_ok p (path_pairs p A) uo \<and>
     (\<forall>u. uo = Some u \<longrightarrow> map_option core (u_node u) = replay (map snd A) (ctree s) p)"
proof (cases "us_nodes (uncommitted_state s) p")
  case None
  then have "path_pairs p A = []"
    using inv p nodes_okD(1) [of "A @ B" "uncommitted_state s" p] AB(1) by (simp add: us_inv_def us_struct_def)
  then show ?thesis using None s'(3) by (simp add: recalculated_node_def)
next
  case (Some u)
  have en: "enabled_all (map snd A) (ctree s)" using inv AB(1) by (simp add: us_inv_def pending_def)
  have nodes: "nodes_ok (A @ B) (uncommitted_state s)" using inv AB(1) by (simp add: us_inv_def us_struct_def)
  note u = nodes_okD(3-5) [OF nodes Some]
  have dfp: "us_deltas_for_path (uncommitted_state s') p = opt_list (path_pairs p A)"
    using s'(2) p by (simp add: maps_ok_def)
  show ?thesis
  proof (cases "path_pairs p B = []")
    case True
    then have "last (path_pairs p (A @ B)) \<in> set A" using u(1) by (auto simp: path_pairs_set dest: last_in_set)
    then have "u_zxid u \<noteq> z" using u(2) AB(3) by simp
    moreover have "map_option core (u_node u) = replay (map snd A) (ctree s) p"
      using inv Some AB(1) True replay_untouched [of "map snd B" p]
      by (auto simp: us_inv_def shows_tree_def pending_def path_pairs_empty)
    ultimately show ?thesis using Some s'(3) u True by (simp add: recalculated_node_def)
  next
    case False
    then have "last (path_pairs p (A @ B)) \<in> set B" by (auto simp: path_pairs_set dest: last_in_set)
    then have z: "u_zxid u = z" using u(2) AB(2) by simp
    let ?u = "\<lparr>u_node = tryGetNodeFromStorage p s', u_acls = [], u_zxid = 0\<rparr>"
    have "map_option core (u_node ?u) = ctree s p" "\<forall>n. u_node ?u = Some n \<longrightarrow> digest_coherent p n"
      using inv s'(1) tryGetNode_core [of p s'] by (auto simp: ctree_def tryGetNodeFromStorage_def us_inv_def coherent_def)
    then obtain u' where u': "apply_operations (map snd (path_pairs p A)) ?u = Inr u'"
      "map_option core (u_node u') = replay (map snd A) (ctree s) p" "\<forall>n. u_node u' = Some n \<longrightarrow> digest_coherent p n"
      "path_pairs p A \<noteq> [] \<longrightarrow> u_zxid u' = d_zxid (snd (last (path_pairs p A)))"
      using apply_operations_ok [OF en p, of ?u] unfolding path_pairs_snd [symmetric] by (auto simp: last_map)
    show ?thesis
    proof (cases "path_pairs p A = []")
      case True
      then show ?thesis using Some s'(3) z dfp by (simp add: recalculated_node_def)
    next
      case False
      then show ?thesis using Some s'(3) z dfp u' by (simp add: recalculated_node_def)
    qed
  qed
qed

text \<open>Rolling back the last transaction restores the overlay and the ephemeral paths of the
  transactions before it.\<close>

lemma us_rollback_ok:
  assumes inv: "us_inv s" and AB: "us_deltas (uncommitted_state s) = A @ B" "\<forall>x \<in> set B. d_zxid (snd x) = z"
      "\<forall>x \<in> set A. d_zxid (snd x) <s z"
    and eph: "owners_ok (ctree s)" "eph_ok s (vtree s)"
  shows "\<exists>us' e. us_rollback z s = Inr (s\<lparr>ephemerals := e, uncommitted_state := us'\<rparr>) \<and>
     us_inv (s\<lparr>ephemerals := e, uncommitted_state := us'\<rparr>) \<and> us_deltas us' = A \<and>
     eph_ok (s\<lparr>ephemerals := e, uncommitted_state := us'\<rparr>) (replay (map snd A) (ctree s))"
proof -
  let ?t = "replay (map snd A) (ctree s)"
  have en: "enabled_all (map snd A) (ctree s)" "enabled_all (map snd B) ?t"
    using inv AB(1) by (simp_all add: us_inv_def pending_def)
  have view: "vtree s = replay (map snd B) ?t" using vtree_replay [OF inv] AB(1) by (simp add: pending_def)
  have maps: "maps_ok (A @ B) (uncommitted_state s)" using inv AB(1) by (simp add: us_inv_def us_struct_def)
  have neq: "\<forall>x \<in> set A. d_zxid (snd x) \<noteq> z" using AB(3) by (auto simp: word_sless_alt)
  have notlt: "\<forall>x \<in> set B. \<not> d_zxid (snd x) <s z" using AB(2) by (simp add: word_sless_alt)
  have lastA: "A = [] \<or> d_zxid (snd (last A)) <s z" using AB(3) last_in_set by blast
  obtain us1 e where l: "us_rollback_loop z (rev (A @ B)) s = Inr (s\<lparr>uncommitted_state := us1, ephemerals := e\<rparr>, rev A)"
    "maps_ok A us1" "us_nodes us1 = us_nodes (uncommitted_state s)" "us_next us1 = us_next (uncommitted_state s)"
    "eph_ok (s\<lparr>ephemerals := e\<rparr>) ?t"
    using us_rollback_loop_ok [OF maps notlt lastA en(2) owners_ok_replay [OF eph(1) en(1)]] eph(2) view by metis
  define s2 where "s2 = s\<lparr>ephemerals := e, uncommitted_state := us1\<lparr>us_deltas := A\<rparr>\<rparr>"
  define nodes where "nodes = (\<lambda>p. case recalculated_node z s2 p of Inl _ \<Rightarrow> None | Inr u \<Rightarrow> u)"
  have n: "\<exists>uo. recalculated_node z s2 p = Inr uo \<and> entry_ok p (path_pairs p A) uo \<and>
     (\<forall>u. uo = Some u \<longrightarrow> map_option core (u_node u) = ?t p)" if "p \<noteq> []" for p
    using recalculated_node_ok [OF inv AB(1,2) neq _ _ _ that, of s2] l by (simp add: s2_def)
  have n0: "recalculated_node z s2 [] = Inr None"
    using inv l(3) by (simp add: recalculated_node_def s2_def us_inv_def us_struct_def nodes_ok_def)
  have total: "\<exists>uo. recalculated_node z s2 p = Inr uo" for p using n [of p] n0 by (cases "p = []") auto
  let ?us' = "us1\<lparr>us_deltas := A, us_nodes := nodes\<rparr>"
  have "nodes_ok A ?us'" using n n0 by (auto simp: nodes_ok_def nodes_def) (metis sum.case(2))
  moreover have "entries_ok A" using inv AB(1) by (auto simp: us_inv_def us_struct_def entries_ok_def sorted_append)
  ultimately have "us_struct ?us'" using l inv AB(1) by (auto simp: us_struct_def us_inv_def)
  moreover have "shows_tree ?us' ?t"
    unfolding shows_tree_def
  proof (intro allI impI)
    fix p u assume u: "us_nodes ?us' p = Some u"
    then have "p \<noteq> []" using n0 by (auto simp: nodes_def)
    from n [OF this] u show "map_option core (u_node u) = ?t p" by (auto simp: nodes_def)
  qed
  ultimately have "us_inv (s\<lparr>ephemerals := e, uncommitted_state := ?us'\<rparr>)"
    using inv en(1) by (simp add: us_inv_def pending_def coherent_def)
  moreover have "us_rollback z s = Inr (s\<lparr>ephemerals := e, uncommitted_state := ?us'\<rparr>)"
  proof -
    have "\<not> z <s d_zxid (snd (last (A @ B)))" if "A @ B \<noteq> []"
    proof (cases "B = []")
      case True
      then show ?thesis using that AB(3) by (auto simp: word_sless_alt dest!: last_in_set [of A])
    next
      case False
      then have "d_zxid (snd (last (A @ B))) = z" using AB(2) by simp
      then show ?thesis by (simp add: word_sless_alt)
    qed
    moreover have "\<not> list_ex (\<lambda>(i, d). case recalculated_node z s2 (d_path d) of Inl _ \<Rightarrow> True | Inr _ \<Rightarrow> False) A"
      using total by (auto simp: list_ex_iff split: sum.splits)
    ultimately show ?thesis
      using l(1) AB(1) unfolding us_rollback_def Let_def nodes_def
      by (auto simp: s2_def)
  qed
  moreover have "eph_ok (s\<lparr>ephemerals := e, uncommitted_state := ?us'\<rparr>) ?t"
    using l(5) by (simp add: eph_ok_def)
  ultimately show ?thesis by (intro exI [of _ ?us'] exI [of _ e]) simp
qed

end
