(* ===== verification/KeeperCommit.thy ===== *)
theory KeeperCommit
  imports KeeperOverlay
begin

text \<open>
  Committing refines the abstract steps: on a container in good order, \<^verbatim>\<open>KeeperStorage::commit\<close> of a
  delta that fits the committed tree never reaches \<^verbatim>\<open>onStorageInconsistency\<close> and changes tree, access
  control lists and digest as specified.
\<close>

section \<open>Access control lists of the stored nodes\<close>

type_synonym contents = "string \<rightharpoonup> KeeperMemNode"

definition users :: "contents \<Rightarrow> uint64 \<Rightarrow> string set" where
  "users F i = {p. \<exists>n. F p = Some n \<and> n_acl_id n = i}"

text \<open>Every number stored in a node resolves and the counters are the numbers of nodes that use it.
  The number 0 of the empty list always resolves; nodes made at start-up do not count for it.\<close>

definition acls_ok :: "ACLMap \<Rightarrow> contents \<Rightarrow> bool" where
  "acls_ok m F \<longleftrightarrow>
     acl_inv m \<and> max_acl_id m \<noteq> 0 \<and> finite (dom F) \<and>
     (\<forall>p n. F p = Some n \<longrightarrow> acl_lookup m (n_acl_id n) \<noteq> None) \<and>
     (\<forall>i. i \<noteq> 0 \<longrightarrow> usage m i = word_of_nat (card (users F i))) \<and>
     unat (usage m 0) \<le> card (users F 0)"

definition acl_tree :: "ACLMap \<Rightarrow> contents \<Rightarrow> string \<rightharpoonup> ACLs" where
  "acl_tree m F p = (case F p of None \<Rightarrow> None | Some n \<Rightarrow> acl_lookup m (n_acl_id n))"

text \<open>Capacity of the counters.\<close>

definition acls_fit :: "contents \<Rightarrow> bool" where
  "acls_fit F \<longleftrightarrow> card (dom F) < 2 ^ 32"

lemma users_sub: "users F i \<subseteq> dom F"
  by (auto simp: users_def)

lemma finite_users [simp]: "finite (dom F) \<Longrightarrow> finite (users F i)"
  using finite_subset [OF users_sub] by blast

lemma users_fit:
  assumes "finite (dom F)" "acls_fit F"
  shows "card (users F i) < 2 ^ 32"
  using card_mono [OF assms(1) users_sub [of F i]] assms(2) by (simp add: acls_fit_def)

lemma usage_fit:
  assumes "acls_ok m F" "acls_fit F"
  shows "usage m i \<noteq> - 1"
proof -
  have fin: "finite (dom F)" using assms(1) by (simp add: acls_ok_def)
  have "unat (usage m i) \<le> card (users F i)"
    using assms(1) by (cases "i = 0") (auto simp: acls_ok_def unsigned_of_nat take_bit_nat_eq_self_iff
        intro: order_trans [OF take_bit_nat_less_eq_self])
  with users_fit [OF fin assms(2), of i] have "unat (usage m i) < 2 ^ 32" by simp
  then show ?thesis by (auto simp: unsigned_minus_1_eq_mask mask_eq_exp_minus_1)
qed

lemma users_same: "F p = Some n \<Longrightarrow> n_acl_id n' = n_acl_id n \<Longrightarrow> users (F(p \<mapsto> n')) = users F"
  by (auto simp: users_def fun_eq_iff)

lemma acls_ok_same:
  assumes "acls_ok m F" "F p = Some n" "n_acl_id n' = n_acl_id n"
  shows "acls_ok m (F(p \<mapsto> n'))" "acl_tree m (F(p \<mapsto> n')) = acl_tree m F"
  using assms(1) users_same [of F p n n', OF assms(2,3)] assms(2,3) by (auto simp: acls_ok_def acl_tree_def fun_eq_iff)

lemma acls_take:
  assumes ok: "acls_ok m F" and fit: "acls_fit F" "acl_room m" and F: "F p = None"
    and c: "convertACLs acls m = (i, m')" and n: "n_acl_id n = i"
  shows "acls_ok (addUsage i m') (F(p \<mapsto> n))"
    and "acl_tree (addUsage i m') (F(p \<mapsto> n)) = (acl_tree m F)(p \<mapsto> acls)"
proof -
  have ok': "acl_inv m \<and> max_acl_id m \<noteq> 0" and fin: "finite (dom F)" using ok by (simp_all add: acls_ok_def)
  have t: "acl.take_ref acls m = (i, addUsage i m')" using c by (simp add: acl.take_ref_def)
  note t = acl.take_ref [OF ok' fit(2) usage_fit [OF ok fit(1)] t]
  have u: "users (F(p \<mapsto> n)) k = (if k = i then insert p (users F k) else users F k)" for k
    using F n by (auto simp: users_def)
  have notin: "p \<notin> users F k" for k using F by (simp add: users_def)
  have res: "acl_lookup m k \<noteq> None \<Longrightarrow> acl_lookup (addUsage i m') k = acl_lookup m k" for k using t(4) by fastforce
  have "unat (usage (addUsage i m') 0) \<le> card (users (F(p \<mapsto> n)) 0)"
    using ok usage_fit [OF ok fit(1), of 0] t(3) [of 0] notin fin
    by (auto simp: acls_ok_def u unat_plus_one)
  moreover have "usage (addUsage i m') k = word_of_nat (card (users (F(p \<mapsto> n)) k))" if "k \<noteq> 0" for k
    using ok that t(3) [of k] notin fin by (auto simp: acls_ok_def u)
  ultimately show "acls_ok (addUsage i m') (F(p \<mapsto> n))"
    using ok t(1,2) res n by (auto simp: acls_ok_def)
  show "acl_tree (addUsage i m') (F(p \<mapsto> n)) = (acl_tree m F)(p \<mapsto> acls)"
  proof
    fix q
    show "acl_tree (addUsage i m') (F(p \<mapsto> n)) q = ((acl_tree m F)(p \<mapsto> acls)) q"
      using ok t(2) n res by (cases "q = p"; cases "F q") (auto simp: acl_tree_def acls_ok_def)
  qed
qed

lemma acls_release:
  assumes ok: "acls_ok m F" and fit: "acls_fit F" and F: "F p = Some n"
  shows "acls_ok (removeUsage (n_acl_id n) m) (F(p := None))"
    and "acl_tree (removeUsage (n_acl_id n) m) (F(p := None)) = (acl_tree m F)(p := None)"
proof -
  let ?i = "n_acl_id n" and ?m = "removeUsage (n_acl_id n) m" and ?F = "F(p := None)"
  have inv: "acl_inv m" and fin: "finite (dom F)" using ok by (simp_all add: acls_ok_def)
  note r = removeUsage_inv [OF inv]
  have u: "users ?F k = users F k - {p}" for k by (auto simp: users_def)
  have inu: "p \<in> users F k \<longleftrightarrow> k = ?i" for k using F by (auto simp: users_def)
  have card: "card (users ?F k) = card (users F k) - (if k = ?i then 1 else 0)" for k
    using fin inu by (simp add: u card_Diff_singleton_if)
  have pos: "card (users F ?i) \<noteq> 0" using fin inu by auto
  have "usage ?m k = word_of_nat (card (users ?F k))" if k: "k \<noteq> 0" for k
  proof (cases "k = ?i")
    case True
    have "usage m k = word_of_nat (card (users F k))" using ok k by (simp add: acls_ok_def)
    moreover have "word_of_nat (card (users F k)) \<noteq> (0 :: uint64)"
      using users_fit [OF fin fit, of k] pos True by (simp add: word_of_nat_eq_0_iff nat_dvd_not_less)
    ultimately show ?thesis using True pos card by (simp add: r(3) of_nat_diff)
  next
    case False
    then show ?thesis using ok k card by (simp add: r(3) acls_ok_def)
  qed
  moreover have "unat (usage ?m 0) \<le> card (users ?F 0)"
  proof (cases "?i = 0 \<and> usage m 0 \<noteq> 0")
    case True
    then have "unat (usage m 0 - 1) = unat (usage m 0) - 1" by (simp add: unat_minus_one)
    then show ?thesis using ok True card by (auto simp: r(3) acls_ok_def intro: diff_le_mono)
  next
    case False
    then show ?thesis using ok card by (auto simp: r(3) acls_ok_def)
  qed
  moreover have look: "acl_lookup ?m (n_acl_id n') = acl_lookup m (n_acl_id n')" if "?F q = Some n'" for q n'
  proof (cases "n_acl_id n' = ?i \<and> ?i \<noteq> 0 \<and> usage m ?i = 1")
    case True
    have "card (users F ?i) = 1"
    proof -
      have "usage m ?i = word_of_nat (card (users F ?i))" using ok True unfolding acls_ok_def by blast
      with True have "unat (word_of_nat (card (users F ?i)) :: uint64) = 1" by simp
      then show ?thesis using users_fit [OF fin fit, of ?i] by (simp add: unsigned_of_nat take_bit_nat_eq_self)
    qed
    moreover have "q \<in> users F ?i" "p \<in> users F ?i" "q \<noteq> p"
      using that True inu by (auto simp: users_def split: if_splits)
    ultimately have False by (metis card_1_singletonE singletonD)
    then show ?thesis ..
  next
    case False
    then show ?thesis by (auto simp: r(4))
  qed
  ultimately show "acls_ok ?m ?F"
    using ok r(1,2) by (simp add: acls_ok_def)
  show "acl_tree ?m ?F = (acl_tree m F)(p := None)"
  proof
    fix q show "acl_tree ?m ?F q = ((acl_tree m F)(p := None)) q"
      using look [of q] by (cases "q = p"; cases "F q") (simp_all add: acl_tree_def)
  qed
qed


section \<open>The committed state\<close>

definition contents_of :: "KeeperStorage \<Rightarrow> contents" where
  "contents_of s = ht_find (container s)"

lemma ctree_contents: "ctree s p = map_option core (contents_of s p)"
  by (simp add: ctree_def contents_of_def)

text \<open>The digest of the storage is the digest of its tree and the caches hold nothing else; without
  digests the caches stay empty.\<close>

definition digests_ok :: "KeeperContext \<Rightarrow> KeeperStorage \<Rightarrow> bool" where
  "digests_ok ctx s \<longleftrightarrow>
     (if digestEnabled ctx then nodes_digest s = tree_digest (ctree s)
      else (\<forall>p n. contents_of s p = Some n \<longrightarrow> n_cached_digest n = 0))"

definition cinv :: "KeeperContext \<Rightarrow> KeeperStorage \<Rightarrow> bool" where
  "cinv ctx s \<longleftrightarrow>
     ht_inv (container s) \<and> coherent s \<and> digests_ok ctx s \<and> acls_ok (acl_map s) (contents_of s)"

definition capacity :: "KeeperStorage \<Rightarrow> bool" where
  "capacity s \<longleftrightarrow> card (dom (ctree s)) < 2 ^ 32 \<and> acl_room (acl_map s)"

lemma dom_ctree: "dom (ctree s) = dom (contents_of s)"
  by (auto simp: ctree_contents)

lemma capacityD: "capacity s \<Longrightarrow> acls_fit (contents_of s) \<and> acl_room (acl_map s)"
  by (simp add: capacity_def acls_fit_def dom_ctree)

text \<open>Updating the value of a key of the container.\<close>

lemma update_value_ok:
  assumes "ht_inv (container s)" "contents_of s p = Some n"
  shows "\<exists>c n'. storage_update_value ctx p f s = Inr (s\<lparr>container := c\<rparr>) \<and> ht_inv c \<and>
     (n' = n \<or> n' = node_copy n) \<and> ht_find c = (contents_of s)(p \<mapsto> f n')"
proof -
  obtain c n' where c: "ht_updateValue (vo ctx) p f (container s) = Some c" "n' = n \<or> n' = node_copy n"
    "ht_find c = (ht_find (container s))(p \<mapsto> f n')"
    using ht.find_upd [of "container s" p n "vo ctx" f] assms by (auto simp: contents_of_def)
  then show ?thesis
    using ht.invar_upd [OF assms(1) c(1)] by (auto simp: storage_update_value_def contents_of_def)
qed

lemma node_copy_facts [simp]:
  "n_acl_id (node_copy n) = n_acl_id n" "n_cached_digest (node_copy n) = 0"
  by (simp_all add: node_copy_def node_assign_def KeeperMemNode_new_def)

lemma node_copy_children [simp]: "n_children (node_copy n) = n_children n"
  by (simp add: node_copy_def node_assign_def)

lemma node_fields_children [simp]:
  "n_children (apply_update f n) = n_children n" "n_children (memoDigest p n) = n_children n"
  "n_children (invalidateDigestCache n) = n_children n"
  "n_children (addChild c n) = (if c \<in> set (n_children n) then n_children n else n_children n @ [c])"
  "n_children (removeChild c n) = removeAll c (n_children n)"
  by (cases f; simp add: update_defs node_defs Let_def addChild_def removeChild_def memoDigest_def
      invalidateDigestCache_def)+

lemma node_fields_acl [simp]:
  "n_acl_id (apply_update f n) = n_acl_id n" "n_acl_id (addChild c n) = n_acl_id n"
  "n_acl_id (removeChild c n) = n_acl_id n" "n_acl_id (memoDigest p n) = n_acl_id n"
  "n_acl_id (invalidateDigestCache n) = n_acl_id n"
  "n_cached_digest (addChild c n) = n_cached_digest n" "n_cached_digest (removeChild c n) = n_cached_digest n"
  by (cases f; simp add: update_defs node_defs Let_def addChild_def removeChild_def memoDigest_def
      invalidateDigestCache_def)+

text \<open>Replacing a node by one with the same core, access control number and a coherent cache.\<close>

lemma ctree_same:
  assumes "contents_of s p = Some n" "contents_of s' = (contents_of s)(p \<mapsto> n')" "core n' = core n"
  shows "ctree s' = ctree s"
proof
  fix q show "ctree s' q = ctree s q" using assms by (cases "q = p") (simp_all add: ctree_contents)
qed

lemma cinv_same:
  assumes inv: "cinv ctx s" and n: "contents_of s p = Some n"
    and s': "contents_of s' = (contents_of s)(p \<mapsto> n')" "core n' = core n" "n_acl_id n' = n_acl_id n"
      "digest_coherent p n'" "\<not> digestEnabled ctx \<longrightarrow> n_cached_digest n' = 0"
    and fields: "ht_inv (container s')" "nodes_digest s' = nodes_digest s" "acl_map s' = acl_map s"
  shows "cinv ctx s' \<and> acl_tree (acl_map s') (contents_of s') = acl_tree (acl_map s) (contents_of s)"
proof -
  have "ctree s' = ctree s" using ctree_same [OF n s'(1,2)] .
  then have "digests_ok ctx s'" using inv s' fields(2) by (auto simp: cinv_def digests_ok_def)
  moreover have "coherent s'"
    using inv s' by (auto simp: cinv_def coherent_def contents_of_def split: if_splits)
  moreover have "acls_ok (acl_map s') (contents_of s')"
    "acl_tree (acl_map s') (contents_of s') = acl_tree (acl_map s) (contents_of s)"
    using acls_ok_same [of "acl_map s" "contents_of s" p n n'] inv n s' fields(3) by (simp_all add: cinv_def)
  ultimately show ?thesis using fields(1) by (simp add: cinv_def)
qed


section \<open>Committing a delta\<close>

text \<open>The effect of a delta on the access control lists.\<close>

definition astep :: "Delta \<Rightarrow> (string \<rightharpoonup> ACLs) \<Rightarrow> (string \<rightharpoonup> ACLs)" where
  "astep d a =
     (case d_operation d of
        CreateNodeDelta _ acls _ \<Rightarrow> a(d_path d \<mapsto> acls)
      | RemoveNodeDelta _ _ \<Rightarrow> a(d_path d := None)
      | SetACLDelta acls _ \<Rightarrow> a(d_path d \<mapsto> acls)
      | _ \<Rightarrow> a)"

definition atree :: "KeeperStorage \<Rightarrow> string \<rightharpoonup> ACLs" where
  "atree s = acl_tree (acl_map s) (contents_of s)"

definition frame :: "KeeperStorage \<Rightarrow> KeeperStorage \<Rightarrow> bool" where
  "frame s s' \<longleftrightarrow>
     uncommitted_state s' = uncommitted_state s \<and> ephemerals s' = ephemerals s \<and>
     sessions_and_watchers s' = sessions_and_watchers s \<and> session_expiry_queue s' = session_expiry_queue s \<and>
     session_and_timeout s' = session_and_timeout s \<and> session_id_counter s' = session_id_counter s \<and>
     ks_zxid s' = ks_zxid s \<and> old_snapshot_zxid s' = old_snapshot_zxid s \<and>
     uncommitted_transactions s' = uncommitted_transactions s \<and> finalized s' = finalized s \<and>
     watches s' = watches s \<and> list_watches s' = list_watches s \<and> initialized s' = initialized s \<and>
     session_and_auth s' = session_and_auth s"

text \<open>The effect of a delta on the identities of the sessions.\<close>

definition austep :: "Delta \<Rightarrow> (int64 \<Rightarrow> AuthID list) \<Rightarrow> (int64 \<Rightarrow> AuthID list)" where
  "austep d A = (case d_operation d of AddAuthDelta sid a \<Rightarrow> A(sid := A sid @ [a]) | _ \<Rightarrow> A)"

text \<open>The names of the children each stored node holds, and the effect of a delta on them.\<close>

definition names :: "KeeperStorage \<Rightarrow> string \<rightharpoonup> string list" where
  "names s = (\<lambda>p. map_option n_children (contents_of s p))"

definition add_name :: "string \<Rightarrow> string list \<Rightarrow> string list" where
  "add_name c cs = (if c \<in> set cs then cs else cs @ [c])"

definition nstep :: "Delta \<Rightarrow> (string \<rightharpoonup> string list) \<Rightarrow> (string \<rightharpoonup> string list)" where
  "nstep d N =
     (case (d_operation d, parentNodePath (d_path d)) of
        (CreateNodeDelta _ _ _, Some q) \<Rightarrow>
          N(d_path d \<mapsto> [], q := map_option (add_name (getBaseNodeName (d_path d))) (N q))
      | (RemoveNodeDelta _ _, Some q) \<Rightarrow>
          N(d_path d := None, q := map_option (removeAll (getBaseNodeName (d_path d))) (N q))
      | _ \<Rightarrow> N)"

lemma names_contents:
  "contents_of s' = (contents_of s)(p \<mapsto> n') \<Longrightarrow> contents_of s p = Some n \<Longrightarrow> n_children n' = n_children n \<Longrightarrow>
   names s' = names s"
  by (auto simp: names_def fun_eq_iff)

text \<open>At most one number for a list is handed out.\<close>

definition acl_growth :: "KeeperStorage \<Rightarrow> KeeperStorage \<Rightarrow> bool" where
  "acl_growth s s' \<longleftrightarrow> unat (max_acl_id (acl_map s')) \<le> Suc (unat (max_acl_id (acl_map s)))"

lemma acl_growth_same [simp]: "acl_map s' = acl_map s \<Longrightarrow> acl_growth s s'"
  by (simp add: acl_growth_def)

lemma convertACLs_growth:
  "convertACLs acls m = (i, m') \<Longrightarrow> unat (max_acl_id m') \<le> Suc (unat (max_acl_id m))"
  by (auto simp: convertACLs_def Let_def unat_word_ariths intro: le_trans [OF mod_less_eq_dividend]
      split: if_splits option.splits)

lemma max_acl_id_addUsage [simp]: "max_acl_id (addUsage i m) = max_acl_id m"
  by (simp add: addUsage_def)

text \<open>The result of committing: the tree, the lists, the names and the invariant; nothing but container,
  digest and access control table (and for added credentials the session) changes.\<close>

definition committed :: "KeeperContext \<Rightarrow> Delta \<Rightarrow> KeeperStorage \<Rightarrow> KeeperStorage \<Rightarrow> bool" where
  "committed ctx d s s' \<longleftrightarrow>
     cinv ctx s' \<and> ctree s' = tstep d (ctree s) \<and> atree s' = astep d (atree s) \<and>
     names s' = nstep d (names s) \<and> acl_growth s s' \<and>
     frame (s\<lparr>session_and_auth := austep d (session_and_auth s)\<rparr>) s'"

lemmas step_defs = tstep_def astep_def nstep_def austep_def

lemma cinv_facts:
  assumes "cinv ctx s"
  shows "ht_inv (container s)" "finite (dom (ctree s))" "finite (dom (contents_of s))"
    "contents_of s p = Some n \<Longrightarrow> digest_coherent p n"
    "contents_of s p = Some n \<Longrightarrow> \<not> digestEnabled ctx \<Longrightarrow> n_cached_digest n = 0"
    "digestEnabled ctx \<Longrightarrow> nodes_digest s = tree_digest (ctree s)"
    "acls_ok (acl_map s) (contents_of s)"
  using assms by (auto simp: cinv_def acls_ok_def dom_ctree digests_ok_def coherent_def contents_of_def)

lemma getDigest_fresh [simp]: "getDigest p (invalidateDigestCache n) = calculateDigest p n"
  by (simp add: getDigest_coherent)

lemma ctree_upd:
  "contents_of s' = (contents_of s)(p \<mapsto> n) \<Longrightarrow> ctree s' = (ctree s)(p \<mapsto> core n)"
  "contents_of s' = (contents_of s)(p := None) \<Longrightarrow> ctree s' = (ctree s)(p := None)"
  by (auto simp: ctree_contents)

lemma copyStats_keeps [simp]:
  "n_acl_id (copyStats st n) = n_acl_id n" "n_children (copyStats st n) = n_children n"
  by (simp_all add: copyStats_def setCtime_def setNumChildren_def setEphemeralOwner_def Let_def)

text \<open>Taking the digest of a stored node out of the sum memoizes it; putting it in computes it anew.\<close>

lemma removeDigest_ok:
  assumes inv: "cinv ctx s" and n: "contents_of s p = Some n"
  shows "\<exists>c. removeDigest ctx p s = s\<lparr>container := c,
       nodes_digest := (if digestEnabled ctx then nodes_digest s - calculateDigest p n else nodes_digest s)\<rparr> \<and>
     ht_inv c \<and> ht_find c = (contents_of s)(p \<mapsto> (if digestEnabled ctx then memoDigest p n else n))"
proof (cases "digestEnabled ctx")
  case True
  note ht = cinv_facts(1) [OF inv]
  have "getDigest p n = calculateDigest p n" using cinv_facts(4) [OF inv n] by (rule getDigest_coherent)
  moreover have "ht_find (ht_poke p (memoDigest p) (container s)) = (contents_of s)(p \<mapsto> memoDigest p n)"
    using ht_find_poke [OF ht] n by (simp add: contents_of_def)
  ultimately show ?thesis
    using True n ht_inv_poke [OF ht, of p "memoDigest p"]
    by (intro exI [of _ "ht_poke p (memoDigest p) (container s)"]) (simp add: removeDigest_def contents_of_def)
next
  case False
  have "(contents_of s)(p \<mapsto> n) = contents_of s" using n by (auto simp: fun_eq_iff)
  then show ?thesis
    using False cinv_facts(1) [OF inv]
    by (intro exI [of _ "container s"]) (simp add: removeDigest_def contents_of_def)
qed

lemma addDigest_ok:
  assumes "ht_inv (container s)" "contents_of s p = Some n" "\<not> digestEnabled ctx \<Longrightarrow> n_cached_digest n = 0"
  shows "\<exists>c n'. addDigest ctx p s = s\<lparr>container := c,
       nodes_digest := (if digestEnabled ctx then nodes_digest s + calculateDigest p n else nodes_digest s)\<rparr> \<and>
     ht_inv c \<and> ht_find c = (contents_of s)(p \<mapsto> n') \<and> core n' = core n \<and> n_acl_id n' = n_acl_id n \<and>
     n_children n' = n_children n \<and>
     digest_coherent p n' \<and> (\<not> digestEnabled ctx \<longrightarrow> n_cached_digest n' = 0)"
proof (cases "digestEnabled ctx")
  case True
  let ?up = "\<lambda>n. memoDigest p (invalidateDigestCache n)"
  have "ht_find (ht_poke p ?up (container s)) = (contents_of s)(p \<mapsto> ?up n)"
    using ht_find_poke [OF assms(1), of p ?up] assms(2) by (simp add: contents_of_def)
  moreover have "n_children (?up n) = n_children n" by (simp add: memoDigest_def invalidateDigestCache_def)
  ultimately show ?thesis
    using True assms(2) ht_inv_poke [OF assms(1), of p ?up]
    by (intro exI [of _ "ht_poke p ?up (container s)"] exI [of _ "?up n"])
      (simp add: addDigest_def contents_of_def)
next
  case False
  have "(contents_of s)(p \<mapsto> n) = contents_of s" using assms(2) by (auto simp: fun_eq_iff)
  then show ?thesis
    using False assms by (intro exI [of _ "container s"] exI [of _ n])
      (simp add: addDigest_def contents_of_def digest_coherent_nocache)
qed


text \<open>\<^verbatim>\<open>removeDigest\<close>, then an update of the node, then \<^verbatim>\<open>addDigest\<close>.\<close>

lemma update_node_contents:
  assumes inv: "cinv ctx s" and n: "contents_of s p = Some n"
    and F: "\<And>m. core (F m) = G (core m)" "\<And>m. n_acl_id (F m) = n_acl_id m"
      "\<And>m. n_cached_digest (F m) = n_cached_digest m" "\<And>m. n_children (F m) = H (n_children m)"
  shows "\<exists>s' c n'. storage_update_value ctx p F (removeDigest ctx p s) = Inr s' \<and>
     addDigest ctx p s' = s\<lparr>container := c, nodes_digest := (if digestEnabled ctx
       then nodes_digest s - calculateDigest p n + calculateDigest p (G (core n)) else nodes_digest s)\<rparr> \<and>
     ht_inv c \<and> ht_find c = (contents_of s)(p \<mapsto> n') \<and> core n' = G (core n) \<and> n_acl_id n' = n_acl_id n \<and>
     n_children n' = H (n_children n) \<and> digest_coherent p n' \<and> (\<not> digestEnabled ctx \<longrightarrow> n_cached_digest n' = 0)"
proof -
  let ?s1 = "removeDigest ctx p s" and ?n1 = "if digestEnabled ctx then memoDigest p n else n"
  obtain c1 where s1: "?s1 = s\<lparr>container := c1,
       nodes_digest := (if digestEnabled ctx then nodes_digest s - calculateDigest p n else nodes_digest s)\<rparr>"
    "ht_inv c1" "ht_find c1 = (contents_of s)(p \<mapsto> ?n1)" using removeDigest_ok [OF inv n] by blast
  have "ht_inv (container ?s1)" "contents_of ?s1 p = Some ?n1" using s1 by (simp_all add: contents_of_def)
  from update_value_ok [OF this, of ctx F] obtain c2 n2 where
    u: "storage_update_value ctx p F ?s1 = Inr (?s1\<lparr>container := c2\<rparr>)" "ht_inv c2"
      "n2 = ?n1 \<or> n2 = node_copy ?n1" "ht_find c2 = (contents_of ?s1)(p \<mapsto> F n2)" by blast
  let ?s2 = "?s1\<lparr>container := c2\<rparr>"
  have s2: "ht_inv (container ?s2)" "contents_of ?s2 p = Some (F n2)" using u(2,4) by (simp_all add: contents_of_def)
  have F2: "core (F n2) = G (core n)" "n_acl_id (F n2) = n_acl_id n" "n_children (F n2) = H (n_children n)"
    using u(3) F by (auto split: if_splits)
  have "\<not> digestEnabled ctx \<Longrightarrow> n_cached_digest (F n2) = 0"
    using u(3) F(3) cinv_facts(5) [OF inv n] by auto
  from addDigest_ok [OF s2 this] obtain c n' where
    d: "addDigest ctx p ?s2 = ?s2\<lparr>container := c,
       nodes_digest := (if digestEnabled ctx then nodes_digest ?s2 + calculateDigest p (F n2) else nodes_digest ?s2)\<rparr>"
     "ht_inv c" "ht_find c = (contents_of ?s2)(p \<mapsto> n')" "core n' = core (F n2)" "n_acl_id n' = n_acl_id (F n2)"
     "n_children n' = n_children (F n2)" "digest_coherent p n'" "\<not> digestEnabled ctx \<longrightarrow> n_cached_digest n' = 0" by blast
  have "calculateDigest p (F n2) = calculateDigest p (G (core n))"
    using calculateDigest_core [of p "F n2"] F2(1) by simp
  then have "addDigest ctx p ?s2 = s\<lparr>container := c, nodes_digest := (if digestEnabled ctx
       then nodes_digest s - calculateDigest p n + calculateDigest p (G (core n)) else nodes_digest s)\<rparr>"
    using d(1) s1(1) by simp
  moreover have "ht_find c = (contents_of s)(p \<mapsto> n')" using d(3) u(4) s1(1,3) by (simp add: contents_of_def)
  ultimately show ?thesis using u(1) d(2,4-8) F2 by auto
qed

lemma update_node_gen:
  assumes inv: "cinv ctx s" and n: "contents_of s p = Some n" and user: "user_path p"
    and F: "\<And>m. core (F m) = G (core m)" "\<And>m. n_acl_id (F m) = n_acl_id m"
      "\<And>m. n_cached_digest (F m) = n_cached_digest m" "\<And>m. n_children (F m) = H (n_children m)"
  shows "\<exists>s'. storage_update_value ctx p F (removeDigest ctx p s) = Inr s' \<and>
     frame s (addDigest ctx p s') \<and> cinv ctx (addDigest ctx p s') \<and>
     ctree (addDigest ctx p s') = (ctree s)(p \<mapsto> G (core n)) \<and> atree (addDigest ctx p s') = atree s \<and>
     names (addDigest ctx p s') = (names s)(p \<mapsto> H (n_children n)) \<and> acl_map (addDigest ctx p s') = acl_map s"
proof -
  note facts = cinv_facts [OF inv]
  obtain s' c n' where u: "storage_update_value ctx p F (removeDigest ctx p s) = Inr s'"
    and s3: "addDigest ctx p s' = s\<lparr>container := c, nodes_digest := (if digestEnabled ctx
       then nodes_digest s - calculateDigest p n + calculateDigest p (G (core n)) else nodes_digest s)\<rparr>"
     "ht_inv c" "ht_find c = (contents_of s)(p \<mapsto> n')" "core n' = G (core n)" "n_acl_id n' = n_acl_id n"
     "n_children n' = H (n_children n)" "digest_coherent p n'" "\<not> digestEnabled ctx \<longrightarrow> n_cached_digest n' = 0"
    using update_node_contents [OF inv n, of F G H] F by blast
  let ?s3 = "addDigest ctx p s'"
  have cont: "contents_of ?s3 = (contents_of s)(p \<mapsto> n')" using s3(1,3) by (simp add: contents_of_def)
  have tree: "ctree ?s3 = (ctree s)(p \<mapsto> G (core n))" using ctree_upd(1) [OF cont] s3(4) by simp
  have cn: "ctree s p = Some (core n)" using n by (simp add: ctree_contents)
  have "tree_digest ((ctree s)(p \<mapsto> G (core n))) =
      tree_digest (ctree s) - calculateDigest p n + calculateDigest p (G (core n))"
    using tree_digest_update [OF facts(2) cn] user by simp
  then have "digests_ok ctx ?s3" using tree s3(1,8) cont facts(5,6) by (auto simp: digests_ok_def split: if_splits)
  moreover have "coherent ?s3"
    using cont s3(7) facts(4) by (auto simp: coherent_def contents_of_def [symmetric] split: if_splits)
  moreover have "acls_ok (acl_map s) (contents_of ?s3)" "acl_tree (acl_map s) (contents_of ?s3) = atree s"
    using acls_ok_same [of "acl_map s" "contents_of s" p n n'] facts(7) n s3(5) cont by (simp_all add: atree_def)
  ultimately have "cinv ctx ?s3 \<and> atree ?s3 = atree s" using s3(1,2) by (simp add: cinv_def atree_def)
  moreover have "frame s ?s3" "acl_map ?s3 = acl_map s" using s3(1) by (simp_all add: frame_def)
  moreover have "names ?s3 = (names s)(p \<mapsto> H (n_children n))" using cont s3(6) by (auto simp: names_def fun_eq_iff)
  ultimately show ?thesis using u tree by blast
qed

lemma update_node_ok:
  assumes inv: "cinv ctx s" and n: "contents_of s p = Some n" and user: "user_path p"
  shows "\<exists>s'. storage_update_value ctx p (apply_update f) (removeDigest ctx p s) = Inr s' \<and>
     frame s (addDigest ctx p s') \<and> cinv ctx (addDigest ctx p s') \<and>
     ctree (addDigest ctx p s') = (ctree s)(p \<mapsto> apply_update f (core n)) \<and> atree (addDigest ctx p s') = atree s \<and>
     names (addDigest ctx p s') = names s \<and> acl_growth s (addDigest ctx p s')"
proof -
  have "(names s)(p \<mapsto> n_children n) = names s" using n by (auto simp: names_def fun_eq_iff)
  then show ?thesis
    using update_node_gen [OF inv n user, of "apply_update f" "apply_update f" id]
    by (auto simp: core_apply_update)
qed

text \<open>The contents after creating: the new node, and the parent with one more name.\<close>

lemma createNode_contents:
  assumes inv: "cinv ctx s" and q: "parentNodePath p = Some q" "contents_of s q = Some pn" "\<not> n_is_ephemeral pn"
    and p: "contents_of s p = None" and c: "convertACLs acls (acl_map s) = (i, m)"
  shows "\<exists>cc n pn'. createNode ctx p data stat acls s = Inr (True, s\<lparr>container := cc, acl_map := addUsage i m,
       nodes_digest := (if digestEnabled ctx then nodes_digest s + calculateDigest p (created_node stat data)
                        else nodes_digest s)\<rparr>) \<and>
     ht_inv cc \<and> ht_find cc = (contents_of s)(p \<mapsto> n, q \<mapsto> addChild (getBaseNodeName p) pn') \<and>
     core n = created_node stat data \<and> n_acl_id n = i \<and> n_children n = [] \<and> digest_coherent p n \<and>
     (\<not> digestEnabled ctx \<longrightarrow> n_cached_digest n = 0) \<and> (pn' = pn \<or> pn' = node_copy pn)"
proof -
  have neq: "q \<noteq> p" using q(2) p by auto
  note ht = cinv_facts(1) [OF inv]
  let ?new = "setData data (copyStats stat (KeeperMemNode_new\<lparr>n_acl_id := i\<rparr>))"
  let ?s1 = "s\<lparr>acl_map := addUsage i m\<rparr>"
  let ?s2 = "storage_insert ctx p ?new ?s1"
  have s2: "?s2 = ?s1\<lparr>container := container ?s2\<rparr>" by (simp add: storage_insert_def)
  have c2: "ht_inv (container ?s2)" "contents_of ?s2 = (contents_of s)(p \<mapsto> node_copy ?new)"
    using ht.invar_ins [OF ht, where vo = "vo ctx" and k = p and v = ?new] ht.find_ins [OF ht, where vo = "vo ctx" and k = p and v = ?new] p
    by (simp_all add: storage_insert_def contents_of_def)
  have "contents_of ?s2 q = Some pn" using c2(2) q(2) neq by simp
  from update_value_ok [OF c2(1) this] obtain c3 pn' where
    u: "storage_update_value ctx q (addChild (getBaseNodeName p)) ?s2 = Inr (?s2\<lparr>container := c3\<rparr>)" "ht_inv c3"
      "pn' = pn \<or> pn' = node_copy pn" "ht_find c3 = (contents_of ?s2)(q \<mapsto> addChild (getBaseNodeName p) pn')" by blast
  let ?s3 = "?s2\<lparr>container := c3\<rparr>"
  have s3: "ht_inv (container ?s3)" "contents_of ?s3 p = Some (node_copy ?new)"
    using u c2(2) neq by (simp_all add: contents_of_def)
  obtain c4 n where d: "addDigest ctx p ?s3 = ?s3\<lparr>container := c4,
       nodes_digest := (if digestEnabled ctx then nodes_digest ?s3 + calculateDigest p (node_copy ?new)
                        else nodes_digest ?s3)\<rparr>"
     "ht_inv c4" "ht_find c4 = (contents_of ?s3)(p \<mapsto> n)" "core n = core (node_copy ?new)"
     "n_acl_id n = n_acl_id (node_copy ?new)" "n_children n = n_children (node_copy ?new)"
     "digest_coherent p n" "\<not> digestEnabled ctx \<longrightarrow> n_cached_digest n = 0"
    using addDigest_ok [OF s3, of ctx] node_copy_facts(2) by blast
  have new: "core n = created_node stat data" "n_acl_id n = i" "n_children n = []"
    using d(4,5) d(6) [unfolded KeeperMemNode_new_def] by simp_all
  have dig: "calculateDigest p (node_copy ?new) = calculateDigest p (created_node stat data)"
    using calculateDigest_core [of p "node_copy ?new"] d(4) new(1) by simp
  have "createNode ctx p data stat acls s = Inr (True, addDigest ctx p ?s3)"
    using q p c u(1) ht_contains_find [OF ht] by (simp add: createNode_def contents_of_def)
  moreover have "addDigest ctx p ?s3 = s\<lparr>container := c4, acl_map := addUsage i m,
       nodes_digest := (if digestEnabled ctx then nodes_digest s + calculateDigest p (created_node stat data)
                        else nodes_digest s)\<rparr>"
    using d(1) dig by (simp add: storage_insert_def)
  moreover have "ht_find c4 = (contents_of s)(p \<mapsto> n, q \<mapsto> addChild (getBaseNodeName p) pn')"
    using d(3) u(4) c2(2) neq by (auto simp: contents_of_def fun_eq_iff)
  ultimately show ?thesis using d(2,7,8) new u(3) by auto
qed

lemma createNode_ok:
  assumes inv: "cinv ctx s" and cap: "capacity s"
    and q: "parentNodePath p = Some q" "contents_of s q = Some pn" "\<not> n_is_ephemeral pn"
    and p: "contents_of s p = None" "user_path p"
  shows "\<exists>s'. createNode ctx p data stat acls s = Inr (True, s') \<and> cinv ctx s' \<and>
     ctree s' = (ctree s)(p \<mapsto> created_node stat data) \<and> atree s' = (atree s)(p \<mapsto> acls) \<and>
     names s' = (names s)(p \<mapsto> [], q := map_option (add_name (getBaseNodeName p)) (names s q)) \<and>
     acl_growth s s' \<and> frame s s'"
proof -
  note facts = cinv_facts [OF inv]
  obtain i m where c: "convertACLs acls (acl_map s) = (i, m)" by fastforce
  obtain cc n pn' where r: "createNode ctx p data stat acls s = Inr (True, s\<lparr>container := cc, acl_map := addUsage i m,
       nodes_digest := (if digestEnabled ctx then nodes_digest s + calculateDigest p (created_node stat data)
                        else nodes_digest s)\<rparr>)"
     "ht_inv cc" "ht_find cc = (contents_of s)(p \<mapsto> n, q \<mapsto> addChild (getBaseNodeName p) pn')"
     "core n = created_node stat data" "n_acl_id n = i" "digest_coherent p n"
     "\<not> digestEnabled ctx \<longrightarrow> n_cached_digest n = 0" "pn' = pn \<or> pn' = node_copy pn" "n_children n = []"
    using createNode_contents [OF inv q p(1) c] by blast
  define s' where "s' = s\<lparr>container := cc, acl_map := addUsage i m,
       nodes_digest := (if digestEnabled ctx then nodes_digest s + calculateDigest p (created_node stat data)
                        else nodes_digest s)\<rparr>"
  let ?F1 = "(contents_of s)(p \<mapsto> n)" and ?q' = "addChild (getBaseNodeName p) pn'"
  have neq: "q \<noteq> p" using q(2) p by auto
  have cont: "contents_of s' = ?F1(q \<mapsto> ?q')" using r(3) by (simp add: s'_def contents_of_def)
  have q': "core ?q' = core pn" "n_acl_id ?q' = n_acl_id pn" "digest_coherent q ?q'"
    "\<not> digestEnabled ctx \<longrightarrow> n_cached_digest ?q' = 0"
    using r(8) facts(4,5) [OF q(2)] by auto
  have tree: "ctree s' = (ctree s)(p \<mapsto> created_node stat data)"
    using cont r(4) q'(1) q(2) neq by (auto simp: ctree_contents fun_eq_iff)
  note t = acls_take [OF facts(7) _ _ p(1) c r(5)]
  have "acls_ok (addUsage i m) (contents_of s')" "acl_tree (addUsage i m) (contents_of s') = (atree s)(p \<mapsto> acls)"
    using t capacityD [OF cap] acls_ok_same [of "addUsage i m" ?F1 q pn ?q'] q(2) neq q'(2) cont
    by (simp_all add: atree_def)
  moreover have "coherent s'"
    using cont r(6) q'(3) facts(4) by (auto simp: coherent_def contents_of_def [symmetric] split: if_splits)
  moreover have "tree_digest (ctree s') = tree_digest (ctree s) + calculateDigest p (created_node stat data)"
    using tree tree_digest_insert [OF facts(2), of p] p by (simp add: ctree_contents)
  then have "digests_ok ctx s'"
    using cont r(7) q'(4) facts(5,6) by (auto simp: digests_ok_def s'_def split: if_splits)
  ultimately have "cinv ctx s'" "atree s' = (atree s)(p \<mapsto> acls)"
    using r(2) by (simp_all add: cinv_def s'_def atree_def)
  moreover have "frame s s'" "acl_growth s s'"
    using convertACLs_growth [OF c] by (simp_all add: frame_def acl_growth_def s'_def)
  moreover have "names s' = (names s)(p \<mapsto> [], q := map_option (add_name (getBaseNodeName p)) (names s q))"
    using cont r(8,9) q(2) neq by (auto simp: names_def add_name_def fun_eq_iff)
  ultimately show ?thesis using r(1) tree unfolding s'_def by blast
qed


text \<open>The contents after removing: the parent with one name less, and the node gone.\<close>

lemma removeNode_contents:
  assumes inv: "cinv ctx s" and p: "contents_of s p = Some n" "version = -1 \<or> version = n_version n" "numChildren n = 0"
    and q: "parentNodePath p = Some q" "contents_of s q = Some pn" "q \<noteq> p"
  shows "\<exists>cc pn'. removeNode ctx p version s = Inr (True, s\<lparr>container := cc,
       acl_map := removeUsage (n_acl_id n) (acl_map s),
       nodes_digest := (if digestEnabled ctx then nodes_digest s - calculateDigest p n else nodes_digest s)\<rparr>) \<and>
     ht_inv cc \<and> ht_find cc = (contents_of s)(p := None, q \<mapsto> removeChild (getBaseNodeName p) pn') \<and>
     (pn' = pn \<or> pn' = node_copy pn)"
proof -
  note facts = cinv_facts [OF inv]
  let ?s1 = "s\<lparr>acl_map := removeUsage (n_acl_id n) (acl_map s)\<rparr>"
  have s1: "ht_inv (container ?s1)" "contents_of ?s1 q = Some pn" using facts(1) q(2) by (simp_all add: contents_of_def)
  obtain c2 pn' where
    u: "storage_update_value ctx q (removeChild (getBaseNodeName p)) ?s1 = Inr (?s1\<lparr>container := c2\<rparr>)" "ht_inv c2"
      "pn' = pn \<or> pn' = node_copy pn" "ht_find c2 = (contents_of ?s1)(q \<mapsto> removeChild (getBaseNodeName p) pn')"
    using update_value_ok [OF s1] by blast
  let ?c3 = "snd (ht_erase (vo ctx) p c2)"
  have c3: "ht_inv ?c3" "ht_find ?c3 = (contents_of s)(p := None, q \<mapsto> removeChild (getBaseNodeName p) pn')"
    using ht.invar_del [OF u(2)] ht.find_del [OF u(2), where vo = "vo ctx" and k = p] u(4) q(3)
    by (auto simp: contents_of_def fun_eq_iff)
  have "getDigest p (shallowCopy n) = calculateDigest p n"
    using getDigest_coherent [of p "shallowCopy n"] facts(4) [OF p(1)] by simp
  then have "removeNode ctx p version s = Inr (True, s\<lparr>container := ?c3,
       acl_map := removeUsage (n_acl_id n) (acl_map s),
       nodes_digest := (if digestEnabled ctx then nodes_digest s - calculateDigest p n else nodes_digest s)\<rparr>)"
    using p q(1) u(1) by (auto simp: removeNode_def contents_of_def Let_def removeDigest_of_def)
  then show ?thesis using c3 u(3) by blast
qed

lemma removeNode_ok:
  assumes inv: "cinv ctx s" and cap: "capacity s"
    and p: "contents_of s p = Some n" "version = -1 \<or> version = n_version n" "numChildren n = 0" "user_path p"
    and q: "parentNodePath p = Some q" "contents_of s q = Some pn" "q \<noteq> p"
  shows "\<exists>s'. removeNode ctx p version s = Inr (True, s') \<and> cinv ctx s' \<and>
     ctree s' = (ctree s)(p := None) \<and> atree s' = (atree s)(p := None) \<and>
     names s' = (names s)(p := None, q := map_option (removeAll (getBaseNodeName p)) (names s q)) \<and>
     acl_growth s s' \<and> frame s s'"
proof -
  note facts = cinv_facts [OF inv]
  let ?m = "removeUsage (n_acl_id n) (acl_map s)"
  obtain cc pn' where r: "removeNode ctx p version s = Inr (True, s\<lparr>container := cc, acl_map := ?m,
       nodes_digest := (if digestEnabled ctx then nodes_digest s - calculateDigest p n else nodes_digest s)\<rparr>)"
     "ht_inv cc" "ht_find cc = (contents_of s)(p := None, q \<mapsto> removeChild (getBaseNodeName p) pn')"
     "pn' = pn \<or> pn' = node_copy pn"
    using removeNode_contents [OF inv p(1-3) q] by blast
  define s' where "s' = s\<lparr>container := cc, acl_map := ?m,
       nodes_digest := (if digestEnabled ctx then nodes_digest s - calculateDigest p n else nodes_digest s)\<rparr>"
  let ?F1 = "(contents_of s)(p := None)" and ?q' = "removeChild (getBaseNodeName p) pn'"
  have cont: "contents_of s' = ?F1(q \<mapsto> ?q')" using r(3) by (simp add: s'_def contents_of_def)
  have q': "core ?q' = core pn" "n_acl_id ?q' = n_acl_id pn" "digest_coherent q ?q'"
    "\<not> digestEnabled ctx \<longrightarrow> n_cached_digest ?q' = 0"
    using r(4) facts(4,5) [OF q(2)] by auto
  have tree: "ctree s' = (ctree s)(p := None)"
    using cont q'(1) q(2,3) by (auto simp: ctree_contents fun_eq_iff)
  note t = acls_release [OF facts(7) _ p(1)]
  have "acls_ok ?m (contents_of s')" "acl_tree ?m (contents_of s') = (atree s)(p := None)"
    using t capacityD [OF cap] acls_ok_same [of ?m ?F1 q pn ?q'] q(2,3) q'(2) cont by (simp_all add: atree_def)
  moreover have "coherent s'"
    using cont q'(3) facts(4) by (auto simp: coherent_def contents_of_def [symmetric] split: if_splits)
  moreover have "tree_digest (ctree s') = tree_digest (ctree s) - calculateDigest p n"
    using tree tree_digest_delete [OF facts(2), of p "core n"] p(1,4) by (simp add: ctree_contents)
  then have "digests_ok ctx s'"
    using cont q'(4) facts(5,6) by (auto simp: digests_ok_def s'_def split: if_splits)
  ultimately have "cinv ctx s'" "atree s' = (atree s)(p := None)"
    using r(2) by (simp_all add: cinv_def s'_def atree_def)
  moreover have "frame s s'" by (simp add: frame_def s'_def)
  moreover have "acl_growth s s'"
    using removeUsage_inv(2) [of "acl_map s"] facts(7) by (simp add: acl_growth_def s'_def acls_ok_def)
  moreover have "names s' = (names s)(p := None, q := map_option (removeAll (getBaseNodeName p)) (names s q))"
    using cont r(4) q(2,3) by (auto simp: names_def fun_eq_iff)
  ultimately show ?thesis using r(1) tree unfolding s'_def by blast
qed

text \<open>Setting access control entries: the old reference is released, a new one taken.\<close>

lemma set_acl_ok:
  assumes inv: "cinv ctx s" and cap: "capacity s" and p: "contents_of s p = Some n"
    and c: "convertACLs acls (removeUsage (n_acl_id n) (acl_map s)) = (i, m)"
  shows "\<exists>s'. storage_update_value ctx p (n_acl_id_update (\<lambda>_. i)) (s\<lparr>acl_map := addUsage i m\<rparr>) = Inr s' \<and>
     cinv ctx s' \<and> ctree s' = ctree s \<and> atree s' = (atree s)(p \<mapsto> acls) \<and> names s' = names s \<and>
     acl_growth s s' \<and> frame s s'"
proof -
  note facts = cinv_facts [OF inv]
  let ?m1 = "removeUsage (n_acl_id n) (acl_map s)" and ?s1 = "s\<lparr>acl_map := addUsage i m\<rparr>"
  have "ht_inv (container ?s1)" "contents_of ?s1 p = Some n" using facts(1) p by (simp_all add: contents_of_def)
  from update_value_ok [OF this] obtain cc n' where
    u: "storage_update_value ctx p (n_acl_id_update (\<lambda>_. i)) ?s1 = Inr (?s1\<lparr>container := cc\<rparr>)" "ht_inv cc"
      "n' = n \<or> n' = node_copy n" "ht_find cc = (contents_of ?s1)(p \<mapsto> n'\<lparr>n_acl_id := i\<rparr>)" by blast
  define s' where "s' = ?s1\<lparr>container := cc\<rparr>"
  have cont: "contents_of s' = (contents_of s)(p \<mapsto> n'\<lparr>n_acl_id := i\<rparr>)"
    using u(4) by (simp add: s'_def contents_of_def)
  have n': "core (n'\<lparr>n_acl_id := i\<rparr>) = core n" "digest_coherent p (n'\<lparr>n_acl_id := i\<rparr>)"
    "\<not> digestEnabled ctx \<longrightarrow> n_cached_digest n' = 0"
    using u(3) facts(4,5) [OF p] by auto
  have tree: "ctree s' = ctree s" using ctree_same [OF p cont n'(1)] .
  have fit: "acls_fit (contents_of s)" "acl_room (acl_map s)" using capacityD [OF cap] by simp_all
  have fit1: "acls_fit ((contents_of s)(p := None))"
    using fit(1) card_mono [of "dom (contents_of s)" "dom ((contents_of s)(p := None))"] facts(3)
    by (auto simp: acls_fit_def intro: le_less_trans)
  note r = acls_release [OF facts(7) fit(1) p]
  have room: "acl_room ?m1" using fit(2) removeUsage_inv(2) [of "acl_map s"] facts(7)
    by (simp add: acl_room_def acls_ok_def)
  note t = acls_take [OF r(1) fit1 room _ c, of p "n'\<lparr>n_acl_id := i\<rparr>"]
  have "acls_ok (addUsage i m) (contents_of s')" "acl_tree (addUsage i m) (contents_of s') = (atree s)(p \<mapsto> acls)"
    using t r(2) cont by (simp_all add: atree_def)
  moreover have "coherent s'"
    using cont n'(2) facts(4) by (auto simp: coherent_def contents_of_def [symmetric] split: if_splits)
  moreover have "digests_ok ctx s'"
    using cont n'(3) facts(5,6) tree by (auto simp: digests_ok_def s'_def split: if_splits)
  ultimately have "cinv ctx s'" "atree s' = (atree s)(p \<mapsto> acls)"
    using u(2) by (simp_all add: cinv_def s'_def atree_def)
  moreover have "frame s s'" by (simp add: frame_def s'_def)
  moreover have "acl_growth s s'"
    using convertACLs_growth [OF c] removeUsage_inv(2) [of "acl_map s"] facts(7)
    by (simp add: acl_growth_def s'_def acls_ok_def)
  moreover have "names s' = names s" using u(3) by (intro names_contents [OF cont p]) auto
  ultimately show ?thesis using u(1) tree unfolding s'_def by blast
qed

fun failed_multi :: "Operation \<Rightarrow> bool" where
  "failed_multi (FailedMultiDelta _ _) = True"
| "failed_multi _ = False"

definition delta_result :: "Delta \<Rightarrow> Error" where
  "delta_result d = (case d_operation d of ErrorDelta e \<Rightarrow> e | _ \<Rightarrow> ZOK)"

text \<open>A delta that fits the committed tree is committed without an inconsistency.\<close>

lemma storage_commit_delta_ok:
  assumes inv: "cinv ctx s" and cap: "capacity s" and en: "enabled d (ctree s)"
    and op: "\<not> failed_multi (d_operation d)"
  shows "\<exists>s'. storage_commit_delta ctx d s = Inr (delta_result d, s') \<and> committed ctx d s s'"
proof (cases "d_operation d")
  case (CreateNodeDelta stat acls data)
  obtain q pn where q: "parentNodePath (d_path d) = Some q" "contents_of s q = Some pn" "\<not> n_is_ephemeral pn"
    and p: "contents_of s (d_path d) = None" "user_path (d_path d)"
    using en CreateNodeDelta by (auto simp: enabled_def ctree_contents)
  show ?thesis
    using createNode_ok [OF inv cap q p, of data stat acls] CreateNodeDelta q(1)
    by (auto simp: storage_commit_delta_def committed_def delta_result_def step_defs)
next
  case (RemoveNodeDelta version owner)
  obtain q pn n where q: "parentNodePath (d_path d) = Some q" "contents_of s q = Some pn" "q \<noteq> d_path d"
    and p: "contents_of s (d_path d) = Some n" "version = -1 \<or> version = n_version n" "numChildren n = 0"
      "user_path (d_path d)"
    using en RemoveNodeDelta by (auto simp: enabled_def ctree_contents)
  show ?thesis
    using removeNode_ok [OF inv cap p q] RemoveNodeDelta q(1)
    by (auto simp: storage_commit_delta_def committed_def delta_result_def step_defs)
next
  case (UpdateNodeDelta f version)
  obtain n where p: "contents_of s (d_path d) = Some n" "version = -1 \<or> version = n_version n" "user_path (d_path d)"
    using en UpdateNodeDelta by (auto simp: enabled_def ctree_contents)
  show ?thesis
    using update_node_ok [OF inv p(1,3), of f] UpdateNodeDelta p(1,2)
    by (auto simp: storage_commit_delta_def committed_def delta_result_def step_defs
        contents_of_def [symmetric] ctree_contents)
next
  case (SetACLDelta acls version)
  obtain n where p: "contents_of s (d_path d) = Some n" "version = -1 \<or> version = n_aversion n"
    using en SetACLDelta by (auto simp: enabled_def ctree_contents)
  obtain i m where c: "convertACLs acls (removeUsage (n_acl_id n) (acl_map s)) = (i, m)" by fastforce
  show ?thesis
    using set_acl_ok [OF inv cap p(1) c] SetACLDelta p c
    by (auto simp: storage_commit_delta_def committed_def delta_result_def step_defs
        contents_of_def [symmetric])
next
  case (AddAuthDelta sid a)
  let ?s = "s\<lparr>session_and_auth := (session_and_auth s)(sid := session_and_auth s sid @ [a])\<rparr>"
  have same: "contents_of ?s = contents_of s" "ctree ?s = ctree s" by (simp_all add: contents_of_def ctree_def)
  have "cinv ctx ?s" using inv same by (simp add: cinv_def coherent_def digests_ok_def)
  moreover have "frame ?s ?s" "names ?s = names s" using same by (simp_all add: frame_def names_def)
  ultimately show ?thesis
    using AddAuthDelta same
    by (simp add: storage_commit_delta_def committed_def delta_result_def step_defs atree_def)
qed (use inv op in \<open>auto simp: storage_commit_delta_def committed_def delta_result_def step_defs frame_def\<close>)


section \<open>Committing a group of deltas\<close>

text \<open>The names stored in the nodes are those of the tree.\<close>

definition names_ok :: "tree \<Rightarrow> (string \<rightharpoonup> string list) \<Rightarrow> bool" where
  "names_ok t N \<longleftrightarrow>
     dom N = dom t \<and> (\<forall>p cs. N p = Some cs \<longrightarrow> distinct cs \<and> set cs = getBaseNodeName ` kids t p)"

lemma names_ok_create:
  assumes ok: "names_ok t N" and q: "parentNodePath p = Some q" "t q = Some pn"
    and p: "t p = None" "p \<noteq> [slash]" "kids t p = {}"
  shows "names_ok (t(p \<mapsto> n)) (N(p \<mapsto> [], q := map_option (add_name (getBaseNodeName p)) (N q)))"
proof -
  have neq: "q \<noteq> p" using q(2) p(1) by auto
  have k: "kids (t(p \<mapsto> n)) r = (if r = q then insert p (kids t r) else kids t r)" for r
    using q(1) p by (auto simp: kids_def)
  obtain cs where cs: "N q = Some cs" using ok q(2) unfolding names_ok_def by blast
  show ?thesis
    using ok neq cs p(3) q(2) unfolding names_ok_def k by (auto simp: add_name_def split: if_splits)
qed

lemma names_ok_remove:
  assumes ok: "names_ok t N" and pr: "proper t" and q: "parentNodePath p = Some q" "q \<noteq> p"
    and p: "t p = Some n" "p \<noteq> [slash]"
  shows "names_ok (t(p := None)) (N(p := None, q := map_option (removeAll (getBaseNodeName p)) (N q)))"
proof -
  have k: "kids (t(p := None)) r = (if r = q then kids t r - {p} else kids t r)" for r
    using q(1) by (auto simp: kids_def)
  have "p \<in> kids t q" using p q by (auto simp: kids_def)
  have dom: "N r = None \<longleftrightarrow> t r = None" for r using ok unfolding names_ok_def by (metis domIff)
  from \<open>p \<in> kids t q\<close>
  have im: "getBaseNodeName ` (kids t q - {p}) = getBaseNodeName ` kids t q - {getBaseNodeName p}"
    using inj_on_image_set_diff [OF proper_inj [OF pr, of q], of "kids t q" "{p}"] by simp
  show ?thesis
    using ok q(2) im dom unfolding names_ok_def k
    by (auto simp: distinct_removeAll split: if_splits)
qed

lemma kids_dom_upd: "t p \<noteq> None \<Longrightarrow> kids (t(p \<mapsto> n)) = kids t"
  by (rule kids_dom) auto

lemma names_ok_step:
  assumes ok: "names_ok t N" and pr: "proper t" and en: "enabled d t"
  shows "names_ok (tstep d t) (nstep d N)"
proof (cases "d_operation d")
  case (CreateNodeDelta st acls data)
  then show ?thesis using en names_ok_create [OF ok] by (auto simp: enabled_def step_defs)
next
  case (RemoveNodeDelta v w)
  then show ?thesis using en names_ok_remove [OF ok pr] by (auto simp: enabled_def step_defs)
next
  case (UpdateNodeDelta f v)
  then obtain n where n: "t (d_path d) = Some n" using en by (auto simp: enabled_def)
  then have "dom (t(d_path d \<mapsto> apply_update f n)) = dom t" "kids (t(d_path d \<mapsto> apply_update f n)) = kids t"
    by (auto simp: kids_dom_upd)
  then show ?thesis using ok UpdateNodeDelta n by (simp add: names_ok_def step_defs)
qed (use ok in \<open>simp_all add: step_defs\<close>)

text \<open>Room for \<open>k\<close> more nodes and numbers of access control lists.\<close>

definition room :: "nat \<Rightarrow> KeeperStorage \<Rightarrow> bool" where
  "room k s \<longleftrightarrow> card (dom (ctree s)) + k < 2 ^ 32 \<and> unat (max_acl_id (acl_map s)) + k < 2 ^ 64 - 1"

lemma room_capacity: "room k s \<Longrightarrow> capacity s"
  by (auto simp: room_def capacity_def acl_room_def unsigned_minus_1_eq_mask mask_eq_exp_minus_1)

lemma room_mono: "room k s \<Longrightarrow> j \<le> k \<Longrightarrow> room j s"
  by (simp add: room_def)

lemma room_step:
  assumes r: "room (Suc k) s" and c: "committed ctx d s s'" and fin: "finite (dom (ctree s))"
  shows "room k s'"
proof -
  have "card (dom (ctree s')) \<le> card (insert (d_path d) (dom (ctree s)))"
    using c dom_tstep [of d "ctree s"] fin by (auto simp: committed_def intro!: card_mono)
  also have "\<dots> \<le> Suc (card (dom (ctree s)))" by (simp add: card_insert_le_m1 card_insert_if fin)
  finally show ?thesis using r c by (simp add: room_def committed_def acl_growth_def)
qed

text \<open>What a group of deltas does to the committed state.\<close>

definition committed_all :: "KeeperContext \<Rightarrow> Delta list \<Rightarrow> KeeperStorage \<Rightarrow> KeeperStorage \<Rightarrow> bool" where
  "committed_all ctx ds s s' \<longleftrightarrow>
     cinv ctx s' \<and> ctree s' = replay ds (ctree s) \<and> atree s' = fold astep ds (atree s) \<and>
     names_ok (ctree s') (names s') \<and> proper (ctree s') \<and>
     (\<forall>k. room (k + length ds) s \<longrightarrow> room k s') \<and>
     frame (s\<lparr>session_and_auth := fold austep ds (session_and_auth s)\<rparr>) s'"

fun group_result :: "Delta list \<Rightarrow> Error" where
  "group_result [] = ZOK"
| "group_result (d # ds) =
     (if delta_result d \<noteq> ZOK then delta_result d
      else if d_operation d = SubDeltaEnd then ZOK else group_result ds)"

text \<open>Nothing but the end mark follows an error.\<close>

fun errs_ok :: "Delta list \<Rightarrow> bool" where
  "errs_ok [] = True"
| "errs_ok (d # ds) =
     (if delta_result d \<noteq> ZOK then \<forall>e \<in> set ds. d_operation e = SubDeltaEnd else errs_ok ds)"

lemma fold_marks:
  "\<forall>e \<in> set ds. d_operation e = SubDeltaEnd \<Longrightarrow>
     replay ds t = t \<and> fold astep ds a = a \<and> fold austep ds A = A"
  by (induction ds) (auto simp: step_defs)

lemma committed_all_refl:
  assumes "cinv ctx s" "names_ok (ctree s) (names s)" "proper (ctree s)"
    "\<forall>e \<in> set ds. d_operation e = SubDeltaEnd"
  shows "committed_all ctx ds s s"
  using assms fold_marks [OF assms(4)] by (auto simp: committed_all_def frame_def intro: room_mono)

lemma committed_all_Cons:
  assumes c: "committed ctx d s s1" and r: "committed_all ctx ds s1 s2" and fin: "finite (dom (ctree s))"
  shows "committed_all ctx (d # ds) s s2"
  using c r room_step [OF _ c fin] by (auto simp: committed_all_def committed_def frame_def)

lemma commit_loop_ok:
  assumes "cinv ctx s" "names_ok (ctree s) (names s)" "proper (ctree s)"
    "room (length (take_group z xs)) s" "enabled_all (map snd (take_group z xs)) (ctree s)"
    "\<forall>x \<in> set (take_group z xs). \<not> failed_multi (d_operation (snd x))"
    "errs_ok (map snd (take_group z xs))" "\<forall>x \<in> set xs. \<not> d_zxid (snd x) <s z"
  shows "\<exists>s'. commit_loop ctx z (map snd xs) s = Inr (group_result (map snd (take_group z xs)), s') \<and>
     committed_all ctx (map snd (take_group z xs)) s s'"
  using assms
proof (induction xs arbitrary: s)
  case Nil
  then show ?case using committed_all_refl [of ctx s "[]"] by simp
next
  case (Cons x xs)
  let ?d = "snd x"
  show ?case
  proof (cases "d_zxid ?d = z")
    case False
    then have "z <s d_zxid ?d" using Cons.prems(8)
      by (auto simp: word_sless_alt) (metis linorder_neqE_linordered_idom signed_word_eqI)
    then show ?thesis using False Cons.prems committed_all_refl [of ctx s "[]"] by simp
  next
    case True
    have fin: "finite (dom (ctree s))" using cinv_facts(2) [OF Cons.prems(1)] .
    obtain tl where tl: "take_group z (x # xs) = x # tl" "d_operation ?d \<noteq> SubDeltaEnd \<longrightarrow> tl = take_group z xs"
      "d_operation ?d = SubDeltaEnd \<longrightarrow> tl = []"
      using True by (cases "d_operation ?d = SubDeltaEnd") auto
    have en: "enabled ?d (ctree s)" "enabled_all (map snd tl) (tstep ?d (ctree s))" using Cons.prems(5) tl(1) by simp_all
    have nf: "\<not> failed_multi (d_operation ?d)" using Cons.prems(6) tl(1) by simp
    obtain s1 where s1: "storage_commit_delta ctx ?d s = Inr (delta_result ?d, s1)" "committed ctx ?d s s1"
      using storage_commit_delta_ok [OF Cons.prems(1) room_capacity [OF Cons.prems(4)] en(1) nf] by blast
    have inv1: "cinv ctx s1" "names_ok (ctree s1) (names s1)" "proper (ctree s1)"
      using s1(2) names_ok_step [OF Cons.prems(2,3) en(1)] proper_tstep [OF Cons.prems(3) en(1)]
      by (simp_all add: committed_def)
    have cons: "committed_all ctx (map snd (x # tl)) s s'" if "committed_all ctx (map snd tl) s1 s'" for s'
      using committed_all_Cons [OF s1(2) that fin] by simp
    consider (stop) "delta_result ?d \<noteq> ZOK \<or> d_operation ?d = SubDeltaEnd"
      | (go) "delta_result ?d = ZOK" "d_operation ?d \<noteq> SubDeltaEnd" by blast
    then show ?thesis
    proof cases
      case stop
      have "errs_ok (map snd (x # tl))" using Cons.prems(7) tl(1) by simp
      with stop have "\<forall>e \<in> set (map snd tl). d_operation e = SubDeltaEnd"
        using tl(3) by (cases "d_operation ?d = SubDeltaEnd") (simp_all split: if_splits)
      from cons [OF committed_all_refl [OF inv1 this]]
      show ?thesis using stop True s1(1) tl(1) by (intro exI [of _ s1]) auto
    next
      case go
      have "room (length (take_group z xs)) s1"
        using room_step [OF _ s1(2) fin] Cons.prems(4) tl go by simp
      from Cons.IH [OF inv1 this] obtain s' where
        "commit_loop ctx z (map snd xs) s1 = Inr (group_result (map snd (take_group z xs)), s')"
        "committed_all ctx (map snd (take_group z xs)) s1 s'"
        using Cons.prems(6-8) en(2) tl go s1(2) by (auto simp: committed_def)
      then show ?thesis using go True s1(1) tl cons by (intro exI [of _ s']) auto
    qed
  qed
qed

end
