(* ===== verification/KeeperSpec.thy ===== *)
theory KeeperSpec
  imports KeeperTree
begin

text \<open>
  What the requests mean on abstract trees: every request is one atomic step that either fails with an
  error code and changes nothing, or yields the next tree. There are no deltas, no overlay, no digests
  and no counters here; a node is removable when it has no children in the tree. A multi request is
  the sequence of its parts, all or nothing.

  The list of access control entries after \<^verbatim>\<open>fixupACL\<close>, which depends on the identities of the session,
  is the argument \<open>fixed\<close>.
\<close>

section \<open>Requests on trees\<close>

definition spec_create ::
  "ACLs option \<Rightarrow> CreateReq \<Rightarrow> int64 \<Rightarrow> int64 \<Rightarrow> int64 \<Rightarrow> tree \<Rightarrow> Error + tree" where
  "spec_create fixed r z session_id time t =
     (let q = the (parentNodePath (cr_path r))
      in case t q of
           None \<Rightarrow> Inl ZNONODE
         | Some pn \<Rightarrow>
             (let p = (if cr_is_sequential r then cr_path r @ seq_num_str (seqNum pn) else cr_path r)
              in if n_is_ephemeral pn then Inl ZNOCHILDRENFOREPHEMERALS
                 else if cr_is_sequential r \<and> cr_not_exists r then Inl ZBADARGUMENTS
                 else if \<not> user_path p then Inl ZBADARGUMENTS
                 else if t p \<noteq> None then (if cr_not_exists r then Inr t else Inl ZNODEEXISTS)
                 else if getBaseNodeName p = [] then Inl ZBADARGUMENTS
                 else if fixed = None then Inl ZINVALIDACL
                 else Inr (t(q \<mapsto> create_parent_update (cr_parent_cversion r) z pn,
                             p \<mapsto> created_node (create_stat z time (if cr_is_ephemeral r then session_id else 0))
                                   (cr_data r)))))"

definition spec_remove :: "string \<Rightarrow> int32 \<Rightarrow> bool \<Rightarrow> int64 \<Rightarrow> tree \<Rightarrow> Error + tree" where
  "spec_remove p version restored z t =
     (if \<not> user_path p then Inl ZBADARGUMENTS
      else case t p of
             None \<Rightarrow> Inl ZNONODE
           | Some n \<Rightarrow>
               if version \<noteq> -1 \<and> version \<noteq> n_version n then Inl ZBADVERSION
               else if kids t p \<noteq> {} then Inl ZNOTEMPTY
               else (let q = the (parentNodePath p); pn = the (t q)
                     in Inr (t(q \<mapsto> remove_parent_update (if restored then parent_pzxid_update z pn else pn),
                               p := None))))"

definition spec_set :: "string \<Rightarrow> string \<Rightarrow> int32 \<Rightarrow> int64 \<Rightarrow> int64 \<Rightarrow> tree \<Rightarrow> Error + tree" where
  "spec_set p data version z time t =
     (if \<not> user_path p then Inl ZBADARGUMENTS
      else case t p of
             None \<Rightarrow> Inl ZNONODE
           | Some n \<Rightarrow>
               if version \<noteq> -1 \<and> version \<noteq> n_version n then Inl ZBADVERSION
               else (let t1 = t(p \<mapsto> set_node_update z data time n); q = the (parentNodePath p)
                     in Inr (t1(q := map_option set_parent_update (t1 q)))))"

definition spec_set_acl :: "ACLs option \<Rightarrow> string \<Rightarrow> int32 \<Rightarrow> tree \<Rightarrow> Error + tree" where
  "spec_set_acl fixed p version t =
     (if \<not> user_path p then Inl ZBADARGUMENTS
      else case t p of
             None \<Rightarrow> Inl ZNONODE
           | Some n \<Rightarrow>
               if version \<noteq> -1 \<and> version \<noteq> n_aversion n then Inl ZBADVERSION
               else if fixed = None then Inl ZINVALIDACL
               else Inr (t(p \<mapsto> aversion_update n)))"

definition spec_check :: "string \<Rightarrow> int32 \<Rightarrow> bool \<Rightarrow> tree \<Rightarrow> Error + tree" where
  "spec_check p version not_exists t =
     (case t p of
        None \<Rightarrow> if not_exists then Inr t else Inl ZNONODE
      | Some n \<Rightarrow>
          (case (not_exists, version = -1 \<or> version = n_version n) of
             (True, True) \<Rightarrow> Inl ZNODEEXISTS
           | (False, False) \<Rightarrow> Inl ZBADVERSION
           | _ \<Rightarrow> Inr t))"

definition spec_read :: "string \<Rightarrow> tree \<Rightarrow> Error + tree" where
  "spec_read p t = (if t p = None then Inl ZNONODE else Inr t)"

definition special_path :: "string \<Rightarrow> bool" where
  "special_path p \<longleftrightarrow>
     p = keeper_api_feature_flags_path \<or> p = keeper_config_path \<or> p = keeper_availability_zone_path"

text \<open>The plain requests; \<open>fix\<close> is \<^verbatim>\<open>fixupACL\<close> for the session.\<close>

definition spec_plain ::
  "(ACLs \<Rightarrow> ACLs option) \<Rightarrow> int64 \<Rightarrow> int64 \<Rightarrow> int64 \<Rightarrow> Request \<Rightarrow> tree \<Rightarrow> Error + tree" where
  "spec_plain fix z session_id time req t =
     (case req of
        CreateRequest r \<Rightarrow> spec_create (fix (cr_acls r)) r z session_id time t
      | RemoveRequest p v restored \<Rightarrow> spec_remove p v restored z t
      | SetRequest p data v \<Rightarrow> spec_set p data v z time t
      | SetACLRequest p acls v \<Rightarrow> spec_set_acl (fix acls) p v t
      | ExistsRequest p _ \<Rightarrow> spec_read p t
      | ListRequest p _ \<Rightarrow> spec_read p t
      | SimpleListRequest p _ \<Rightarrow> spec_read p t
      | FilteredListRequest p _ _ \<Rightarrow> spec_read p t
      | GetACLRequest p \<Rightarrow> spec_read p t
      | GetRequest p _ \<Rightarrow> if special_path p then Inr t else spec_read p t
      | CheckRequest p v ne \<Rightarrow> spec_check p v ne t
      | AuthRequest _ sch data \<Rightarrow>
          if sch = ''digest'' \<and> length (filter (\<lambda>c. c = CHR '':'') data) = 1 then Inr t else Inl ZAUTHFAILED
      | _ \<Rightarrow> Inr t)"

text \<open>The access control lists after a request: those of created nodes and of \<^verbatim>\<open>setACL\<close> are the fixed ones.\<close>

definition created_path :: "CreateReq \<Rightarrow> tree \<Rightarrow> string" where
  "created_path r t =
     (if cr_is_sequential r then cr_path r @ seq_num_str (seqNum (the (t (the (parentNodePath (cr_path r)))))) else cr_path r)"

definition spec_acls ::
  "(ACLs \<Rightarrow> ACLs option) \<Rightarrow> Request \<Rightarrow> tree \<Rightarrow> (string \<rightharpoonup> ACLs) \<Rightarrow> (string \<rightharpoonup> ACLs)" where
  "spec_acls fix req t a =
     (case req of
        CreateRequest r \<Rightarrow> if t (created_path r t) = None then a(created_path r t := fix (cr_acls r)) else a
      | RemoveRequest p _ _ \<Rightarrow> a(p := None)
      | SetACLRequest p acls _ \<Rightarrow> a(p := fix acls)
      | _ \<Rightarrow> a)"

definition acls_after ::
  "(ACLs \<Rightarrow> ACLs option) \<Rightarrow> int64 \<Rightarrow> int64 \<Rightarrow> int64 \<Rightarrow> Request \<Rightarrow> tree \<Rightarrow> (string \<rightharpoonup> ACLs) \<Rightarrow> (string \<rightharpoonup> ACLs)" where
  "acls_after fix z session_id time req t a =
     (case spec_plain fix z session_id time req t of Inl _ \<Rightarrow> a | Inr _ \<Rightarrow> spec_acls fix req t a)"

text \<open>The tree after a request that may fail.\<close>

definition tree_after :: "'e + tree \<Rightarrow> tree \<Rightarrow> tree" where
  "tree_after res t = (case res of Inl _ \<Rightarrow> t | Inr t' \<Rightarrow> t')"

text \<open>A multi request of writes: the first failing part fails the whole.\<close>

fun spec_multi ::
  "(ACLs \<Rightarrow> ACLs option) \<Rightarrow> int64 \<Rightarrow> int64 \<Rightarrow> int64 \<Rightarrow> Request list \<Rightarrow> tree \<Rightarrow> (nat \<times> Error) + tree" where
  "spec_multi fix z session_id time [] t = Inr t"
| "spec_multi fix z session_id time (r # rs) t =
     (case spec_plain fix z session_id time r t of
        Inl e \<Rightarrow> Inl (0, e)
      | Inr t' \<Rightarrow>
          (case spec_multi fix z session_id time rs t' of
             Inl (i, e) \<Rightarrow> Inl (Suc i, e)
           | Inr t'' \<Rightarrow> Inr t''))"

fun multi_acls ::
  "(ACLs \<Rightarrow> ACLs option) \<Rightarrow> int64 \<Rightarrow> int64 \<Rightarrow> int64 \<Rightarrow> Request list \<Rightarrow> tree \<Rightarrow> (string \<rightharpoonup> ACLs) \<Rightarrow> (string \<rightharpoonup> ACLs)" where
  "multi_acls fix z session_id time [] t a = a"
| "multi_acls fix z session_id time (r # rs) t a =
     multi_acls fix z session_id time rs (tree_after (spec_plain fix z session_id time r t) t)
       (acls_after fix z session_id time r t a)"

text \<open>A multi request of reads: nothing changes, every part has its own result.\<close>

definition is_read :: "Request \<Rightarrow> bool" where
  "is_read r \<longleftrightarrow> multi_kind r = Some KindRead"

lemma spec_plain_read:
  "is_read r \<Longrightarrow> spec_plain fix z sid time r t = Inr t' \<Longrightarrow> t' = t"
  by (cases r) (auto simp: is_read_def spec_plain_def spec_read_def split: if_splits)

text \<open>Closing a session removes a set of nodes, its ephemeral ones; their parents count them out.\<close>

definition spec_remove_all :: "string set \<Rightarrow> tree \<Rightarrow> tree" where
  "spec_remove_all P t =
     (\<lambda>p. if p \<in> P then None else map_option (remove_parent_update ^^ card (kids t p \<inter> P)) (t p))"

definition owned :: "int64 \<Rightarrow> tree \<Rightarrow> string set" where
  "owned session_id t = {p. \<exists>n. t p = Some n \<and> n_is_ephemeral n \<and> ephemeralOwner n = session_id}"

definition close_acls :: "int64 \<Rightarrow> tree \<Rightarrow> (string \<rightharpoonup> ACLs) \<Rightarrow> (string \<rightharpoonup> ACLs)" where
  "close_acls session_id t a = a |` (- owned session_id t)"

definition spec_close :: "int64 \<Rightarrow> tree \<Rightarrow> tree" where
  "spec_close session_id t = spec_remove_all (owned session_id t) t"

end
