(* ===== verification/KeeperPreprocess.thy ===== *)
theory KeeperPreprocess
  imports KeeperCommit KeeperSpec
begin

text \<open>
  What preprocessing establishes: the deltas it produces fit the view, the digest it promises is the
  digest of the view after them, the view stays well-formed and the table of ephemeral nodes is that
  of the view. A failed multi request leaves the view as it was.
\<close>

section \<open>The digest of the view\<close>

definition weight :: "string \<times> KeeperMemNode option \<Rightarrow> uint64" where
  "weight x = (case snd x of None \<Rightarrow> 0 | Some n \<Rightarrow> calculateDigest (fst x) n)"

lemma weight_simps [simp]: "weight (p, None) = 0" "weight (p, Some n) = calculateDigest p n"
  by (simp_all add: weight_def)

lemma updated_digest_sum: "updated_digest u g = g + sum_list (map weight u)"
  by (induction u arbitrary: g) (auto simp: updated_digest_def weight_def split: option.split)

lemma sum_update_new:
  "map_of u p = None \<Longrightarrow> sum_list (map weight (AList.update p v u)) = sum_list (map weight u) + weight (p, v)"
  by (induction u) (auto split: if_splits)

lemma sum_update_old:
  "map_of u p = Some v \<Longrightarrow> distinct (map fst u) \<Longrightarrow>
   sum_list (map weight (AList.update p w u)) = sum_list (map weight u) - weight (p, v) + weight (p, w)"
  by (induction u) (auto split: if_splits)

lemma us_inv_node_coherent:
  assumes "us_inv s" "us_getNode p s = Some n"
  shows "digest_coherent p n"
  using assms nodes_okD(5) [of "us_deltas (uncommitted_state s)" "uncommitted_state s" p]
  by (auto simp: us_inv_def us_struct_def us_getNode_def tryGetNodeFromStorage_def coherent_def split: option.splits)

text \<open>States that differ only in memoized digests of the overlay.\<close>

definition same_view :: "KeeperStorage \<Rightarrow> KeeperStorage \<Rightarrow> bool" where
  "same_view s s' \<longleftrightarrow>
     (\<exists>us'. s' = s\<lparr>uncommitted_state := us'\<rparr> \<and> us_deltas us' = us_deltas (uncommitted_state s)) \<and> us_inv s'"

lemma same_viewD:
  assumes "same_view s s'" "us_inv s"
  shows "us_inv s'" "vtree s' = vtree s" "pending s' = pending s" "ctree s' = ctree s"
    "ephemerals s' = ephemerals s" "us_deltas (uncommitted_state s') = us_deltas (uncommitted_state s)"
  using assms vtree_replay [of s] vtree_replay [of s'] by (auto simp: same_view_def pending_def)

lemma same_view_refl: "us_inv s \<Longrightarrow> same_view s s"
  by (auto simp: same_view_def intro: exI [of _ "uncommitted_state s"])

lemma same_view_trans: "same_view s s1 \<Longrightarrow> same_view s1 s2 \<Longrightarrow> same_view s s2"
  by (auto simp: same_view_def)

lemma memo_uncommitted_ok:
  assumes inv: "us_inv s"
  shows "same_view s (memo_uncommitted p s)"
proof (cases "us_nodes (uncommitted_state s) p")
  case None
  then show ?thesis using same_view_refl [OF inv] by (simp add: memo_uncommitted_def)
next
  case (Some u)
  let ?us = "uncommitted_state s" and ?u = "u\<lparr>u_node := map_option (memoDigest p) (u_node u)\<rparr>"
  let ?us' = "?us\<lparr>us_nodes := (us_nodes ?us)(p \<mapsto> ?u)\<rparr>"
  have nodes: "nodes_ok (us_deltas ?us) ?us" using inv by (simp add: us_inv_def us_struct_def)
  then have "entry_ok q (path_pairs q (us_deltas ?us)) (us_nodes ?us' q)" if "q \<noteq> []" for q
    using that Some by (auto simp: nodes_ok_def entry_ok_def split: option.splits) fastforce
  then have "nodes_ok (us_deltas ?us) ?us'"
    using nodes Some by (auto simp: nodes_ok_def)
  moreover have "shows_tree ?us' t = shows_tree ?us t" for t
    using Some by (auto simp: shows_tree_def option.map_comp comp_def)
  ultimately have "us_inv (s\<lparr>uncommitted_state := ?us'\<rparr>)"
    using inv by (simp add: us_inv_def us_struct_def pending_def coherent_def)
  then show ?thesis using Some by (auto simp: same_view_def memo_uncommitted_def)
qed

text \<open>The state of the loop: \<open>updated\<close> are the nodes of the current tree that differ from the view.\<close>

definition digest_state :: "tree \<Rightarrow> uint64 \<Rightarrow> updated_nodes \<Rightarrow> bool" where
  "digest_state t g u \<longleftrightarrow>
     finite (dom t) \<and> distinct (map fst u) \<and> g + sum_list (map weight u) = tree_digest t \<and>
     (\<forall>p uo. map_of u p = Some uo \<longrightarrow> map_option core uo = t p)"

lemma digest_state_update:
  assumes "digest_state t g u" "finite (dom t')" "\<forall>q. q \<noteq> p \<longrightarrow> t' q = t q" "map_option core v = t' p"
    "g' + sum_list (map weight (AList.update p v u)) = tree_digest t'"
  shows "digest_state t' g' (AList.update p v u)"
  using assms by (auto simp: digest_state_def distinct_update update_conv)

lemma weight_core: "map_option core v = Some n \<Longrightarrow> weight (p, v) = calculateDigest p n"
  using calculateDigest_core by (cases v) auto

text \<open>A create is counted only for a path that the deltas before it do not touch.\<close>

fun fresh_creates :: "string set \<Rightarrow> Delta list \<Rightarrow> bool" where
  "fresh_creates P [] = True"
| "fresh_creates P (d # ds) =
     ((case d_operation d of CreateNodeDelta _ _ _ \<Rightarrow> d_path d \<notin> P | _ \<Rightarrow> True) \<and>
      fresh_creates (insert (d_path d) P) ds)"

lemma digest_state_Cons:
  assumes "digest_state t g u" "map_of u p = None" "finite (dom t')" "\<forall>q. q \<noteq> p \<longrightarrow> t' q = t q"
    "map_option core v = t' p" "g' + (weight (p, v) + sum_list (map weight u)) = tree_digest t'"
  shows "digest_state t' g' ((p, v) # u)"
  using assms by (auto simp: digest_state_def map_of_eq_None_iff)

lemma nodes_digest_step_ok:
  assumes inv: "us_inv s" and en: "enabled d t" and st: "digest_state t g u"
    and old: "\<forall>p. map_of u p = None \<longrightarrow> t p = vtree s p"
    and new: "\<forall>st a b. d_operation d = CreateNodeDelta st a b \<longrightarrow> map_of u (d_path d) = None"
  shows "\<exists>g' u' s'. nodes_digest_step d (g, u, s) = Inr (g', u', s') \<and> same_view s s' \<and>
     digest_state (tstep d t) g' u' \<and> set (map fst u') \<subseteq> insert (d_path d) (set (map fst u)) \<and>
     (\<forall>p. map_of u' p = None \<longrightarrow> tstep d t p = vtree s p)"
proof -
  let ?p = "d_path d"
  note sv = same_view_refl [OF inv]
  have fin: "finite (dom t)" "finite (dom (tstep d t))" and sum: "g + sum_list (map weight u) = tree_digest t"
    and dist: "distinct (map fst u)" and look: "map_of u p = Some uo \<Longrightarrow> map_option core uo = t p" for p uo
    using st by (auto simp: digest_state_def)
  have view: "\<exists>m. us_getNode ?p s = Some m \<and> core m = n \<and> getDigest ?p m = calculateDigest ?p n"
    if n: "t ?p = Some n" "map_of u ?p = None" for n
  proof -
    have "vtree s ?p = Some n" using old n by simp
    then obtain m where m: "us_getNode ?p s = Some m" "core m = n" by (auto simp: vtree_def)
    moreover have "getDigest ?p m = calculateDigest ?p m"
      using us_inv_node_coherent [OF inv m(1)] by (rule getDigest_coherent)
    ultimately show ?thesis using calculateDigest_core [of ?p m] by metis
  qed
  note upd = digest_state_update [OF st fin(2), of ?p] and cons = digest_state_Cons [OF st _ fin(2), of ?p]
  have oth: "\<forall>q. q \<noteq> ?p \<longrightarrow> tstep d t q = t q" using tstep_other by blast
  show ?thesis
  proof (cases "d_operation d")
    case (CreateNodeDelta stat acls data)
    let ?n = "created_node stat data"
    have t': "tstep d t = t(?p \<mapsto> ?n)" using CreateNodeDelta by (simp add: tstep_def)
    have n: "map_of u ?p = None" "t ?p = None" "user_path ?p"
      using new CreateNodeDelta en by (auto simp: enabled_def)
    have "digest_state (tstep d t) g ((?p, Some ?n) # u)"
      using n sum tree_digest_insert [OF fin(1) n(2), of ?n] oth t' by (intro cons) (auto simp: algebra_simps)
    then show ?thesis
      using CreateNodeDelta n(1) sv old oth unfolding nodes_digest_step_def created_node_def
      by (auto simp: created_node_def Let_def)
  next
    case (RemoveNodeDelta v w)
    have t': "tstep d t = t(?p := None)" using RemoveNodeDelta by (simp add: tstep_def)
    obtain n where n: "t ?p = Some n" "user_path ?p" using RemoveNodeDelta en by (auto simp: enabled_def)
    note del = tree_digest_delete [OF fin(1) n(1)]
    show ?thesis
    proof (cases "map_of u ?p")
      case None
      obtain m where m: "us_getNode ?p s = Some m" "getDigest ?p m = calculateDigest ?p n"
        using view [OF n(1) None] by blast
      have "digest_state (tstep d t) (g - calculateDigest ?p n) (AList.update ?p None u)"
        using sum del n(2) oth t' sum_update_new [OF None] by (intro upd) (auto simp: algebra_simps)
      then show ?thesis
        using RemoveNodeDelta None m memo_uncommitted_ok [OF inv, of ?p] old oth
        by (auto simp: nodes_digest_step_def Let_def update_conv dom_update)
    next
      case (Some uo)
      have "weight (?p, uo) = calculateDigest ?p n" using look [OF Some] n(1) by (intro weight_core) simp
      then have "g + sum_list (map weight (AList.update ?p None u)) = tree_digest (tstep d t)"
        using n(2) t' sum_update_old [OF Some dist, of None] by (simp add: del flip: sum)
      then have "digest_state (tstep d t) g (AList.update ?p None u)" using oth t' by (intro upd) auto
      then show ?thesis
        using RemoveNodeDelta Some sv old oth
        by (auto simp: nodes_digest_step_def Let_def update_conv dom_update)
    qed
  next
    case (UpdateNodeDelta f v)
    obtain n where n: "t ?p = Some n" "user_path ?p" using UpdateNodeDelta en by (auto simp: enabled_def)
    have t': "tstep d t = t(?p \<mapsto> apply_update f n)" using UpdateNodeDelta n(1) by (simp add: tstep_def)
    note dg = tree_digest_update [OF fin(1) n(1), of "apply_update f n"]
    show ?thesis
    proof (cases "map_of u ?p")
      case None
      obtain m where m: "us_getNode ?p s = Some m" "core m = n" "getDigest ?p m = calculateDigest ?p n"
        using view [OF n(1) None] by blast
      let ?m = "apply_update f (memoDigest ?p (shallowCopy m))"
      have c: "core ?m = apply_update f n" using m(2) by (simp add: core_apply_update)
      have w: "weight (?p, Some ?m) = calculateDigest ?p (apply_update f n)"
        using c by (intro weight_core) simp
      have "getDigest ?p (shallowCopy m) = getDigest ?p m" by (simp add: getDigest_def shallowCopy_def)
      moreover have "digest_state (tstep d t) (g - calculateDigest ?p n) ((?p, Some ?m) # u)"
        using sum dg n(2) oth t' None w c by (intro cons) (auto simp: algebra_simps)
      ultimately show ?thesis
        using UpdateNodeDelta None m sv old oth by (auto simp: nodes_digest_step_def Let_def)
    next
      case (Some uo)
      then obtain m where m: "uo = Some m" "core m = n" using look [OF Some] n(1) by auto
      have w: "weight (?p, uo) = calculateDigest ?p n" using m by (intro weight_core) simp
      have c: "core (apply_update f m) = apply_update f n" using m(2) by (simp add: core_apply_update)
      have w': "weight (?p, Some (apply_update f m)) = calculateDigest ?p (apply_update f n)"
        using c by (intro weight_core) simp
      have "g + sum_list (map weight (AList.update ?p (Some (apply_update f m)) u)) = tree_digest (tstep d t)"
        using n(2) t' w w' sum_update_old [OF Some dist, of "Some (apply_update f m)"] by (simp add: dg flip: sum)
      then have "digest_state (tstep d t) g (AList.update ?p (Some (apply_update f m)) u)"
        using oth t' c by (intro upd) auto
      then show ?thesis
        using UpdateNodeDelta Some m sv old oth
        by (auto simp: nodes_digest_step_def Let_def update_conv dom_update)
    qed
  qed (use st sv old in \<open>auto simp: nodes_digest_step_def tstep_def\<close>)
qed

lemma nodes_digest_loop_ok:
  assumes "us_inv s" "enabled_all ds t" "digest_state t g u" "\<forall>p. map_of u p = None \<longrightarrow> t p = vtree s p"
    "fresh_creates P ds" "fst ` set u \<subseteq> P"
  shows "\<exists>g' u' s'. nodes_digest_loop ds (g, u, s) = Inr (g', u', s') \<and> same_view s s' \<and>
     digest_state (replay ds t) g' u'"
  using assms
proof (induction ds arbitrary: t g u s P)
  case Nil
  then show ?case using same_view_refl by auto
next
  case (Cons d ds)
  have en: "enabled d t" "enabled_all ds (tstep d t)" using Cons.prems(2) by simp_all
  have "map_of u (d_path d) = None" if "d_operation d = CreateNodeDelta st a b" for st a b
    using Cons.prems(5,6) that by (auto simp: map_of_eq_None_iff)
  then obtain g1 u1 s1 where st: "nodes_digest_step d (g, u, s) = Inr (g1, u1, s1)" "same_view s s1"
     "digest_state (tstep d t) g1 u1" "set (map fst u1) \<subseteq> insert (d_path d) (set (map fst u))"
     "\<forall>p. map_of u1 p = None \<longrightarrow> tstep d t p = vtree s p"
    using nodes_digest_step_ok [OF Cons.prems(1) en(1) Cons.prems(3,4)] by blast
  note sv = same_viewD [OF st(2) Cons.prems(1)]
  have "fst ` set u1 \<subseteq> insert (d_path d) P" using Cons.prems(6) st(4) unfolding set_map by blast
  moreover have "fresh_creates (insert (d_path d) P) ds" using Cons.prems(5) by simp
  moreover have "\<forall>p. map_of u1 p = None \<longrightarrow> tstep d t p = vtree s1 p" using st(5) sv(2) by simp
  ultimately obtain g' u' s' where
    "nodes_digest_loop ds (g1, u1, s1) = Inr (g', u', s')" "same_view s1 s'" "digest_state (replay ds (tstep d t)) g' u'"
    using Cons.IH [OF sv(1) en(2) st(3)] by blast
  then show ?case using st(1) same_view_trans [OF st(2)] by auto
qed

text \<open>The digest of the deltas is the digest of the view after them.\<close>

lemma calculateNodesDigest_ok:
  assumes inv: "us_inv s" and en: "enabled_all ds (vtree s)" and fresh: "fresh_creates {} ds"
    and fin: "finite (dom (vtree s))" and g: "digestEnabled ctx \<longrightarrow> g = tree_digest (vtree s)"
  shows "\<exists>g' s'. calculateNodesDigest ctx g ds s = Inr (g', s') \<and> same_view s s' \<and>
     (digestEnabled ctx \<longrightarrow> g' = tree_digest (replay ds (vtree s)))"
proof (cases "digestEnabled ctx")
  case True
  have "digest_state (vtree s) g []" using True fin g by (simp add: digest_state_def)
  then obtain g' u' s' where "nodes_digest_loop ds (g, [], s) = Inr (g', u', s')" "same_view s s'"
    "digest_state (replay ds (vtree s)) g' u'"
    using nodes_digest_loop_ok [OF inv en, of g "[]" "{}"] fresh by auto
  then show ?thesis using True by (auto simp: calculateNodesDigest_def updated_digest_sum digest_state_def)
next
  case False
  then show ?thesis using same_view_refl [OF inv] by (simp add: calculateNodesDigest_def)
qed

section \<open>What a processor prepares\<close>

definition view_ok :: "KeeperContext \<Rightarrow> tree \<Rightarrow> uint64 \<Rightarrow> KeeperStorage \<Rightarrow> bool" where
  "view_ok ctx t g s \<longleftrightarrow>
     tree_wf t \<and> proper t \<and> eph_ok s t \<and> (digestEnabled ctx \<longrightarrow> g = tree_digest t)"

lemma view_okD:
  assumes "view_ok ctx t g s"
  shows "tree_wf t" "proper t" "eph_ok s t" "digestEnabled ctx \<longrightarrow> g = tree_digest t" "finite (dom t)"
  using assms tree_wfD(1) by (auto simp: view_ok_def)

text \<open>The deltas fit the view, the storage differs in the table of ephemeral nodes and memoized digests
  only, and table and digest are those of the view after the deltas.\<close>

definition prepared :: "KeeperContext \<Rightarrow> int64 \<Rightarrow> KeeperStorage \<Rightarrow> Delta list \<Rightarrow> KeeperStorage \<Rightarrow> uint64 \<Rightarrow> bool" where
  "prepared ctx z s ds s' g' \<longleftrightarrow>
     (\<exists>e. same_view (s\<lparr>ephemerals := e\<rparr>) s') \<and> enabled_all ds (vtree s) \<and> (\<forall>d \<in> set ds. d_zxid d = z) \<and>
     view_ok ctx (replay ds (vtree s)) g' s'"

text \<open>The deltas implement a result of the specification.\<close>

fun normal :: "Operation \<Rightarrow> bool" where
  "normal (ErrorDelta _) = False"
| "normal SubDeltaEnd = False"
| "normal (FailedMultiDelta _ _) = False"
| "normal (CloseSessionDelta _) = False"
| "normal _ = True"

definition meets :: "int64 \<Rightarrow> Delta list \<Rightarrow> tree \<Rightarrow> Error + tree \<Rightarrow> bool" where
  "meets z ds t res =
     (case res of
        Inl e \<Rightarrow> ds = [delta_error z e] \<and> e \<noteq> ZOK
      | Inr t' \<Rightarrow> replay ds t = t' \<and> (\<forall>d \<in> set ds. normal (d_operation d)))"

lemma meets_simps [simp]:
  "meets z ds t (Inl e) \<longleftrightarrow> ds = [delta_error z e] \<and> e \<noteq> ZOK"
  "meets z ds t (Inr t') \<longleftrightarrow> replay ds t = t' \<and> (\<forall>d \<in> set ds. normal (d_operation d))"
  by (simp_all add: meets_def)

definition prep_meets ::
  "KeeperContext \<Rightarrow> int64 \<Rightarrow> KeeperStorage \<Rightarrow> Error + tree \<Rightarrow> prep \<Rightarrow> bool" where
  "prep_meets ctx z s res r \<longleftrightarrow>
     (\<exists>ds s' g'. r = (Inr ds, s', g') \<and> prepared ctx z s ds s' g' \<and> meets z ds (vtree s) res)"

lemma us_inv_ephemerals [simp]: "us_inv (s\<lparr>ephemerals := e\<rparr>) = us_inv s"
  by (simp add: us_inv_def coherent_def)

lemma prepared_nothing:
  "us_inv s \<Longrightarrow> view_ok ctx (vtree s) g s \<Longrightarrow> prepared ctx z s [] s g"
  using same_view_refl [of s] by (auto simp: prepared_def intro: exI [of _ "ephemerals s"])

lemma prep_nothing:
  "us_inv s \<Longrightarrow> view_ok ctx (vtree s) g s \<Longrightarrow> prep_meets ctx z s (Inr (vtree s)) (Inr [], s, g)"
  using prepared_nothing by (auto simp: prep_meets_def)

lemma prep_error_ok:
  "us_inv s \<Longrightarrow> view_ok ctx (vtree s) g s \<Longrightarrow> e \<noteq> ZOK \<Longrightarrow> prep_meets ctx z s (Inl e) (prep_error z e s g)"
  using prepared_nothing [of s ctx g z]
  by (auto simp: prep_meets_def prepared_def prep_error_def delta_error_def enabled_def tstep_def)

definition running :: "KeeperContext \<Rightarrow> bool" where
  "running ctx \<longleftrightarrow> \<not> (phase_INIT ctx \<and> \<not> ignoreSystemPathOnStartup ctx)"

lemma prep_system_path_ok:
  "us_inv s \<Longrightarrow> view_ok ctx (vtree s) g s \<Longrightarrow> running ctx \<Longrightarrow>
   prep_meets ctx z s (Inl ZBADARGUMENTS) (prep_system_path ctx z s g)"
  using prep_error_ok [of s ctx g ZBADARGUMENTS z]
  by (auto simp: prep_system_path_def handleSystemNodeModification_def running_def)

lemma prep_deltas_prepared:
  assumes inv: "us_inv s" and view: "view_ok ctx (vtree s) g s"
    and en: "enabled_all ds (vtree s)" "fresh_creates {} ds" "\<forall>d \<in> set ds. d_zxid d = z"
    and wf: "tree_wf (replay ds (vtree s))" and eph: "eph_ok (s\<lparr>ephemerals := e\<rparr>) (replay ds (vtree s))"
  shows "\<exists>s' g'. prep_deltas ctx ds (s\<lparr>ephemerals := e\<rparr>) g = (Inr ds, s', g') \<and> prepared ctx z s ds s' g'"
proof -
  note v = view_okD [OF view]
  obtain g' s' where c: "calculateNodesDigest ctx g ds (s\<lparr>ephemerals := e\<rparr>) = Inr (g', s')"
    "same_view (s\<lparr>ephemerals := e\<rparr>) s'" "digestEnabled ctx \<longrightarrow> g' = tree_digest (replay ds (vtree s))"
    using calculateNodesDigest_ok [of "s\<lparr>ephemerals := e\<rparr>" ds ctx g] inv en v(4,5) by auto
  have "eph_ok s' (replay ds (vtree s))" using eph same_viewD(5) [OF c(2)] inv by (simp add: eph_ok_def)
  then have "view_ok ctx (replay ds (vtree s)) g' s'"
    using c(3) wf proper_replay [OF v(2) en(1)] by (simp add: view_ok_def)
  then have "prepared ctx z s ds s' g'" using c(2) en by (auto simp: prepared_def)
  then show ?thesis using c(1) by (simp add: prep_deltas_def)
qed

lemma prep_deltas_ok:
  assumes "us_inv s" "view_ok ctx (vtree s) g s" "enabled_all ds (vtree s)" "fresh_creates {} ds"
    "\<forall>d \<in> set ds. d_zxid d = z" "tree_wf (replay ds (vtree s))"
    "eph_ok (s\<lparr>ephemerals := e\<rparr>) (replay ds (vtree s))" "\<forall>d \<in> set ds. normal (d_operation d)"
  shows "prep_meets ctx z s (Inr (replay ds (vtree s))) (prep_deltas ctx ds (s\<lparr>ephemerals := e\<rparr>) g)"
  using prep_deltas_prepared [OF assms(1-7)] assms(8) by (auto simp: prep_meets_def)

section \<open>Plain requests\<close>

lemma getNode_vtree: "us_getNode p s = None \<longleftrightarrow> vtree s p = None"
  by (simp add: vtree_def)

lemma getNode_Some: "us_getNode p s = Some n \<Longrightarrow> vtree s p = Some (core n)"
  by (simp add: vtree_def)

lemma parent_nonempty: "parentNodePath p = Some q \<Longrightarrow> q \<noteq> []"
  by (auto simp: parentNodePath_def findLastSlash_def split: option.splits if_splits)

lemma no_parent_empty [simp]: "parentNodePath [] = None"
  by (simp add: parentNodePath_None)

lemma seq_num_no_slash: "slash \<notin> set (seq_num_str n)"
  using dec_int_no_slash by (auto simp: seq_num_str_def Let_def)

lemma delta_at_simps [simp]:
  "d_path (delta_at p z op) = p" "d_zxid (delta_at p z op) = z" "d_operation (delta_at p z op) = op"
  "d_path (delta_plain z op) = []" "d_zxid (delta_plain z op) = z" "d_operation (delta_plain z op) = op"
  "d_path (delta_error z e) = []" "d_zxid (delta_error z e) = z" "d_operation (delta_error z e) = ErrorDelta e"
  by (simp_all add: delta_at_def delta_plain_def delta_error_def)

lemma delta_at_inject [simp]: "delta_at p z op = delta_at p' z' op' \<longleftrightarrow> p = p' \<and> z = z' \<and> op = op'"
  by (simp add: delta_at_def)

lemma create_group_ok:
  assumes inv: "us_inv s" and view: "view_ok ctx (vtree s) g s"
    and q: "parentNodePath p = Some q" "vtree s q = Some pn" "\<not> n_is_ephemeral pn"
    and p: "vtree s p = None" "user_path p" "getBaseNodeName p \<noteq> []" "\<nexists>r. p = slash # slash # r"
    and own: "eph \<Longrightarrow> sid \<noteq> 0"
    and ds_def: "ds = [delta_at q z (UpdateNodeDelta (CreateParentUpdate c z) (-1)),
    delta_at p z (CreateNodeDelta (create_stat z time (if eph then sid else 0)) acls data)]"
  shows "prep_meets ctx z s
     (Inr ((vtree s)(q \<mapsto> create_parent_update c z pn,
           p \<mapsto> created_node (create_stat z time (if eph then sid else 0)) data)))
     (prep_deltas ctx ds (if eph then s\<lparr>ephemerals := map_emplace sid p (ephemerals s)\<rparr> else s) g)"
proof -
  note v = view_okD [OF view]
  let ?t = "vtree s" and ?st = "create_stat z time (if eph then sid else 0)"
  let ?t1 = "?t(q \<mapsto> create_parent_update c z pn)"
  have neq: "q \<noteq> p" using p(1) q(2) by auto
  have root: "p \<noteq> [slash]" using tree_wfD(2) [OF v(1)] p(1) by auto
  have rep: "replay ds ?t = ?t1(p \<mapsto> created_node ?st data)" using q(2) by (simp add: ds_def tstep_def)
  have t1: "tstep (hd ds) ?t = ?t1" using q(2) by (simp add: ds_def tstep_def)
  have k: "kids ?t1 p = {}" using no_kids_absent [OF v(1) p(1)] kids_dom_upd [of ?t q] q(2) by simp
  have "joined p" using joined_created [OF v(1) q(1,2) p(3,4)] .
  then have en: "enabled_all ds ?t"
    using q p(1,2) user_path_parent [OF p(2) q(1) p(3)] parent_nonempty [OF q(1)] neq root k t1
    by (auto simp: ds_def enabled_def)
  have wf: "tree_wf (replay ds ?t)"
    using tree_wf_insert [OF v(1) q p(1-3), of ?st c z data] rep by (simp add: create_stat_def Stat_default_def)
  let ?e = "if eph then map_emplace sid p (ephemerals s) else ephemerals s"
  have "eph_set (replay ds ?t) k = (if eph \<and> k = sid then insert p (eph_set ?t k) else eph_set ?t k)" for k
  proof -
    have e: "enabled (ds ! 0) ?t" "enabled (ds ! 1) ?t1" using en t1 by (simp_all add: ds_def)
    have "eph_set (tstep (ds ! 1) ?t1) k = (if eph \<and> k = sid then insert p (eph_set ?t1 k) else eph_set ?t1 k)"
      using eph_set_tstep [OF e(2), of k] own by (auto simp: ds_def create_stat_def)
    moreover have "eph_set ?t1 k = eph_set ?t k" using eph_set_tstep [OF e(1), of k] t1 by (simp add: ds_def)
    ultimately show ?thesis using t1 by (auto simp: ds_def)
  qed
  then have "eph_ok (s\<lparr>ephemerals := ?e\<rparr>) (replay ds ?t)"
    using v(3) eph_entry_emplace [of "ephemerals s" sid] by (auto simp: eph_ok_def)
  from prep_deltas_ok [OF inv view en _ _ wf this]
  have "prep_meets ctx z s (Inr (replay ds ?t)) (prep_deltas ctx ds (s\<lparr>ephemerals := ?e\<rparr>) g)"
    using neq by (simp add: ds_def)
  then show ?thesis unfolding rep by (cases eph) simp_all
qed

lemma create_preprocess_ok:
  assumes inv: "us_inv s" and view: "view_ok ctx (vtree s) g s" and run: "running ctx"
    and r: "slash \<in> set (cr_path r)" "\<nexists>w. cr_path r = slash # slash # w" "cr_is_ephemeral r \<Longrightarrow> sid \<noteq> 0"
  shows "prep_meets ctx z s (spec_create (fixupACL (cr_acls r) sid s) r z sid time (vtree s))
     (create_preprocess ctx r z sid time g s)"
proof -
  note err = prep_error_ok [OF inv view]
  obtain q where q: "parentNodePath (cr_path r) = Some q"
    using r(1) parentNodePath_None [of "cr_path r"] by (cases "parentNodePath (cr_path r)") auto
  show ?thesis
  proof (cases "us_getNode q s")
    case None
    then have "vtree s q = None" by (simp add: getNode_vtree)
    then show ?thesis using None q err by (simp add: create_preprocess_def spec_create_def)
  next
    case (Some pn)
    define p where "p = (if cr_is_sequential r then cr_path r @ seq_num_str (seqNum pn) else cr_path r)"
    have t: "vtree s q = Some (core pn)" using Some by (rule getNode_Some)
    have pq: "parentNodePath p = Some q"
      using q parentNodePath_append [OF q seq_num_no_slash] by (simp add: p_def)
    have nn: "\<nexists>w. p = slash # slash # w"
      using r(1,2) seq_num_no_slash [of "seqNum pn"]
      by (cases "seq_num_str (seqNum pn)") (auto simp: p_def append_eq_Cons_conv split: if_splits)
    show ?thesis
    proof (cases "n_is_ephemeral pn \<or> cr_is_sequential r \<and> cr_not_exists r")
      case True
      then show ?thesis using q Some t err by (auto simp: create_preprocess_def spec_create_def)
    next
      case False
      then have ok1: "\<not> n_is_ephemeral pn" "(cr_is_sequential r \<and> cr_not_exists r) = False" by auto
      have cre: "create_preprocess ctx r z sid time g s =
         (if \<not> user_path p then prep_system_path ctx z s g
          else if us_getNode p s \<noteq> None
          then (if cr_not_exists r then (Inr [], s, g) else prep_error z ZNODEEXISTS s g)
          else if getBaseNodeName p = [] then prep_error z ZBADARGUMENTS s g
          else (case fixupACL (cr_acls r) sid s of
             None \<Rightarrow> prep_error z ZINVALIDACL s g
           | Some acls \<Rightarrow> prep_deltas ctx
               [delta_at q z (UpdateNodeDelta (CreateParentUpdate (cr_parent_cversion r) z) (-1)),
                delta_at p z (CreateNodeDelta (create_stat z time (if cr_is_ephemeral r then sid else 0)) acls
                  (cr_data r))]
               (if cr_is_ephemeral r then s\<lparr>ephemerals := map_emplace sid p (ephemerals s)\<rparr> else s) g))"
        unfolding create_preprocess_def ok1(2) using q Some ok1(1) by (simp add: user_path_def p_def [symmetric])
      have spec: "spec_create (fixupACL (cr_acls r) sid s) r z sid time (vtree s) =
         (if \<not> user_path p then Inl ZBADARGUMENTS
          else if vtree s p \<noteq> None then (if cr_not_exists r then Inr (vtree s) else Inl ZNODEEXISTS)
          else if getBaseNodeName p = [] then Inl ZBADARGUMENTS
          else if fixupACL (cr_acls r) sid s = None then Inl ZINVALIDACL
          else Inr ((vtree s)(q \<mapsto> create_parent_update (cr_parent_cversion r) z (core pn),
             p \<mapsto> created_node (create_stat z time (if cr_is_ephemeral r then sid else 0)) (cr_data r))))"
        unfolding spec_create_def ok1(2) Let_def q t option.sel option.case core_fields p_def [symmetric]
        using ok1(1) by simp
      have grp: "prep_meets ctx z s
         (Inr ((vtree s)(q \<mapsto> create_parent_update (cr_parent_cversion r) z (core pn),
             p \<mapsto> created_node (create_stat z time (if cr_is_ephemeral r then sid else 0)) (cr_data r))))
         (prep_deltas ctx
               [delta_at q z (UpdateNodeDelta (CreateParentUpdate (cr_parent_cversion r) z) (-1)),
                delta_at p z (CreateNodeDelta (create_stat z time (if cr_is_ephemeral r then sid else 0)) acls
                  (cr_data r))]
               (if cr_is_ephemeral r then s\<lparr>ephemerals := map_emplace sid p (ephemerals s)\<rparr> else s) g)"
        if "user_path p" "vtree s p = None" "getBaseNodeName p \<noteq> []" for acls
        using create_group_ok [OF inv view pq t _ that(2,1,3) nn r(3) refl] ok1(1) by simp
      show ?thesis
      proof (cases "user_path p \<and> vtree s p = None \<and> getBaseNodeName p \<noteq> []")
        case True
        then show ?thesis
          using grp err unfolding cre spec getNode_vtree
          by (cases "fixupACL (cr_acls r) sid s") (simp_all del: if_split)
      next
        case False
        then show ?thesis
          unfolding cre spec getNode_vtree
          using err prep_nothing [OF inv view] prep_system_path_ok [OF inv view run] by auto
      qed
    qed
  qed
qed

text \<open>The counter of children decides whether a node has children while it cannot wrap around.\<close>

definition small :: "tree \<Rightarrow> bool" where
  "small t \<longleftrightarrow> card (dom t) < 2 ^ 32"

lemma counter_kids:
  assumes "tree_wf t" "small t" "t p = Some n" "user_path p"
  shows "numChildren n = 0 \<longleftrightarrow> kids t p = {}"
proof (cases "n_is_ephemeral n")
  case True
  then show ?thesis using no_kids_ephemeral [OF assms(1,3)] by (simp add: numChildren_def)
next
  case False
  then show ?thesis
    using no_kids_counter [OF assms(1) _ assms(3)] tree_wfD(6) [OF assms(1,3) False] assms(2,4)
    by (auto simp: small_def)
qed

lemma remove_group_ok:
  assumes inv: "us_inv s" and view: "view_ok ctx (vtree s) g s"
    and p: "vtree s p = Some n" "user_path p" "kids (vtree s) p = {}" "version = -1 \<or> version = n_version n"
    and q: "parentNodePath p = Some q" "vtree s q = Some pn"
    and ds_def: "ds = (if restored then [delta_at q z (UpdateNodeDelta (PzxidUpdate z) (-1))] else []) @
      [delta_at q z (UpdateNodeDelta RemoveParentUpdate (-1)), delta_at p z (RemoveNodeDelta version (ephemeralOwner n))]"
    and e: "eph_ok (s\<lparr>ephemerals := e\<rparr>) ((vtree s)(p := None))"
  shows "prep_meets ctx z s
     (Inr ((vtree s)(q \<mapsto> remove_parent_update (if restored then parent_pzxid_update z pn else pn), p := None)))
     (prep_deltas ctx ds (s\<lparr>ephemerals := e\<rparr>) g)"
proof -
  note v = view_okD [OF view]
  let ?t = "vtree s" and ?pn = "if restored then parent_pzxid_update z pn else pn"
  let ?u = "?t(q \<mapsto> ?pn)"
  have root: "p \<noteq> [slash]" using root_not_removable [OF v(1) p(3)] .
  have neq: "q \<noteq> p" using parent_neq [OF q(1) root] .
  have user: "user_path q" using user_path_parent [OF p(2) q(1) tree_wfD(4) [OF v(1) p(1) root]] .
  have pe: "\<not> n_is_ephemeral pn" using tree_wfD(5) [OF v(1) p(1) root] q by auto
  have wf0: "tree_wf ?u"
    using tree_wf_update [OF v(1) q(2), of "PzxidUpdate z"] v(1) q(2)
    by (cases restored) (simp_all add: fun_upd_idem)
  have k: "kids (?t(q \<mapsto> m)) p = {}" for m using p(3) kids_dom_upd [of ?t q m] q(2) by simp
  have rep: "replay ds ?t = ?t(q \<mapsto> remove_parent_update ?pn, p := None)"
    using q(2) by (simp add: ds_def tstep_def)
  have pe0: "\<not> n_is_ephemeral ?pn" using pe apply_update_ephemeral [of "PzxidUpdate z" pn] by simp
  have nc: "numChildren n = 0"
    using p(1-3) tree_wfD(6) [OF v(1) p(1)] by (cases "n_is_ephemeral n") (auto simp: numChildren_def)
  have en: "enabled_all ds ?t"
    using p q(1,2) user parent_nonempty [OF q(1)] neq root k pe nc pe0 apply_update_ephemeral [of "PzxidUpdate z" pn]
    by (cases restored) (auto simp: ds_def enabled_def tstep_def)
  have "tree_wf (?u(q \<mapsto> apply_update RemoveParentUpdate ?pn, p := None))"
    using p neq k q(1) by (intro tree_wf_remove [OF wf0]) auto
  then have wf: "tree_wf (replay ds ?t)" using rep by simp
  have "eph_set (replay ds ?t) sid = eph_set (?t(p := None)) sid" for sid
    using rep neq q(2) pe pe0 by (auto simp: eph_set_def split: if_splits)
  then have "eph_ok (s\<lparr>ephemerals := e\<rparr>) (replay ds ?t)" using e by (simp add: eph_ok_def)
  from prep_deltas_ok [OF inv view en _ _ wf this] show ?thesis unfolding rep by (simp add: ds_def)
qed

lemma remove_preprocess_ok:
  assumes inv: "us_inv s" and view: "view_ok ctx (vtree s) g s" and run: "running ctx" and small: "small (vtree s)"
    and path: "slash \<in> set p"
  shows "prep_meets ctx z s (spec_remove p version restored z (vtree s)) (remove_preprocess ctx p version restored z g s)"
proof -
  note v = view_okD [OF view] and err = prep_error_ok [OF inv view]
  obtain q where q: "parentNodePath p = Some q"
    using path parentNodePath_None [of p] by (cases "parentNodePath p") auto
  show ?thesis
  proof (cases "user_path p")
    case False
    then show ?thesis
      using prep_system_path_ok [OF inv view run] by (simp add: remove_preprocess_def spec_remove_def user_path_def)
  next
    case user: True
    show ?thesis
    proof (cases "us_getNode p s")
      case None
      then have "vtree s p = None" by (simp add: getNode_vtree)
      then show ?thesis using None user q err by (simp add: remove_preprocess_def spec_remove_def user_path_def)
    next
      case (Some n)
      have t: "vtree s p = Some (core n)" using Some by (rule getNode_Some)
      note ck = counter_kids [OF v(1) small t user, simplified]
      show ?thesis
      proof (cases "(version \<noteq> -1 \<and> version \<noteq> n_version n) \<or> numChildren n \<noteq> 0")
        case True
        then show ?thesis
          using err user Some t ck by (auto simp: remove_preprocess_def spec_remove_def user_path_def)
      next
        case False
        then have ok: "version = -1 \<or> version = n_version n" "numChildren n = 0" "kids (vtree s) p = {}"
          using ck by auto
        have vf: "(version \<noteq> -1 \<and> version \<noteq> n_version n) = False" using ok(1) by auto
        have root: "p \<noteq> [slash]" using root_not_removable [OF v(1) ok(3)] .
        obtain pn where pn: "vtree s q = Some pn" using tree_wfD(5) [OF v(1) t root] q by auto
        let ?ds = "(if restored then [delta_at q z (UpdateNodeDelta (PzxidUpdate z) (-1))] else []) @
          [delta_at q z (UpdateNodeDelta RemoveParentUpdate (-1)), delta_at p z (RemoveNodeDelta version (ephemeralOwner n))]"
        have grp: "prep_meets ctx z s (spec_remove p version restored z (vtree s)) (prep_deltas ctx ?ds (s\<lparr>ephemerals := e\<rparr>) g)"
          if "eph_ok (s\<lparr>ephemerals := e\<rparr>) ((vtree s)(p := None))" for e
          using remove_group_ok [OF inv view t user ok(3) _ q pn _ that, of version ?ds restored z] ok(3) t user q pn vf
          by (auto simp: spec_remove_def)
        have rest: "us_getNode q s \<noteq> None" using pn getNode_vtree [of q s] by simp
        have es: "eph_set ((vtree s)(p := None)) sid = eph_set (vtree s) sid - {p}" for sid
          by (auto simp: eph_set_def)
        show ?thesis
        proof (cases "n_is_ephemeral n")
          case True
          let ?o = "ephemeralOwner n"
          have inp: "p \<in> eph_set (vtree s) ?o" and notin: "\<And>k. k \<noteq> ?o \<Longrightarrow> p \<notin> eph_set (vtree s) k"
            using t True by (auto simp: eph_set_def)
          have "eph_entry (ephemerals s ?o) (insert p (eph_set (vtree s) ?o - {p}))"
            using v(3) inp by (simp add: eph_ok_def insert_absorb)
          from unregister_ok [OF this] obtain e where
            e: "unregisterEphemeralPath ?o p s = Inr (s\<lparr>ephemerals := e\<rparr>)" "eph_entry (e ?o) (eph_set (vtree s) ?o - {p})"
              "\<forall>k. k \<noteq> ?o \<longrightarrow> e k = ephemerals s k" by auto
          have "eph_entry (e k) (eph_set (vtree s) k - {p})" for k
            using e(2,3) v(3) notin [of k] by (cases "k = ?o") (auto simp: eph_ok_def)
          then have "eph_ok (s\<lparr>ephemerals := e\<rparr>) ((vtree s)(p := None))" by (simp add: eph_ok_def es)
          from grp [OF this] show ?thesis
            using user Some q True ok(2) vf e(1) rest by (auto simp: remove_preprocess_def user_path_def Let_def)
        next
          case False
          then have "p \<notin> eph_set (vtree s) k" for k using t by (auto simp: eph_set_def)
          then have "eph_ok (s\<lparr>ephemerals := ephemerals s\<rparr>) ((vtree s)(p := None))"
            using v(3) by (simp add: eph_ok_def es)
          from grp [OF this] show ?thesis
            using user Some q False ok(2) vf rest by (auto simp: remove_preprocess_def user_path_def Let_def)
        qed
      qed
    qed
  qed
qed

lemma parent_in_tree:
  assumes "tree_wf t" "t p = Some n" "user_path p"
  shows "\<exists>q pn. parentNodePath p = Some q \<and> t q = Some pn \<and> user_path q \<and> q \<noteq> []"
proof (cases "p = [slash]")
  case True
  then show ?thesis using assms(2) keeper_system_path_facts(4) by simp
next
  case False
  then obtain q pn where q: "parentNodePath p = Some q" "t q = Some pn" using tree_wfD(5) [OF assms(1,2)] by blast
  then show ?thesis
    using user_path_parent [OF assms(3) q(1) tree_wfD(4) [OF assms(1,2) False]] parent_nonempty by blast
qed

lemma update_eph_ok:
  "eph_ok s t \<Longrightarrow> enabled d t \<Longrightarrow> d_operation d = UpdateNodeDelta f v \<or> d_operation d = SetACLDelta a v \<Longrightarrow>
   eph_ok s (tstep d t)"
  using eph_set_tstep by (auto simp: eph_ok_def)

lemma update_delta_wf:
  assumes "tree_wf t" "enabled d t" "d_operation d = UpdateNodeDelta f v" "\<not> counts_children f"
  shows "tree_wf (tstep d t)"
proof -
  obtain n where "t (d_path d) = Some n" using assms(2,3) by (auto simp: enabled_def)
  then show ?thesis using tree_wf_update [OF assms(1) _ assms(4), of "d_path d"] assms(3) by (simp add: tstep_def)
qed

lemma prep_updates_ok:
  assumes inv: "us_inv s" and view: "view_ok ctx (vtree s) g s"
    and ds: "enabled_all ds (vtree s)" "\<forall>d \<in> set ds. d_zxid d = z"
      "\<forall>d \<in> set ds. (\<exists>f v. d_operation d = UpdateNodeDelta f v \<and> \<not> counts_children f) \<or> (\<exists>a v. d_operation d = SetACLDelta a v)"
  shows "prep_meets ctx z s (Inr (replay ds (vtree s))) (prep_deltas ctx ds s g)"
proof -
  have "tree_wf (replay ds t) \<and> eph_ok s (replay ds t)"
    if "tree_wf t" "eph_ok s t" "enabled_all ds t" for t
    using that ds(3)
  proof (induction ds arbitrary: t)
    case (Cons d ds)
    have en: "enabled d t" "enabled_all ds (tstep d t)" using Cons.prems(3) by simp_all
    have op: "(\<exists>f v. d_operation d = UpdateNodeDelta f v \<and> \<not> counts_children f) \<or> (\<exists>a v. d_operation d = SetACLDelta a v)"
      using Cons.prems(4) by simp
    have "tree_wf (tstep d t)"
      using op update_delta_wf [OF Cons.prems(1) en(1)] Cons.prems(1) by (auto simp: tstep_def)
    moreover have "eph_ok s (tstep d t)" using op update_eph_ok [OF Cons.prems(2) en(1)] by blast
    ultimately show ?case using Cons.IH [OF _ _ en(2)] Cons.prems(4) by simp
  qed simp
  then have w: "tree_wf (replay ds (vtree s))" "eph_ok s (replay ds (vtree s))"
    using view_okD [OF view] ds(1) by blast+
  have "fresh_creates P ds" for P using ds(3) by (induction ds arbitrary: P) auto
  moreover have "\<forall>d \<in> set ds. normal (d_operation d)" using ds(3) by fastforce
  ultimately show ?thesis
    using prep_deltas_ok [OF inv view ds(1) _ ds(2) w(1), of "ephemerals s"] w(2) by simp
qed

lemma set_preprocess_ok:
  assumes inv: "us_inv s" and view: "view_ok ctx (vtree s) g s" and run: "running ctx"
  shows "prep_meets ctx z s (spec_set p data version z time (vtree s)) (set_preprocess ctx p data version z time g s)"
proof -
  note v = view_okD [OF view] and err = prep_error_ok [OF inv view]
  consider (sys) "\<not> user_path p" | (none) "user_path p" "us_getNode p s = None"
    | (vers) n where "user_path p" "us_getNode p s = Some n" "version \<noteq> -1 \<and> version \<noteq> n_version n"
    | (ok) n where "user_path p" "us_getNode p s = Some n" "(version \<noteq> -1 \<and> version \<noteq> n_version n) = False"
    by fastforce
  then show ?thesis
  proof cases
    case sys
    then show ?thesis
      using prep_system_path_ok [OF inv view run] by (simp add: set_preprocess_def spec_set_def user_path_def)
  next
    case none
    then have "vtree s p = None" by (simp add: getNode_vtree)
    then show ?thesis using none err by (simp add: set_preprocess_def spec_set_def user_path_def)
  next
    case vers
    then show ?thesis
      using err getNode_Some [OF vers(2)] by (simp add: set_preprocess_def spec_set_def user_path_def)
  next
    case ok
    have t: "vtree s p = Some (core n)" using getNode_Some [OF ok(2)] .
    obtain q pn where q: "parentNodePath p = Some q" "vtree s q = Some pn" "user_path q" "q \<noteq> []"
      using parent_in_tree [OF v(1) t ok(1)] by blast
    let ?ds = "[delta_at p z (UpdateNodeDelta (SetNodeUpdate z data time) version),
                delta_at q z (UpdateNodeDelta SetParentUpdate (-1))]"
    have "p \<noteq> []" using q(1) by auto
    then have "enabled_all ?ds (vtree s)" using t q ok by (auto simp: enabled_def tstep_def)
    moreover have "spec_set p data version z time (vtree s) = Inr (replay ?ds (vtree s))"
      using ok(1) ok(3) [simplified] t q(1) by (auto simp: spec_set_def tstep_def Let_def)
    moreover have "set_preprocess ctx p data version z time g s = prep_deltas ctx ?ds s g"
      unfolding set_preprocess_def ok(2) option.case ok(3) using ok(1) q(1) by (simp add: user_path_def)
    ultimately show ?thesis using prep_updates_ok [OF inv view, of ?ds z] by simp
  qed
qed

lemma set_acl_preprocess_ok:
  assumes inv: "us_inv s" and view: "view_ok ctx (vtree s) g s" and run: "running ctx"
  shows "prep_meets ctx z s (spec_set_acl (fixupACL acls sid s) p version (vtree s))
     (set_acl_preprocess ctx p acls version z sid g s)"
proof -
  note v = view_okD [OF view] and err = prep_error_ok [OF inv view]
  consider (sys) "\<not> user_path p" | (none) "user_path p" "us_getNode p s = None"
    | (vers) n where "user_path p" "us_getNode p s = Some n" "version \<noteq> -1 \<and> version \<noteq> n_aversion n"
    | (acl) n where "user_path p" "us_getNode p s = Some n" "(version \<noteq> -1 \<and> version \<noteq> n_aversion n) = False"
        "fixupACL acls sid s = None"
    | (ok) n as where "user_path p" "us_getNode p s = Some n" "(version \<noteq> -1 \<and> version \<noteq> n_aversion n) = False"
        "fixupACL acls sid s = Some as"
    by fastforce
  then show ?thesis
  proof cases
    case sys
    then show ?thesis
      using prep_system_path_ok [OF inv view run] by (simp add: set_acl_preprocess_def spec_set_acl_def user_path_def)
  next
    case none
    then have "vtree s p = None" by (simp add: getNode_vtree)
    then show ?thesis using none err by (simp add: set_acl_preprocess_def spec_set_acl_def user_path_def)
  next
    case vers
    then show ?thesis
      using err getNode_Some [OF vers(2)] by (simp add: set_acl_preprocess_def spec_set_acl_def user_path_def)
  next
    case acl
    then show ?thesis
      using err getNode_Some [OF acl(2)] by (auto simp: set_acl_preprocess_def spec_set_acl_def user_path_def)
  next
    case ok
    have t: "vtree s p = Some (core n)" using getNode_Some [OF ok(2)] .
    let ?ds = "[delta_at p z (SetACLDelta as version), delta_at p z (UpdateNodeDelta AversionUpdate (-1))]"
    have "p \<noteq> []" using parent_in_tree [OF v(1) t ok(1)] by auto
    then have "enabled_all ?ds (vtree s)" using t ok by (auto simp: enabled_def tstep_def)
    moreover have "spec_set_acl (fixupACL acls sid s) p version (vtree s) = Inr (replay ?ds (vtree s))"
      using ok(1,4) ok(3) [simplified] t by (auto simp: spec_set_acl_def tstep_def)
    moreover have "set_acl_preprocess ctx p acls version z sid g s = prep_deltas ctx ?ds s g"
      unfolding set_acl_preprocess_def ok(2) option.case ok(3) using ok(1,4) by (simp add: user_path_def)
    ultimately show ?thesis using prep_updates_ok [OF inv view, of ?ds z] by simp
  qed
qed

lemma read_preprocess_ok:
  assumes "us_inv s" "view_ok ctx (vtree s) g s"
  shows "prep_meets ctx z s (spec_read p (vtree s)) (read_preprocess p z g s)"
  using prep_error_ok [OF assms] prep_nothing [OF assms] by (simp add: read_preprocess_def spec_read_def getNode_vtree)

lemma check_preprocess_ok:
  assumes "us_inv s" "view_ok ctx (vtree s) g s"
  shows "prep_meets ctx z s (spec_check p version ne (vtree s)) (check_preprocess p version ne z g s)"
  using prep_error_ok [OF assms] prep_nothing [OF assms]
  by (cases "us_getNode p s") (auto simp: check_preprocess_def spec_check_def vtree_def)

lemma auth_preprocess_ok:
  assumes "us_inv s" "view_ok ctx (vtree s) g s"
  shows "prep_meets ctx z s
     (if sch = ''digest'' \<and> length (filter (\<lambda>c. c = CHR '':'') data) = 1 then Inr (vtree s) else Inl ZAUTHFAILED)
     (auth_preprocess ctx sch data z sid g s)"
proof -
  have "prepared ctx z s [delta_plain z (AddAuthDelta sid a)] s g" for a
    using prepared_nothing [OF assms, of z] by (auto simp: prepared_def enabled_def tstep_def)
  then have add: "prep_meets ctx z s (Inr (vtree s)) (Inr [delta_plain z (AddAuthDelta sid a)], s, g)" for a
    by (auto simp: prep_meets_def tstep_def)
  show ?thesis
    using prep_error_ok [OF assms] prep_nothing [OF assms] add by (auto simp: auth_preprocess_def Let_def)
qed

text \<open>Requests that do not run into undefined behaviour or unlistable nodes: paths have a slash, created
  paths do not start with two, ephemeral nodes have an owner.\<close>

definition valid_plain :: "int64 \<Rightarrow> Request \<Rightarrow> bool" where
  "valid_plain sid req =
     (case req of
        CreateRequest r \<Rightarrow> slash \<in> set (cr_path r) \<and> take 2 (cr_path r) \<noteq> [slash, slash] \<and>
          (cr_is_ephemeral r \<longrightarrow> sid \<noteq> 0)
      | RemoveRequest p _ _ \<Rightarrow> slash \<in> set p
      | _ \<Rightarrow> True)"

theorem plain_preprocess_ok:
  assumes "us_inv s" "view_ok ctx (vtree s) g s" "running ctx" "small (vtree s)" "valid_plain sid req"
  shows "prep_meets ctx z s (spec_plain (\<lambda>acls. fixupACL acls sid s) z sid time req (vtree s))
     (plain_preprocess ctx req z sid time g s)"
proof (cases req)
  case (CreateRequest r)
  then have "\<nexists>w. cr_path r = slash # slash # w" using assms(5) by (auto simp: valid_plain_def)
  then show ?thesis
    using create_preprocess_ok [OF assms(1-3), of r sid] CreateRequest assms(5)
    by (simp add: plain_preprocess_def spec_plain_def valid_plain_def)
next
  case (RemoveRequest p v restored)
  then show ?thesis
    using remove_preprocess_ok [OF assms(1-4), of p] assms(5)
    by (simp add: plain_preprocess_def spec_plain_def valid_plain_def)
qed (use set_preprocess_ok [OF assms(1-3)] set_acl_preprocess_ok [OF assms(1-3)] read_preprocess_ok [OF assms(1,2)]
      check_preprocess_ok [OF assms(1,2)] auth_preprocess_ok [OF assms(1,2)] prep_nothing [OF assms(1,2)] in
    \<open>simp_all add: plain_preprocess_def spec_plain_def get_preprocess_def special_path_def\<close>)

section \<open>The shape of the deltas of a create\<close>

fun creates :: "Operation \<Rightarrow> bool" where
  "creates (CreateNodeDelta _ _ _) = True"
| "creates _ = False"

text \<open>The deltas of a request implement the specification; those of a create have one create delta, for the
  created path, unless the request failed or the node was there.\<close>

definition implements ::
  "(ACLs \<Rightarrow> ACLs option) \<Rightarrow> int64 \<Rightarrow> int64 \<Rightarrow> int64 \<Rightarrow> Request \<Rightarrow> tree \<Rightarrow> Delta list \<Rightarrow> bool" where
  "implements fix z sid time req t ds \<longleftrightarrow>
     meets z ds t (spec_plain fix z sid time req t) \<and>
     (\<forall>p. req = SyncRequest p \<longrightarrow> ds = []) \<and>
     (\<forall>r. req = CreateRequest r \<longrightarrow>
        (\<exists>e. ds = [delta_error z e]) \<or> (ds = [] \<and> cr_not_exists r \<and> t (cr_path r) \<noteq> None) \<or>
        (\<exists>f op. ds = [delta_at (the (parentNodePath (cr_path r))) z (UpdateNodeDelta f (-1)),
                      delta_at (created_path r t) z op] \<and> creates op)) \<and>
     (\<forall>a. fold astep ds a = acls_after fix z sid time req t a)"

lemma prep_deltas_result: "prep_deltas ctx ds s g = (Inr nd, s1, g1) \<Longrightarrow> nd = ds"
  by (auto simp: prep_deltas_def split: sum.splits)

lemma prep_system_path_result: "prep_system_path ctx z s g = (Inr nd, s1, g1) \<Longrightarrow> nd = [delta_error z ZBADARGUMENTS]"
  by (auto simp: prep_system_path_def prep_error_def split: sum.splits)

lemma create_preprocess_shape:
  assumes "create_preprocess ctx r z sid time g s = (Inr ds, s', g')"
  shows "(\<exists>e. ds = [delta_error z e]) \<or> (ds = [] \<and> cr_not_exists r \<and> vtree s (cr_path r) \<noteq> None) \<or>
     (\<exists>f op. ds = [delta_at (the (parentNodePath (cr_path r))) z (UpdateNodeDelta f (-1)),
        delta_at (created_path r (vtree s)) z op] \<and> creates op)"
  using assms
  by (auto simp: create_preprocess_def created_path_def prep_error_def vtree_def Let_def
      split: option.splits if_splits dest!: prep_deltas_result prep_system_path_result)

text \<open>The access control lists that the deltas set; a failing request has an error delta only.\<close>

lemma create_preprocess_acls:
  assumes "create_preprocess ctx r z sid time g s = (Inr ds, s', g')"
  shows "(\<exists>e. ds = [delta_error z e]) \<or>
     fold astep ds a = spec_acls (\<lambda>acls. fixupACL acls sid s) (CreateRequest r) (vtree s) a"
  using assms
  by (auto simp: create_preprocess_def spec_acls_def created_path_def prep_error_def vtree_def Let_def astep_def
      split: option.splits if_splits dest!: prep_deltas_result prep_system_path_result)

lemma remove_preprocess_acls:
  assumes "remove_preprocess ctx p v b z g s = (Inr ds, s', g')"
  shows "(\<exists>e. ds = [delta_error z e]) \<or> fold astep ds a = a(p := None)"
  using assms
  by (auto simp: remove_preprocess_def prep_error_def Let_def astep_def
      split: option.splits if_splits sum.splits dest!: prep_deltas_result prep_system_path_result)

lemma set_preprocess_acls:
  assumes "set_preprocess ctx p data v z time g s = (Inr ds, s', g')"
  shows "(\<exists>e. ds = [delta_error z e]) \<or> fold astep ds a = a"
  using assms
  by (auto simp: set_preprocess_def prep_error_def astep_def
      split: option.splits if_splits dest!: prep_deltas_result prep_system_path_result)

lemma set_acl_preprocess_acls:
  assumes "set_acl_preprocess ctx p acls v z sid g s = (Inr ds, s', g')"
  shows "(\<exists>e. ds = [delta_error z e]) \<or> fold astep ds a = a(p := fixupACL acls sid s)"
  using assms
  by (auto simp: set_acl_preprocess_def prep_error_def astep_def
      split: option.splits if_splits dest!: prep_deltas_result prep_system_path_result)

lemma plain_preprocess_acls:
  assumes "plain_preprocess ctx req z sid time g s = (Inr ds, s', g')"
  shows "(\<exists>e. ds = [delta_error z e]) \<or> fold astep ds a = spec_acls (\<lambda>acls. fixupACL acls sid s) req (vtree s) a"
proof (cases req)
  case (CreateRequest r)
  then show ?thesis using create_preprocess_acls [of ctx r] assms by (simp add: plain_preprocess_def)
next
  case (RemoveRequest p v b)
  then show ?thesis using remove_preprocess_acls [of ctx p v b] assms by (simp add: plain_preprocess_def spec_acls_def)
next
  case (SetRequest p d v)
  then show ?thesis using set_preprocess_acls [of ctx p d v] assms by (simp add: plain_preprocess_def spec_acls_def)
next
  case (SetACLRequest p acls v)
  then show ?thesis using set_acl_preprocess_acls [of ctx p acls v] assms by (simp add: plain_preprocess_def spec_acls_def)
qed (use assms in \<open>auto simp: plain_preprocess_def read_preprocess_def get_preprocess_def check_preprocess_def auth_preprocess_def
      prep_error_def spec_acls_def astep_def Let_def delta_plain_def split: option.splits if_splits\<close>)

theorem plain_preprocess_implements:
  assumes "us_inv s" "view_ok ctx (vtree s) g s" "running ctx" "small (vtree s)" "valid_plain sid req"
  shows "\<exists>ds s' g'. plain_preprocess ctx req z sid time g s = (Inr ds, s', g') \<and> prepared ctx z s ds s' g' \<and>
     implements (\<lambda>acls. fixupACL acls sid s) z sid time req (vtree s) ds"
proof -
  obtain ds s' g' where ds: "plain_preprocess ctx req z sid time g s = (Inr ds, s', g')" "prepared ctx z s ds s' g'"
    "meets z ds (vtree s) (spec_plain (\<lambda>acls. fixupACL acls sid s) z sid time req (vtree s))"
    using plain_preprocess_ok [OF assms] unfolding prep_meets_def by blast
  have "implements (\<lambda>acls. fixupACL acls sid s) z sid time req (vtree s) ds"
    unfolding implements_def
  proof (intro conjI allI impI)
    fix r assume "req = CreateRequest r"
    then have "create_preprocess ctx r z sid time g s = (Inr ds, s', g')" using ds(1) by (simp add: plain_preprocess_def)
    then show "(\<exists>e. ds = [delta_error z e]) \<or> (ds = [] \<and> cr_not_exists r \<and> vtree s (cr_path r) \<noteq> None) \<or>
     (\<exists>f op. ds = [delta_at (the (parentNodePath (cr_path r))) z (UpdateNodeDelta f (-1)),
        delta_at (created_path r (vtree s)) z op] \<and> creates op)" by (rule create_preprocess_shape)
  next
    show "ds = []" if "req = SyncRequest p" for p using ds(1) that by (simp add: plain_preprocess_def)
  next
    fix a
    let ?spec = "spec_plain (\<lambda>acls. fixupACL acls sid s) z sid time req (vtree s)"
    show "fold astep ds a = acls_after (\<lambda>acls. fixupACL acls sid s) z sid time req (vtree s) a"
      using ds(3) plain_preprocess_acls [OF ds(1), of a]
      by (cases ?spec) (auto simp: acls_after_def astep_def delta_error_def)
  qed (rule ds(3))
  then show ?thesis using ds(1,2) by blast
qed

end
