(* ===== verification/KeeperMulti.thy ===== *)
theory KeeperMulti
  imports KeeperPreprocess
begin

text \<open>
  Preprocessing of multi requests and of closing a session. A multi request of writes is all or
  nothing: when a part fails, the deltas of the parts before it are rolled back and the view, the
  table of ephemeral nodes and the digest are those before the request.
\<close>

section \<open>Adding prepared deltas\<close>

definition moved :: "KeeperStorage \<Rightarrow> KeeperStorage \<Rightarrow> bool" where
  "moved s s' \<longleftrightarrow> s' = s\<lparr>ephemerals := ephemerals s', uncommitted_state := uncommitted_state s'\<rparr>"

lemma moved_refl [simp]: "moved s s"
  by (simp add: moved_def)

lemma moved_trans: "moved s s1 \<Longrightarrow> moved s1 s2 \<Longrightarrow> moved s s2"
  by (cases s, cases s1, cases s2) (simp add: moved_def)

lemma movedI: "moved s (s\<lparr>ephemerals := e, uncommitted_state := us\<rparr>)"
  by (simp add: moved_def)

lemma movedD:
  assumes "moved s s'"
  shows "ctree s' = ctree s" "session_and_auth s' = session_and_auth s" "container s' = container s"
    "acl_map s' = acl_map s" "uncommitted_transactions s' = uncommitted_transactions s"
    "nodes_digest s' = nodes_digest s" "ks_zxid s' = ks_zxid s"
  by (subst assms [unfolded moved_def], simp)+

text \<open>The storage after deltas have been added: they are the last pending ones, and the digest is that of
  the view.\<close>

definition advanced :: "KeeperContext \<Rightarrow> KeeperStorage \<Rightarrow> Delta list \<Rightarrow> KeeperStorage \<Rightarrow> uint64 \<Rightarrow> bool" where
  "advanced ctx s ds s' g' \<longleftrightarrow>
     us_inv s' \<and> moved s s' \<and> pending s' = pending s @ ds \<and> view_ok ctx (vtree s') g' s'"

lemma advanced_view: "us_inv s \<Longrightarrow> advanced ctx s ds s' g' \<Longrightarrow> vtree s' = replay ds (vtree s)"
  using vtree_replay [of s] vtree_replay [of s'] movedD(1) [of s s'] by (simp add: advanced_def)

lemma advanced_trans:
  "advanced ctx s ds s1 g1 \<Longrightarrow> advanced ctx s1 es s2 g2 \<Longrightarrow> advanced ctx s (ds @ es) s2 g2"
  using moved_trans by (auto simp: advanced_def)

lemma tstep_mark: "\<not> tree_op (d_operation d) \<Longrightarrow> tstep d t = t \<and> (enabled d t \<longleftrightarrow> d_path d = [])"
  by (cases "d_operation d") (simp_all add: tstep_def enabled_def)

lemma same_view_moved: "same_view (s\<lparr>ephemerals := e\<rparr>) s1 \<Longrightarrow> moved s s1"
  unfolding same_view_def moved_def by (elim conjE exE) simp

lemma marks_replay:
  "\<forall>d \<in> set ms. d_path d = [] \<and> \<not> tree_op (d_operation d) \<Longrightarrow> enabled_all ms t \<and> replay ms t = t"
proof (induction ms)
  case (Cons d ms)
  have "tstep d t = t" "enabled d t" using Cons.prems tstep_mark [of d t] by simp_all
  then show ?case using Cons by simp
qed simp

lemma add_prepared:
  assumes inv: "us_inv s" and prep: "prepared ctx z s ds s1 g1"
    and old: "\<forall>e \<in> set (pending s). sint (d_zxid e) \<le> sint z"
    and marks: "\<forall>d \<in> set ms. d_zxid d = z \<and> d_path d = [] \<and> \<not> tree_op (d_operation d)"
  shows "\<exists>s2. addDeltas (ds @ ms) s1 = Inr s2 \<and> advanced ctx s (ds @ ms) s2 g1"
proof -
  have pr: "enabled_all ds (vtree s)" "\<forall>d \<in> set ds. d_zxid d = z" "view_ok ctx (replay ds (vtree s)) g1 s1"
    using prep by (simp_all add: prepared_def)
  obtain e where e: "same_view (s\<lparr>ephemerals := e\<rparr>) s1" using prep by (auto simp: prepared_def)
  have s1: "us_inv s1" "vtree s1 = vtree s" "pending s1 = pending s" "ctree s1 = ctree s"
    using same_viewD [OF e] inv by simp_all
  have m: "enabled_all ms t \<and> replay ms t = t" for t
    using marks_replay marks by blast
  have en: "enabled_all (ds @ ms) (vtree s1)" "\<forall>d \<in> set (ds @ ms). d_zxid d = z"
      "\<forall>e \<in> set (pending s1). sint (d_zxid e) \<le> sint z"
    using pr(1,2) m old marks s1(2,3) by auto
  obtain us2 where us2: "addDeltas (ds @ ms) s1 = Inr (s1\<lparr>uncommitted_state := us2\<rparr>)"
    "us_inv (s1\<lparr>uncommitted_state := us2\<rparr>)" "pending (s1\<lparr>uncommitted_state := us2\<rparr>) = pending s1 @ ds @ ms"
    using addDeltas_ok [OF s1(1) en] by blast
  let ?s2 = "s1\<lparr>uncommitted_state := us2\<rparr>"
  have "vtree ?s2 = replay ds (vtree s)"
    using vtree_replay [OF us2(2)] vtree_replay [OF inv] us2(3) s1 m by simp
  then have "view_ok ctx (vtree ?s2) g1 ?s2" using pr(3) by (simp add: view_ok_def eph_ok_def)
  moreover have "moved s ?s2" using moved_trans [OF same_view_moved [OF e], of ?s2] by (simp add: moved_def)
  ultimately show ?thesis using us2 s1(3) by (auto simp: advanced_def)
qed

lemma prepared_error_state:
  assumes inv: "us_inv s" and prep: "prepared ctx z s [delta_error z e] s1 g1"
  shows "us_inv s1" "moved s s1" "pending s1 = pending s" "ctree s1 = ctree s" "vtree s1 = vtree s"
    "eph_ok s1 (vtree s)"
proof -
  obtain e where e: "same_view (s\<lparr>ephemerals := e\<rparr>) s1" using prep by (auto simp: prepared_def)
  show "us_inv s1" "pending s1 = pending s" "ctree s1 = ctree s" "vtree s1 = vtree s"
    using same_viewD [OF e] inv by simp_all
  show "moved s s1" using same_view_moved [OF e] .
  show "eph_ok s1 (vtree s)" using prep by (simp add: prepared_def view_ok_def tstep_def)
qed

section \<open>Rolling back\<close>

lemma rollback_pending:
  assumes inv: "us_inv s" and AB: "pending s = A @ B" "\<forall>d \<in> set B. d_zxid d = z" "\<forall>d \<in> set A. d_zxid d <s z"
    and eph: "owners_ok (ctree s)" "eph_ok s (vtree s)"
  shows "\<exists>s'. us_rollback z s = Inr s' \<and> us_inv s' \<and> moved s s' \<and> pending s' = A \<and>
     vtree s' = replay A (ctree s) \<and> eph_ok s' (replay A (ctree s))"
proof -
  obtain xs ys where xy: "us_deltas (uncommitted_state s) = xs @ ys" "map snd xs = A" "map snd ys = B"
    using AB(1) by (auto simp: pending_def map_eq_append_conv)
  have "\<forall>x \<in> set ys. d_zxid (snd x) = z" "\<forall>x \<in> set xs. d_zxid (snd x) <s z"
    using AB(2,3) xy(2,3) by force+
  from us_rollback_ok [OF inv xy(1) this eph] obtain us' e where
    r: "us_rollback z s = Inr (s\<lparr>ephemerals := e, uncommitted_state := us'\<rparr>)"
      "us_inv (s\<lparr>ephemerals := e, uncommitted_state := us'\<rparr>)" "us_deltas us' = xs"
      "eph_ok (s\<lparr>ephemerals := e, uncommitted_state := us'\<rparr>) (replay A (ctree s))"
    using xy(2) by blast
  moreover have "vtree (s\<lparr>ephemerals := e, uncommitted_state := us'\<rparr>) = replay A (ctree s)"
    using vtree_replay [OF r(2)] r(3) xy(2) by (simp add: pending_def)
  ultimately show ?thesis using movedI [of s us' e] xy(2) by (auto simp: pending_def)
qed

section \<open>Identities of the session\<close>

lemma austep_other: "\<forall>sid a. d_operation d \<noteq> AddAuthDelta sid a \<Longrightarrow> austep d A = A"
  by (simp add: austep_def split: Operation.split)

lemma fold_austep:
  assumes "\<forall>x \<in> set xs. (\<forall>i a. d_operation (snd x) = AddAuthDelta i a \<longrightarrow> d_path (snd x) = [])"
  shows "fold austep (map snd xs) A sid = A sid @ map snd (auth_pairs sid xs)"
  using assms
proof (induction xs arbitrary: A)
  case (Cons x xs)
  have "austep (snd x) A sid = A sid @ map snd (auth_pair sid x)"
    using Cons.prems by (auto simp: austep_def auth_pair_def split: Operation.split)
  then show ?case using Cons by (simp add: auth_pairs_def)
qed (simp add: auth_pairs_def)

lemma enabled_auth_path:
  "enabled_all ds t \<Longrightarrow> \<forall>d \<in> set ds. \<forall>i a. d_operation d = AddAuthDelta i a \<longrightarrow> d_path d = []"
  by (induction ds arbitrary: t) (auto simp: enabled_def)

lemma auths_pending:
  assumes "us_inv s"
  shows "authsInSession sid s = fold austep (pending s) (session_and_auth s) sid"
proof -
  let ?xs = "us_deltas (uncommitted_state s)"
  have "enabled_all (pending s) (ctree s)" using assms by (simp add: us_inv_def)
  then have "\<forall>d \<in> set (pending s). \<forall>i a. d_operation d = AddAuthDelta i a \<longrightarrow> d_path d = []"
    by (rule enabled_auth_path)
  then have "fold austep (pending s) (session_and_auth s) sid = session_and_auth s sid @ map snd (auth_pairs sid ?xs)"
    using fold_austep [of ?xs] by (fastforce simp: pending_def)
  moreover have "us_session_and_auth (uncommitted_state s) sid = opt_list (auth_pairs sid ?xs)"
    using assms by (simp add: us_inv_def us_struct_def maps_ok_def)
  ultimately show ?thesis by (simp add: authsInSession_def opt_list_def)
qed

lemma fixupACL_cong: "authsInSession sid s' = authsInSession sid s \<Longrightarrow> fixupACL acls sid s' = fixupACL acls sid s"
  by (simp add: fixupACL_def)

definition auth_free :: "Delta \<Rightarrow> bool" where
  "auth_free d \<longleftrightarrow> (\<forall>sid a. d_operation d \<noteq> AddAuthDelta sid a)"

lemma auth_free_fold: "\<forall>d \<in> set ds. auth_free d \<Longrightarrow> fold austep ds A = A"
  by (induction ds arbitrary: A) (auto simp: auth_free_def austep_other)

lemma advanced_auths:
  assumes "us_inv s" "advanced ctx s ds s' g'" "\<forall>d \<in> set ds. auth_free d"
  shows "authsInSession sid s' = authsInSession sid s"
  using assms auths_pending [of s sid] auths_pending [of s' sid] auth_free_fold [of ds] movedD(2) [of s s']
  by (simp add: advanced_def)

lemma plain_auth_free:
  assumes "plain_preprocess ctx r z sid time g s = (Inr nd, s1, g1)" "multi_kind r \<noteq> None"
  shows "\<forall>d \<in> set nd. auth_free d"
  using assms
  by (cases r)
    (auto simp: plain_preprocess_def create_preprocess_def remove_preprocess_def set_preprocess_def
      get_preprocess_def read_preprocess_def check_preprocess_def prep_error_def auth_free_def Let_def
      split: option.splits if_splits sum.splits dest!: prep_deltas_result prep_system_path_result)

section \<open>Multi requests\<close>

text \<open>The deltas of the parts, each closed by a mark.\<close>

fun parts_meet ::
  "(ACLs \<Rightarrow> ACLs option) \<Rightarrow> int64 \<Rightarrow> int64 \<Rightarrow> int64 \<Rightarrow> Request list \<Rightarrow> tree \<Rightarrow> Delta list \<Rightarrow> bool" where
  "parts_meet fix z sid time [] t all \<longleftrightarrow> all = []"
| "parts_meet fix z sid time (r # rs) t all \<longleftrightarrow>
     (\<exists>ds rest. all = ds @ delta_plain z SubDeltaEnd # rest \<and>
        implements fix z sid time r t ds \<and> parts_meet fix z sid time rs (replay ds t) rest)"

lemma spec_plain_dom:
  assumes "spec_plain fix z sid time r t = Inr t'"
  shows "\<exists>x. dom t' \<subseteq> insert x (dom t)"
proof (cases r)
  case (CreateRequest c)
  then show ?thesis
    using assms by (auto simp: spec_plain_def spec_create_def Let_def split: option.splits if_splits)
next
  case (RemoveRequest p v b)
  then show ?thesis
    using assms
    by (auto simp: spec_plain_def spec_remove_def Let_def split: option.splits if_splits
        intro!: exI [of _ "the (parentNodePath p)"])
next
  case (SetRequest p d v)
  then show ?thesis
    using assms by (auto simp: spec_plain_def spec_set_def Let_def split: option.splits if_splits)
qed (use assms in \<open>auto simp: spec_plain_def spec_set_acl_def spec_read_def spec_check_def
      split: option.splits if_splits bool.splits\<close>)

lemma spec_plain_card:
  assumes "spec_plain fix z sid time r t = Inr t'" "finite (dom t)"
  shows "card (dom t') \<le> Suc (card (dom t))"
proof -
  obtain x where "dom t' \<subseteq> insert x (dom t)" using spec_plain_dom [OF assms(1)] by blast
  then have "card (dom t') \<le> card (insert x (dom t))" using assms(2) by (intro card_mono) auto
  also have "\<dots> \<le> Suc (card (dom t))" using assms(2) by (simp add: card_insert_if)
  finally show ?thesis .
qed

lemma last_error_meets:
  assumes "meets z nd t res"
  shows "last_error nd = (case res of Inl e \<Rightarrow> Some e | Inr _ \<Rightarrow> None)"
proof (cases res)
  case (Inr t')
  then have "nd = [] \<or> normal (d_operation (last nd))" using assms last_in_set by auto
  then show ?thesis using Inr by (cases "d_operation (last nd)") (auto simp: last_error_def)
qed (use assms in \<open>simp add: last_error_def\<close>)

lemma meets_replay: "meets z nd t res \<Longrightarrow> replay nd t = (case res of Inl _ \<Rightarrow> t | Inr t' \<Rightarrow> t')"
  by (cases res) (auto simp: tstep_def)

lemma multi_part_ok:
  assumes inv: "us_inv s" and view: "view_ok ctx (vtree s) cur s" and run: "running ctx"
    and small: "small (vtree s)" and r: "valid_plain sid r" "multi_kind r \<noteq> None"
    and old: "\<forall>e \<in> set (pending s). sint (d_zxid e) \<le> sint z"
  shows "\<exists>nd s1 g1 s2. plain_preprocess ctx r z sid time cur s = (Inr nd, s1, g1) \<and> prepared ctx z s nd s1 g1 \<and>
     implements (\<lambda>acls. fixupACL acls sid s) z sid time r (vtree s) nd \<and>
     addDeltas (nd @ [delta_plain z SubDeltaEnd]) s1 = Inr s2 \<and>
     advanced ctx s (nd @ [delta_plain z SubDeltaEnd]) s2 g1 \<and> (\<forall>d \<in> set nd. d_zxid d = z) \<and>
     authsInSession sid s2 = authsInSession sid s"
proof -
  obtain nd s1 g1 where nd: "plain_preprocess ctx r z sid time cur s = (Inr nd, s1, g1)" "prepared ctx z s nd s1 g1"
    "implements (\<lambda>acls. fixupACL acls sid s) z sid time r (vtree s) nd"
    using plain_preprocess_implements [OF inv view run small r(1)] by blast
  have mark: "\<forall>d \<in> set [delta_plain z SubDeltaEnd]. d_zxid d = z \<and> d_path d = [] \<and> \<not> tree_op (d_operation d)" by simp
  obtain s2 where s2: "addDeltas (nd @ [delta_plain z SubDeltaEnd]) s1 = Inr s2"
    "advanced ctx s (nd @ [delta_plain z SubDeltaEnd]) s2 g1"
    using add_prepared [OF inv nd(2) old mark] by blast
  have "\<forall>d \<in> set (nd @ [delta_plain z SubDeltaEnd]). auth_free d"
    using plain_auth_free [OF nd(1) r(2)] by (auto simp: auth_free_def)
  from advanced_auths [OF inv s2(2) this] show ?thesis
    using nd s2 by (intro exI [of _ nd] exI [of _ s1] exI [of _ g1] exI [of _ s2]) (simp add: prepared_def)
qed

definition multi_failed :: "int64 \<Rightarrow> Error list \<Rightarrow> nat \<Rightarrow> nat \<Rightarrow> Error \<Rightarrow> Delta" where
  "multi_failed z errors n i e =
     delta_plain z (FailedMultiDelta (errors @ replicate i ZOK @ [e] @ replicate (n - Suc i) ZRUNTIMEINCONSISTENCY) ZOK)"

lemma multi_loop_write:
  assumes "us_inv s" "view_ok ctx (vtree s) cur s" "running ctx" "card (dom (vtree s)) + length rs < 2 ^ 32"
    "\<forall>r \<in> set rs. valid_plain sid r \<and> multi_kind r = Some KindWrite"
    "pending s = A @ B" "\<forall>d \<in> set B. d_zxid d = z" "\<forall>d \<in> set A. d_zxid d <s z" "owners_ok (ctree s)"
    "fx = (\<lambda>acls. fixupACL acls sid s)"
  shows "case spec_multi fx z sid time rs (vtree s) of
      Inr t' \<Rightarrow> \<exists>s' g' all. multi_preprocess_loop ctx (Some KindWrite) z sid time g rs errors cur s = (Inr [], s', g') \<and>
        advanced ctx s all s' g' \<and> parts_meet fx z sid time rs (vtree s) all \<and> vtree s' = t' \<and>
        (\<forall>d \<in> set all. d_zxid d = z)
    | Inl (i, e) \<Rightarrow> \<exists>s'. multi_preprocess_loop ctx (Some KindWrite) z sid time g rs errors cur s =
          (Inr [multi_failed z errors (length rs) i e], s', g) \<and>
        us_inv s' \<and> moved s s' \<and> pending s' = A \<and> eph_ok s' (replay A (ctree s))"
  using assms
proof (induction rs arbitrary: s cur B errors)
  case Nil
  then show ?case using moved_refl by (auto simp: advanced_def)
next
  case (Cons r rs)
  have old: "\<forall>e \<in> set (pending s). sint (d_zxid e) \<le> sint z"
    using Cons.prems(6-8) by (auto simp: word_sless_alt)
  have r: "valid_plain sid r" "multi_kind r = Some KindWrite" using Cons.prems(5) by simp_all
  have small: "small (vtree s)" using Cons.prems(4) by (simp add: small_def)
  obtain nd s1 g1 s2 where nd: "plain_preprocess ctx r z sid time cur s = (Inr nd, s1, g1)" "prepared ctx z s nd s1 g1"
    "implements fx z sid time r (vtree s) nd"
    "addDeltas (nd @ [delta_plain z SubDeltaEnd]) s1 = Inr s2" "advanced ctx s (nd @ [delta_plain z SubDeltaEnd]) s2 g1"
    "\<forall>d \<in> set nd. d_zxid d = z" "authsInSession sid s2 = authsInSession sid s"
    using multi_part_ok [OF Cons.prems(1-3) small r(1) _ old] r(2) unfolding Cons.prems(10) by blast
  have im: "meets z nd (vtree s) (spec_plain fx z sid time r (vtree s))" using nd(3) by (simp add: implements_def)
  show ?case
  proof (cases "spec_plain fx z sid time r (vtree s)")
    case (Inl e)
    then have e: "nd = [delta_error z e]" "last_error nd = Some e" using im last_error_meets [OF im] by auto
    note st = prepared_error_state [OF Cons.prems(1) nd(2) [unfolded e(1)]]
    obtain s' where s': "us_rollback z s1 = Inr s'" "us_inv s'" "moved s1 s'" "pending s' = A" "eph_ok s' (replay A (ctree s1))"
      using rollback_pending [OF st(1), of A B z] Cons.prems(6-9) st(3-6) by auto
    then show ?thesis
      using Inl nd(1) e moved_trans [OF st(2)] st(4) by (auto simp: multi_failed_def)
  next
    case (Inr t1)
    then have le: "last_error nd = None" using last_error_meets [OF im] by simp
    let ?ds = "nd @ [delta_plain z SubDeltaEnd]"
    have t1: "replay nd (vtree s) = t1" "vtree s2 = t1"
      using advanced_view [OF Cons.prems(1) nd(5)] meets_replay [OF im] Inr by (simp_all add: tstep_def)
    have a2: "us_inv s2" "moved s s2" "pending s2 = A @ B @ ?ds" "view_ok ctx (vtree s2) g1 s2"
      using nd(5) Cons.prems(6) by (simp_all add: advanced_def)
    have nxt: "card (dom (vtree s2)) + length rs < 2 ^ 32"
      "\<forall>r \<in> set rs. valid_plain sid r \<and> multi_kind r = Some KindWrite"
      "\<forall>d \<in> set (B @ ?ds). d_zxid d = z" "owners_ok (ctree s2)" "fx = (\<lambda>acls. fixupACL acls sid s2)"
      using spec_plain_card [OF Inr] view_okD(5) [OF Cons.prems(2)] Cons.prems(4,5,7,9,10) t1(2) nd(6)
        fixupACL_cong [OF nd(7)] movedD(1) [OF a2(2)] by auto
    have IH: "case spec_multi fx z sid time rs t1 of
      Inr t' \<Rightarrow> \<exists>s' g' all. multi_preprocess_loop ctx (Some KindWrite) z sid time g rs (errors @ [ZOK]) g1 s2 = (Inr [], s', g') \<and>
        advanced ctx s2 all s' g' \<and> parts_meet fx z sid time rs t1 all \<and> vtree s' = t' \<and>
        (\<forall>d \<in> set all. d_zxid d = z)
    | Inl (i, e) \<Rightarrow> \<exists>s'. multi_preprocess_loop ctx (Some KindWrite) z sid time g rs (errors @ [ZOK]) g1 s2 =
          (Inr [multi_failed z (errors @ [ZOK]) (length rs) i e], s', g) \<and>
        us_inv s' \<and> moved s2 s' \<and> pending s' = A \<and> eph_ok s' (replay A (ctree s2))"
      using Cons.IH [OF a2(1,4) Cons.prems(3) nxt(1,2) a2(3) nxt(3) Cons.prems(8) nxt(4,5), of "errors @ [ZOK]"]
      unfolding t1(2) .
    have loop: "multi_preprocess_loop ctx (Some KindWrite) z sid time g (r # rs) errors cur s =
       multi_preprocess_loop ctx (Some KindWrite) z sid time g rs (errors @ [ZOK]) g1 s2"
      using nd(1,4) le by simp
    show ?thesis
    proof (cases "spec_multi fx z sid time rs t1")
      case (Inl ie)
      obtain i e where ie: "ie = (i, e)" by (cases ie)
      with IH Inl obtain s' where
        "multi_preprocess_loop ctx (Some KindWrite) z sid time g rs (errors @ [ZOK]) g1 s2 =
          (Inr [multi_failed z (errors @ [ZOK]) (length rs) i e], s', g)"
        "us_inv s'" "moved s2 s'" "pending s' = A" "eph_ok s' (replay A (ctree s2))" by auto
      then show ?thesis
        using Inl ie \<open>spec_plain fx z sid time r (vtree s) = Inr t1\<close> loop moved_trans [OF a2(2)] movedD(1) [OF a2(2)]
        by (simp add: multi_failed_def)
    next
      case (Inr t')
      with IH obtain s' g' all where
        a: "multi_preprocess_loop ctx (Some KindWrite) z sid time g rs (errors @ [ZOK]) g1 s2 = (Inr [], s', g')"
        "advanced ctx s2 all s' g'" "parts_meet fx z sid time rs t1 all" "vtree s' = t'" "\<forall>d \<in> set all. d_zxid d = z" by auto
      have pm: "parts_meet fx z sid time (r # rs) (vtree s) (?ds @ all)"
        using nd(3) a(3) t1(1) unfolding parts_meet.simps
        by (intro exI [of _ nd] exI [of _ all]) simp
      have adv: "advanced ctx s (?ds @ all) s' g'" using advanced_trans [OF nd(5) a(2)] by simp
      have spec: "spec_multi fx z sid time (r # rs) (vtree s) = Inr t'"
        using Inr \<open>spec_plain fx z sid time r (vtree s) = Inr t1\<close> by simp
      have zx: "\<forall>d \<in> set (?ds @ all). d_zxid d = z" using a(5) nd(6) by auto
      show ?thesis
        unfolding spec sum.case(2) loop
        by (rule exI [of _ s'], rule exI [of _ g'], rule exI [of _ "?ds @ all"], intro conjI) (rule a adv pm zx)+
    qed
  qed
qed

lemma spec_read_only:
  "is_read r \<Longrightarrow> meets z nd t (spec_plain fx z sid time r t) \<Longrightarrow> replay nd t = t"
  using meets_replay [of z nd t] spec_plain_read [of r fx z sid time t] by (auto split: sum.splits)

lemma multi_loop_read:
  assumes "us_inv s" "view_ok ctx (vtree s) cur s" "running ctx" "small (vtree s)"
    "\<forall>r \<in> set rs. valid_plain sid r \<and> is_read r"
    "\<forall>e \<in> set (pending s). sint (d_zxid e) \<le> sint z" "fx = (\<lambda>acls. fixupACL acls sid s)"
  shows "\<exists>s' g' all. multi_preprocess_loop ctx (Some KindRead) z sid time g rs errors cur s = (Inr [], s', g') \<and>
     advanced ctx s all s' g' \<and> parts_meet fx z sid time rs (vtree s) all \<and> vtree s' = vtree s \<and>
     (\<forall>d \<in> set all. d_zxid d = z)"
  using assms
proof (induction rs arbitrary: s cur errors)
  case Nil
  then show ?case using moved_refl by (auto simp: advanced_def)
next
  case (Cons r rs)
  have r: "valid_plain sid r" "multi_kind r \<noteq> None" "is_read r" using Cons.prems(5) by (simp_all add: is_read_def)
  obtain nd s1 g1 s2 where nd: "plain_preprocess ctx r z sid time cur s = (Inr nd, s1, g1)" "prepared ctx z s nd s1 g1"
    "implements fx z sid time r (vtree s) nd"
    "addDeltas (nd @ [delta_plain z SubDeltaEnd]) s1 = Inr s2" "advanced ctx s (nd @ [delta_plain z SubDeltaEnd]) s2 g1"
    "\<forall>d \<in> set nd. d_zxid d = z" "authsInSession sid s2 = authsInSession sid s"
    using multi_part_ok [OF Cons.prems(1-4) r(1,2) Cons.prems(6)] unfolding Cons.prems(7) by blast
  have im: "meets z nd (vtree s) (spec_plain fx z sid time r (vtree s))" using nd(3) by (simp add: implements_def)
  let ?ds = "nd @ [delta_plain z SubDeltaEnd]"
  have t: "replay nd (vtree s) = vtree s" using spec_read_only [OF r(3) im] .
  then have v: "vtree s2 = vtree s" using advanced_view [OF Cons.prems(1) nd(5)] by (simp add: tstep_def)
  have a2: "us_inv s2" "view_ok ctx (vtree s2) g1 s2" using nd(5) by (simp_all add: advanced_def)
  have nxt: "small (vtree s2)" "\<forall>r \<in> set rs. valid_plain sid r \<and> is_read r"
    "\<forall>e \<in> set (pending s2). sint (d_zxid e) \<le> sint z" "fx = (\<lambda>acls. fixupACL acls sid s2)"
    using Cons.prems(4-7) v nd(5,6) fixupACL_cong [OF nd(7)] by (auto simp: advanced_def)
  obtain s' g' all where
    a: "multi_preprocess_loop ctx (Some KindRead) z sid time g rs (errors @ [ZOK]) g1 s2 = (Inr [], s', g')"
    "advanced ctx s2 all s' g'" "parts_meet fx z sid time rs (vtree s) all" "vtree s' = vtree s" "\<forall>d \<in> set all. d_zxid d = z"
    using Cons.IH [OF a2 Cons.prems(3) nxt, of "errors @ [ZOK]"] unfolding v by blast
  have "multi_preprocess_loop ctx (Some KindRead) z sid time g (r # rs) errors cur s = (Inr [], s', g')"
    using nd(1,4) a(1) by (simp split: option.split)
  moreover have "parts_meet fx z sid time (r # rs) (vtree s) (?ds @ all)"
    using nd(3) a(3) t unfolding parts_meet.simps by (intro exI [of _ nd] exI [of _ all]) simp
  moreover have "advanced ctx s (?ds @ all) s' g'" using advanced_trans [OF nd(5) a(2)] by simp
  ultimately show ?case using a(4,5) nd(6) by (intro exI [of _ s'] exI [of _ g'] exI [of _ "?ds @ all"]) auto
qed

lemma multi_processor_kind:
  assumes "multi_processor rs k = Inr kind"
  shows "(rs = [] \<longrightarrow> kind = k) \<and> (rs \<noteq> [] \<longrightarrow> kind \<noteq> None) \<and> (\<forall>r \<in> set rs. multi_kind r = kind) \<and>
     (k \<noteq> None \<longrightarrow> kind = k)"
  using assms
proof (induction rs arbitrary: k)
  case (Cons r rs)
  obtain k' where k': "multi_kind r = Some k'" "k = None \<or> k = Some k'" "multi_processor rs (Some k') = Inr kind"
    using Cons.prems by (auto split: option.splits if_splits)
  show ?case using Cons.IH [OF k'(3)] k'(1,2) by auto
qed simp

section \<open>Closing a session\<close>

lemma spec_remove_all_step:
  assumes p: "p \<notin> P" "p \<noteq> [slash]" "q \<noteq> p" "parentNodePath p = Some q" and t: "t p = Some n" "t q = Some pn"
    and q: "q \<notin> P" and fin: "finite P"
  shows "spec_remove_all P (t(q \<mapsto> remove_parent_update pn, p := None)) = spec_remove_all (insert p P) t"
proof
  fix r
  let ?t1 = "t(q \<mapsto> remove_parent_update pn, p := None)"
  have k: "kids ?t1 r \<inter> P = kids t r \<inter> P" using p(1) t by (auto simp: kids_def)
  consider "r = p" | "r = q" | "r \<noteq> p" "r \<noteq> q" by blast
  then show "spec_remove_all P ?t1 r = spec_remove_all (insert p P) t r"
  proof cases
    case 1
    then show ?thesis using p(1) by (simp add: spec_remove_all_def)
  next
    case 2
    have "p \<in> kids t q" using p t by (auto simp: kids_def)
    then have "kids t q \<inter> insert p P = insert p (kids t q \<inter> P)" by blast
    then have "card (kids t q \<inter> insert p P) = Suc (card (kids t q \<inter> P))" using p(1) fin by simp
    then show ?thesis using 2 k q p(3) t by (simp add: spec_remove_all_def funpow_swap1)
  next
    case 3
    then have "p \<notin> kids t r" using p(4) by (auto simp: kids_def)
    then have "kids t r \<inter> insert p P = kids t r \<inter> P" by blast
    then show ?thesis using 3 k by (simp add: spec_remove_all_def)
  qed
qed

lemma close_deltas_ok:
  assumes "tree_wf t" "distinct ps" "set ps \<subseteq> owned sid t"
  shows "\<exists>ds. close_deltas z sid ps = Inr ds \<and> enabled_all ds t \<and> (\<forall>d \<in> set ds. d_zxid d = z) \<and>
     fresh_creates P ds \<and> replay ds t = spec_remove_all (set ps) t \<and> tree_wf (replay ds t) \<and>
     (\<forall>a. fold astep ds a = a |` (- set ps)) \<and>
     (\<forall>d \<in> set ds. auth_free d \<and> delta_result d = ZOK \<and> d_operation d \<noteq> SubDeltaEnd \<and> \<not> failed_multi (d_operation d))"
  using assms
proof (induction ps arbitrary: t P)
  case Nil
  then show ?case
    by (simp add: enabled_def tstep_def astep_def spec_remove_all_def auth_free_def delta_result_def option.map_ident fun_eq_iff id_def)
next
  case (Cons p ps)
  obtain n where n: "t p = Some n" "n_is_ephemeral n" "ephemeralOwner n = sid" using Cons.prems(3) by (auto simp: owned_def)
  have k: "kids t p = {}" using no_kids_ephemeral [OF Cons.prems(1) n(1,2)] .
  have root: "p \<noteq> [slash]" using root_not_removable [OF Cons.prems(1) k] .
  have user: "user_path p" using tree_wfD(8) [OF Cons.prems(1) n(1,2)] .
  obtain q pn where q: "parentNodePath p = Some q" "t q = Some pn" "\<not> n_is_ephemeral pn"
    using tree_wfD(5) [OF Cons.prems(1) n(1) root] by blast
  have neq: "q \<noteq> p" using parent_neq [OF q(1) root] .
  have uq: "user_path q" using user_path_parent [OF user q(1) tree_wfD(4) [OF Cons.prems(1) n(1) root]] .
  let ?t1 = "t(q \<mapsto> remove_parent_update pn, p := None)"
  have wf1: "tree_wf ?t1" using tree_wf_remove [OF Cons.prems(1) n(1) user k q(1,2)] by simp
  have own: "set ps \<subseteq> owned sid ?t1" "q \<notin> set ps"
    using Cons.prems(2,3) q(2,3) by (auto simp: owned_def)
  have dist: "distinct ps" using Cons.prems(2) by simp
  obtain ds where ds: "close_deltas z sid ps = Inr ds" "enabled_all ds ?t1" "\<forall>d \<in> set ds. d_zxid d = z"
    "fresh_creates (insert p (insert q P)) ds" "replay ds ?t1 = spec_remove_all (set ps) ?t1" "tree_wf (replay ds ?t1)"
    "\<forall>a. fold astep ds a = a |` (- set ps)"
    "\<forall>d \<in> set ds. auth_free d \<and> delta_result d = ZOK \<and> d_operation d \<noteq> SubDeltaEnd \<and> \<not> failed_multi (d_operation d)"
    using Cons.IH [OF wf1 dist own(1), of "insert p (insert q P)"] by blast
  let ?d1 = "delta_at q z (UpdateNodeDelta RemoveParentUpdate (-1))" and ?d2 = "delta_at p z (RemoveNodeDelta (-1) sid)"
  have st: "tstep ?d2 (tstep ?d1 t) = ?t1" using q(2) by (simp add: tstep_def)
  have "kids (t(q \<mapsto> remove_parent_update pn)) p = {}" using k kids_dom_upd [of t q] q(2) by simp
  then have "enabled ?d1 t" "enabled ?d2 (tstep ?d1 t)"
    using n q user uq neq root parent_nonempty [OF q(1)] by (auto simp: enabled_def tstep_def numChildren_def)
  moreover have "replay ds ?t1 = spec_remove_all (set (p # ps)) t"
    using ds(5) spec_remove_all_step [OF _ root neq q(1) n(1) q(2) own(2)] Cons.prems(2) by simp
  moreover have "fold astep ds (astep ?d2 (astep ?d1 a)) = a |` (- set (p # ps))" for a
    using ds(7) by (auto simp: astep_def restrict_map_def)
  ultimately show ?case
    using ds q(1) st by (intro exI [of _ "?d1 # ?d2 # ds"]) (simp add: auth_free_def delta_result_def)
qed

lemma owned_eph_set: "owned sid t = eph_set t sid"
  by (simp add: owned_def eph_set_def)

text \<open>After closing a session no node of it is left, and the nodes of the others are untouched.\<close>

lemma eph_set_close:
  "eph_set (spec_close sid t) k = (if k = sid then {} else eph_set t k)" if "tree_wf t"
proof -
  have f: "n_is_ephemeral ((remove_parent_update ^^ i) n) = n_is_ephemeral n" for i n
    by (induction i) simp_all
  have "map_option (remove_parent_update ^^ card (kids t p \<inter> owned sid t)) (t p) = t p" if "t p = Some n" "n_is_ephemeral n" for p n
    using no_kids_ephemeral [OF \<open>tree_wf t\<close> that] that(1) by simp
  then have e: "(\<exists>n. map_option (remove_parent_update ^^ card (kids t p \<inter> owned sid t)) (t p) = Some n \<and>
      n_is_ephemeral n \<and> ephemeralOwner n = k) \<longleftrightarrow> p \<in> eph_set t k" for p
    using f by (cases "t p") (auto simp: eph_set_def)
  have "p \<in> eph_set (spec_close sid t) k \<longleftrightarrow> p \<in> eph_set t k - owned sid t" for p
    using e [of p] unfolding eph_set_def [of "spec_close sid t"] mem_Collect_eq
    by (cases "p \<in> owned sid t") (simp_all add: spec_close_def spec_remove_all_def)
  then have "eph_set (spec_close sid t) k = eph_set t k - owned sid t" by blast
  moreover have "eph_set t k - owned sid t = (if k = sid then {} else eph_set t k)"
    by (auto simp: owned_eph_set eph_set_def)
  ultimately show ?thesis by simp
qed

lemma close_preprocess_ok:
  assumes inv: "us_inv s" and view: "view_ok ctx (vtree s) g s"
  shows "\<exists>ds s' g'. close_preprocess ctx z sid g s = (Inr ds, s', g') \<and> prepared ctx z s ds s' g' \<and>
     replay ds (vtree s) = spec_close sid (vtree s) \<and> (\<forall>a. fold astep ds a = close_acls sid (vtree s) a) \<and>
     (\<forall>d \<in> set ds. auth_free d \<and> delta_result d = ZOK \<and> d_operation d \<noteq> SubDeltaEnd \<and> \<not> failed_multi (d_operation d))"
proof -
  note v = view_okD [OF view]
  define ps where "ps = (case ephemerals s sid of None \<Rightarrow> [] | Some ps \<Rightarrow> ps)"
  have "eph_entry (ephemerals s sid) (eph_set (vtree s) sid)" using v(3) by (simp add: eph_ok_def)
  then have ps: "distinct ps" "set ps = owned sid (vtree s)"
    by (auto simp: ps_def eph_entry_def owned_eph_set split: option.splits)
  obtain ds where ds: "close_deltas z sid ps = Inr ds" "enabled_all ds (vtree s)" "\<forall>d \<in> set ds. d_zxid d = z"
    "fresh_creates {} ds" "replay ds (vtree s) = spec_close sid (vtree s)" "tree_wf (replay ds (vtree s))"
    "\<forall>a. fold astep ds a = close_acls sid (vtree s) a"
    "\<forall>d \<in> set ds. auth_free d \<and> delta_result d = ZOK \<and> d_operation d \<noteq> SubDeltaEnd \<and> \<not> failed_multi (d_operation d)"
    using close_deltas_ok [OF v(1) ps(1), of sid z "{}"] ps(2) by (auto simp: spec_close_def close_acls_def)
  have "eph_ok (s\<lparr>ephemerals := (ephemerals s)(sid := None)\<rparr>) (replay ds (vtree s))"
    using v(3) eph_set_close [OF v(1), of sid] by (simp add: eph_ok_def ds(5) eph_entry_def)
  from prep_deltas_prepared [OF inv view ds(2,4,3,6) this] ds(1,5,7,8) show ?thesis
    unfolding close_preprocess_def ps_def [symmetric] by auto
qed

end
