(* ===== verification/KeeperLog.thy ===== *)
theory KeeperLog
  imports KeeperMulti
begin

text \<open>
  The storage as a log of requests: every pending transaction is a request with the deltas that
  preprocessing gave it. The invariant relates storage and log; preprocessing appends an entry,
  processing commits the first one and rolling back drops the last one.
\<close>

section \<open>Log entries\<close>

record LogEntry =
  e_req :: Request
  e_session :: int64
  e_time :: int64
  e_zxid :: int64
  e_fix :: "ACLs \<Rightarrow> ACLs option"
  e_deltas :: "Delta list"

text \<open>Requests that the storage answers: creating only if absent a node that is there and reading an absent system node are the
  exceptions, and creating only if absent as a part of a multi request.\<close>

definition answerable_plain :: "tree \<Rightarrow> Request \<Rightarrow> bool" where
  "answerable_plain t req =
     (case req of
        CreateRequest r \<Rightarrow> cr_not_exists r \<longrightarrow> t (cr_path r) = None
      | GetRequest p _ \<Rightarrow> special_path p \<longrightarrow> p = keeper_config_path \<or> t p \<noteq> None
      | _ \<Rightarrow> True)"

definition answerable_part :: "tree \<Rightarrow> Request \<Rightarrow> bool" where
  "answerable_part t req \<longleftrightarrow> answerable_plain t req \<and> (case req of CreateRequest r \<Rightarrow> \<not> cr_not_exists r | _ \<Rightarrow> True)"

definition answerable :: "tree \<Rightarrow> Request \<Rightarrow> bool" where
  "answerable t req =
     (case req of
        MultiRequest rs _ \<Rightarrow> \<forall>r \<in> set rs. answerable_part t r
      | _ \<Rightarrow> answerable_plain t req)"

definition auth_path_ok :: "Request \<Rightarrow> bool" where
  "auth_path_ok req = (case req of CheckRequest p _ _ \<Rightarrow> slash \<in> set p | _ \<Rightarrow> True)"

text \<open>A request whose processor can be constructed and that avoids undefined behaviour.\<close>

definition valid_request :: "int64 \<Rightarrow> Request \<Rightarrow> bool" where
  "valid_request sid req =
     (case req of
        MultiRequest rs _ \<Rightarrow> rs \<noteq> [] \<and> (\<forall>r \<in> set rs. valid_plain sid r \<and> auth_path_ok r) \<and> (\<exists>k. multi_processor rs None = Inr k)
      | ReconfigRequest _ _ _ _ \<Rightarrow> False
      | SessionIDRequest _ _ _ \<Rightarrow> False
      | _ \<Rightarrow> valid_plain sid req \<and> auth_path_ok req)"

text \<open>What the deltas of an entry are, on the tree before it: the refusal, the removal of the ephemeral
  nodes, the parts of a multi request or its failure, or what a plain request means.\<close>

definition multi_entry_ok :: "LogEntry \<Rightarrow> Request list \<Rightarrow> tree \<Rightarrow> bool" where
  "multi_entry_ok e rs t \<longleftrightarrow>
     (if \<forall>r \<in> set rs. is_read r
      then parts_meet (e_fix e) (e_zxid e) (e_session e) (e_time e) rs t (e_deltas e)
      else case spec_multi (e_fix e) (e_zxid e) (e_session e) (e_time e) rs t of
             Inr t' \<Rightarrow> parts_meet (e_fix e) (e_zxid e) (e_session e) (e_time e) rs t (e_deltas e) \<and>
                       replay (e_deltas e) t = t'
           | Inl (i, err) \<Rightarrow> e_deltas e = [multi_failed (e_zxid e) [] (length rs) i err])"

definition closing :: "Delta \<Rightarrow> bool" where
  "closing d \<longleftrightarrow>
     auth_free d \<and> delta_result d = ZOK \<and> d_operation d \<noteq> SubDeltaEnd \<and> \<not> failed_multi (d_operation d)"

definition denied :: "LogEntry \<Rightarrow> bool" where
  "denied e \<longleftrightarrow> e_deltas e = [no_auth_delta (e_zxid e) (e_req e)]"

definition entry_ok :: "LogEntry \<Rightarrow> tree \<Rightarrow> bool" where
  "entry_ok e t \<longleftrightarrow>
     valid_request (e_session e) (e_req e) \<and> answerable t (e_req e) \<and>
     (e_req e \<noteq> CloseRequest \<and> (\<nexists>p. e_req e = SyncRequest p) \<and> denied e \<or>
      (case e_req e of
         CloseRequest \<Rightarrow>
           replay (e_deltas e) t = spec_close (e_session e) t \<and> (\<forall>a. fold astep (e_deltas e) a = close_acls (e_session e) t a) \<and>
           (\<forall>d \<in> set (e_deltas e). closing d)
       | MultiRequest rs _ \<Rightarrow> multi_entry_ok e rs t
       | req \<Rightarrow> implements (e_fix e) (e_zxid e) (e_session e) (e_time e) req t (e_deltas e)))"

fun chain :: "KeeperContext \<Rightarrow> tree \<Rightarrow> LogEntry list \<Rightarrow> TransactionInfo list \<Rightarrow> bool" where
  "chain ctx t [] [] = True"
| "chain ctx t (e # L) (x # X) =
     (entry_ok e t \<and> (\<forall>d \<in> set (e_deltas e). d_zxid d = e_zxid e) \<and> tree_wf (replay (e_deltas e) t) \<and>
      t_zxid x = e_zxid e \<and>
      (digestEnabled ctx \<longrightarrow>
         t_nodes_digest x = \<lparr>dg_version = CURRENT_DIGEST_VERSION, dg_value = tree_digest (replay (e_deltas e) t)\<rparr>) \<and>
      chain ctx (replay (e_deltas e) t) L X)"
| "chain ctx t _ _ = False"

definition log_deltas :: "LogEntry list \<Rightarrow> Delta list" where
  "log_deltas L = concat (map e_deltas L)"

definition zlt :: "int64 \<Rightarrow> int64 \<Rightarrow> bool" where
  "zlt a b \<longleftrightarrow> sint a < sint b"

definition log_inv :: "KeeperContext \<Rightarrow> KeeperStorage \<Rightarrow> LogEntry list \<Rightarrow> bool" where
  "log_inv ctx s L \<longleftrightarrow>
     cinv ctx s \<and> us_inv s \<and> names_ok (ctree s) (names s) \<and> proper (ctree s) \<and> tree_wf (ctree s) \<and>
     eph_ok s (vtree s) \<and> pending s = log_deltas L \<and> chain ctx (ctree s) L (uncommitted_transactions s) \<and>
     sorted_wrt zlt (ks_zxid s # map e_zxid L) \<and> queue_inv (session_expiry_queue s) \<and> initialized s"

lemma log_deltas_simps [simp]:
  "log_deltas [] = []" "log_deltas (e # L) = e_deltas e @ log_deltas L" "log_deltas (L @ M) = log_deltas L @ log_deltas M"
  by (simp_all add: log_deltas_def)

lemma chain_length: "chain ctx t L X \<Longrightarrow> length X = length L"
  by (induction ctx t L X rule: chain.induct) auto

lemma chain_zxids: "chain ctx t L X \<Longrightarrow> map t_zxid X = map e_zxid L"
  by (induction ctx t L X rule: chain.induct) auto

lemma chain_snoc:
  "length X = length L \<Longrightarrow> chain ctx t (L @ [e]) (X @ [x]) \<longleftrightarrow>
     chain ctx t L X \<and> chain ctx (replay (log_deltas L) t) [e] [x]"
  by (induction X L arbitrary: t rule: list_induct2) auto

lemma chain_wf: "chain ctx t L X \<Longrightarrow> tree_wf t \<Longrightarrow> tree_wf (replay (log_deltas L) t)"
  by (induction ctx t L X rule: chain.induct) auto

lemma chain_deltas_zxid: "chain ctx t L X \<Longrightarrow> d \<in> set (log_deltas L) \<Longrightarrow> d_zxid d \<in> set (map e_zxid L)"
  by (induction ctx t L X rule: chain.induct) auto

lemma chain_digest:
  assumes "chain ctx t L X" "digestEnabled ctx" "X \<noteq> []"
  shows "t_nodes_digest (last X) = \<lparr>dg_version = CURRENT_DIGEST_VERSION, dg_value = tree_digest (replay (log_deltas L) t)\<rparr>"
  using assms
proof (induction ctx t L X rule: chain.induct)
  case (2 ctx t e L x X)
  then show ?case by (cases "X = []"; cases L) auto
qed auto

lemma log_invD:
  assumes "log_inv ctx s L"
  shows "cinv ctx s" "us_inv s" "names_ok (ctree s) (names s)" "proper (ctree s)" "tree_wf (ctree s)"
    "eph_ok s (vtree s)" "pending s = log_deltas L" "chain ctx (ctree s) L (uncommitted_transactions s)"
    "sorted_wrt zlt (ks_zxid s # map e_zxid L)" "queue_inv (session_expiry_queue s)" "initialized s"
  using assms by (simp_all add: log_inv_def)

lemma log_view: "log_inv ctx s L \<Longrightarrow> vtree s = replay (log_deltas L) (ctree s)"
  using vtree_replay log_invD(2,7) by metis

text \<open>The digest the storage reports is that of the view.\<close>

lemma log_view_ok:
  assumes inv: "log_inv ctx s L"
  shows "view_ok ctx (vtree s) (dg_value (getNodesDigest ctx False s)) s"
proof -
  note l = log_invD [OF inv]
  have wf: "tree_wf (vtree s)" using chain_wf [OF l(8,5)] log_view [OF inv] by simp
  have pr: "proper (vtree s)"
    using proper_replay [OF l(4)] l(2,7) log_view [OF inv] by (simp add: us_inv_def)
  have "dg_value (getNodesDigest ctx False s) = tree_digest (vtree s)" if d: "digestEnabled ctx"
  proof (cases "uncommitted_transactions s = []")
    case True
    then have "L = []" using chain_length [OF l(8)] by simp
    then show ?thesis using True d cinv_facts(6) [OF l(1)] log_view [OF inv] by (simp add: getNodesDigest_def)
  next
    case False
    then show ?thesis using d chain_digest [OF l(8) d False] log_view [OF inv] by (simp add: getNodesDigest_def)
  qed
  then show ?thesis using wf pr l(6) by (simp add: view_ok_def)
qed

section \<open>Access checks\<close>

text \<open>On a storage in good order the checks always have a result.\<close>

lemma checkACL_total:
  assumes "cinv ctx s"
  shows "\<exists>b. checkACL p perm sid is_local s = Inr b"
proof -
  have ok: "acls_ok (acl_map s) (contents_of s)" using cinv_facts(7) [OF assms] .
  have "\<exists>a. convertNumber (n_acl_id n) (acl_map s) = Inr a" if "ht_find (container s) p = Some n" for n
    using ok that by (auto simp: acls_ok_def contents_of_def convertNumber_lookup split: option.split)
  then have "\<exists>a. getNodeACLs p is_local s = Inr a"
    by (auto simp: getNodeACLs_def us_getACLs_def split: option.split)
  then show ?thesis by (auto simp: checkACL_def)
qed

lemma checkACL_parent_total:
  assumes "cinv ctx s" "slash \<in> set p"
  shows "\<exists>b. checkACL_parent p perm sid is_local s = Inr b"
  using checkACL_total [OF assms(1)] assms(2) parentNodePath_None [of p]
  by (auto simp: checkACL_parent_def split: option.split)

lemma plain_checkAuth_total:
  assumes "cinv ctx s" "valid_plain sid req" "auth_path_ok req"
  shows "\<exists>b. plain_checkAuth req sid is_local s = Inr b"
  using checkACL_total [OF assms(1)] checkACL_parent_total [OF assms(1)] assms(2,3)
  by (cases req) (auto simp: plain_checkAuth_def valid_plain_def auth_path_ok_def)

lemma multi_checkAuth_total:
  assumes "cinv ctx s" "\<forall>r \<in> set rs. valid_plain sid r \<and> auth_path_ok r"
  shows "\<exists>b. multi_checkAuth rs sid is_local s = Inr b"
  using assms(2)
proof (induction rs)
  case (Cons r rs)
  have "\<exists>b. plain_checkAuth r sid is_local s = Inr b" using plain_checkAuth_total [OF assms(1)] Cons.prems by simp
  then obtain b where "plain_checkAuth r sid is_local s = Inr b" by blast
  then show ?case using Cons by (cases b) (simp, simp, blast)
qed (auto intro: exI [of _ True])

lemma checkAuth_total:
  assumes "cinv ctx s" "valid_request sid req"
  shows "\<exists>b. checkAuth req sid is_local s = Inr b"
  using plain_checkAuth_total [OF assms(1)] multi_checkAuth_total [OF assms(1)] assms(2)
  by (cases req) (auto simp: checkAuth_def valid_request_def)

section \<open>Preprocessing a request\<close>

text \<open>The deltas \<open>all\<close> of the request: some are added already, the others are returned.\<close>

definition staged :: "KeeperContext \<Rightarrow> int64 \<Rightarrow> KeeperStorage \<Rightarrow> Delta list \<Rightarrow> prep \<Rightarrow> bool" where
  "staged ctx z s all r \<longleftrightarrow>
     (\<exists>B ds s' g'. r = (Inr ds, s', g') \<and> all = B @ ds \<and> us_inv s' \<and> moved s s' \<and> pending s' = pending s @ B \<and>
        enabled_all ds (vtree s') \<and> (\<forall>d \<in> set all. d_zxid d = z) \<and> view_ok ctx (replay ds (vtree s')) g' s')"

lemma staged_prepared:
  assumes inv: "us_inv s" and prep: "prepared ctx z s ds s' g'"
  shows "staged ctx z s ds (Inr ds, s', g')"
proof -
  obtain e where e: "same_view (s\<lparr>ephemerals := e\<rparr>) s'" using prep by (auto simp: prepared_def)
  have "us_inv s'" "vtree s' = vtree s" "pending s' = pending s" using same_viewD [OF e] inv by simp_all
  then show ?thesis using prep same_view_moved [OF e] by (simp add: staged_def prepared_def)
qed

lemma staged_advanced:
  assumes "advanced ctx s all s' g'" "\<forall>d \<in> set all. d_zxid d = z"
  shows "staged ctx z s all (Inr [], s', g')"
  using assms by (simp add: staged_def advanced_def)

lemma staged_mark:
  assumes "us_inv s'" "moved s s'" "pending s' = pending s" "view_ok ctx (vtree s') g' s'"
    "d_zxid d = z" "d_path d = []" "\<not> tree_op (d_operation d)"
  shows "staged ctx z s [d] (Inr [d], s', g')"
  using assms tstep_mark [of d "vtree s'"] by (simp add: staged_def)

lemma multi_preprocess_staged:
  assumes inv: "log_inv ctx s L" and run: "running ctx" and z: "\<forall>d \<in> set (pending s). d_zxid d <s z"
    and small: "card (dom (vtree s)) + length rs < 2 ^ 32"
    and rs: "valid_request sid (MultiRequest rs k)" and g: "g = dg_value (getNodesDigest ctx False s)"
  defines "fx \<equiv> \<lambda>acls. fixupACL acls sid s"
  shows "\<exists>all. staged ctx z s all (multi_preprocess ctx rs z sid time g s) \<and>
     multi_entry_ok \<lparr>e_req = MultiRequest rs k, e_session = sid, e_time = time, e_zxid = z, e_fix = fx, e_deltas = all\<rparr>
       rs (vtree s)"
proof -
  note l = log_invD [OF inv]
  have view: "view_ok ctx (vtree s) g s" using log_view_ok [OF inv] g by simp
  obtain kind where kind: "multi_processor rs None = Inr kind" and valid: "rs \<noteq> []" "\<forall>r \<in> set rs. valid_plain sid r"
    using rs by (auto simp: valid_request_def)
  note mk = multi_processor_kind [OF kind]
  have old: "\<forall>e \<in> set (pending s). sint (d_zxid e) \<le> sint z" using z by (auto simp: word_sless_alt)
  have sm: "small (vtree s)" using small by (simp add: small_def)
  have own: "owners_ok (ctree s)" using tree_wfD(7) [OF l(5)] by (auto simp: owners_ok_def)
  have base: "replay (pending s) (ctree s) = vtree s" using vtree_replay [OF l(2)] by simp
  obtain k' where k': "kind = Some k'" using mk valid(1) by blast
  show ?thesis
  proof (cases k')
    case KindRead
    then have rd: "\<forall>r \<in> set rs. valid_plain sid r \<and> is_read r" using mk k' valid(2) by (auto simp: is_read_def)
    obtain s' g' all where a: "multi_preprocess_loop ctx (Some KindRead) z sid time g rs [] g s = (Inr [], s', g')"
      "advanced ctx s all s' g'" "parts_meet fx z sid time rs (vtree s) all" "\<forall>d \<in> set all. d_zxid d = z"
      using multi_loop_read [OF l(2) view run sm rd old, of fx] unfolding fx_def by blast
    then show ?thesis
      using staged_advanced [OF a(2,4)] kind k' KindRead rd
      by (intro exI [of _ all]) (simp add: multi_preprocess_def multi_entry_ok_def)
  next
    case KindWrite
    then have wr: "\<forall>r \<in> set rs. valid_plain sid r \<and> multi_kind r = Some KindWrite" using mk k' valid(2) by auto
    have nr: "(\<forall>r \<in> set rs. is_read r) = False" using wr valid(1) by (cases rs) (auto simp: is_read_def)
    have p: "pending s = pending s @ []" by simp
    note loop = multi_loop_write [OF l(2) view run small wr p _ z own refl [of fx, unfolded fx_def], of time g "[]", folded fx_def, simplified]
    show ?thesis
    proof (cases "spec_multi fx z sid time rs (vtree s)")
      case (Inl ie)
      obtain i e where ie: "ie = (i, e)" by (cases ie)
      obtain s' where s': "multi_preprocess_loop ctx (Some KindWrite) z sid time g rs [] g s =
          (Inr [multi_failed z [] (length rs) i e], s', g)"
        "us_inv s'" "moved s s'" "pending s' = pending s" "eph_ok s' (vtree s)"
        using loop Inl ie base by auto
      have "vtree s' = vtree s" using vtree_replay [OF s'(2)] s'(4) movedD(1) [OF s'(3)] base by simp
      then have "view_ok ctx (vtree s') g s'" using view s'(5) by (simp add: view_ok_def)
      from staged_mark [OF s'(2-4) this, of "multi_failed z [] (length rs) i e" z] s'(1) show ?thesis
        unfolding multi_entry_ok_def LogEntry.simps nr using kind k' KindWrite Inl ie
        by (intro exI [of _ "[multi_failed z [] (length rs) i e]"]) (simp add: multi_preprocess_def multi_failed_def)
    next
      case (Inr t')
      then obtain s' g' all where a: "multi_preprocess_loop ctx (Some KindWrite) z sid time g rs [] g s = (Inr [], s', g')"
        "advanced ctx s all s' g'" "parts_meet fx z sid time rs (vtree s) all" "vtree s' = t'" "\<forall>d \<in> set all. d_zxid d = z"
        using loop by auto
      have "replay all (vtree s) = t'" using advanced_view [OF l(2) a(2)] a(4) by simp
      then show ?thesis
        unfolding multi_entry_ok_def LogEntry.simps nr using staged_advanced [OF a(2,5)] a(1,3) kind k' KindWrite Inr
        by (intro exI [of _ all]) (simp add: multi_preprocess_def)
    qed
  qed
qed

text \<open>The zxid of the last transaction, or of the committed state.\<close>

definition last_zxid :: "KeeperStorage \<Rightarrow> int64" where
  "last_zxid s = (if uncommitted_transactions s = [] then ks_zxid s else t_zxid (last (uncommitted_transactions s)))"

lemma log_last_zxid:
  assumes inv: "log_inv ctx s L"
  shows "getNextZXID s - 1 = last_zxid s" "last_zxid s = last (ks_zxid s # map e_zxid L)"
proof -
  show "getNextZXID s - 1 = last_zxid s" by (simp add: getNextZXID_def last_zxid_def)
  have "map t_zxid (uncommitted_transactions s) = map e_zxid L" using chain_zxids log_invD(8) [OF inv] by blast
  then show "last_zxid s = last (ks_zxid s # map e_zxid L)"
    by (auto simp: last_zxid_def) (metis last_map map_is_Nil_conv)+
qed

lemma sorted_last: "sorted_wrt zlt xs \<Longrightarrow> x \<in> set xs \<Longrightarrow> x = last xs \<or> zlt x (last xs)"
  by (induction xs) auto

lemma log_pending_before:
  assumes inv: "log_inv ctx s L" and z: "last_zxid s <s z" and d: "d \<in> set (pending s)"
  shows "d_zxid d <s z"
proof -
  note l = log_invD [OF inv]
  have "d_zxid d \<in> set (map e_zxid L)" using chain_deltas_zxid [OF l(8)] d l(7) by simp
  then have "d_zxid d = last_zxid s \<or> zlt (d_zxid d) (last_zxid s)"
    using sorted_last [OF l(9)] log_last_zxid(2) [OF inv] by auto
  then show ?thesis using z by (auto simp: zlt_def word_sless_alt)
qed

lemma no_auth_delta_facts [simp]:
  "d_zxid (no_auth_delta z req) = z" "d_path (no_auth_delta z req) = []" "\<not> tree_op (d_operation (no_auth_delta z req))"
  by (cases req; simp add: no_auth_delta_def)+

lemma push_delta_ok:
  assumes inv: "us_inv s" and d: "d_path d = []" "\<not> tree_op (d_operation d)" "auth_free d"
      "\<forall>sid. d_operation d \<noteq> CloseSessionDelta sid"
    and old: "\<forall>e \<in> set (pending s). sint (d_zxid e) \<le> sint (d_zxid d)"
  shows "us_inv (push_delta d s)" "moved s (push_delta d s)" "pending (push_delta d s) = pending s @ [d]"
proof -
  let ?us = "uncommitted_state s"
  let ?us' = "?us\<lparr>us_deltas := us_deltas ?us @ [(us_next ?us, d)], us_next := Suc (us_next ?us)\<rparr>"
  have "addDelta d s = Inr (s\<lparr>uncommitted_state := ?us'\<rparr>)"
    using d by (cases "d_operation d") (auto simp: addDelta_def auth_free_def Let_def)
  moreover have "enabled d (vtree s)" using tstep_mark [of d "vtree s"] d by simp
  ultimately have "us_inv (s\<lparr>uncommitted_state := ?us'\<rparr>) \<and> pending (s\<lparr>uncommitted_state := ?us'\<rparr>) = pending s @ [d]"
    using addDelta_ok [OF inv, of d] old by (auto simp: later_than_def)
  then show "us_inv (push_delta d s)" "pending (push_delta d s) = pending s @ [d]" "moved s (push_delta d s)"
    by (simp_all add: push_delta_def Let_def moved_def)
qed

section \<open>Refused requests\<close>

lemma normal_facts: "normal op \<Longrightarrow> op \<noteq> SubDeltaEnd \<and> \<not> failed_multi op"
  by (cases op) auto

lemma parts_front:
  assumes "parts_meet fx z sid time rs t all" "rs \<noteq> []"
  shows "\<exists>d ds. all = d # ds \<and> \<not> failed_multi (d_operation d)"
proof -
  obtain r rs' where r: "rs = r # rs'" using assms(2) by (cases rs) auto
  obtain ds tl where ds: "all = ds @ delta_plain z SubDeltaEnd # tl" "implements fx z sid time r t ds"
    using assms(1) r by auto
  then have "\<forall>d \<in> set ds. \<not> failed_multi (d_operation d)"
    using normal_facts by (cases "spec_plain fx z sid time r t") (auto simp: implements_def)
  then show ?thesis using ds(1) by (cases ds) auto
qed

lemma spec_plain_auth: "spec_plain fx z sid time req t \<noteq> Inl ZNOAUTH"
  by (cases req) (auto simp: spec_plain_def spec_create_def spec_remove_def spec_set_def spec_set_acl_def spec_check_def
      spec_read_def Let_def split: option.split bool.split)

text \<open>What a request means is never a refusal.\<close>

lemma implements_not_denied:
  assumes "implements (e_fix e) (e_zxid e) (e_session e) (e_time e) (e_req e) t (e_deltas e)" "\<nexists>rs k. e_req e = MultiRequest rs k"
  shows "\<not> denied e"
proof
  assume d: "denied e"
  have n: "no_auth_delta z (e_req e) = delta_error z ZNOAUTH" for z using assms(2) by (cases "e_req e") (auto simp: no_auth_delta_def)
  show False
    using assms(1) d n spec_plain_auth [of "e_fix e" "e_zxid e" "e_session e" "e_time e" "e_req e" t]
    by (cases "spec_plain (e_fix e) (e_zxid e) (e_session e) (e_time e) (e_req e) t") (auto simp: implements_def denied_def delta_error_def)
qed

lemma multi_not_denied:
  assumes "multi_entry_ok e rs t" "e_req e = MultiRequest rs k" "rs \<noteq> []"
  shows "\<not> denied e"
proof
  assume "denied e"
  then have d: "e_deltas e = [delta_plain (e_zxid e) (FailedMultiDelta (replicate (length rs) ZOK) ZNOAUTH)]"
    using assms(2) by (simp add: denied_def no_auth_delta_def)
  have "\<not> parts_meet (e_fix e) (e_zxid e) (e_session e) (e_time e) rs t (e_deltas e)"
    using parts_front [OF _ assms(3)] d by fastforce
  then show False using assms(1) d by (auto simp: multi_entry_ok_def multi_failed_def delta_plain_def split: if_splits sum.splits)
qed

lemma closing_not_denied: "\<forall>d \<in> set (e_deltas e). closing d \<Longrightarrow> e_req e = CloseRequest \<Longrightarrow> \<not> denied e"
  by (auto simp: denied_def closing_def no_auth_delta_def delta_result_def)

text \<open>When the storage refuses a request.\<close>

definition refused :: "bool \<Rightarrow> Request \<Rightarrow> int64 \<Rightarrow> KeeperStorage \<Rightarrow> bool" where
  "refused check_acl req sid s \<longleftrightarrow> check_acl \<and> req \<noteq> CloseRequest \<and> checkAuth req sid False s = Inr False"

text \<open>How many nodes a request may add.\<close>

definition parts :: "Request \<Rightarrow> nat" where
  "parts req = (case req of MultiRequest rs _ \<Rightarrow> length rs | _ \<Rightarrow> 1)"

definition entry :: "Request \<Rightarrow> int64 \<Rightarrow> int64 \<Rightarrow> int64 \<Rightarrow> KeeperStorage \<Rightarrow> Delta list \<Rightarrow> LogEntry" where
  "entry req sid time z s ds =
     \<lparr>e_req = req, e_session = sid, e_time = time, e_zxid = z, e_fix = (\<lambda>acls. fixupACL acls sid s), e_deltas = ds\<rparr>"

lemma preprocess_body_ok:
  assumes inv: "log_inv ctx s L" and run: "running ctx" and z: "last_zxid s <s z"
    and small: "card (dom (vtree s)) + parts req < 2 ^ 32"
    and req: "valid_request sid req" "answerable (vtree s) req"
  shows "\<exists>all. staged ctx z s all
       (preprocess_body ctx req sid time z check_acl (dg_value (getNodesDigest ctx False s)) s) \<and>
     entry_ok (entry req sid time z s all) (vtree s) \<and>
     (denied (entry req sid time z s all) \<longleftrightarrow> refused check_acl req sid s)"
proof -
  note l = log_invD [OF inv] and view = log_view_ok [OF inv]
  let ?g = "dg_value (getNodesDigest ctx False s)"
  have before: "\<forall>d \<in> set (pending s). d_zxid d <s z" using log_pending_before [OF inv z] by blast
  then have old: "\<forall>e \<in> set (pending s). sint (d_zxid e) \<le> sint z" by (auto simp: word_sless_alt)
  have proc: "get_processor req = Inr ()" using req(1) by (cases req) (auto simp: get_processor_def valid_request_def)
  show ?thesis
  proof (cases "req = CloseRequest")
    case True
    obtain ds s' g' where c: "close_preprocess ctx z sid ?g s = (Inr ds, s', g')" "prepared ctx z s ds s' g'"
      "replay ds (vtree s) = spec_close sid (vtree s)" "\<forall>d \<in> set ds. closing d"
      "\<forall>a. fold astep ds a = close_acls sid (vtree s) a"
      using close_preprocess_ok [OF l(2) view] unfolding closing_def by blast
    moreover have "\<not> denied (entry req sid time z s ds)"
      using closing_not_denied [of "entry req sid time z s ds"] c(4) True by (simp add: entry_def)
    ultimately show ?thesis
      using True proc staged_prepared [OF l(2) c(2)] req
      by (intro exI [of _ ds]) (simp add: preprocess_body_def entry_ok_def entry_def refused_def)
  next
    case False
    then have op: "getOpNum req \<noteq> Op_Close" by (cases req) auto
    obtain b where b: "(if check_acl then checkAuth req sid False s else Inr True) = Inr b"
      using checkAuth_total [OF l(1) req(1), of False] by (cases check_acl) auto
    have rb: "refused check_acl req sid s \<longleftrightarrow> \<not> b" using b False by (cases check_acl; cases b) (auto simp: refused_def)
    have body: "preprocess_body ctx req sid time z check_acl ?g s =
      (if b then preprocess ctx req z sid time ?g s else (Inr [], push_delta (no_auth_delta z req) s, ?g))"
      using proc op b by (cases b) (simp_all add: preprocess_body_def)
    show ?thesis
    proof (cases b)
      case denied: False
      let ?d = "no_auth_delta z req"
      have ns: "\<nexists>p. req = SyncRequest p" using b denied by (auto simp: checkAuth_def plain_checkAuth_def split: if_splits)
      have free: "auth_free ?d" "\<forall>sid. d_operation ?d \<noteq> CloseSessionDelta sid"
        by (cases req; simp add: auth_free_def no_auth_delta_def)+
      note p = push_delta_ok [OF l(2) no_auth_delta_facts(2,3) free, simplified, OF old]
      have v: "vtree (push_delta ?d s) = vtree s"
        using vtree_replay [OF p(1)] vtree_replay [OF l(2)] p(3) movedD(1) [OF p(2)] tstep_mark [of ?d] by simp
      have "eph_ok (push_delta ?d s) (vtree s)" using l(6) by (simp add: eph_ok_def push_delta_def Let_def)
      then have "view_ok ctx (vtree (push_delta ?d s)) ?g (push_delta ?d s)" using view v by (simp add: view_ok_def)
      then have "advanced ctx s [?d] (push_delta ?d s) ?g" using p by (simp add: advanced_def)
      from staged_advanced [OF this, of z] show ?thesis
        unfolding body using denied False req ns rb
        by (intro exI [of _ "[?d]"]) (simp add: entry_ok_def entry_def denied_def)
    next
      case ok: True
      show ?thesis
      proof (cases "\<exists>rs k. req = MultiRequest rs k")
        case True
        then obtain rs k where rs: "req = MultiRequest rs k" by blast
        obtain all where "staged ctx z s all (multi_preprocess ctx rs z sid time ?g s)"
          "multi_entry_ok (entry req sid time z s all) rs (vtree s)"
          using multi_preprocess_staged [OF inv run before _ req(1) [unfolded rs] refl, of time] small
          unfolding rs entry_def parts_def by auto
        moreover have "rs \<noteq> []" using req(1) rs by (simp add: valid_request_def)
        ultimately show ?thesis
          unfolding body rb using ok rs req multi_not_denied [of "entry req sid time z s all" rs "vtree s" k]
          by (intro exI [of _ all]) (simp add: preprocess_def entry_ok_def entry_def)
      next
        case plain: False
        have vp: "valid_plain sid req" using req(1) plain by (cases req) (auto simp: valid_request_def valid_plain_def)
        have "small (vtree s)" using small by (simp add: small_def)
        from plain_preprocess_implements [OF l(2) view run this vp] obtain ds s' g' where
          ds: "plain_preprocess ctx req z sid time ?g s = (Inr ds, s', g')" "prepared ctx z s ds s' g'"
            "implements (\<lambda>acls. fixupACL acls sid s) z sid time req (vtree s) ds" by blast
        have "preprocess ctx req z sid time ?g s = (Inr ds, s', g')"
          using ds(1) plain by (cases req) (auto simp: preprocess_def)
        moreover have "entry_ok (entry req sid time z s ds) (vtree s)"
          using ds(3) plain False req by (cases req) (auto simp: entry_ok_def entry_def)
        moreover have "\<not> denied (entry req sid time z s ds)"
          using implements_not_denied [of "entry req sid time z s ds" "vtree s"] ds(3) plain by (simp add: entry_def)
        ultimately show ?thesis
          unfolding body rb using ok staged_prepared [OF l(2) ds(2)] by (intro exI [of _ ds]) simp
      qed
    qed
  qed
qed

lemma committed_cong:
  assumes "container s' = container s" "nodes_digest s' = nodes_digest s" "acl_map s' = acl_map s"
  shows "cinv ctx s' = cinv ctx s" "ctree s' = ctree s" "names s' = names s" "atree s' = atree s"
  using assms
  by (simp_all add: cinv_def coherent_def digests_ok_def ctree_def contents_of_def names_def atree_def)

lemma us_inv_transactions [simp]: "us_inv (s\<lparr>uncommitted_transactions := ts\<rparr>) = us_inv s"
  by (simp add: us_inv_def coherent_def)

lemma register_transaction_ok:
  assumes inv: "log_inv ctx s L" and z: "last_zxid s <s z"
    and st: "staged ctx z s all (Inr ds, s1, g1)" and e: "entry_ok e (vtree s)" "e_deltas e = all" "e_zxid e = z"
  shows "\<exists>s2. register_transaction ctx z log_idx g1 ds s1 = Inr s2 \<and> log_inv ctx s2 (L @ [e]) \<and> ctree s2 = ctree s \<and> atree s2 = atree s \<and>
     butlast (uncommitted_transactions s2) = uncommitted_transactions s \<and> acl_map s2 = acl_map s \<and>
     session_and_timeout s2 = session_and_timeout s \<and> session_expiry_queue s2 = session_expiry_queue s \<and> ks_zxid s2 = ks_zxid s"
proof -
  note l = log_invD [OF inv]
  obtain B where B: "all = B @ ds" "us_inv s1" "moved s s1" "pending s1 = pending s @ B"
    "enabled_all ds (vtree s1)" "\<forall>d \<in> set all. d_zxid d = z" "view_ok ctx (replay ds (vtree s1)) g1 s1"
    using st by (auto simp: staged_def)
  note m = movedD [OF B(3)]
  define x where "x = \<lparr>t_zxid = z, t_nodes_digest = (if digestEnabled ctx
      then \<lparr>dg_version = CURRENT_DIGEST_VERSION, dg_value = g1\<rparr> else \<lparr>dg_version = NO_DIGEST, dg_value = 0\<rparr>),
      t_log_idx = log_idx\<rparr>"
  let ?X = "uncommitted_transactions s" and ?s1 = "s1\<lparr>uncommitted_transactions := uncommitted_transactions s1 @ [x]\<rparr>"
  have before: "\<forall>d \<in> set (pending s). d_zxid d <s z" using log_pending_before [OF inv z] by blast
  have p1: "pending ?s1 = pending s @ B" using B(4) by (simp add: pending_def)
  have "\<forall>d \<in> set (pending ?s1). sint (d_zxid d) \<le> sint z" "\<forall>d \<in> set ds. d_zxid d = z"
    using before B(1,6) p1 by (auto simp: word_sless_alt)
  then obtain us where us: "addDeltas ds ?s1 = Inr (?s1\<lparr>uncommitted_state := us\<rparr>)" "us_inv (?s1\<lparr>uncommitted_state := us\<rparr>)"
    "pending (?s1\<lparr>uncommitted_state := us\<rparr>) = pending s @ all"
    using addDeltas_ok [of ?s1 ds z] B(1,2,5) p1 by auto
  define s2 where "s2 = ?s1\<lparr>uncommitted_state := us\<rparr>"
  have f: "container s2 = container s" "nodes_digest s2 = nodes_digest s" "acl_map s2 = acl_map s"
      "uncommitted_transactions s2 = ?X @ [x]" "ephemerals s2 = ephemerals s1" "ks_zxid s2 = ks_zxid s"
      "session_expiry_queue s2 = session_expiry_queue s" "initialized s2 = initialized s"
      "session_and_timeout s2 = session_and_timeout s"
    using m B(3) by (simp_all add: s2_def) (subst B(3) [unfolded moved_def], simp)+
  note c = committed_cong [OF f(1-3)]
  have v1: "vtree s1 = replay B (vtree s)"
    using vtree_replay [OF B(2)] vtree_replay [OF l(2)] B(4) m(1) by simp
  have v: "vtree s2 = replay all (vtree s)"
    using vtree_replay [OF us(2)] vtree_replay [OF l(2)] us(3) c(2) by (simp add: s2_def [symmetric])
  have vd: "view_ok ctx (vtree s2) g1 s1" using B(1,7) v v1 by simp
  have "eph_ok s2 (vtree s2)" using view_okD(3) [OF vd] f(5) by (simp add: eph_ok_def)
  moreover have "chain ctx (ctree s) (L @ [e]) (?X @ [x])"
    using chain_snoc [OF chain_length [OF l(8)], of ctx "ctree s" e x] l(8) e B(6) view_okD(1,4) [OF vd] v log_view [OF inv]
    by (simp add: x_def)
  moreover have "sorted_wrt zlt (ks_zxid s # map e_zxid L @ [e_zxid e])"
  proof -
    have "zlt y z" if "y \<in> set (ks_zxid s # map e_zxid L)" for y
      using sorted_last [OF l(9) that] log_last_zxid(2) [OF inv] z by (auto simp: zlt_def word_sless_alt)
    then show ?thesis using l(9) e(3) by (auto simp: sorted_wrt_append)
  qed
  moreover have "pending s2 = log_deltas (L @ [e])" using us(3) l(7) e(2) by (simp add: s2_def)
  moreover have "us_inv s2" using us(2) by (simp add: s2_def)
  ultimately have "log_inv ctx s2 (L @ [e])"
    using l f(4,6-8) c by (simp add: log_inv_def)
  moreover have "register_transaction ctx z log_idx g1 ds s1 = Inr s2"
    using us(1) by (simp add: register_transaction_def x_def s2_def Let_def)
  moreover have "butlast (uncommitted_transactions s2) = ?X" using f(4) by simp
  ultimately show ?thesis using c(2,4) f(3,6,7,9) by blast
qed

text \<open>Preprocessing a request that is newer than everything before appends it to the log.\<close>

theorem preprocessRequest_ok:
  assumes inv: "log_inv ctx s L" and run: "running ctx" and z: "last_zxid s <s z"
    and small: "card (dom (vtree s)) + parts req < 2 ^ 32"
    and req: "valid_request sid req" "answerable (vtree s) req"
  shows "\<exists>all s'. preprocessRequest ctx req sid time z check_acl digest log_idx s = (Inr (), s') \<and>
     log_inv ctx s' (L @ [entry req sid time z s all]) \<and> ctree s' = ctree s \<and> atree s' = atree s \<and>
     butlast (uncommitted_transactions s') = uncommitted_transactions s \<and> acl_map s' = acl_map s \<and>
     session_and_timeout s' = session_and_timeout s \<and> session_expiry_queue s' = session_expiry_queue s \<and> ks_zxid s' = ks_zxid s \<and>
     (denied (entry req sid time z s all) \<longleftrightarrow> refused check_acl req sid s)"
proof -
  note l = log_invD [OF inv]
  obtain all where st: "staged ctx z s all
      (preprocess_body ctx req sid time z check_acl (dg_value (getNodesDigest ctx False s)) s)"
    "entry_ok (entry req sid time z s all) (vtree s)" "denied (entry req sid time z s all) \<longleftrightarrow> refused check_acl req sid s"
    using preprocess_body_ok [OF assms, of time check_acl] by blast
  obtain ds s1 g1 where body: "preprocess_body ctx req sid time z check_acl (dg_value (getNodesDigest ctx False s)) s = (Inr ds, s1, g1)"
    using st(1) by (auto simp: staged_def)
  obtain s2 where s2: "register_transaction ctx z log_idx g1 ds s1 = Inr s2"
    "log_inv ctx s2 (L @ [entry req sid time z s all])" "ctree s2 = ctree s" "atree s2 = atree s"
    "butlast (uncommitted_transactions s2) = uncommitted_transactions s" "acl_map s2 = acl_map s"
    "session_and_timeout s2 = session_and_timeout s" "session_expiry_queue s2 = session_expiry_queue s" "ks_zxid s2 = ks_zxid s"
    using register_transaction_ok [OF inv z st(1) [unfolded body] st(2), of log_idx] by (auto simp: entry_def)
  have "\<not> z \<le>s last_zxid s" "last_zxid s \<noteq> z" using z by (auto simp: word_sless_alt word_sle_eq)
  then have "preprocessRequest ctx req sid time z check_acl digest log_idx s = (Inr (), s2)"
    using l(11) log_last_zxid(1) [OF inv] body s2(1) by (simp add: preprocessRequest_def Let_def)
  then show ?thesis using s2 st(3) by blast
qed

section \<open>Rolling back a request\<close>

theorem rollbackRequest_ok:
  assumes inv: "log_inv ctx s (L @ [e])"
  shows "\<exists>s'. rollbackRequest (e_zxid e) allow_missing s = Inr s' \<and> log_inv ctx s' L \<and> ctree s' = ctree s \<and> atree s' = atree s \<and>
     uncommitted_transactions s' = butlast (uncommitted_transactions s) \<and> ks_zxid s' = ks_zxid s"
proof -
  note l = log_invD [OF inv]
  let ?X = "uncommitted_transactions s"
  obtain X x where X: "?X = X @ [x]" "length X = length L"
    using chain_length [OF l(8)] by (cases ?X rule: rev_cases) auto
  have ch: "chain ctx (ctree s) L X" "chain ctx (replay (log_deltas L) (ctree s)) [e] [x]"
    using l(8) chain_snoc [OF X(2)] X(1) by auto
  let ?s1 = "s\<lparr>uncommitted_transactions := X\<rparr>"
  have p: "pending ?s1 = log_deltas L @ e_deltas e" using l(7) by (simp add: pending_def)
  have A: "\<forall>d \<in> set (log_deltas L). d_zxid d <s e_zxid e"
    using chain_deltas_zxid [OF ch(1)] l(9) by (fastforce simp: sorted_wrt_append zlt_def word_sless_alt)
  have own: "owners_ok (ctree ?s1)" using tree_wfD(7) [OF l(5)] by (auto simp: owners_ok_def)
  have B: "\<forall>d \<in> set (e_deltas e). d_zxid d = e_zxid e" using ch(2) by simp
  have "us_inv ?s1" "eph_ok ?s1 (vtree ?s1)" using l(2,6) by (simp_all add: eph_ok_def)
  from rollback_pending [OF this(1) p B A own this(2)] obtain s' where
    s': "us_rollback (e_zxid e) ?s1 = Inr s'" "us_inv s'" "moved ?s1 s'" "pending s' = log_deltas L"
      "vtree s' = replay (log_deltas L) (ctree s)" "eph_ok s' (replay (log_deltas L) (ctree s))" by auto
  have f: "container s' = container s" "nodes_digest s' = nodes_digest s" "acl_map s' = acl_map s"
      "uncommitted_transactions s' = X" "ks_zxid s' = ks_zxid s"
      "session_expiry_queue s' = session_expiry_queue s" "initialized s' = initialized s"
    using movedD [OF s'(3)] by simp_all (subst s'(3) [unfolded moved_def], simp)+
  note c = committed_cong [OF f(1-3)]
  have "sorted_wrt zlt (ks_zxid s # map e_zxid L)" using l(9) by (simp add: sorted_wrt_append)
  then have "log_inv ctx s' L" using l c f s'(2,4-6) ch(1) by (simp add: log_inv_def)
  moreover have "t_zxid x = e_zxid e" using ch(2) by simp
  then have "rollbackRequest (e_zxid e) allow_missing s = Inr s'"
    using X(1) s'(1) by (simp add: rollbackRequest_def Let_def word_sless_alt)
  ultimately show ?thesis using c(2,4) X(1) f(4,5) by auto
qed

end
