(* ===== verification/KeeperAnswers.thy ===== *)
theory KeeperAnswers
  imports KeeperLog
begin

text \<open>
  Processing a committed request: the deltas of its log entry are committed and the response is the one
  that the specification gives for the tree. No request reaches \<^verbatim>\<open>onStorageInconsistency\<close>.
\<close>

section \<open>The first group of pending deltas\<close>

text \<open>The pending deltas start with those of a request or of a part of a multi request, \<open>ds\<close>, followed by
  the mark in the second case.\<close>

definition at_group ::
  "KeeperContext \<Rightarrow> int64 \<Rightarrow> KeeperStorage \<Rightarrow> Delta list \<Rightarrow> Delta list \<Rightarrow> Delta list \<Rightarrow> bool" where
  "at_group ctx z s ds ms rest \<longleftrightarrow>
     cinv ctx s \<and> us_inv s \<and> names_ok (ctree s) (names s) \<and> proper (ctree s) \<and>
     pending s = ds @ ms @ rest \<and> (\<forall>d \<in> set ds. d_zxid d = z) \<and>
     (ms = [delta_plain z SubDeltaEnd] \<or> ms = [] \<and> (\<forall>d \<in> set rest. d_zxid d \<noteq> z)) \<and>
     (\<forall>d \<in> set rest. \<not> d_zxid d <s z) \<and> room (length (pending s)) s"

lemma group_of_deltas:
  assumes "map snd xs = ds @ ms @ rest" "\<forall>d \<in> set ds. d_zxid d = z \<and> d_operation d \<noteq> SubDeltaEnd"
    "ms = [delta_plain z SubDeltaEnd] \<or> ms = [] \<and> (\<forall>d \<in> set rest. d_zxid d \<noteq> z)"
  shows "map snd (take_group z xs) = ds @ ms \<and> map snd (drop_group z xs) = rest"
  using assms
proof (induction ds arbitrary: xs)
  case Nil
  from Nil.prems(3) show ?case
  proof
    assume ms: "ms = [delta_plain z SubDeltaEnd]"
    then obtain x ys where "xs = x # ys" "snd x = delta_plain z SubDeltaEnd" "map snd ys = rest" using Nil.prems(1) by auto
    then show ?thesis using ms by simp
  next
    assume "ms = [] \<and> (\<forall>d \<in> set rest. d_zxid d \<noteq> z)"
    then show ?thesis using Nil.prems(1) by (cases xs) auto
  qed
next
  case (Cons d ds)
  then obtain x ys where "xs = x # ys" "snd x = d" "map snd ys = ds @ ms @ rest" by auto
  then show ?case using Cons by auto
qed

lemma at_groupD:
  assumes "at_group ctx z s ds ms rest"
  shows "cinv ctx s" "us_inv s" "names_ok (ctree s) (names s)" "proper (ctree s)" "pending s = ds @ ms @ rest"
    "\<forall>d \<in> set ds. d_zxid d = z" "ms = [delta_plain z SubDeltaEnd] \<or> ms = [] \<and> (\<forall>d \<in> set rest. d_zxid d \<noteq> z)"
    "\<forall>d \<in> set rest. \<not> d_zxid d <s z" "room (length (pending s)) s" "enabled_all (ds @ ms @ rest) (ctree s)"
  using assms unfolding at_group_def by (simp_all only: us_inv_def) (auto simp: us_inv_def)

lemma commit_group:
  assumes g: "at_group ctx z s ds ms rest"
    and ds: "\<forall>d \<in> set ds. d_operation d \<noteq> SubDeltaEnd \<and> \<not> failed_multi (d_operation d)" "errs_ok (ds @ ms)"
  shows "\<exists>s1. storage_commit ctx z s = Inr (group_result (ds @ ms), s1) \<and> committed_all ctx (ds @ ms) s s1"
proof -
  note a = at_groupD [OF g]
  let ?xs = "us_deltas (uncommitted_state s)"
  have xs: "map snd ?xs = ds @ ms @ rest" using a(5) by (simp add: pending_def)
  have tk: "map snd (take_group z ?xs) = ds @ ms" using group_of_deltas [OF xs _ a(7)] a(6) ds(1) by blast
  have nf: "\<forall>d \<in> set (ds @ ms). \<not> failed_multi (d_operation d)" using ds(1) a(7) by auto
  have "\<forall>d \<in> set (ds @ ms @ rest). \<not> d_zxid d <s z" using a(6-8) by (auto simp: word_sless_alt)
  then have "\<forall>x \<in> set ?xs. \<not> d_zxid (snd x) <s z" using xs by (metis image_eqI set_map)
  moreover have "\<forall>x \<in> set (take_group z ?xs). \<not> failed_multi (d_operation (snd x))" using nf tk by (metis image_eqI set_map)
  moreover have "room (length (take_group z ?xs)) s"
    using a(5,9) tk by (metis append.assoc le_add1 length_append length_map room_mono)
  ultimately show ?thesis
    using commit_loop_ok [OF a(1,3,4), of z ?xs] tk a(10) ds(2) by (simp add: storage_commit_def)
qed

text \<open>After the group is in the container the overlay drops it.\<close>

lemma drop_committed:
  assumes g: "at_group ctx z s ds ms rest" and ds: "\<forall>d \<in> set ds. d_operation d \<noteq> SubDeltaEnd"
    and s1: "ctree s1 = replay (ds @ ms) (ctree s)" "coherent s1" "uncommitted_state s1 = uncommitted_state s"
  shows "\<exists>us'. us_commit z s1 = Inr (s1\<lparr>uncommitted_state := us'\<rparr>) \<and> us_inv (s1\<lparr>uncommitted_state := us'\<rparr>) \<and>
     pending (s1\<lparr>uncommitted_state := us'\<rparr>) = rest"
proof -
  note a = at_groupD [OF g]
  let ?xs = "us_deltas (uncommitted_state s)"
  have xs: "map snd ?xs = ds @ ms @ rest" using a(5) by (simp add: pending_def)
  have dr: "map snd (drop_group z ?xs) = rest" using group_of_deltas [OF xs _ a(7)] a(6) ds by blast
  have us: "us_struct (uncommitted_state s)" "shows_tree (uncommitted_state s) (replay (pending s) (ctree s))"
    using a(2) by (simp_all add: us_inv_def)
  have "replay (pending s) (ctree s) = replay rest (ctree s1)" using a(5) s1(1) by simp
  then show ?thesis
    using us_commit_ok [of s1 "drop_group z ?xs" z] us s1 dr a(10) by (auto simp: pending_def)
qed

text \<open>The state after a group: the next group may start.\<close>

lemma at_group_next:
  assumes g: "at_group ctx z s ds ms rest" and c: "committed_all ctx (ds @ ms) s s1"
    and s2: "container s2 = container s1" "nodes_digest s2 = nodes_digest s1" "acl_map s2 = acl_map s1"
      "us_inv s2" "pending s2 = rest" "rest = ds' @ ms' @ rest'"
    and d': "\<forall>d \<in> set ds'. d_zxid d = z"
      "ms' = [delta_plain z SubDeltaEnd] \<or> ms' = [] \<and> (\<forall>d \<in> set rest'. d_zxid d \<noteq> z)"
  shows "at_group ctx z s2 ds' ms' rest'"
proof -
  note a = at_groupD [OF g] and cc = committed_cong [OF s2(1-3)]
  have "room (length rest) s1" using c a(5,9) by (auto simp: committed_all_def ac_simps)
  then have "room (length (pending s2)) s2" using s2(3,5) cc(2) by (simp add: room_def)
  moreover have "cinv ctx s2" "names_ok (ctree s2) (names s2)" "proper (ctree s2)"
    using c unfolding cc committed_all_def by blast+
  ultimately show ?thesis using s2(4-6) d' a(8) by (simp add: at_group_def)
qed

section \<open>Responses\<close>

definition list_select :: "byte \<Rightarrow> KeeperMemNode \<Rightarrow> bool" where
  "list_select k n \<longleftrightarrow>
     k = LIST_ALL \<or> n_is_ephemeral n \<and> k = LIST_EPHEMERAL_ONLY \<or> \<not> n_is_ephemeral n \<and> k = LIST_PERSISTENT_ONLY"

text \<open>The listed names are those of the selected children, each once.\<close>

definition lists_kids :: "tree \<Rightarrow> string \<Rightarrow> byte \<Rightarrow> string list \<Rightarrow> bool" where
  "lists_kids t p k ns \<longleftrightarrow>
     distinct ns \<and> set ns = getBaseNodeName ` {c \<in> kids t p. \<exists>n. t c = Some n \<and> list_select k n}"

text \<open>The body of a successful response, from the tree before and after and the access control lists after.\<close>

definition body_ok ::
  "KeeperContext \<Rightarrow> Request \<Rightarrow> tree \<Rightarrow> tree \<Rightarrow> (string \<rightharpoonup> ACLs) \<Rightarrow> ResponseBody \<Rightarrow> bool" where
  "body_ok ctx req t t' a' b =
     (case req of
        SyncRequest p \<Rightarrow> b = SyncResponse p
      | CreateRequest r \<Rightarrow> b = (if cr_not_exists r then CreateIfNotExistsResponse (created_path r t) else CreateResponse (created_path r t))
      | ExistsRequest p _ \<Rightarrow> \<exists>n. t' p = Some n \<and> b = ExistsResponse (setResponseStat n)
      | GetRequest p _ \<Rightarrow>
          if p = keeper_config_path then b = GetResponse (serializedClusterConfig ctx) Stat_default
          else \<exists>n. t' p = Some n \<and> b = GetResponse (n_data n) (setResponseStat n)
      | SetRequest p _ _ \<Rightarrow> \<exists>n. t' p = Some n \<and> b = SetResponse (setResponseStat n)
      | SetACLRequest p _ _ \<Rightarrow> \<exists>n. t' p = Some n \<and> b = SetACLResponse (setResponseStat n)
      | ListRequest p _ \<Rightarrow> \<exists>n ns. t' p = Some n \<and> b = ListResponse ns (setResponseStat n) \<and> lists_kids t' p LIST_ALL ns
      | SimpleListRequest p _ \<Rightarrow>
          \<exists>n ns. t' p = Some n \<and> b = SimpleListResponse ns (setResponseStat n) \<and> lists_kids t' p LIST_ALL ns
      | FilteredListRequest p _ k \<Rightarrow>
          \<exists>n ns. t' p = Some n \<and> b = ListResponse ns (setResponseStat n) \<and> lists_kids t' p k ns
      | GetACLRequest p \<Rightarrow> \<exists>n acls. t' p = Some n \<and> a' p = Some acls \<and> b = GetACLResponse acls (setResponseStat n)
      | _ \<Rightarrow> b = resp_body (makeResponse req))"

definition response_ok ::
  "KeeperContext \<Rightarrow> Request \<Rightarrow> Error + tree \<Rightarrow> tree \<Rightarrow> tree \<Rightarrow> (string \<rightharpoonup> ACLs) \<Rightarrow> Response \<Rightarrow> bool" where
  "response_ok ctx req res t t' a' resp =
     (case res of
        Inl e \<Rightarrow> resp = set_error e (makeResponse req)
      | Inr _ \<Rightarrow> resp_error resp = ZOK \<and> body_ok ctx req t t' a' (resp_body resp))"

lemma list_children_ok:
  assumes "\<forall>c \<in> set cs. ht_find (container s) (path_join p c) \<noteq> None"
  shows "list_children k p s cs =
     Inr (filter (\<lambda>c. list_select k (the (ht_find (container s) (path_join p c)))) cs)"
  using assms
proof (induction cs)
  case (Cons c cs)
  then obtain n where "ht_find (container s) (path_join p c) = Some n" by auto
  then have "list_add_child k p s c = Inr (list_select k n)"
    by (auto simp: list_add_child_def list_select_def)
  then show ?case using Cons \<open>ht_find _ _ = Some n\<close> by simp
qed simp

lemma list_response_ok:
  assumes c: "contents_of s p = Some n" "p \<noteq> []" and nm: "names_ok (ctree s) (names s)" "proper (ctree s)"
  shows "\<exists>ns. list_response is_local req k p s = Inr (set_body (list_body req ns (setResponseStat n)) (makeResponse req)) \<and>
     lists_kids (ctree s) p k ns"
proof -
  let ?f = "ht_find (container s)"
  have cs: "distinct (n_children n)" "set (n_children n) = getBaseNodeName ` kids (ctree s) p"
    using nm(1) c(1) by (auto simp: names_ok_def names_def)
  have join: "path_join p (getBaseNodeName q) = q" if "q \<in> kids (ctree s) p" for q
    using nm(2) that by (auto simp: proper_def kids_def joined_def)
  have find: "\<exists>m. ?f q = Some m \<and> ctree s q = Some (core m)" if "q \<in> kids (ctree s) p" for q
    using that by (auto simp: kids_def ctree_def)
  let ?ns = "filter (\<lambda>c. list_select k (the (?f (path_join p c)))) (n_children n)"
  have "\<forall>c \<in> set (n_children n). ?f (path_join p c) \<noteq> None" using cs(2) join find by fastforce
  from list_children_ok [OF this] have "list_children k p s (n_children n) = Inr ?ns" by blast
  moreover have sel: "list_select k (the (?f (path_join p (getBaseNodeName q)))) \<longleftrightarrow> (\<exists>m. ctree s q = Some m \<and> list_select k m)"
    if "q \<in> kids (ctree s) p" for q
    using join [OF that] find [OF that] by (auto simp: list_select_def)
  have "lists_kids (ctree s) p k ?ns"
    unfolding lists_kids_def using cs sel by (auto simp: distinct_filter)
  ultimately show ?thesis using c by (auto simp: list_response_def contents_of_def)
qed

lemma get_acl_response_ok:
  assumes inv: "cinv ctx s" and c: "contents_of s p = Some n"
  shows "\<exists>acls. get_acl_response is_local p s =
       Inr (set_body (GetACLResponse acls (setResponseStat n)) (makeResponse (GetACLRequest p))) \<and> atree s p = Some acls"
proof -
  have "acl_lookup (acl_map s) (n_acl_id n) \<noteq> None" using cinv_facts(7) [OF inv] c by (auto simp: acls_ok_def)
  then obtain acls where "acl_lookup (acl_map s) (n_acl_id n) = Some acls" by blast
  then show ?thesis
    using c by (auto simp: get_acl_response_def contents_of_def atree_def acl_tree_def convertNumber_lookup)
qed

section \<open>Processing plain requests\<close>

lemma meets_group:
  assumes "meets z ds t res" "ms = [] \<or> ms = [delta_plain z SubDeltaEnd]"
  shows "\<forall>d \<in> set ds. d_operation d \<noteq> SubDeltaEnd \<and> \<not> failed_multi (d_operation d)" "errs_ok (ds @ ms)"
    "group_result (ds @ ms) = (case res of Inl e \<Rightarrow> e | Inr _ \<Rightarrow> ZOK)"
proof -
  show "\<forall>d \<in> set ds. d_operation d \<noteq> SubDeltaEnd \<and> \<not> failed_multi (d_operation d)"
    using assms(1) normal_facts by (cases res) auto
  have n: "\<forall>d \<in> set es. normal (d_operation d) \<Longrightarrow> errs_ok (es @ ms) \<and> group_result (es @ ms) = ZOK" for es
  proof (induction es)
    case Nil
    then show ?case using assms(2) by (auto simp: delta_result_def)
  next
    case (Cons d es)
    then have "delta_result d = ZOK" "d_operation d \<noteq> SubDeltaEnd" by (cases "d_operation d"; simp add: delta_result_def)+
    then show ?case using Cons by simp
  qed
  show "errs_ok (ds @ ms)" "group_result (ds @ ms) = (case res of Inl e \<Rightarrow> e | Inr _ \<Rightarrow> ZOK)"
    using assms n [of ds] by (cases res; auto simp: delta_result_def)+
qed

text \<open>The requests that a processor of their own handles outside multi and close requests.\<close>

fun plain :: "Request \<Rightarrow> bool" where
  "plain CloseRequest = False"
| "plain (MultiRequest _ _) = False"
| "plain (ReconfigRequest _ _ _ _) = False"
| "plain (SessionIDRequest _ _ _) = False"
| "plain _ = True"

lemma proper_empty: "proper t \<Longrightarrow> t [] = None"
  by (auto simp: proper_def joined_def)

lemma committed_all_facts:
  assumes "committed_all ctx ds s s1"
  shows "cinv ctx s1" "ctree s1 = replay ds (ctree s)" "names_ok (ctree s1) (names s1)" "proper (ctree s1)"
    "uncommitted_state s1 = uncommitted_state s" "coherent s1"
  using assms by (auto simp: committed_all_def frame_def cinv_def)

lemma plain_process_error:
  assumes g: "at_group ctx z s [delta_error z e] ms rest" and e: "e \<noteq> ZOK"
    and req: "plain req" "\<nexists>p. req = SyncRequest p"
  shows "\<exists>s1. plain_process ctx req z s = Inr (set_error e (makeResponse req), s1) \<and>
     committed_all ctx (delta_error z e # ms) s s1"
proof -
  have ms: "ms = [] \<or> ms = [delta_plain z SubDeltaEnd]" using at_groupD(7) [OF g] by blast
  have m: "meets z [delta_error z e] (ctree s) (Inl e)" using e by simp
  obtain s1 where s1: "storage_commit ctx z s = Inr (e, s1)" "committed_all ctx (delta_error z e # ms) s s1"
    using commit_group [OF g meets_group(1,2) [OF m ms]] meets_group(3) [OF m ms] by auto
  obtain x xs where xs: "us_deltas (uncommitted_state s) = x # xs" "snd x = delta_error z e"
    using at_groupD(5) [OF g] by (auto simp: pending_def)
  then have "create_process ctx r z s = Inr (set_error e (makeResponse (CreateRequest r)), s1)" for r
    using s1(1) e by (cases x) (simp add: create_process_def)
  then show ?thesis
    using s1 e req by (cases req) (auto simp: plain_process_def after_commit_def)
qed

lemma create_process_ok:
  assumes g: "at_group ctx z s ds ms rest" and c: "storage_commit ctx z s = Inr (ZOK, s1)" "committed_all ctx (ds @ ms) s s1"
    and ds: "ds = [delta_at q z (UpdateNodeDelta f (-1)), delta_at p z op]" "creates op"
  shows "create_process ctx r z s = Inr (create_response r p, s1)"
proof -
  obtain x xs where xs: "us_deltas (uncommitted_state s) = x # xs" "snd x = delta_at q z (UpdateNodeDelta f (-1))"
    using at_groupD(5) [OF g] ds(1) by (auto simp: pending_def)
  have "map snd (us_deltas (uncommitted_state s1)) = ds @ ms @ rest"
    using committed_all_facts(5) [OF c(2)] at_groupD(5) [OF g] by (simp add: pending_def)
  moreover have "find (is_create_delta z) (ds @ ms @ rest) = Some (delta_at p z op)"
    using ds by (cases op) (auto simp: is_create_delta_def)
  ultimately show ?thesis using xs c(1) by (cases x) (simp add: create_process_def)
qed

lemma node_in_contents:
  assumes "ctree s p \<noteq> None"
  obtains n where "contents_of s p = Some n" "ctree s p = Some (core n)" "ht_find (container s) p = Some n"
proof -
  obtain n where "contents_of s p = Some n" using assms by (auto simp: ctree_contents)
  then show ?thesis using that by (simp add: ctree_contents contents_of_def)
qed

text \<open>The body of the response to a successful request, once its deltas are committed.\<close>

definition answered :: "KeeperContext \<Rightarrow> Request \<Rightarrow> int64 \<Rightarrow> KeeperStorage \<Rightarrow> KeeperStorage \<Rightarrow> bool" where
  "answered ctx req z s s1 \<longleftrightarrow>
     (\<exists>resp. plain_process ctx req z s = Inr (resp, s1) \<and> resp_error resp = ZOK \<and>
        body_ok ctx req (ctree s) (ctree s1) (atree s1) (resp_body resp))"

lemma node_answered:
  assumes c: "storage_commit ctx z s = Inr (ZOK, s1)" and p: "ctree s1 p \<noteq> None"
  shows "answered ctx (ExistsRequest p w) z s s1" "answered ctx (GetRequest p w) z s s1"
    "answered ctx (SetRequest p data v) z s s1" "answered ctx (SetACLRequest p acls v) z s s1"
proof -
  obtain n where n: "ctree s1 p = Some (core n)" "ht_find (container s1) p = Some n"
    using node_in_contents [OF p] by blast
  show "answered ctx (ExistsRequest p w) z s s1" "answered ctx (GetRequest p w) z s s1"
    "answered ctx (SetRequest p data v) z s s1" "answered ctx (SetACLRequest p acls v) z s s1"
    unfolding answered_def using c n
    by (cases "p = keeper_config_path";
        simp add: plain_process_def after_commit_def exists_response_def get_response_def set_response_def body_ok_def)+
qed

lemma children_answered:
  assumes c: "storage_commit ctx z s = Inr (ZOK, s1)" and p: "ctree s1 p \<noteq> None"
    and inv: "cinv ctx s1" "names_ok (ctree s1) (names s1)" "proper (ctree s1)"
  shows "answered ctx (ListRequest p w) z s s1" "answered ctx (SimpleListRequest p w) z s s1"
    "answered ctx (FilteredListRequest p w k) z s s1" "answered ctx (GetACLRequest p) z s s1"
proof -
  obtain n where n: "contents_of s1 p = Some n" "ctree s1 p = Some (core n)" "p \<noteq> []"
    using node_in_contents [OF p] p proper_empty [OF inv(3)] by metis
  note list = list_response_ok [OF n(1,3) inv(2,3), of False]
  show "answered ctx (ListRequest p w) z s s1"
    unfolding answered_def using c n(2) list [of "ListRequest p w" LIST_ALL]
    by (auto simp: plain_process_def after_commit_def body_ok_def list_body_def)
  show "answered ctx (SimpleListRequest p w) z s s1"
    unfolding answered_def using c n(2) list [of "SimpleListRequest p w" LIST_ALL]
    by (auto simp: plain_process_def after_commit_def body_ok_def list_body_def)
  show "answered ctx (FilteredListRequest p w k) z s s1"
    unfolding answered_def using c n(2) list [of "FilteredListRequest p w k" k]
    by (auto simp: plain_process_def after_commit_def body_ok_def list_body_def)
  show "answered ctx (GetACLRequest p) z s s1"
    unfolding answered_def using c n(2) get_acl_response_ok [OF inv(1) n(1), of False]
    by (auto simp: plain_process_def after_commit_def body_ok_def)
qed

lemma commit_answered:
  assumes "storage_commit ctx z s = Inr (ZOK, s1)"
  shows "answered ctx HeartbeatRequest z s s1" "answered ctx (AuthRequest k sch data) z s s1"
    "answered ctx (RemoveRequest p v b) z s s1"
  using assms by (simp_all add: answered_def plain_process_def body_ok_def)

lemma check_answered:
  assumes "storage_commit ctx z s = Inr (ZOK, s1)" "spec_check p v ne (ctree s1) = Inr t'"
  shows "answered ctx (CheckRequest p v ne) z s s1"
proof -
  have "check_response False p v ne s1 = Inr (makeResponse (CheckRequest p v ne))"
    using assms(2) by (auto simp: spec_check_def check_response_def ctree_def split: option.splits if_splits bool.splits)
  then show ?thesis
    using assms(1) unfolding answered_def by (simp add: plain_process_def after_commit_def body_ok_def)
qed

lemma plain_process_value:
  assumes g: "at_group ctx z s ds ms rest" and i: "implements fx z sid time req (ctree s) ds"
    and a: "answerable_plain (ctree s) req" and req: "plain req" "spec_plain fx z sid time req (ctree s) = Inr t'"
  shows "\<exists>s1. answered ctx req z s s1 \<and> committed_all ctx (ds @ ms) s s1"
proof -
  have ms: "ms = [] \<or> ms = [delta_plain z SubDeltaEnd]" using at_groupD(7) [OF g] by blast
  have m: "meets z ds (ctree s) (Inr t')" using i req(2) by (simp add: implements_def)
  obtain s1 where s1: "storage_commit ctx z s = Inr (ZOK, s1)" "committed_all ctx (ds @ ms) s s1"
    using commit_group [OF g meets_group(1,2) [OF m ms]] meets_group(3) [OF m ms] by auto
  note c = committed_all_facts [OF s1(2)]
  have "replay ms t = t" for t using ms by (auto simp: tstep_def)
  then have t': "ctree s1 = t'" using c(2) m by simp
  note node = node_answered [OF s1(1)] and children = children_answered [OF s1(1) _ c(1,3,4)]
  note spec = spec_plain_def spec_read_def spec_set_def spec_set_acl_def Let_def
  show ?thesis
  proof (cases req)
    case (SyncRequest p)
    then have "ds = []" using i by (simp add: implements_def)
    then have "committed_all ctx (ds @ ms) s s"
      using committed_all_refl [OF at_groupD(1,3,4) [OF g], of ms] ms by auto
    then show ?thesis using SyncRequest by (auto simp: answered_def plain_process_def body_ok_def)
  next
    case (CreateRequest r)
    then obtain f op where "ds = [delta_at (the (parentNodePath (cr_path r))) z (UpdateNodeDelta f (-1)),
        delta_at (created_path r (ctree s)) z op]" "creates op"
      using i m a by (auto simp: implements_def answerable_plain_def)
    from create_process_ok [OF g s1 this] CreateRequest a s1(2) show ?thesis
      by (auto simp: answered_def plain_process_def answerable_plain_def body_ok_def create_response_def)
  next
    case (GetRequest p w)
    have "answered ctx req z s s1"
    proof (cases "p = keeper_config_path")
      case True
      then show ?thesis using GetRequest s1(1)
        by (simp add: answered_def plain_process_def after_commit_def get_response_def body_ok_def)
    next
      case False
      then have "t' p \<noteq> None" using req(2) a GetRequest
        by (auto simp: spec answerable_plain_def split: if_splits)
      then show ?thesis using node(2) GetRequest t' by simp
    qed
    then show ?thesis using s1(2) by blast
  next
    case (SetRequest p data v)
    then have "t' p \<noteq> None" using req(2) by (auto simp: spec split: if_splits option.splits)
    then show ?thesis using node(3) SetRequest t' s1(2) by blast
  next
    case (SetACLRequest p acls v)
    then have "t' p \<noteq> None" using req(2) by (auto simp: spec split: if_splits option.splits)
    then show ?thesis using node(4) SetACLRequest t' s1(2) by blast
  next
    case (CheckRequest p v ne)
    then have "spec_check p v ne t' = Inr t'" using req(2)
      by (auto simp: spec_plain_def spec_check_def split: option.splits if_splits bool.splits)
    then show ?thesis using check_answered [OF s1(1)] t' CheckRequest s1(2) by blast
  qed (use req s1 t' node(1) children commit_answered [OF s1(1)] in
      \<open>auto simp: spec intro!: exI [of _ s1] split: if_splits\<close>)
qed

lemma plain_process_ok:
  assumes g: "at_group ctx z s ds ms rest" and req: "plain req"
    and ds: "implements fx z sid time req (ctree s) ds" "answerable_plain (ctree s) req"
  shows "\<exists>resp s1. plain_process ctx req z s = Inr (resp, s1) \<and> committed_all ctx (ds @ ms) s s1 \<and>
     response_ok ctx req (spec_plain fx z sid time req (ctree s)) (ctree s) (ctree s1) (atree s1) resp"
proof (cases "spec_plain fx z sid time req (ctree s)")
  case (Inl e)
  then have d: "ds = [delta_error z e]" "e \<noteq> ZOK" using ds(1) by (auto simp: implements_def)
  have "\<nexists>p. req = SyncRequest p" using Inl by (auto simp: spec_plain_def)
  from plain_process_error [OF g [unfolded d(1)] d(2) req this] show ?thesis
    using Inl d(1) by (auto simp: response_ok_def)
next
  case (Inr t')
  from plain_process_value [OF g ds req Inr] show ?thesis using Inr unfolding answered_def response_ok_def by auto
qed

section \<open>After the commit\<close>

text \<open>The group \<open>ds\<close> is committed and dropped from the overlay, \<open>rest\<close> is pending.\<close>

definition served :: "KeeperContext \<Rightarrow> Delta list \<Rightarrow> Delta list \<Rightarrow> KeeperStorage \<Rightarrow> KeeperStorage \<Rightarrow> bool" where
  "served ctx ds rest s s' \<longleftrightarrow>
     cinv ctx s' \<and> us_inv s' \<and> names_ok (ctree s') (names s') \<and> proper (ctree s') \<and>
     ctree s' = replay ds (ctree s) \<and> atree s' = fold astep ds (atree s) \<and> pending s' = rest \<and>
     (\<forall>k. room (k + length ds) s \<longrightarrow> room k s') \<and>
     frame (s\<lparr>session_and_auth := fold austep ds (session_and_auth s), uncommitted_state := uncommitted_state s'\<rparr>) s'"

lemma servedD:
  assumes "served ctx ds rest s s'"
  shows "cinv ctx s'" "us_inv s'" "names_ok (ctree s') (names s')" "proper (ctree s')" "ctree s' = replay ds (ctree s)"
    "atree s' = fold astep ds (atree s)" "pending s' = rest" "\<And>k. room (k + length ds) s \<Longrightarrow> room k s'"
    "ephemerals s' = ephemerals s" "uncommitted_transactions s' = uncommitted_transactions s" "ks_zxid s' = ks_zxid s"
    "session_expiry_queue s' = session_expiry_queue s" "initialized s' = initialized s"
    "watches s' = watches s" "list_watches s' = list_watches s" "sessions_and_watchers s' = sessions_and_watchers s"
    "session_and_auth s' = fold austep ds (session_and_auth s)" "session_and_timeout s' = session_and_timeout s"
  using assms unfolding served_def frame_def by (simp_all, (elim conjE, simp)+)

lemma served_trans:
  assumes "served ctx ds rest s s1" "served ctx ds' rest' s1 s2"
  shows "served ctx (ds @ ds') rest' s s2"
  using assms unfolding served_def frame_def by (auto simp: ac_simps)

lemma served_commit:
  assumes g: "at_group ctx z s ds ms rest" and ds: "\<forall>d \<in> set ds. d_operation d \<noteq> SubDeltaEnd"
    and c: "committed_all ctx (ds @ ms) s s1"
  shows "\<exists>s2. us_commit z s1 = Inr s2 \<and> served ctx (ds @ ms) rest s s2"
proof -
  note f = committed_all_facts [OF c]
  obtain us' where us: "us_commit z s1 = Inr (s1\<lparr>uncommitted_state := us'\<rparr>)" "us_inv (s1\<lparr>uncommitted_state := us'\<rparr>)"
     "pending (s1\<lparr>uncommitted_state := us'\<rparr>) = rest"
    using drop_committed [OF g ds f(2,6,5)] by blast
  let ?s2 = "s1\<lparr>uncommitted_state := us'\<rparr>"
  have cc: "cinv ctx ?s2 = cinv ctx s1" "ctree ?s2 = ctree s1" "names ?s2 = names s1" "atree ?s2 = atree s1"
    by (rule committed_cong; simp)+
  have "room k ?s2 = room k s1" for k using cc(2) by (simp add: room_def)
  then have "served ctx (ds @ ms) rest s ?s2"
    using c us(2,3) cc unfolding served_def committed_all_def frame_def by (simp, elim conjE, simp)
  then show ?thesis using us(1) by blast
qed

lemma served_again:
  assumes s: "served ctx ds rest s s1" and old: "\<forall>d \<in> set rest. \<not> d_zxid d <s z \<and> d_zxid d \<noteq> z" and room: "room (length rest) s1"
  shows "\<exists>s2. us_commit z s1 = Inr s2 \<and> served ctx ds rest s s2"
proof -
  note d = servedD [OF s]
  have "at_group ctx z s1 [] [] rest" using d(1-4,7) old room by (simp add: at_group_def)
  from served_commit [OF this _ committed_all_refl [OF d(1,3,4)]] obtain s2 where
    "us_commit z s1 = Inr s2" "served ctx [] rest s1 s2" by auto
  then show ?thesis using served_trans [OF s] by force
qed

section \<open>Processing multi requests\<close>

text \<open>The responses of the parts, each on the tree that the parts before it leave.\<close>

fun parts_answered ::
  "KeeperContext \<Rightarrow> (ACLs \<Rightarrow> ACLs option) \<Rightarrow> int64 \<Rightarrow> int64 \<Rightarrow> int64 \<Rightarrow> Request list \<Rightarrow> tree \<Rightarrow> Response list \<Rightarrow> bool" where
  "parts_answered ctx fix z sid time [] t [] = True"
| "parts_answered ctx fix z sid time (r # rs) t (resp # resps) =
     (let res = spec_plain fix z sid time r t
      in response_ok ctx r res t (tree_after res t) (\<lambda>_. None) resp \<and>
         parts_answered ctx fix z sid time rs (tree_after res t) resps)"
| "parts_answered ctx fix z sid time _ t _ = False"

lemma part_facts:
  assumes "multi_kind r \<noteq> None"
  shows "plain r" "body_ok ctx r t t' a b = body_ok ctx r t t' a' b"
    "response_ok ctx r res t t' a resp = response_ok ctx r res t t' a' resp"
proof -
  show "plain r" using assms by (cases r) auto
  show b: "body_ok ctx r t t' a b = body_ok ctx r t t' a' b" for b using assms by (cases r) (auto simp: body_ok_def)
  show "response_ok ctx r res t t' a resp = response_ok ctx r res t t' a' resp" by (cases res) (simp_all add: response_ok_def b)
qed

lemma answerable_write: "multi_kind r = Some KindWrite \<Longrightarrow> answerable_part t r = answerable_part t' r"
  by (cases r) (auto simp: answerable_part_def answerable_plain_def)

text \<open>Whether a part can be answered is decided on the tree before the request: writing parts do not depend on
  it and reading parts do not change it.\<close>

definition parts_answerable :: "tree \<Rightarrow> Request list \<Rightarrow> bool" where
  "parts_answerable t rs \<longleftrightarrow>
     (\<exists>k. \<forall>r \<in> set rs. multi_kind r = Some k) \<and> (\<forall>r \<in> set rs. answerable_part t r)"

lemma parts_answerable_tl:
  assumes "parts_answerable t (r # rs)" "implements fx z sid time r t ds"
  shows "parts_answerable (replay ds t) rs"
proof -
  obtain k where k: "\<forall>r \<in> set (r # rs). multi_kind r = Some k" using assms(1) by (auto simp: parts_answerable_def)
  show ?thesis
  proof (cases k)
    case KindRead
    then have "is_read r" using k by (simp add: is_read_def)
    then have "replay ds t = t"
      using assms(2) meets_replay [of z ds t] spec_plain_read [of r fx z sid time t]
      by (auto simp: implements_def split: sum.splits)
    then show ?thesis using assms(1) k by (auto simp: parts_answerable_def)
  next
    case KindWrite
    then show ?thesis using assms(1) k answerable_write [of _ "replay ds t" t] by (auto simp: parts_answerable_def)
  qed
qed

lemma multi_process_loop_ok:
  assumes "cinv ctx s" "us_inv s" "names_ok (ctree s) (names s)" "proper (ctree s)" "pending s = all @ rest"
    "parts_meet fx z sid time rs (ctree s) all" "\<forall>d \<in> set all. d_zxid d = z"
    "\<forall>d \<in> set rest. \<not> d_zxid d <s z \<and> d_zxid d \<noteq> z" "room (length (pending s)) s" "parts_answerable (ctree s) rs"
  shows "\<exists>resps s'. multi_process_loop ctx z rs s = Inr (resps, s') \<and> served ctx all rest s s' \<and>
     parts_answered ctx fx z sid time rs (ctree s) resps"
  using assms
proof (induction rs arbitrary: s all)
  case Nil
  then have "served ctx [] rest s s" by (auto simp: served_def frame_def intro: room_mono)
  then show ?case using Nil.prems(6) by simp
next
  case (Cons r rs)
  obtain ds tl where all: "all = ds @ delta_plain z SubDeltaEnd # tl" "implements fx z sid time r (ctree s) ds"
    "parts_meet fx z sid time rs (replay ds (ctree s)) tl" using Cons.prems(6) by auto
  let ?m = "[delta_plain z SubDeltaEnd]" and ?res = "spec_plain fx z sid time r (ctree s)"
  have g: "at_group ctx z s ds ?m (tl @ rest)"
    using Cons.prems all(1) by (auto simp: at_group_def word_sless_alt)
  have m: "meets z ds (ctree s) ?res" using all(2) by (simp add: implements_def)
  have k: "multi_kind r \<noteq> None" "answerable_plain (ctree s) r" using Cons.prems(10) by (auto simp: parts_answerable_def answerable_part_def)
  obtain resp s1 where s1: "plain_process ctx r z s = Inr (resp, s1)" "committed_all ctx (ds @ ?m) s s1"
    "response_ok ctx r ?res (ctree s) (ctree s1) (atree s1) resp"
    using plain_process_ok [OF g part_facts(1) [OF k(1)] all(2) k(2)] by blast
  have t1: "ctree s1 = replay ds (ctree s)" "replay ds (ctree s) = tree_after ?res (ctree s)"
    using committed_all_facts(2) [OF s1(2)] meets_replay [OF m] by (simp_all add: tstep_def tree_after_def)
  obtain s2 where s2: "us_commit z s1 = Inr s2" "served ctx (ds @ ?m) (tl @ rest) s s2"
    using served_commit [OF g _ s1(2)] meets_group(1) [OF m] by blast
  note d = servedD [OF s2(2)]
  have t2: "ctree s2 = replay ds (ctree s)" using d(5) by (simp add: tstep_def)
  have "room (length (pending s2)) s2" using d(7,8) Cons.prems(5,9) all(1) by (simp add: ac_simps)
  with Cons.IH [OF d(1-4,7)] all Cons.prems(7,8) t2 parts_answerable_tl [OF Cons.prems(10) all(2)]
  obtain resps s' where s': "multi_process_loop ctx z rs s2 = Inr (resps, s')" "served ctx tl rest s2 s'"
    "parts_answered ctx fx z sid time rs (replay ds (ctree s)) resps" by auto
  have "served ctx all rest s s'" using served_trans [OF s2(2) s'(2)] all(1) by simp
  then show ?case
    using s1 s2(1) s' t1 part_facts(3) [OF k(1)] by (simp add: Let_def) blast
qed

text \<open>The answer to an entry of the log, on the trees before and after it.\<close>

definition failed_multi_response :: "Request \<Rightarrow> Error list \<Rightarrow> Error \<Rightarrow> Response" where
  "failed_multi_response req codes err =
     set_error err (set_body (multi_body req (map (\<lambda>e. Response e 0 0 ErrorResponse) codes)) (makeResponse req))"

definition denied_response :: "Request \<Rightarrow> Response" where
  "denied_response req =
     (case req of
        MultiRequest rs _ \<Rightarrow> failed_multi_response req (replicate (length rs) ZOK) ZNOAUTH
      | _ \<Rightarrow> set_error ZNOAUTH (makeResponse req))"

definition multi_answer_ok :: "KeeperContext \<Rightarrow> LogEntry \<Rightarrow> Request list \<Rightarrow> tree \<Rightarrow> Response \<Rightarrow> bool" where
  "multi_answer_ok ctx e rs t resp \<longleftrightarrow>
     (case (\<forall>r \<in> set rs. is_read r, spec_multi (e_fix e) (e_zxid e) (e_session e) (e_time e) rs t) of
        (False, Inl (i, err)) \<Rightarrow>
          resp = failed_multi_response (e_req e)
                   (replicate i ZOK @ [err] @ replicate (length rs - Suc i) ZRUNTIMEINCONSISTENCY) ZOK
      | _ \<Rightarrow> \<exists>resps. parts_answered ctx (e_fix e) (e_zxid e) (e_session e) (e_time e) rs t resps \<and>
               resp = set_body (multi_body (e_req e) resps) (makeResponse (e_req e)))"

definition answer_ok :: "KeeperContext \<Rightarrow> LogEntry \<Rightarrow> tree \<Rightarrow> tree \<Rightarrow> (string \<rightharpoonup> ACLs) \<Rightarrow> Response \<Rightarrow> bool" where
  "answer_ok ctx e t t' a' resp \<longleftrightarrow>
     (if e_req e = CloseRequest then resp = makeResponse CloseRequest
      else if denied e then resp = denied_response (e_req e)
      else case e_req e of
             MultiRequest rs _ \<Rightarrow> multi_answer_ok ctx e rs t resp
           | req \<Rightarrow> response_ok ctx req (spec_plain (e_fix e) (e_zxid e) (e_session e) (e_time e) req t) t t' a' resp)"

text \<open>The first entry of the log, ready to be processed.\<close>

definition at_entry :: "KeeperContext \<Rightarrow> LogEntry \<Rightarrow> Delta list \<Rightarrow> KeeperStorage \<Rightarrow> bool" where
  "at_entry ctx e rest s \<longleftrightarrow>
     cinv ctx s \<and> us_inv s \<and> names_ok (ctree s) (names s) \<and> proper (ctree s) \<and> pending s = e_deltas e @ rest \<and>
     entry_ok e (ctree s) \<and> (\<forall>d \<in> set (e_deltas e). d_zxid d = e_zxid e) \<and>
     (\<forall>d \<in> set rest. \<not> d_zxid d <s e_zxid e \<and> d_zxid d \<noteq> e_zxid e) \<and> room (length (pending s)) s"

lemma at_entryD:
  assumes "at_entry ctx e rest s"
  shows "cinv ctx s" "us_inv s" "names_ok (ctree s) (names s)" "proper (ctree s)" "pending s = e_deltas e @ rest"
    "entry_ok e (ctree s)" "\<forall>d \<in> set (e_deltas e). d_zxid d = e_zxid e"
    "\<forall>d \<in> set rest. \<not> d_zxid d <s e_zxid e \<and> d_zxid d \<noteq> e_zxid e" "room (length (pending s)) s"
    "at_group ctx (e_zxid e) s (e_deltas e) [] rest"
  using assms unfolding at_entry_def at_group_def by (elim conjE; simp)+

lemma failed_multi_front:
  assumes a: "at_entry ctx e rest s" and d: "e_deltas e = [delta_plain (e_zxid e) (FailedMultiDelta codes err)]"
    and n: "length codes = length rs"
  shows "\<exists>s1. multi_process ctx req rs (e_zxid e) s = Inr (failed_multi_response req codes err, s1) \<and>
     served ctx (e_deltas e) rest s s1"
proof -
  note l = at_entryD [OF a]
  let ?d = "delta_plain (e_zxid e) (FailedMultiDelta codes err)"
  have "committed_all ctx [?d] s s"
    using l(1,3,4) by (auto simp: committed_all_def frame_def step_defs intro: room_mono)
  with served_commit [OF l(10)] d obtain s1 where s1: "us_commit (e_zxid e) s = Inr s1" "served ctx (e_deltas e) rest s s1"
    by auto
  obtain x xs where xs: "us_deltas (uncommitted_state s) = x # xs" "snd x = ?d" using l(5) d by (auto simp: pending_def)
  then have "multi_process ctx req rs (e_zxid e) s = Inr (failed_multi_response req codes err, s1)"
    using s1(1) n by (cases x) (simp add: multi_process_def failed_multi_response_def)
  then show ?thesis using s1(2) by blast
qed

lemma parts_process_ok:
  assumes a: "at_entry ctx e rest s" and rs: "rs \<noteq> []" "parts_answerable (ctree s) rs"
    and m: "parts_meet (e_fix e) (e_zxid e) (e_session e) (e_time e) rs (ctree s) (e_deltas e)"
  shows "\<exists>resps s1. multi_process ctx req rs (e_zxid e) s = Inr (set_body (multi_body req resps) (makeResponse req), s1) \<and>
     parts_answered ctx (e_fix e) (e_zxid e) (e_session e) (e_time e) rs (ctree s) resps \<and> served ctx (e_deltas e) rest s s1"
proof -
  note l = at_entryD [OF a]
  obtain resps s1 where s1: "multi_process_loop ctx (e_zxid e) rs s = Inr (resps, s1)" "served ctx (e_deltas e) rest s s1"
    "parts_answered ctx (e_fix e) (e_zxid e) (e_session e) (e_time e) rs (ctree s) resps"
    using multi_process_loop_ok [OF l(1-5) m l(7-9) rs(2)] by blast
  obtain d ds where d: "e_deltas e = d # ds" "\<not> failed_multi (d_operation d)" using parts_front [OF m rs(1)] by blast
  obtain x xs where xs: "us_deltas (uncommitted_state s) = x # xs" "snd x = d" using l(5) d(1) by (auto simp: pending_def)
  have "multi_process ctx req rs (e_zxid e) s = Inr (set_body (multi_body req resps) (makeResponse req), s1)"
    using s1(1) xs d(2) by (cases x; cases "d_operation d") (auto simp: multi_process_def)
  then show ?thesis using s1(2,3) by blast
qed

lemma spec_multi_index: "spec_multi fx z sid time rs t = Inl (i, e) \<Longrightarrow> i < length rs"
  by (induction rs arbitrary: t i) (auto split: sum.splits)

lemma multi_process_ok:
  assumes a: "at_entry ctx e rest s" and r: "e_req e = MultiRequest rs k" and nd: "\<not> denied e"
  shows "\<exists>resp s1. multi_process ctx (e_req e) rs (e_zxid e) s = Inr (resp, s1) \<and> multi_answer_ok ctx e rs (ctree s) resp \<and>
     served ctx (e_deltas e) rest s s1"
proof -
  note l = at_entryD [OF a]
  have v: "rs \<noteq> []" "\<forall>r \<in> set rs. answerable_part (ctree s) r" and m: "multi_entry_ok e rs (ctree s)"
    and k: "\<exists>k. multi_processor rs None = Inr k"
    using l(6) r nd unfolding entry_ok_def by (auto simp: valid_request_def answerable_def denied_def)
  obtain kind where "multi_processor rs None = Inr kind" using k by blast
  from multi_processor_kind [OF this] v have pa: "parts_answerable (ctree s) rs" by (auto simp: parts_answerable_def)
  let ?spec = "spec_multi (e_fix e) (e_zxid e) (e_session e) (e_time e) rs (ctree s)"
  consider (parts) "parts_meet (e_fix e) (e_zxid e) (e_session e) (e_time e) rs (ctree s) (e_deltas e)"
      "(\<forall>r \<in> set rs. is_read r) \<or> (\<exists>t'. ?spec = Inr t')"
    | (failed) i err where "(\<forall>r \<in> set rs. is_read r) = False" "?spec = Inl (i, err)"
        "e_deltas e = [multi_failed (e_zxid e) [] (length rs) i err]"
    using m by (auto simp: multi_entry_ok_def split: if_splits sum.splits)
  then show ?thesis
  proof cases
    case parts
    from parts_process_ok [OF a v(1) pa parts(1), of "e_req e"] obtain resps s1 where
      "multi_process ctx (e_req e) rs (e_zxid e) s = Inr (set_body (multi_body (e_req e) resps) (makeResponse (e_req e)), s1)"
      "parts_answered ctx (e_fix e) (e_zxid e) (e_session e) (e_time e) rs (ctree s) resps" "served ctx (e_deltas e) rest s s1"
      by blast
    then show ?thesis using parts(2) by (auto simp: multi_answer_ok_def split: bool.split sum.split)
  next
    case failed
    have "i < length rs" using spec_multi_index [OF failed(2)] .
    then have n: "length (replicate i ZOK @ [err] @ replicate (length rs - Suc i) ZRUNTIMEINCONSISTENCY) = length rs" by simp
    from failed_multi_front [OF a failed(3) [unfolded multi_failed_def append_Nil] n, of "e_req e"] show ?thesis
      unfolding multi_answer_ok_def failed(1,2) by auto
  qed
qed

section \<open>Processing an entry\<close>

text \<open>What remains of processing, whatever it did to watches and sessions: dropping the deltas.\<close>

definition finishes :: "KeeperContext \<Rightarrow> LogEntry \<Rightarrow> Delta list \<Rightarrow> KeeperStorage \<Rightarrow> KeeperStorage \<Rightarrow> bool" where
  "finishes ctx e rest s s1 \<longleftrightarrow> (\<exists>s2. us_commit (e_zxid e) s1 = Inr s2 \<and> served ctx (e_deltas e) rest s s2)"

lemma us_commit_only:
  "us_commit z s1 = Inr s2 \<Longrightarrow> ks_zxid s2 = ks_zxid s1 \<and> session_expiry_queue s2 = session_expiry_queue s1 \<and>
     session_and_timeout s2 = session_and_timeout s1"
  by (auto simp: us_commit_def bindE_def split: sum.splits)

lemma served_finishes:
  assumes a: "at_entry ctx e rest s" and s: "served ctx (e_deltas e) rest s s1"
  shows "finishes ctx e rest s s1"
proof -
  note l = at_entryD [OF a]
  have "room (length rest) s1" using servedD(8) [OF s] l(5,9) by (simp add: ac_simps)
  then show ?thesis using served_again [OF s l(8)] by (simp add: finishes_def)
qed

lemma committed_finishes:
  assumes a: "at_entry ctx e rest s" and d: "\<forall>d \<in> set (e_deltas e). d_operation d \<noteq> SubDeltaEnd"
    and c: "committed_all ctx (e_deltas e) s s1"
  shows "finishes ctx e rest s s1"
  using served_commit [OF at_entryD(10) [OF a] d] c by (simp add: finishes_def)

lemma process_ok:
  assumes a: "at_entry ctx e rest s" and nc: "e_req e \<noteq> CloseRequest"
  shows "\<exists>resp s1. process ctx (e_req e) (e_zxid e) s = Inr (resp, s1) \<and> finishes ctx e rest s s1 \<and>
     answer_ok ctx e (ctree s) (replay (e_deltas e) (ctree s)) (fold astep (e_deltas e) (atree s)) resp"
proof (cases "\<exists>rs k. e_req e = MultiRequest rs k")
  case True
  then obtain rs k where r: "e_req e = MultiRequest rs k" by blast
  show ?thesis
  proof (cases "denied e")
    case True
    then have "e_deltas e = [delta_plain (e_zxid e) (FailedMultiDelta (replicate (length rs) ZOK) ZNOAUTH)]"
      using r by (simp add: denied_def no_auth_delta_def)
    from failed_multi_front [OF a this, of rs "e_req e"] obtain s1 where
      "multi_process ctx (e_req e) rs (e_zxid e) s = Inr (denied_response (e_req e), s1)" "served ctx (e_deltas e) rest s s1"
      using r by (auto simp: denied_response_def)
    then show ?thesis
      using served_finishes [OF a] r True by (auto simp: process_def answer_ok_def)
  next
    case False
    from multi_process_ok [OF a r False] served_finishes [OF a] show ?thesis
      using r False unfolding process_def answer_ok_def by auto
  qed
next
  case nm: False
  note l = at_entryD [OF a]
  have valid: "valid_request (e_session e) (e_req e)" "answerable (ctree s) (e_req e)" using l(6) by (simp_all add: entry_ok_def)
  then have pl: "plain (e_req e)" "answerable_plain (ctree s) (e_req e)"
    using nm nc by (cases "e_req e"; simp add: valid_request_def answerable_def)+
  have proc: "process ctx (e_req e) (e_zxid e) s = plain_process ctx (e_req e) (e_zxid e) s"
    using nm by (cases "e_req e") (auto simp: process_def)
  show ?thesis
  proof (cases "denied e \<and> (\<nexists>p. e_req e = SyncRequest p)")
    case True
    then have d: "e_deltas e = [delta_error (e_zxid e) ZNOAUTH]" "denied_response (e_req e) = set_error ZNOAUTH (makeResponse (e_req e))"
      using nm by (cases "e_req e"; auto simp: denied_def no_auth_delta_def denied_response_def)+
    from plain_process_error [OF l(10) [unfolded d(1)] _ pl(1)] True obtain s1 where
      s1: "plain_process ctx (e_req e) (e_zxid e) s = Inr (denied_response (e_req e), s1)" "committed_all ctx (e_deltas e) s s1"
      using d by auto
    have "finishes ctx e rest s s1" using committed_finishes [OF a _ s1(2)] d(1) by simp
    then show ?thesis using s1(1) proc nc True by (auto simp: answer_ok_def)
  next
    case False
    then have i: "implements (e_fix e) (e_zxid e) (e_session e) (e_time e) (e_req e) (ctree s) (e_deltas e)"
      using l(6) pl(1) by (cases "e_req e") (auto simp: entry_ok_def denied_def)
    then have nd: "\<not> denied e"
      using False by (auto simp: implements_def denied_def)
    have m: "\<forall>d \<in> set (e_deltas e). d_operation d \<noteq> SubDeltaEnd"
      using meets_group(1) [of "e_zxid e" "e_deltas e" "ctree s" _ "[]"] i by (auto simp: implements_def)
    obtain resp s1 where s1: "plain_process ctx (e_req e) (e_zxid e) s = Inr (resp, s1)" "committed_all ctx (e_deltas e) s s1"
      "response_ok ctx (e_req e) (spec_plain (e_fix e) (e_zxid e) (e_session e) (e_time e) (e_req e) (ctree s))
         (ctree s) (ctree s1) (atree s1) resp"
      using plain_process_ok [OF l(10) pl(1) i pl(2)] by auto
    have t: "ctree s1 = replay (e_deltas e) (ctree s)" "atree s1 = fold astep (e_deltas e) (atree s)"
      using s1(2) by (simp_all add: committed_all_def)
    have "answer_ok ctx e (ctree s) (ctree s1) (atree s1) resp"
      using s1(3) nd nc nm by (cases "e_req e") (auto simp: answer_ok_def)
    then show ?thesis using s1 committed_finishes [OF a m s1(2)] proc t by auto
  qed
qed

text \<open>Watches and sessions are beside the tree.\<close>

definition aside :: "KeeperStorage \<Rightarrow> KeeperStorage \<Rightarrow> bool" where
  "aside s s' \<longleftrightarrow>
     container s' = container s \<and> ephemerals s' = ephemerals s \<and> session_id_counter s' = session_id_counter s \<and>
     acl_map s' = acl_map s \<and> nodes_digest s' = nodes_digest s \<and> uncommitted_state s' = uncommitted_state s \<and>
     uncommitted_transactions s' = uncommitted_transactions s \<and> ks_zxid s' = ks_zxid s \<and>
     old_snapshot_zxid s' = old_snapshot_zxid s \<and> finalized s' = finalized s \<and> initialized s' = initialized s"

lemma aside_trans: "aside s s1 \<Longrightarrow> aside s1 s2 \<Longrightarrow> aside s s2"
  by (simp add: aside_def)

lemma aside_simps [simp]:
  "aside s s" "aside s (s\<lparr>watches := w\<rparr>)" "aside s (s\<lparr>list_watches := w\<rparr>)" "aside s (s\<lparr>sessions_and_watchers := sw\<rparr>)"
  "aside s (s\<lparr>session_and_auth := sa\<rparr>)" "aside s (s\<lparr>session_and_timeout := st\<rparr>)" "aside s (s\<lparr>session_expiry_queue := q\<rparr>)"
  by (simp_all add: aside_def)

text \<open>The timeouts of the sessions and the interval of the expiry queue.\<close>

definition timeouts :: "KeeperStorage \<Rightarrow> int set" where
  "timeouts s = insert 0 (ran (session_and_timeout s))"

definition clocks :: "KeeperStorage \<Rightarrow> KeeperStorage \<Rightarrow> bool" where
  "clocks s s' \<longleftrightarrow>
     timeouts s' \<subseteq> timeouts s \<and>
     expiration_interval (session_expiry_queue s') = expiration_interval (session_expiry_queue s)"

lemma clocks_trans: "clocks s s1 \<Longrightarrow> clocks s1 s2 \<Longrightarrow> clocks s s2"
  by (auto simp: clocks_def)

lemma clocks_same [simp]:
  "session_and_timeout s' = session_and_timeout s \<Longrightarrow> session_expiry_queue s' = session_expiry_queue s \<Longrightarrow> clocks s s'"
  by (simp add: clocks_def timeouts_def)

definition notices :: "ResponseForSession list \<Rightarrow> bool" where
  "notices rs \<longleftrightarrow> (\<forall>r \<in> set rs. \<exists>p ev. rs_response r = watch_response p ev)"

definition notified :: "KeeperStorage \<Rightarrow> exn + ResponseForSession list \<times> KeeperStorage \<Rightarrow> bool" where
  "notified s r \<longleftrightarrow>
     (\<exists>rs s'. r = Inr (rs, s') \<and> aside s s' \<and> session_expiry_queue s' = session_expiry_queue s \<and>
        session_and_timeout s' = session_and_timeout s \<and> notices rs)"

lemma notified_nothing [simp]: "notified s (Inr ([], s))"
  by (simp add: notified_def notices_def)

lemma notified_bind:
  assumes "notified s r" "\<And>s'. notified s' (f s')"
  shows "notified s (bindE r (\<lambda>(rs, s). bindE (f s) (\<lambda>(rs', s). Inr (rs @ rs', s))))"
proof -
  obtain rs s' where r: "r = Inr (rs, s')" "aside s s'" "session_expiry_queue s' = session_expiry_queue s"
    "session_and_timeout s' = session_and_timeout s" "notices rs"
    using assms(1) by (auto simp: notified_def)
  obtain rs' s'' where "f s' = Inr (rs', s'')" "aside s' s''" "session_expiry_queue s'' = session_expiry_queue s'"
    "session_and_timeout s'' = session_and_timeout s'" "notices rs'"
    using assms(2) [of s'] by (auto simp: notified_def)
  then show ?thesis using r aside_trans by (auto simp: notified_def notices_def)
qed

lemma fire_watch_notices: "notices (fst (fire_watch p ev ws))"
  by (auto simp: fire_watch_def notices_def split: option.split)

lemma fire_list_watches_notices: "notices (fst (fire_list_watches q ps lws))"
proof (induction q ps lws rule: fire_list_watches.induct)
  case (2 q p ps lws)
  then show ?case
    using fire_watch_notices [of p "if p = q then CHILD else DELETED" lws]
    by (auto simp: notices_def split: prod.splits)
qed (simp add: notices_def)

lemma processWatchesImpl_ok:
  assumes "parentNodePath p \<noteq> None"
  shows "notified s (processWatchesImpl p ev s)"
proof -
  obtain q where q: "parentNodePath p = Some q" using assms by blast
  obtain rs ws where rs: "fire_watch p ev (watches s) = (rs, ws)" by (cases "fire_watch p ev (watches s)")
  obtain rs' lws where rs': "fire_list_watches q (if ev = CREATED then [q] else [p, q]) (list_watches s) = (rs', lws)"
    by (cases "fire_list_watches q (if ev = CREATED then [q] else [p, q]) (list_watches s)")
  have "notices rs" "notices rs'" using fire_watch_notices fire_list_watches_notices rs rs' by (metis fst_conv)+
  then show ?thesis
    using q rs rs' by (auto simp: notified_def processWatchesImpl_def Let_def aside_def notices_def split: if_splits)
qed

lemma plain_processWatches_ok:
  assumes "valid_plain sid req"
  shows "notified s (plain_processWatches req s)"
proof -
  have changed: "notified s (processWatchesImpl p CHANGED s)" for p
    using fire_watch_notices [of p CHANGED "watches s"]
    by (auto simp: notified_def processWatchesImpl_def Let_def aside_def split: prod.splits)
  show ?thesis
    using assms processWatchesImpl_ok changed parentNodePath_None
    by (cases req) (auto simp: plain_processWatches_def valid_plain_def)
qed

lemma processWatches_ok:
  assumes "valid_request sid req"
  shows "notified s (processWatches req s)"
proof (cases "\<exists>rs k. req = MultiRequest rs k")
  case True
  then obtain rs k where r: "req = MultiRequest rs k" by blast
  have "notified s (multi_processWatches rs s)" if "\<forall>r \<in> set rs. valid_plain sid r" for rs s
    using that
  proof (induction rs arbitrary: s)
    case (Cons r rs)
    then have "notified s (plain_processWatches r s)" using plain_processWatches_ok [of sid r] by simp
    from notified_bind [OF this Cons.IH] Cons.prems show ?case by simp
  qed simp
  then show ?thesis using r assms by (simp add: processWatches_def valid_request_def)
next
  case False
  then show ?thesis using assms plain_processWatches_ok [of sid req s]
    by (cases req) (auto simp: processWatches_def valid_request_def plain_processWatches_def)
qed

lemma register_watch_aside:
  "aside s (register_watch req sid err s)" "session_expiry_queue (register_watch req sid err s) = session_expiry_queue s"
  "session_and_timeout (register_watch req sid err s) = session_and_timeout s"
  by (auto simp: register_watch_def add_watch_def Let_def aside_def)

lemma close_watches_ok:
  assumes "\<forall>d \<in> set ds. \<forall>v w. d_operation d = RemoveNodeDelta v w \<longrightarrow> parentNodePath (d_path d) \<noteq> None"
  shows "notified s (close_watches z ds s)"
  using assms
proof (induction ds arbitrary: s)
  case (Cons d ds)
  have "notified s (case d_operation d of RemoveNodeDelta _ _ \<Rightarrow> processWatchesImpl (d_path d) DELETED s | _ \<Rightarrow> Inr ([], s))"
    using Cons.prems processWatchesImpl_ok by (auto split: Operation.split)
  from notified_bind [OF this Cons.IH] Cons.prems show ?case by simp
qed simp

lemma us_commit_aside:
  assumes "us_commit z s1 = Inr s2" "aside s1 s1'"
  shows "\<exists>s2'. us_commit z s1' = Inr s2' \<and> aside s2 s2' \<and> session_expiry_queue s2' = session_expiry_queue s1' \<and>
     session_and_timeout s2' = session_and_timeout s1'"
  using assms by (auto simp: us_commit_def bindE_def aside_def split: sum.splits prod.splits)

lemma finishesD:
  assumes "finishes ctx e rest s s1"
  shows "ks_zxid s1 = ks_zxid s" "session_expiry_queue s1 = session_expiry_queue s" "session_and_timeout s1 = session_and_timeout s"
proof -
  obtain s2 where s2: "us_commit (e_zxid e) s1 = Inr s2" "served ctx (e_deltas e) rest s s2"
    using assms by (auto simp: finishes_def)
  then show "ks_zxid s1 = ks_zxid s" "session_expiry_queue s1 = session_expiry_queue s" "session_and_timeout s1 = session_and_timeout s"
    using us_commit_only [OF s2(1)] servedD(11,12,18) [OF s2(2)] by simp_all
qed

text \<open>A handler answers the session, after the notices it sends to watching sessions.\<close>

definition handled ::
  "KeeperContext \<Rightarrow> LogEntry \<Rightarrow> Delta list \<Rightarrow> int32 \<Rightarrow> KeeperStorage \<Rightarrow> exn + ResponseForSession list \<times> KeeperStorage \<Rightarrow> bool" where
  "handled ctx e rest x s r \<longleftrightarrow>
     (\<exists>rs resp s1 s1'. r = Inr (rs @ [\<lparr>rs_session_id = e_session e, rs_response = set_ids (e_zxid e) x resp\<rparr>], s1') \<and>
        notices rs \<and> finishes ctx e rest s s1 \<and> aside s1 s1' \<and> queue_inv (session_expiry_queue s1') \<and> clocks s s1' \<and>
        answer_ok ctx e (ctree s) (replay (e_deltas e) (ctree s)) (fold astep (e_deltas e) (atree s)) resp)"

lemma handledI:
  assumes "finishes ctx e rest s s1" "aside s1 s1'" "queue_inv (session_expiry_queue s1')" "clocks s s1'" "notices rs"
    "answer_ok ctx e (ctree s) (replay (e_deltas e) (ctree s)) (fold astep (e_deltas e) (atree s)) resp"
    "r = Inr (rs @ [\<lparr>rs_session_id = e_session e, rs_response = set_ids (e_zxid e) x resp\<rparr>], s1')"
  shows "handled ctx e rest x s r"
  using assms unfolding handled_def by blast

lemma process_normal_ok:
  assumes a: "at_entry ctx e rest s" and nc: "e_req e \<noteq> CloseRequest" and z: "ks_zxid s = e_zxid e"
    and q: "queue_inv (session_expiry_queue s)"
  shows "handled ctx e rest x s (process_normal ctx x (e_req e) (e_session e) check_acl False s)"
proof -
  have valid: "valid_request (e_session e) (e_req e)" using at_entryD(6) [OF a] by (simp add: entry_ok_def)
  then have p: "get_processor (e_req e) = Inr ()" by (cases "e_req e") (auto simp: get_processor_def valid_request_def)
  obtain resp s1 where s1: "process ctx (e_req e) (e_zxid e) s = Inr (resp, s1)" "finishes ctx e rest s s1"
    "answer_ok ctx e (ctree s) (replay (e_deltas e) (ctree s)) (fold astep (e_deltas e) (atree s)) resp"
    using process_ok [OF a nc] by blast
  let ?s2 = "register_watch (e_req e) (e_session e) (resp_error resp) s1"
  note w = register_watch_aside [where s = s1 and req = "e_req e" and sid = "e_session e" and err = "resp_error resp"]
  have "notified ?s2 (if resp_error resp = ZOK then processWatches (e_req e) ?s2 else Inr ([], ?s2))"
    using processWatches_ok [OF valid] by simp
  then obtain rs s3 where s3: "(if resp_error resp = ZOK then processWatches (e_req e) ?s2 else Inr ([], ?s2)) = Inr (rs, s3)"
    "aside ?s2 s3" "session_expiry_queue s3 = session_expiry_queue ?s2" "notices rs"
    "session_and_timeout s3 = session_and_timeout ?s2" by (auto simp: notified_def)
  have as: "aside s1 s3" using aside_trans [OF w(1) s3(2)] .
  have "ks_zxid s3 = e_zxid e" using as finishesD(1) [OF s1(2)] z by (simp add: aside_def)
  moreover have "queue_inv (session_expiry_queue s3)" using s3(3) w(2) finishesD(2) [OF s1(2)] q by simp
  moreover have "clocks s s3" using s3(3,5) w(2,3) finishesD(2,3) [OF s1(2)] by simp
  ultimately show ?thesis
    using handledI [OF s1(2) as _ _ s3(4) s1(3)] p s1(1) z s3(1) by (simp add: process_normal_def Let_def)
qed

lemma process_heartbeat_ok:
  assumes a: "at_entry ctx e rest s" and r: "e_req e = HeartbeatRequest" and z: "ks_zxid s = e_zxid e"
    and q: "queue_inv (session_expiry_queue s)"
  shows "handled ctx e rest x s (process_heartbeat ctx x (e_session e) s)"
proof -
  obtain resp s1 where s1: "process ctx (e_req e) (e_zxid e) s = Inr (resp, s1)" "finishes ctx e rest s s1"
    "answer_ok ctx e (ctree s) (replay (e_deltas e) (ctree s)) (fold astep (e_deltas e) (atree s)) resp"
    using process_ok [OF a] r by auto
  then show ?thesis
    using handledI [OF s1(2) _ _ _ _ s1(3), where s1' = s1 and rs = "[]"] finishesD [OF s1(2)] z q r
    by (simp add: process_heartbeat_def notices_def)
qed

lemma removes_have_parent:
  "enabled_all ds t \<Longrightarrow> d \<in> set ds \<Longrightarrow> d_operation d = RemoveNodeDelta v w \<Longrightarrow> parentNodePath (d_path d) \<noteq> None"
  by (induction ds arbitrary: t) (auto simp: enabled_def)

lemma closing_group: "\<forall>d \<in> set ds. closing d \<Longrightarrow> errs_ok ds \<and> group_result ds = ZOK"
  by (induction ds) (auto simp: closing_def)

lemma process_close_ok:
  assumes a: "at_entry ctx e rest s" and r: "e_req e = CloseRequest" and z: "ks_zxid s = e_zxid e"
    and q: "queue_inv (session_expiry_queue s)"
  shows "handled ctx e rest x s (process_close ctx x (e_session e) s)"
proof -
  note l = at_entryD [OF a]
  have c: "\<forall>d \<in> set (e_deltas e). closing d" using l(6) r by (auto simp: entry_ok_def)
  then have d: "\<forall>d \<in> set (e_deltas e). d_operation d \<noteq> SubDeltaEnd \<and> \<not> failed_multi (d_operation d)" by (simp add: closing_def)
  obtain s1 where s1: "storage_commit ctx (e_zxid e) s = Inr (ZOK, s1)" "committed_all ctx (e_deltas e) s s1"
    using commit_group [OF l(10) d] closing_group [OF c] by auto
  have fin: "finishes ctx e rest s s1" using committed_finishes [OF a _ s1(2)] d by blast
  have "map snd (us_deltas (uncommitted_state s1)) = pending s"
    using committed_all_facts(5) [OF s1(2)] by (simp add: pending_def)
  then have "notified s1 (close_watches (ks_zxid s1) (map snd (us_deltas (uncommitted_state s1))) s1)"
    using close_watches_ok removes_have_parent l(2) by (metis us_inv_def)
  then obtain rs s2 where s2: "close_watches (ks_zxid s1) (map snd (us_deltas (uncommitted_state s1))) s1 = Inr (rs, s2)"
    "aside s1 s2" "session_expiry_queue s2 = session_expiry_queue s1" "notices rs"
    "session_and_timeout s2 = session_and_timeout s1" by (auto simp: notified_def)
  define s3 where "s3 = (clearDeadWatches (e_session e) s2)\<lparr>session_and_auth :=
      (session_and_auth (clearDeadWatches (e_session e) s2))(e_session e := [])\<rparr>"
  have s3: "aside s1 s3" "session_expiry_queue s3 = session_expiry_queue s" "ks_zxid s3 = e_zxid e"
    "session_and_timeout s3 = session_and_timeout s"
    using s2(2,3,5) finishesD [OF fin] z by (auto simp: s3_def clearDeadWatches_def aside_def split: option.split)
  have cl: "session_expiry_queue (clearDeadWatches (e_session e) s2) = session_expiry_queue s"
    "ks_zxid (clearDeadWatches (e_session e) s2) = e_zxid e" using s3(2,3) by (simp_all add: s3_def)
  obtain b q' where q': "queue_remove (e_session e) (session_expiry_queue s) = Inr (b, q')" "queue_inv q'"
    "expiration_interval q' = expiration_interval (session_expiry_queue s)"
    using queue_remove_spec [OF q] by blast
  let ?s4 = "s3\<lparr>session_expiry_queue := q', session_and_timeout := (session_and_timeout s3)(e_session e := None)\<rparr>"
  have "process_close ctx x (e_session e) s =
      Inr (rs @ [\<lparr>rs_session_id = e_session e, rs_response = set_ids (e_zxid e) x (makeResponse CloseRequest)\<rparr>], ?s4)"
    using s1(1) s2(1) z cl q'(1) by (simp add: process_close_def s3_def Let_def)
  moreover have "aside s1 ?s4" using s3(1) by (simp add: aside_def)
  moreover have "queue_inv (session_expiry_queue ?s4)" using q'(2) by simp
  moreover have "clocks s ?s4" using s3(4) q'(3) by (auto simp: clocks_def timeouts_def ran_def)
  ultimately show ?thesis using handledI [OF fin _ _ _ s2(4)] r by (simp add: answer_ok_def)
qed

section \<open>Processing a committed request\<close>

text \<open>The expiration time of the session is within the range of the clock.\<close>

definition clock_ok :: "int \<Rightarrow> int64 \<Rightarrow> KeeperStorage \<Rightarrow> bool" where
  "clock_ok now sid s \<longleftrightarrow>
     queue_in_range (now + (case session_and_timeout s sid of None \<Rightarrow> 0 | Some t \<Rightarrow> t)) (session_expiry_queue s)"

lemma touch_session_ok:
  assumes "queue_inv (session_expiry_queue s)" "clock_ok now sid s"
  shows "\<exists>s1. touch_session now sid s = Inr s1 \<and> aside s s1 \<and> queue_inv (session_expiry_queue s1) \<and> clocks s s1"
proof -
  let ?t = "case session_and_timeout s sid of None \<Rightarrow> 0 | Some t \<Rightarrow> t" and ?q = "session_expiry_queue s"
  have r: "queue_in_range (now + ?t) ?q" using assms(2) by (simp add: clock_ok_def)
  then have "int64_fits (now + ?t)" by (auto simp: queue_in_range_def int64_fits_def)
  moreover obtain t where "roundToNextInterval (now + ?t) ?q = Inr t" using roundToNextInterval_in_range [OF r] by blast
  ultimately obtain q' where "addNewSessionOrUpdate now sid ?t ?q = Inr q'" "queue_inv q'"
      "expiration_interval q' = expiration_interval ?q"
    using addNewSessionOrUpdate_spec [OF assms(1)] by metis
  moreover have "ran ((session_and_timeout s)(sid \<mapsto> ?t)) \<subseteq> timeouts s"
    by (auto simp: timeouts_def ran_def split: option.splits if_splits)
  ultimately show ?thesis by (auto simp: touch_session_def Let_def aside_def clocks_def timeouts_def)
qed

lemma us_inv_cong:
  assumes "container s' = container s" "uncommitted_state s' = uncommitted_state s"
  shows "us_inv s' = us_inv s" "pending s' = pending s"
  using assms by (simp_all add: us_inv_def pending_def ctree_def coherent_def)

lemma log_at_entry:
  assumes inv: "log_inv ctx s (e # L)" and room: "room (length (pending s)) s"
    and s1: "container s1 = container s" "nodes_digest s1 = nodes_digest s" "acl_map s1 = acl_map s"
      "uncommitted_state s1 = uncommitted_state s"
  shows "at_entry ctx e (log_deltas L) s1"
proof -
  note l = log_invD [OF inv] and c = committed_cong [OF s1(1-3)] and u = us_inv_cong [OF s1(1,4)]
  obtain x X where X: "uncommitted_transactions s = x # X" using chain_length [OF l(8)] by (cases "uncommitted_transactions s") auto
  have ch: "entry_ok e (ctree s)" "\<forall>d \<in> set (e_deltas e). d_zxid d = e_zxid e" "chain ctx (replay (e_deltas e) (ctree s)) L X"
    using l(8) X by simp_all
  have "zlt (e_zxid e) (d_zxid d)" if "d \<in> set (log_deltas L)" for d
    using chain_deltas_zxid [OF ch(3) that] l(9) by auto
  then have "\<forall>d \<in> set (log_deltas L). \<not> d_zxid d <s e_zxid e \<and> d_zxid d \<noteq> e_zxid e"
    by (fastforce simp: zlt_def word_sless_alt)
  moreover have "room (length (pending s1)) s1" using room u(2) c(2) s1(3) by (simp add: room_def)
  ultimately show ?thesis using l(1-4,7) ch(1,2) c u by (simp add: at_entry_def)
qed

lemma served_log_inv:
  assumes inv: "log_inv ctx s (e # L)" and s0: "s0 = s\<lparr>ks_zxid := e_zxid e, uncommitted_transactions := tl (uncommitted_transactions s)\<rparr>"
    and s1: "aside s0 s1" and s2: "served ctx (e_deltas e) (log_deltas L) s1 s2" and s3: "aside s2 s3"
    and q: "queue_inv (session_expiry_queue s3)"
  shows "log_inv ctx s3 L \<and> ctree s3 = replay (e_deltas e) (ctree s) \<and> ks_zxid s3 = e_zxid e \<and>
     atree s3 = fold astep (e_deltas e) (atree s)"
proof -
  note l = log_invD [OF inv] and d = servedD [OF s2]
  have f: "container s3 = container s2" "nodes_digest s3 = nodes_digest s2" "acl_map s3 = acl_map s2"
    "uncommitted_state s3 = uncommitted_state s2" using s3 by (simp_all add: aside_def)
  have b: "container s1 = container s" "nodes_digest s1 = nodes_digest s" "acl_map s1 = acl_map s"
    using s1 s0 by (simp_all add: aside_def)
  note c = committed_cong [OF f(1-3)] and u = us_inv_cong [OF f(1,4)] and c1 = committed_cong [OF b]
  obtain x X where X: "uncommitted_transactions s = x # X" using chain_length [OF l(8)] by (cases "uncommitted_transactions s") auto
  have t: "ctree s3 = replay (e_deltas e) (ctree s)" using c(2) d(5) c1(2) by simp
  have v: "vtree s3 = vtree s"
    using vtree_replay [of s3] log_view [OF inv] u d(2,7) t by simp
  have k: "ephemerals s3 = ephemerals s" "uncommitted_transactions s3 = X" "ks_zxid s3 = e_zxid e" "initialized s3 = initialized s"
    using s1 s3 d(9-13) s0 X by (simp_all add: aside_def)
  have "eph_ok s3 (vtree s3)" using l(6) v k(1) by (simp add: eph_ok_def)
  moreover have "tree_wf (ctree s3)" "chain ctx (ctree s3) L X" using l(8) X t by simp_all
  moreover have "sorted_wrt zlt (ks_zxid s3 # map e_zxid L)" using l(9) k(3) by simp
  ultimately have "log_inv ctx s3 L"
    using d(1-4,7) c u k l(11) q unfolding log_inv_def by simp
  then show ?thesis using t k(3) c(4) d(6) c1(4) by simp
qed

text \<open>Processing the first request of the log never fails: it answers the session as the specification says,
  and leaves the tree of the specification and the rest of the log.\<close>

theorem processRequest_ok:
  assumes inv: "log_inv ctx s (e # L)" and room: "room (length (pending s)) s"
    and clock: "clock_ok now (e_session e) s" and req: "request zk = e_req e"
  shows "\<exists>rs resp s'. processRequest ctx now zk (e_session e) (Some (e_zxid e)) check_acl False s =
       Inr (rs @ [\<lparr>rs_session_id = e_session e, rs_response = set_ids (e_zxid e) (xid zk) resp\<rparr>], s') \<and>
     notices rs \<and> answer_ok ctx e (ctree s) (ctree s') (atree s') resp \<and>
     log_inv ctx s' L \<and> ctree s' = replay (e_deltas e) (ctree s) \<and> ks_zxid s' = e_zxid e \<and>
     atree s' = fold astep (e_deltas e) (atree s) \<and> room (length (pending s')) s' \<and> clocks s s'"
proof -
  note l = log_invD [OF inv]
  obtain x X where X: "uncommitted_transactions s = x # X" "t_zxid x = e_zxid e"
    using l(8) by (cases "uncommitted_transactions s") auto
  define s0 where "s0 = s\<lparr>ks_zxid := e_zxid e, uncommitted_transactions := tl (uncommitted_transactions s)\<rparr>"
  have start: "start_commit (Some (e_zxid e)) s = Inr s0" using X by (simp add: start_commit_def s0_def)
  obtain s1 where s1: "touch_session now (e_session e) s0 = Inr s1" "aside s0 s1" "queue_inv (session_expiry_queue s1)"
    "clocks s0 s1"
    using touch_session_ok [of s0 now "e_session e"] l(10) clock by (auto simp: s0_def clock_ok_def)
  have b: "container s1 = container s" "nodes_digest s1 = nodes_digest s" "acl_map s1 = acl_map s"
    "uncommitted_state s1 = uncommitted_state s" "ks_zxid s1 = e_zxid e"
    using s1(2) by (simp_all add: aside_def s0_def)
  note a = log_at_entry [OF inv room b(1-4)] and c = committed_cong [OF b(1-3)]
  let ?h = "case getOpNum (e_req e) of Op_Close \<Rightarrow> process_close ctx (xid zk) (e_session e) s1
     | Op_Heartbeat \<Rightarrow> process_heartbeat ctx (xid zk) (e_session e) s1
     | _ \<Rightarrow> process_normal ctx (xid zk) (e_req e) (e_session e) check_acl False s1"
  have "handled ctx e (log_deltas L) (xid zk) s1 ?h"
    using process_close_ok [OF a _ b(5) s1(3)] process_heartbeat_ok [OF a _ b(5) s1(3)]
      process_normal_ok [OF a _ b(5) s1(3), of "xid zk" check_acl] by (cases "e_req e") auto
  then obtain rs resp s2 s3 where h: "?h = Inr (rs @ [\<lparr>rs_session_id = e_session e, rs_response = set_ids (e_zxid e) (xid zk) resp\<rparr>], s3)"
    "notices rs" "finishes ctx e (log_deltas L) s1 s2" "aside s2 s3" "queue_inv (session_expiry_queue s3)"
    "clocks s1 s3" "answer_ok ctx e (ctree s1) (replay (e_deltas e) (ctree s1)) (fold astep (e_deltas e) (atree s1)) resp"
    unfolding handled_def by blast
  obtain s4 where s4: "us_commit (e_zxid e) s2 = Inr s4" "served ctx (e_deltas e) (log_deltas L) s1 s4"
    using h(3) by (auto simp: finishes_def)
  obtain s5 where s5: "us_commit (e_zxid e) s3 = Inr s5" "aside s4 s5" "session_expiry_queue s5 = session_expiry_queue s3"
    "session_and_timeout s5 = session_and_timeout s3"
    using us_commit_aside [OF s4(1) h(4)] by blast
  have "ks_zxid s3 = e_zxid e" using h(4) finishesD(1) [OF h(3)] b(5) by (simp add: aside_def)
  then have p: "processRequest ctx now zk (e_session e) (Some (e_zxid e)) check_acl False s =
       Inr (rs @ [\<lparr>rs_session_id = e_session e, rs_response = set_ids (e_zxid e) (xid zk) resp\<rparr>], s5)"
    unfolding processRequest_def req using l(11) start s1(1) h(1) s5(1) by simp
  have "log_inv ctx s5 L \<and> ctree s5 = replay (e_deltas e) (ctree s) \<and> ks_zxid s5 = e_zxid e \<and>
     atree s5 = fold astep (e_deltas e) (atree s)"
    using served_log_inv [OF inv s0_def s1(2) s4(2) s5(2)] h(5) s5(3) by simp
  moreover have "clocks s s5"
    using clocks_trans [OF clocks_trans [OF s1(4) h(6)], of s5] s5(3,4) by (simp add: clocks_def timeouts_def s0_def)
  moreover have "room (length (pending s5)) s5"
  proof -
    have "room (length (pending s1)) s1" using at_entryD(9) [OF a] .
    then have "room (length (log_deltas L)) s4" using servedD(8) [OF s4(2)] at_entryD(5) [OF a] by (simp add: ac_simps)
    then show ?thesis using servedD(7) [OF s4(2)] s5(2) by (simp add: room_def ctree_def pending_def aside_def)
  qed
  ultimately show ?thesis using p h(2,7) c(2,4) by auto
qed

end
