(* ===== verification/KeeperInit.thy ===== *)
theory KeeperInit
  imports KeeperAnswers
begin

text \<open>
  The constructor of the storage: the root, the system node and the system nodes of the context.
  A new storage satisfies the invariant, with an empty log.
\<close>

section \<open>Inserting nodes without access control lists\<close>

lemma insert_contents:
  assumes ht: "ht_inv (container s)" and p: "contents_of s p = None"
  shows "ht_inv (container (storage_insert ctx p n s))" "contents_of (storage_insert ctx p n s) = (contents_of s)(p \<mapsto> node_copy n)"
    "frame s (storage_insert ctx p n s)" "acl_map (storage_insert ctx p n s) = acl_map s"
    "nodes_digest (storage_insert ctx p n s) = nodes_digest s"
  using ht.invar_ins [OF ht, where vo = "vo ctx" and k = p and v = n]
    ht.find_ins [OF ht, where vo = "vo ctx" and k = p and v = n] p
  by (simp_all add: storage_insert_def contents_of_def frame_def)

lemma acls_ok_insert:
  assumes ok: "acls_ok m F" and p: "F p = None" and n: "n_acl_id n = 0"
  shows "acls_ok m (F(p \<mapsto> n))"
proof -
  have u: "users (F(p \<mapsto> n)) i = (if i = 0 then insert p (users F i) else users F i)" for i
    using p n by (auto simp: users_def)
  have fin: "finite (dom F)" using ok by (simp add: acls_ok_def)
  then have "card (users F 0) \<le> card (insert p (users F 0))" by (auto intro: card_mono)
  moreover have "acl_lookup m 0 \<noteq> None" by (simp add: acl_lookup_def)
  ultimately show ?thesis using ok n unfolding acls_ok_def u by (auto intro: order_trans)
qed

text \<open>A new node, with its share of the digest.\<close>

lemma insert_cinv:
  assumes inv: "cinv ctx s" and p: "contents_of s p = None" and n: "n_acl_id n = 0" "n_children n = []"
    and s': "contents_of s' = (contents_of s)(p \<mapsto> node_copy n)" "ht_inv (container s')" "acl_map s' = acl_map s"
      "nodes_digest s' = (if digestEnabled ctx then nodes_digest s + digest_weight p (core n) else nodes_digest s)"
  shows "cinv ctx s'" "ctree s' = (ctree s)(p \<mapsto> core n)" "names s' = (names s)(p \<mapsto> [])"
proof -
  note facts = cinv_facts [OF inv]
  show t: "ctree s' = (ctree s)(p \<mapsto> core n)" using ctree_upd(1) [OF s'(1)] by simp
  show "names s' = (names s)(p \<mapsto> [])" using s'(1) n(2) by (auto simp: names_def fun_eq_iff)
  have "ctree s p = None" using p by (simp add: ctree_contents)
  then have "digests_ok ctx s'"
    using tree_digest_insert [OF facts(2), of p "core n"] facts(5,6) t s'(1,4) by (auto simp: digests_ok_def split: if_splits)
  moreover have "coherent s'"
    using facts(4) s'(1) by (auto simp: coherent_def contents_of_def [symmetric] digest_coherent_def split: if_splits)
  moreover have "acls_ok (acl_map s') (contents_of s')"
    using acls_ok_insert [OF facts(7) p] n(1) s'(1,3) by simp
  ultimately show "cinv ctx s'" using s'(2) by (simp add: cinv_def)
qed

lemma KeeperMemNode_new_facts [simp]:
  "n_acl_id (setData data KeeperMemNode_new) = 0" "n_children (setData data KeeperMemNode_new) = []"
  "n_acl_id KeeperMemNode_new = 0" "n_children KeeperMemNode_new = []" "core KeeperMemNode_new = KeeperMemNode_new"
  "core (setData data KeeperMemNode_new) = setData data KeeperMemNode_new"
  "\<not> n_is_ephemeral (setData data KeeperMemNode_new)" "\<not> n_is_ephemeral KeeperMemNode_new" "numChildren KeeperMemNode_new = 0"
  by (simp_all add: KeeperMemNode_new_def setData_def core_def numChildren_def)

section \<open>The root and the system node\<close>

lemma root_cinv:
  assumes s_def: "s = addDigest_of ctx KeeperMemNode_new ''/'' (storage_insert ctx ''/'' KeeperMemNode_new (KeeperStorage_empty tick))"
  shows "cinv ctx s" "ctree s = [[slash] \<mapsto> KeeperMemNode_new]" "names s = [[slash] \<mapsto> []]" "frame (KeeperStorage_empty tick) s"
    "acl_map s = ACLMap_empty"
proof -
  let ?e = "KeeperStorage_empty tick"
  have f: "ht_find ht_empty = (Map.empty :: contents)" by (simp add: fun_eq_iff)
  have "tree_digest Map.empty = 0" by (simp add: tree_digest_def tr.csum_def)
  then have e: "cinv ctx ?e" "contents_of ?e = Map.empty" "ctree ?e = Map.empty" "names ?e = Map.empty"
    by (simp_all add: KeeperStorage_empty_def cinv_def coherent_def digests_ok_def acls_ok_def contents_of_def ctree_def
        names_def users_def f ACLMap_empty_def usage_def acl_inv_empty [unfolded ACLMap_empty_def])
  note i = insert_contents [OF cinv_facts(1) [OF e(1)], of "[slash]" ctx KeeperMemNode_new]
  have s: "contents_of s = (contents_of ?e)([slash] \<mapsto> node_copy KeeperMemNode_new)" "ht_inv (container s)"
    "acl_map s = acl_map ?e"
    "nodes_digest s = (if digestEnabled ctx then nodes_digest ?e + digest_weight [slash] (core KeeperMemNode_new) else nodes_digest ?e)"
    "frame ?e s"
    using i e(2) by (simp_all add: s_def addDigest_of_def frame_def contents_of_def keeper_system_path_facts(4))
  from insert_cinv [OF e(1) _ _ _ s(1-4)] e s(3,5) show "cinv ctx s" "ctree s = [[slash] \<mapsto> KeeperMemNode_new]" "names s = [[slash] \<mapsto> []]"
    "frame (KeeperStorage_empty tick) s" "acl_map s = ACLMap_empty"
    by (simp_all add: KeeperStorage_empty_def)
qed

text \<open>The invariant of a storage into which system nodes are inserted; \<open>s0\<close> is the storage at the start.\<close>

definition init_inv :: "KeeperContext \<Rightarrow> KeeperStorage \<Rightarrow> KeeperStorage \<Rightarrow> bool" where
  "init_inv ctx s0 s \<longleftrightarrow>
     cinv ctx s \<and> names_ok (ctree s) (names s) \<and> proper (ctree s) \<and> tree_wf (ctree s) \<and>
     frame s0 s \<and> acl_map s = acl_map s0"

lemma system_facts:
  "parentNodePath keeper_system_path = Some [slash]" "getBaseNodeName keeper_system_path = ''keeper''" "joined keeper_system_path"
  using parentNodePath_split [of "''keeper''" "[]"] getBaseNodeName_split [of "''keeper''" "[]"]
  by (simp_all add: keeper_system_path_def joined_def path_join_def)

lemma system_tree:
  assumes t: "t = [[slash] \<mapsto> increaseNumChildren KeeperMemNode_new, keeper_system_path \<mapsto> KeeperMemNode_new]"
  shows "tree_wf t" "proper t" "names_ok t [[slash] \<mapsto> [''keeper''], keeper_system_path \<mapsto> []]"
proof -
  note k = keeper_system_path_facts system_facts
  have root: "\<not> n_is_ephemeral (increaseNumChildren KeeperMemNode_new)" "numChildren (increaseNumChildren KeeperMemNode_new) = 1"
    by (simp_all add: increaseNumChildren_def setNumChildren_def numChildren_def KeeperMemNode_new_def)
  have kids: "kids t p = (if p = [slash] then {keeper_system_path} else {})" for p
    using k by (auto simp: kids_def t)
  show "proper t" using k by (auto simp: proper_def t)
  show "names_ok t [[slash] \<mapsto> [''keeper''], keeper_system_path \<mapsto> []]"
    using k unfolding names_ok_def kids by (auto simp: t)
  show "tree_wf t"
    by (rule tree_wfI) (use k root kids in \<open>auto simp: t has_parent_def split: if_splits\<close>)
qed

lemma system_node_init:
  assumes s: "cinv ctx s" "ctree s = [[slash] \<mapsto> KeeperMemNode_new]" "names s = [[slash] \<mapsto> []]"
     "frame (KeeperStorage_empty tick) s" "acl_map s = ACLMap_empty"
    and s1: "s1 = addDigest_of ctx KeeperMemNode_new keeper_system_path (storage_insert ctx keeper_system_path KeeperMemNode_new s)"
  shows "\<exists>s2. storage_update_value ctx ''/'' (\<lambda>n. addChild (getBaseNodeName keeper_system_path) (increaseNumChildren n))
       (removeDigest ctx ''/'' s1) = Inr s2 \<and> init_inv ctx (KeeperStorage_empty tick) (addDigest ctx ''/'' s2) \<and>
     ctree (addDigest ctx ''/'' s2) = [[slash] \<mapsto> increaseNumChildren KeeperMemNode_new, keeper_system_path \<mapsto> KeeperMemNode_new]"
proof -
  note k = keeper_system_path_facts system_facts
  let ?F = "\<lambda>n. addChild (getBaseNodeName keeper_system_path) (increaseNumChildren n)"
  have p: "contents_of s keeper_system_path = None" using s(2) k(2) by (metis ctree_contents fun_upd_apply map_option_is_None)
  note i = insert_contents [OF cinv_facts(1) [OF s(1)] p, of ctx KeeperMemNode_new]
  have w: "digest_weight keeper_system_path n = calculateDigest keeper_system_path n" for n
    by (simp add: digest_weight_def matchPath_def strip_slash_def keeper_system_path_def)
  have s1': "contents_of s1 = (contents_of s)(keeper_system_path \<mapsto> node_copy KeeperMemNode_new)" "ht_inv (container s1)"
    "acl_map s1 = acl_map s"
    "nodes_digest s1 = (if digestEnabled ctx then nodes_digest s + digest_weight keeper_system_path (core KeeperMemNode_new) else nodes_digest s)"
    "frame s s1"
    using i w by (simp_all add: s1 addDigest_of_def frame_def contents_of_def)
  note c1 = insert_cinv [OF s(1) p _ _ s1'(1-4), simplified]
  have "ctree s1 [slash] = Some KeeperMemNode_new" "names s1 [slash] = Some []" using c1(2,3) s(2,3) k(2) by simp_all
  then obtain n where n: "contents_of s1 [slash] = Some n" "core n = KeeperMemNode_new" "n_children n = []"
    by (auto simp: ctree_contents names_def contents_of_def)
  have F: "core (?F m) = increaseNumChildren (core m)" "n_acl_id (?F m) = n_acl_id m" "n_cached_digest (?F m) = n_cached_digest m"
    "n_children (?F m) = add_name ''keeper'' (n_children m)" for m
    using k(6) by (simp_all add: increaseNumChildren_def setNumChildren_def core_def addChild_def add_name_def)
  obtain s2 where s2: "storage_update_value ctx [slash] ?F (removeDigest ctx [slash] s1) = Inr s2"
    "frame s1 (addDigest ctx [slash] s2)" "cinv ctx (addDigest ctx [slash] s2)"
    "ctree (addDigest ctx [slash] s2) = (ctree s1)([slash] \<mapsto> increaseNumChildren KeeperMemNode_new)"
    "names (addDigest ctx [slash] s2) = (names s1)([slash] \<mapsto> [''keeper''])" "acl_map (addDigest ctx [slash] s2) = acl_map s1"
    using update_node_gen [OF c1(1) n(1) k(4), of ?F increaseNumChildren "add_name ''keeper''"] F n by (auto simp: add_name_def)
  have t: "ctree (addDigest ctx [slash] s2) = [[slash] \<mapsto> increaseNumChildren KeeperMemNode_new, keeper_system_path \<mapsto> KeeperMemNode_new]"
    "names (addDigest ctx [slash] s2) = [[slash] \<mapsto> [''keeper''], keeper_system_path \<mapsto> []]"
    using s2(4,5) c1(2,3) s(2,3) k(2) by (auto simp: fun_eq_iff)
  have "init_inv ctx (KeeperStorage_empty tick) (addDigest ctx [slash] s2)"
    using system_tree [OF t(1)] t(2) s2(2,3,6) s1'(3,5) s(4,5) by (simp add: init_inv_def frame_def KeeperStorage_empty_def)
  then show ?thesis using s2(1) t(1) by blast
qed

section \<open>The system nodes\<close>

definition system_node_path :: "string \<Rightarrow> bool" where
  "system_node_path p \<longleftrightarrow> (\<exists>name. p = keeper_system_path @ slash # name \<and> slash \<notin> set name \<and> name \<noteq> [])"

definition system_nodes_ok :: "KeeperContext \<Rightarrow> bool" where
  "system_nodes_ok ctx \<longleftrightarrow>
     distinct (map fst (getSystemNodesWithData ctx)) \<and> (\<forall>p \<in> set (map fst (getSystemNodesWithData ctx)). system_node_path p)"

lemma system_node_path_facts:
  assumes "system_node_path p"
  shows "parentNodePath p = Some keeper_system_path" "getBaseNodeName p \<noteq> []" "joined p" "matchPath p keeper_system_path = IS_CHILD"
    "\<not> user_path p" "p \<noteq> [slash]" "p \<noteq> keeper_system_path"
proof -
  obtain name where n: "p = keeper_system_path @ slash # name" "slash \<notin> set name" "name \<noteq> []"
    using assms by (auto simp: system_node_path_def)
  show q: "parentNodePath p = Some keeper_system_path" "getBaseNodeName p \<noteq> []"
    using parentNodePath_split [OF n(2), of keeper_system_path] getBaseNodeName_split [OF n(2), of keeper_system_path] n
    by (simp_all add: keeper_system_path_def)
  have "hd name \<noteq> slash" using n(2,3) by (cases name) auto
  then show "joined p" using q(1) getBaseNodeName_split [OF n(2), of keeper_system_path] n(1)
    by (simp add: joined_def path_join_def keeper_system_path_def)
  have "last name \<noteq> slash" using n(2) last_in_set [OF n(3)] by metis
  then have "strip_slash p = p" "strip_slash keeper_system_path = keeper_system_path"
    using n by (auto simp: strip_slash_def keeper_system_path_def)
  then show m: "matchPath p keeper_system_path = IS_CHILD"
    using mismatch_append [of keeper_system_path "slash # name"] n(1) by (simp add: matchPath_def)
  show "\<not> user_path p" "p \<noteq> [slash]" "p \<noteq> keeper_system_path" using m n(1) by (simp_all add: user_path_def keeper_system_path_def)
qed

lemma system_tree_insert:
  assumes wf: "tree_wf t" and p: "t p = None" "system_node_path p" and n: "\<not> n_is_ephemeral n"
  shows "tree_wf (t(p \<mapsto> n))"
proof (rule tree_wfI)
  note f = system_node_path_facts [OF p(2)] and w = tree_wfD [OF wf]
  have kids: "kids (t(p \<mapsto> n)) q = kids t q" if "user_path q" for q
    using that f(1) keeper_system_path_facts(3) by (auto simp: kids_def)
  show "finite (dom (t(p \<mapsto> n)))" using w(1) by simp
  show "\<exists>r. (t(p \<mapsto> n)) [slash] = Some r \<and> \<not> n_is_ephemeral r" using w(2) n by auto
  show "(t(p \<mapsto> n)) keeper_system_path \<noteq> None" using w(3) by simp
  show "getBaseNodeName q \<noteq> [] \<and> has_parent (t(p \<mapsto> n)) q" if "(t(p \<mapsto> n)) q = Some m" "q \<noteq> [slash]" for q m
  proof (cases "q = p")
    case True
    obtain kn where kn: "t keeper_system_path = Some kn" "\<not> n_is_ephemeral kn"
      using w(3) w(8) keeper_system_path_facts(3) by blast
    show ?thesis unfolding has_parent_def True
      by (intro conjI exI [of _ keeper_system_path] exI [of _ kn]) (use kn f(1,2,7) in simp_all)
  next
    case False
    then have q: "t q = Some m" using that(1) by simp
    note up = w(5) [OF q that(2)]
    obtain r rn where r: "parentNodePath q = Some r" "t r = Some rn" "\<not> n_is_ephemeral rn" using up by blast
    have "r \<noteq> p" using r(2) p(1) by auto
    then show ?thesis using r w(4) [OF q that(2)] unfolding has_parent_def by simp
  qed
  show "numChildren m = word_of_nat (card (kids (t(p \<mapsto> n)) q))"
    if "(t(p \<mapsto> n)) q = Some m" "\<not> n_is_ephemeral m" "user_path q" for q m
    using that f(5) w(6) kids by (auto split: if_splits)
  show "ephemeralOwner m \<noteq> 0 \<and> user_path q" if "(t(p \<mapsto> n)) q = Some m" "n_is_ephemeral m" for q m
    using that n w(7,8) by (auto split: if_splits)
qed

lemma insert_system_node:
  assumes inv: "init_inv ctx s0 s" and p: "ctree s p = None" "system_node_path p"
  shows "\<exists>s1. storage_update_value ctx keeper_system_path (addChild (getBaseNodeName p))
       (storage_insert ctx p (setData data KeeperMemNode_new) s) = Inr s1 \<and>
     init_inv ctx s0 s1 \<and> ctree s1 = (ctree s)(p \<mapsto> setData data KeeperMemNode_new) \<and> atree s1 = (atree s)(p \<mapsto> [])"
proof -
  note f = system_node_path_facts [OF p(2)]
  have i: "cinv ctx s" "names_ok (ctree s) (names s)" "proper (ctree s)" "tree_wf (ctree s)"
    "frame s0 s" "acl_map s = acl_map s0"
    using inv by (simp_all add: init_inv_def)
  let ?n = "setData data KeeperMemNode_new" and ?k = keeper_system_path
  let ?s1 = "storage_insert ctx p ?n s"
  have pc: "contents_of s p = None" using p(1) by (simp add: ctree_contents)
  note ins = insert_contents [OF cinv_facts(1) [OF i(1)] pc, of ctx ?n]
  have d: "nodes_digest ?s1 = (if digestEnabled ctx then nodes_digest s + digest_weight p (core ?n) else nodes_digest s)"
    using ins(5) f(4) by (simp add: digest_weight_def)
  note c1 = insert_cinv [OF i(1) pc KeeperMemNode_new_facts(1,2) ins(2,1,4) d]
  have "ctree ?s1 ?k \<noteq> None" using c1(2) tree_wfD(3) [OF i(4)] by simp
  then obtain kn where kn: "contents_of ?s1 ?k = Some kn" by (rule node_in_contents)
  obtain c n' where u: "storage_update_value ctx ?k (addChild (getBaseNodeName p)) ?s1 = Inr (?s1\<lparr>container := c\<rparr>)" "ht_inv c"
     "n' = kn \<or> n' = node_copy kn" "ht_find c = (contents_of ?s1)(?k \<mapsto> addChild (getBaseNodeName p) n')"
    using update_value_ok [OF ins(1) kn] by blast
  let ?s2 = "?s1\<lparr>container := c\<rparr>" and ?m = "addChild (getBaseNodeName p) n'"
  have cont: "contents_of ?s2 = (contents_of ?s1)(?k \<mapsto> ?m)" using u(4) by (simp add: contents_of_def)
  have m: "core ?m = core kn" "n_acl_id ?m = n_acl_id kn" "n_children ?m = add_name (getBaseNodeName p) (n_children kn)"
    using u(3) by (auto simp: add_name_def)
  have coh: "digest_coherent ?k kn" "\<not> digestEnabled ctx \<longrightarrow> n_cached_digest kn = 0"
    using cinv_facts(4,5) [OF c1(1)] kn by (auto simp: coherent_def contents_of_def)
  have "digest_coherent ?k ?m" "\<not> digestEnabled ctx \<longrightarrow> n_cached_digest ?m = 0"
    using u(3) coh m(1) calculateDigest_core [of ?k ?m] calculateDigest_core [of ?k kn] by (auto simp: digest_coherent_def)
  from cinv_same [OF c1(1) kn cont m(1,2) this] u(2) have cinv2: "cinv ctx ?s2" and "atree ?s2 = atree ?s1" by (simp_all add: atree_def)
  moreover have "atree ?s1 = (atree s)(p \<mapsto> [])" using ins(2,4) by (auto simp: atree_def acl_tree_def acl_lookup_def fun_eq_iff)
  ultimately have a2: "atree ?s2 = (atree s)(p \<mapsto> [])" by simp
  have t2: "ctree ?s2 = (ctree s)(p \<mapsto> ?n)" using ctree_same [OF kn cont m(1)] c1(2) by simp
  have k1: "names ?s1 ?k = Some (n_children kn)" using kn by (simp add: names_def)
  have "names ?s2 = (names ?s1)(?k \<mapsto> add_name (getBaseNodeName p) (n_children kn))"
    unfolding names_def cont using m(3) by (simp add: fun_eq_iff)
  then have "names ?s2 = (names s)(p \<mapsto> [], ?k := map_option (add_name (getBaseNodeName p)) (names s ?k))"
    using c1(3) k1 f(7) by simp
  moreover obtain q n0 where "parentNodePath p = Some ?k" "ctree s ?k = Some n0" using f(1) tree_wfD(3) [OF i(4)] by blast
  moreover have "kids (ctree s) p = {}"
  proof -
    have "ctree s p \<noteq> None" if "q \<in> kids (ctree s) p" for q
      using that tree_wfD(5) [OF i(4)] by (fastforce simp: kids_def)
    then show ?thesis using p(1) by auto
  qed
  ultimately have "names_ok (ctree ?s2) (names ?s2)" using names_ok_create [OF i(2) _ _ p(1) f(6)] t2 by simp
  moreover have "proper (ctree ?s2)" using i(3) f(3) t2 by (auto simp: proper_def)
  moreover have "tree_wf (ctree ?s2)" using system_tree_insert [OF i(4) p] t2 by simp
  ultimately have "init_inv ctx s0 ?s2"
    using cinv2 i(5,6) ins(3,4) by (simp add: init_inv_def frame_def)
  then show ?thesis using u(1) t2 a2 by blast
qed

text \<open>The nodes below the system node.\<close>

definition system_tree_of :: "(string \<times> string) list \<Rightarrow> tree" where
  "system_tree_of nodes = map_of (map (\<lambda>(p, data). (p, setData data KeeperMemNode_new)) nodes)"

lemma dom_system_tree_of [simp]: "dom (system_tree_of nodes) = set (map fst nodes)"
  by (simp add: system_tree_of_def dom_map_of_conv_image_fst image_image case_prod_unfold)

lemma system_tree_of_new: "system_tree_of nodes p = Some n \<Longrightarrow> \<exists>data. n = setData data KeeperMemNode_new"
  by (auto simp: system_tree_of_def dest!: map_of_SomeD)

lemma insert_system_nodes_ok:
  assumes "init_inv ctx s0 s" "distinct (map fst nodes)" "\<forall>p \<in> set (map fst nodes). system_node_path p \<and> ctree s p = None"
  shows "\<exists>s'. insert_system_nodes ctx nodes s = Inr s' \<and> init_inv ctx s0 s' \<and> ctree s' = ctree s ++ system_tree_of nodes \<and>
     (\<forall>p. atree s' p = (if p \<in> set (map fst nodes) then Some [] else atree s p))"
  using assms
proof (induction nodes arbitrary: s)
  case (Cons x nodes)
  obtain p data where x: "x = (p, data)" by (cases x)
  have p: "ctree s p = None" "system_node_path p" using Cons.prems(3) x by auto
  obtain s1 where s1: "storage_update_value ctx keeper_system_path (addChild (getBaseNodeName p))
       (storage_insert ctx p (setData data KeeperMemNode_new) s) = Inr s1" "init_inv ctx s0 s1"
     "ctree s1 = (ctree s)(p \<mapsto> setData data KeeperMemNode_new)" "atree s1 = (atree s)(p \<mapsto> [])" using insert_system_node [OF Cons.prems(1) p] by blast
  have "\<forall>q \<in> set (map fst nodes). system_node_path q \<and> ctree s1 q = None" using Cons.prems(2,3) x s1(3) by auto
  from Cons.IH [OF s1(2) _ this] Cons.prems(2) obtain s' where
    "insert_system_nodes ctx nodes s1 = Inr s'" "init_inv ctx s0 s'" "ctree s' = ctree s1 ++ system_tree_of nodes"
    "\<forall>p. atree s' p = (if p \<in> set (map fst nodes) then Some [] else atree s1 p)" by auto
  moreover have "system_tree_of nodes p = None" using Cons.prems(2) x dom_system_tree_of [of nodes] by (auto simp: domIff [symmetric] simp del: dom_system_tree_of)
  then have "(ctree s)(p \<mapsto> setData data KeeperMemNode_new) ++ system_tree_of nodes = ctree s ++ system_tree_of (x # nodes)"
    using x by (auto simp: system_tree_of_def map_add_def fun_eq_iff split: option.split)
  ultimately show ?case using x s1 system_node_path_facts(1) [OF p(2)] by auto
qed (simp add: system_tree_of_def)

section \<open>A new storage\<close>

definition new_tree :: "KeeperContext \<Rightarrow> tree" where
  "new_tree ctx = [[slash] \<mapsto> increaseNumChildren KeeperMemNode_new, keeper_system_path \<mapsto> KeeperMemNode_new] ++
     system_tree_of (getSystemNodesWithData ctx)"

lemma new_tree_nodes:
  assumes "new_tree ctx p = Some n"
  shows "\<not> n_is_ephemeral n" "n_mzxid n = 0"
  using assms by (auto simp: new_tree_def map_add_Some_iff setData_def increaseNumChildren_def setNumChildren_def KeeperMemNode_new_def
      split: if_splits dest!: system_tree_of_new)

text \<open>A storage without pending transactions, whose ephemeral nodes are those of the tree \<open>t\<close>.\<close>

definition unlogged :: "tree \<Rightarrow> KeeperStorage \<Rightarrow> bool" where
  "unlogged t s \<longleftrightarrow>
     uncommitted_state s = UncommittedState_new \<and> uncommitted_transactions s = [] \<and> queue_inv (session_expiry_queue s) \<and>
     (\<forall>sid. eph_entry (ephemerals s sid) (eph_set t sid))"

lemma initialized_log_inv:
  assumes i: "init_inv ctx s0 s" and u: "unlogged (ctree s) s"
  shows "log_inv ctx (s\<lparr>initialized := True\<rparr>) []" "ctree (s\<lparr>initialized := True\<rparr>) = ctree s" "atree (s\<lparr>initialized := True\<rparr>) = atree s"
proof -
  let ?s = "s\<lparr>initialized := True\<rparr>"
  show t: "ctree ?s = ctree s" "atree ?s = atree s" by (rule committed_cong; simp)+
  have c: "cinv ctx ?s = cinv ctx s" "names ?s = names s" by (rule committed_cong; simp)+
  have f: "cinv ctx s" "names_ok (ctree s) (names s)" "proper (ctree s)" "tree_wf (ctree s)" using i by (simp_all add: init_inv_def)
  have us: "us_inv ?s" "pending ?s = []"
    using u cinv_facts(4) [OF f(1), unfolded contents_of_def]
    by (simp_all add: unlogged_def us_inv_def pending_def us_struct_def shows_tree_def coherent_def UncommittedState_new_def
        maps_ok_def entries_ok_def nodes_ok_def)
  have "vtree ?s = ctree s" using vtree_replay [OF us(1)] us(2) t(1) by simp
  then have "eph_ok ?s (vtree ?s)" using u by (simp add: eph_ok_def unlogged_def)
  then show "log_inv ctx ?s []" using f c t us u by (simp add: log_inv_def unlogged_def)
qed

theorem KeeperStorage_new_ok:
  assumes "system_nodes_ok ctx"
  shows "\<exists>s. KeeperStorage_new ctx tick True = Inr s \<and> log_inv ctx s [] \<and> ks_zxid s = 0 \<and>
     acl_map s = ACLMap_empty \<and> ctree s = new_tree ctx \<and>
     session_expiry_queue s = SessionExpiryQueue_new tick \<and> session_and_timeout s = Map.empty \<and>
     session_id_counter s = 1 \<and> session_and_auth s = (\<lambda>_. [])"
proof -
  define s0 where "s0 = addDigest_of ctx KeeperMemNode_new ''/'' (storage_insert ctx ''/'' KeeperMemNode_new (KeeperStorage_empty tick))"
  note r = root_cinv [OF s0_def]
  define s1 where "s1 = addDigest_of ctx KeeperMemNode_new keeper_system_path (storage_insert ctx keeper_system_path KeeperMemNode_new s0)"
  from system_node_init [OF r s1_def] obtain s2 where
    s2: "storage_update_value ctx ''/'' (\<lambda>n. addChild (getBaseNodeName keeper_system_path) (increaseNumChildren n))
       (removeDigest ctx ''/'' s1) = Inr s2" "init_inv ctx (KeeperStorage_empty tick) (addDigest ctx ''/'' s2)"
     "ctree (addDigest ctx ''/'' s2) = [[slash] \<mapsto> increaseNumChildren KeeperMemNode_new, keeper_system_path \<mapsto> KeeperMemNode_new]"
    by (elim exE conjE)
  let ?nodes = "getSystemNodesWithData ctx"
  have n: "distinct (map fst ?nodes)" "\<forall>p \<in> set (map fst ?nodes). system_node_path p \<and> ctree (addDigest ctx ''/'' s2) p = None"
    using assms s2(3) system_node_path_facts(6,7) unfolding system_nodes_ok_def by auto
  obtain s3 where s3: "insert_system_nodes ctx ?nodes (addDigest ctx ''/'' s2) = Inr s3" "init_inv ctx (KeeperStorage_empty tick) s3"
    "ctree s3 = new_tree ctx"
    using insert_system_nodes_ok [OF s2(2) n] s2(3) by (auto simp: new_tree_def)
  let ?s = "s3\<lparr>initialized := True\<rparr>"
  have "ctree s0 keeper_system_path = None" using r(2) keeper_system_path_facts(2) by simp
  then have "ht_find (container s0) keeper_system_path = None" by (simp add: ctree_def)
  moreover have "\<not> initialized s0" using r(4) by (simp add: frame_def KeeperStorage_empty_def)
  ultimately have new: "KeeperStorage_new ctx tick True = Inr ?s"
    using s2(1) s3(1) by (simp add: KeeperStorage_new_def initializeSystemNodes_def s0_def [symmetric] s1_def [symmetric])
  have i: "cinv ctx s3" "names_ok (ctree s3) (names s3)" "proper (ctree s3)" "tree_wf (ctree s3)"
    "\<forall>p n. ctree s3 p = Some n \<longrightarrow> \<not> n_is_ephemeral n" "frame (KeeperStorage_empty tick) s3" "acl_map s3 = ACLMap_empty"
    using s3(2,3) new_tree_nodes(1) by (simp_all add: init_inv_def KeeperStorage_empty_def)
  have c: "ctree ?s = ctree s3" by (rule committed_cong; simp)
  have f: "uncommitted_state ?s = UncommittedState_new" "ephemerals ?s = Map.empty" "uncommitted_transactions ?s = []"
    "ks_zxid ?s = 0" "session_expiry_queue ?s = SessionExpiryQueue_new tick" "session_and_timeout ?s = Map.empty"
    "session_id_counter ?s = 1" "session_and_auth ?s = (\<lambda>_. [])"
    using i(6) by (simp_all add: frame_def KeeperStorage_empty_def)
  have "unlogged (ctree s3) s3"
    using f i(5) by (auto simp: unlogged_def eph_entry_def eph_set_def)
  then have "log_inv ctx ?s []" using initialized_log_inv(1) [OF s3(2)] by simp
  then show ?thesis using new f(4-8) i(7) s3(3) c by simp
qed

end
