(* ===== verification/KeeperLocal.thy ===== *)
theory KeeperLocal
  imports KeeperAnswers
begin

text \<open>
  The calls that bypass the log: reading requests answered from the committed state, new sessions, and the
  snapshot mode of the container. None of them changes the tree.
\<close>

section \<open>Local reads\<close>

fun local_read :: "Request \<Rightarrow> bool" where
  "local_read (GetRequest _ _) = True"
| "local_read (ExistsRequest _ _) = True"
| "local_read (ListRequest _ _) = True"
| "local_read (SimpleListRequest _ _) = True"
| "local_read (FilteredListRequest _ _ _) = True"
| "local_read (CheckRequest _ _ _) = True"
| "local_read (GetACLRequest _) = True"
| "local_read _ = False"

lemma plain_processLocal_ok:
  assumes inv: "cinv ctx s" "names_ok (ctree s) (names s)" "proper (ctree s)"
    and req: "local_read req" "answerable_plain (ctree s) req"
  shows "\<exists>resp. plain_processLocal ctx req s = Inr resp \<and>
     response_ok ctx req (spec_plain fx z sid time req (ctree s)) (ctree s) (ctree s) (atree s) resp"
proof -
  let ?t = "ctree s"
  have absent: "ht_find (container s) p = None" if "?t p = None" for p using that by (simp add: ctree_def)
  have present: "\<exists>n. contents_of s p = Some n \<and> ht_find (container s) p = Some n \<and> ?t p = Some (core n) \<and> p \<noteq> []" if "?t p \<noteq> None" for p
    using node_in_contents [OF that] that proper_empty [OF inv(3)] by metis
  have list: "\<exists>resp. list_response True r k p s = Inr resp \<and>
      (case spec_read p ?t of Inl e \<Rightarrow> resp = set_error e (makeResponse r)
       | Inr _ \<Rightarrow> resp_error resp = resp_error (makeResponse r) \<and>
           (\<exists>n ns. ?t p = Some n \<and> resp_body resp = list_body r ns (setResponseStat n) \<and> lists_kids ?t p k ns))" for r k p
  proof (cases "?t p")
    case None
    then show ?thesis using absent by (simp add: list_response_def missing_node_def spec_read_def)
  next
    case (Some m)
    then obtain n where n: "contents_of s p = Some n" "?t p = Some (core n)" "p \<noteq> []" using present [of p] by auto
    obtain ns where "list_response True r k p s = Inr (set_body (list_body r ns (setResponseStat n)) (makeResponse r))" "lists_kids ?t p k ns"
      using list_response_ok [OF n(1,3) inv(2,3), of True r k] by blast
    then show ?thesis using n(2) by (auto simp: spec_read_def)
  qed
  note defs = plain_processLocal_def response_ok_def body_ok_def spec_plain_def
  note node = get_response_def exists_response_def check_response_def get_acl_response_def missing_node_def spec_read_def spec_check_def
  have get: ?thesis if r: "req = GetRequest p w" for p w
  proof (cases "p = keeper_config_path")
    case True
    then show ?thesis using r by (simp add: defs node special_path_def)
  next
    case False
    then have sp: "?t p = None \<Longrightarrow> \<not> special_path p" using r req(2) by (auto simp: answerable_plain_def)
    show ?thesis
    proof (cases "?t p")
      case None
      then show ?thesis using r False sp absent [OF None] by (simp add: defs node)
    next
      case (Some m)
      then obtain n where "ht_find (container s) p = Some n" "?t p = Some (core n)" using present [of p] by auto
      then show ?thesis using r False by (simp add: defs node)
    qed
  qed
  show ?thesis
  proof (cases req)
    case (GetRequest p w)
    then show ?thesis by (rule get)
  next
    case (ExistsRequest p w)
    show ?thesis
    proof (cases "?t p")
      case None
      then show ?thesis using ExistsRequest absent [OF None] by (simp add: defs node)
    next
      case (Some m)
      then obtain n where "ht_find (container s) p = Some n" "?t p = Some (core n)" using present [of p] by auto
      then show ?thesis using ExistsRequest by (simp add: defs node)
    qed
  next
    case (ListRequest p w)
    then show ?thesis using list [of req LIST_ALL p] by (auto simp: defs list_body_def split: sum.splits)
  next
    case (SimpleListRequest p w)
    then show ?thesis using list [of req LIST_ALL p] by (auto simp: defs list_body_def split: sum.splits)
  next
    case (FilteredListRequest p w k)
    then show ?thesis using list [of req k p] by (auto simp: defs list_body_def split: sum.splits)
  next
    case (CheckRequest p v ne)
    show ?thesis
    proof (cases "?t p")
      case None
      then show ?thesis using CheckRequest absent [OF None] by (simp add: defs node)
    next
      case (Some m)
      then obtain n where "ht_find (container s) p = Some n" "?t p = Some (core n)" using present [of p] by auto
      then show ?thesis using CheckRequest
        by (cases ne; cases "v = -1 \<or> v = n_version n") (auto simp: defs node)
    qed
  next
    case (GetACLRequest p)
    show ?thesis
    proof (cases "?t p")
      case None
      then show ?thesis using GetACLRequest absent [of p] by (simp add: defs get_acl_response_def missing_node_def spec_read_def)
    next
      case (Some m)
      then obtain n where n: "contents_of s p = Some n" "?t p = Some (core n)" using present [of p] by auto
      from get_acl_response_ok [OF inv(1) n(1), of True] show ?thesis
        using GetACLRequest n(2) by (auto simp: defs spec_read_def)
    qed
  qed (use req in auto)
qed

text \<open>Without a zxid nothing is committed.\<close>

lemma us_commit_nothing:
  assumes "pending s = [] \<or> d_zxid (hd (pending s)) \<noteq> z"
  shows "us_commit z s = Inr s"
proof (cases "us_deltas (uncommitted_state s)")
  case (Cons x xs)
  then show ?thesis using assms by (cases x) (simp add: us_commit_def pending_def)
qed (simp add: us_commit_def)

fun local_request :: "Request \<Rightarrow> bool" where
  "local_request (MultiRequest rs _) = (\<forall>r \<in> set rs. local_read r \<and> is_read r)"
| "local_request req = local_read req"

text \<open>The answer to a local request; the meaning of a reading request has no parameters but the tree.\<close>

definition local_answer :: "KeeperContext \<Rightarrow> Request \<Rightarrow> tree \<Rightarrow> (string \<rightharpoonup> ACLs) \<Rightarrow> Response \<Rightarrow> bool" where
  "local_answer ctx req t a resp =
     (case req of
        MultiRequest rs _ \<Rightarrow>
          \<exists>resps. parts_answered ctx Some 0 0 0 rs t resps \<and> resp = set_body (multi_body req resps) (makeResponse req)
      | _ \<Rightarrow> response_ok ctx req (spec_plain Some 0 0 0 req t) t t a resp)"

lemma multi_processLocal_loop_ok:
  assumes inv: "cinv ctx s" "names_ok (ctree s) (names s)" "proper (ctree s)"
    and rs: "\<forall>r \<in> set rs. local_read r \<and> is_read r \<and> answerable_plain (ctree s) r"
  shows "\<exists>resps. multi_processLocal_loop ctx rs s = Inr resps \<and> parts_answered ctx fx z sid time rs (ctree s) resps"
  using rs
proof (induction rs)
  case (Cons r rs)
  have r: "local_read r" "answerable_plain (ctree s) r" "is_read r" using Cons.prems by simp_all
  let ?res = "spec_plain fx z sid time r (ctree s)"
  obtain resp where resp: "plain_processLocal ctx r s = Inr resp" "response_ok ctx r ?res (ctree s) (ctree s) (atree s) resp"
    using plain_processLocal_ok [OF inv r(1,2)] by blast
  have k: "multi_kind r \<noteq> None" using r(3) by (simp add: is_read_def)
  have t: "tree_after ?res (ctree s) = ctree s" using spec_plain_read [OF r(3)] by (auto simp: tree_after_def split: sum.split)
  have "response_ok ctx r ?res (ctree s) (ctree s) (\<lambda>_. None) resp" using resp(2) part_facts(3) [OF k] by metis
  moreover obtain resps where "multi_processLocal_loop ctx rs s = Inr resps" "parts_answered ctx fx z sid time rs (ctree s) resps"
    using Cons by auto
  ultimately show ?case using resp(1) t by (intro exI [of _ "resp # resps"]) (simp add: Let_def)
qed (intro exI [of _ "[]"], simp)

lemma processLocal_ok:
  assumes inv: "cinv ctx s" "names_ok (ctree s) (names s)" "proper (ctree s)"
    and req: "local_request req" "answerable (ctree s) req"
  shows "\<exists>resp. processLocal ctx req s = Inr resp \<and> local_answer ctx req (ctree s) (atree s) resp"
proof (cases "\<exists>rs k. req = MultiRequest rs k")
  case True
  then obtain rs k where r: "req = MultiRequest rs k" by blast
  then have rs: "\<forall>r \<in> set rs. local_read r \<and> is_read r \<and> answerable_plain (ctree s) r" using req by (simp add: answerable_def answerable_part_def)
  obtain resps where "multi_processLocal_loop ctx rs s = Inr resps" "parts_answered ctx Some 0 0 0 rs (ctree s) resps"
    using multi_processLocal_loop_ok [OF inv rs] by blast
  then show ?thesis unfolding r processLocal_def local_answer_def by auto
next
  case False
  then have r: "local_read req" "answerable_plain (ctree s) req" using req by (cases req; simp add: answerable_def)+
  have "processLocal ctx req s = plain_processLocal ctx req s" using False by (cases req) (auto simp: processLocal_def)
  moreover have "local_answer ctx req t a resp = response_ok ctx req (spec_plain Some 0 0 0 req t) t t a resp" for t a resp
    using False by (cases req) (auto simp: local_answer_def)
  ultimately show ?thesis using plain_processLocal_ok [OF inv r, of Some 0 0 0] by auto
qed

text \<open>Access checks depend on nodes, access control lists and identities only.\<close>

lemma checkAuth_cong:
  assumes "container s' = container s" "acl_map s' = acl_map s" "session_and_auth s' = session_and_auth s"
    "uncommitted_state s' = uncommitted_state s"
  shows "checkAuth req sid is_local s' = checkAuth req sid is_local s"
proof -
  have "checkACL p perm sid is_local s' = checkACL p perm sid is_local s" for p perm
    using assms by (simp add: checkACL_def getNodeACLs_def us_getACLs_def hasACL_def acl_allows_def [abs_def] cong: option.case_cong)
  then have "plain_checkAuth r sid is_local s' = plain_checkAuth r sid is_local s" for r
    by (simp add: plain_checkAuth_def checkACL_parent_def cong: option.case_cong split: Request.split)
  moreover from this have "multi_checkAuth rs sid is_local s' = multi_checkAuth rs sid is_local s" for rs
    by (induction rs) (simp_all cong: if_cong)
  ultimately show ?thesis by (simp add: checkAuth_def split: Request.split)
qed

lemma log_inv_aside:
  assumes inv: "log_inv ctx s L" and s': "aside (s\<lparr>session_id_counter := c\<rparr>) s'" "queue_inv (session_expiry_queue s')"
  shows "log_inv ctx s' L"
proof -
  have f: "container s' = container s" "nodes_digest s' = nodes_digest s" "acl_map s' = acl_map s" "uncommitted_state s' = uncommitted_state s"
    "ephemerals s' = ephemerals s" "uncommitted_transactions s' = uncommitted_transactions s" "ks_zxid s' = ks_zxid s" "initialized s' = initialized s"
    using s'(1) by (simp_all add: aside_def)
  note l = log_invD [OF inv] and c = committed_cong [OF f(1-3)] and u = us_inv_cong [OF f(1,4)]
  have "vtree s' = vtree s" using f(1,4) by (simp add: vtree_def us_getNode_def tryGetNodeFromStorage_def cong: option.case_cong)
  then have "eph_ok s' (vtree s')" using l(6) f(5) by (simp add: eph_ok_def)
  then show ?thesis using l c u f(6-8) s'(2) by (simp add: log_inv_def)
qed

lemma reads_no_watches: "local_request req \<Longrightarrow> processWatches req s = Inr ([], s)"
proof (cases req)
  case (MultiRequest rs k)
  have "multi_processWatches rs s = Inr ([], s)" if "\<forall>r \<in> set rs. local_read r" for rs
    using that by (induction rs) (auto simp: plain_processWatches_def split: Request.splits)
  then show "local_request req \<Longrightarrow> processWatches req s = Inr ([], s)" using MultiRequest by (simp add: processWatches_def)
qed (auto simp: processWatches_def plain_processWatches_def)

text \<open>A local request is answered from the committed tree, or refused.\<close>

theorem local_request_ok:
  assumes inv: "log_inv ctx s L" and clock: "clock_ok now sid s"
    and req: "local_request req" "valid_request sid req" "answerable (ctree s) req" "request zk = req"
  shows "\<exists>resp s'. processRequest ctx now zk sid None check_acl True s =
       Inr ([\<lparr>rs_session_id = sid, rs_response = set_ids (ks_zxid s) (xid zk) resp\<rparr>], s') \<and>
     (if check_acl \<and> checkAuth req sid True s = Inr False then resp = set_error ZNOAUTH (makeResponse req)
      else local_answer ctx req (ctree s) (atree s) resp) \<and>
     log_inv ctx s' L \<and> ctree s' = ctree s \<and> atree s' = atree s \<and> ks_zxid s' = ks_zxid s"
proof -
  note l = log_invD [OF inv]
  obtain s1 where s1: "touch_session now sid s = Inr s1" "aside s s1" "queue_inv (session_expiry_queue s1)"
    using touch_session_ok [OF l(10) clock] by blast
  have f: "container s1 = container s" "nodes_digest s1 = nodes_digest s" "acl_map s1 = acl_map s" "uncommitted_state s1 = uncommitted_state s"
    "ks_zxid s1 = ks_zxid s" using s1(2) by (simp_all add: aside_def)
  have au: "session_and_auth s1 = session_and_auth s" using s1(1) by (auto simp: touch_session_def Let_def bindE_def split: sum.splits)
  note c = committed_cong [OF f(1-3)]
  have ops: "getOpNum req \<noteq> Op_Close" "getOpNum req \<noteq> Op_Heartbeat" using req(1) by (cases req; auto)+
  have proc: "get_processor req = Inr ()" using req(2) by (cases req) (auto simp: get_processor_def valid_request_def)
  obtain b where b: "(if check_acl then checkAuth req sid True s1 else Inr True) = Inr b"
    using checkAuth_total [of ctx s1 sid req True] l(1) c(1) req(2) by (cases check_acl) auto
  have bs: "b \<longleftrightarrow> \<not> (check_acl \<and> checkAuth req sid True s = Inr False)"
    using b checkAuth_cong [OF f(1,3) au f(4), of req sid True] by (cases b) (auto split: if_splits)
  obtain r0 where r0: "processLocal ctx req s1 = Inr r0" "local_answer ctx req (ctree s) (atree s) r0"
    using processLocal_ok [of ctx s1 req] l(1,3,4) c req(1,3) by auto
  define resp where "resp = (if b then r0 else set_error ZNOAUTH (makeResponse req))"
  define s2 where "s2 = register_watch req sid (resp_error resp) s1"
  note w = register_watch_aside [where s = s1 and req = req and sid = sid and err = "resp_error resp", folded s2_def]
  have s2: "aside s s2" "queue_inv (session_expiry_queue s2)" "ks_zxid s2 = ks_zxid s"
    using aside_trans [OF s1(2) w(1)] w(2) s1(3) by (simp_all add: aside_def)
  have k: "ks_zxid (register_watch req sid err s1) = ks_zxid s" for err
    using register_watch_aside(1) [where s = s1 and req = req and sid = sid and err = err] f(5) by (simp add: aside_def)
  have "process_normal ctx (xid zk) req sid check_acl True s1 =
      Inr ([\<lparr>rs_session_id = sid, rs_response = set_ids (ks_zxid s) (xid zk) resp\<rparr>], s2)"
    using proc b r0(1) reads_no_watches [OF req(1)] k
    by (simp add: process_normal_def resp_def s2_def Let_def split: if_splits)
  moreover have "us_commit (ks_zxid s2) s2 = Inr s2"
  proof (rule us_commit_nothing)
    have "pending s2 = log_deltas L" using s2(1) l(7) by (simp add: aside_def pending_def)
    moreover have "d_zxid d \<noteq> ks_zxid s" if "d \<in> set (log_deltas L)" for d
      using chain_deltas_zxid [OF l(8) that] l(9) by (auto simp: zlt_def)
    ultimately show "pending s2 = [] \<or> d_zxid (hd (pending s2)) \<noteq> ks_zxid s2" using s2(3) hd_in_set by metis
  qed
  ultimately have "processRequest ctx now zk sid None check_acl True s =
       Inr ([\<lparr>rs_session_id = sid, rs_response = set_ids (ks_zxid s) (xid zk) resp\<rparr>], s2)"
    unfolding processRequest_def req(4) using l(11) s1(1) ops by (cases "getOpNum req") (auto simp: start_commit_def)
  moreover have "log_inv ctx s2 L" using log_inv_aside [OF inv _ s2(2), of "session_id_counter s"] s2(1) by simp
  moreover have "ctree s2 = ctree s" "atree s2 = atree s"
    using s2(1) by (simp_all add: aside_def ctree_def atree_def contents_of_def)
  ultimately show ?thesis using r0(2) bs s2(3) by (auto simp: resp_def)
qed

section \<open>Sessions and snapshots\<close>

lemma getSessionID_ok:
  assumes inv: "log_inv ctx s L" and r: "getSessionID now timeout s = Inr (sid, s')"
  shows "log_inv ctx s' L" "ctree s' = ctree s" "atree s' = atree s" "sid = session_id_counter s"
    "session_id_counter s' = session_id_counter s + 1" "ks_zxid s' = ks_zxid s"
proof -
  let ?c = "session_id_counter s" and ?t = "case session_and_timeout s (session_id_counter s) of
      None \<Rightarrow> (session_and_timeout s)(session_id_counter s \<mapsto> timeout) | Some _ \<Rightarrow> session_and_timeout s"
  obtain q where q1: "addNewSessionOrUpdate now ?c timeout (session_expiry_queue s) = Inr q"
    using r by (cases "addNewSessionOrUpdate now ?c timeout (session_expiry_queue s)")
      (simp_all add: getSessionID_def addSessionID_def Let_def)
  have "getSessionID now timeout s =
      Inr (?c, s\<lparr>session_id_counter := ?c + 1, session_and_timeout := ?t, session_expiry_queue := q\<rparr>)"
    using q1 by (simp add: getSessionID_def addSessionID_def Let_def cong: option.case_cong)
  with r have s': "s' = s\<lparr>session_id_counter := ?c + 1, session_and_timeout := ?t, session_expiry_queue := q\<rparr>" and sid: "sid = ?c"
    by (metis sum.inject(2) prod.inject)+
  have q: "addNewSessionOrUpdate now ?c timeout (session_expiry_queue s) = Inr q"
    "aside (s\<lparr>session_id_counter := ?c + 1\<rparr>) s'" "session_expiry_queue s' = q" "sid = ?c"
    using q1 sid unfolding s' by (simp_all add: aside_def)
  have fit: "int64_fits (now + timeout)" using q(1) by (auto simp: addNewSessionOrUpdate_def split: if_splits)
  then obtain t where t: "roundToNextInterval (now + timeout) (session_expiry_queue s) = Inr t"
    using q(1) by (cases "roundToNextInterval (now + timeout) (session_expiry_queue s)") (auto simp: addNewSessionOrUpdate_def)
  from addNewSessionOrUpdate_spec [OF log_invD(10) [OF inv] fit t] q(1) have "queue_inv q"
    by (metis sum.inject(2))
  then show "log_inv ctx s' L" using log_inv_aside [OF inv q(2)] q(3) by simp
  show "ctree s' = ctree s" "atree s' = atree s" "sid = session_id_counter s" "session_id_counter s' = session_id_counter s + 1" "ks_zxid s' = ks_zxid s"
    using q(2,4) by (simp_all add: aside_def ctree_def atree_def contents_of_def)
qed

lemma container_swap:
  assumes inv: "log_inv ctx s L" and c: "ht_inv c" "ht_find c = ht_find (container s)"
  shows "log_inv ctx (s\<lparr>container := c\<rparr>) L" "ctree (s\<lparr>container := c\<rparr>) = ctree s" "atree (s\<lparr>container := c\<rparr>) = atree s"
proof -
  let ?s = "s\<lparr>container := c\<rparr>"
  note l = log_invD [OF inv]
  have same: "contents_of ?s = contents_of s" "ctree ?s = ctree s" "names ?s = names s" "coherent ?s = coherent s"
    "pending ?s = pending s" using c(2) by (simp_all add: contents_of_def ctree_def names_def coherent_def pending_def)
  have "cinv ctx ?s" using l(1) c(1) same by (simp add: cinv_def digests_ok_def)
  moreover have "us_inv ?s" using l(2) same by (simp add: us_inv_def)
  moreover have "vtree ?s = vtree s" using c(2) by (simp add: vtree_def us_getNode_def tryGetNodeFromStorage_def cong: option.case_cong)
  then have "eph_ok ?s (vtree ?s)" using l(6) by (simp add: eph_ok_def)
  ultimately show "log_inv ctx ?s L" "ctree ?s = ctree s" "atree ?s = atree s" using l same by (simp_all add: log_inv_def atree_def)
qed

lemma snapshot_ops_ok:
  assumes "log_inv ctx s L"
  shows "log_inv ctx (storage_enableSnapshotMode v s) L" "ctree (storage_enableSnapshotMode v s) = ctree s"
    "log_inv ctx (storage_disableSnapshotMode s) L" "ctree (storage_disableSnapshotMode s) = ctree s"
    "log_inv ctx (clearGarbageAfterSnapshot ctx s) L" "ctree (clearGarbageAfterSnapshot ctx s) = ctree s"
    "atree (storage_enableSnapshotMode v s) = atree s" "atree (storage_disableSnapshotMode s) = atree s"
    "atree (clearGarbageAfterSnapshot ctx s) = atree s"
proof -
  have h: "ht_inv (container s)" using cinv_facts(1) log_invD(1) [OF assms] by blast
  show "log_inv ctx (storage_enableSnapshotMode v s) L" "ctree (storage_enableSnapshotMode v s) = ctree s"
    "log_inv ctx (storage_disableSnapshotMode s) L" "ctree (storage_disableSnapshotMode s) = ctree s"
    "log_inv ctx (clearGarbageAfterSnapshot ctx s) L" "ctree (clearGarbageAfterSnapshot ctx s) = ctree s"
    "atree (storage_enableSnapshotMode v s) = atree s" "atree (storage_disableSnapshotMode s) = atree s"
    "atree (clearGarbageAfterSnapshot ctx s) = atree s"
    unfolding storage_enableSnapshotMode_def storage_disableSnapshotMode_def clearGarbageAfterSnapshot_def
    by (rule container_swap [OF assms]; simp add: h ht_find_clearOutdatedNodes ht_inv_clearOutdatedNodes)+
qed

end
