(* ===== verification/KeeperGrowth.thy ===== *)
theory KeeperGrowth
  imports KeeperLog
begin

text \<open>
  How many deltas a request adds: at most three, and one mark, for every part, and two for every ephemeral node that
  closing the session removes.
\<close>

section \<open>Deltas of the processors\<close>

lemma memo_uncommitted_pending [simp]: "pending (memo_uncommitted p s) = pending s"
  by (simp add: memo_uncommitted_def pending_def split: option.split)

lemma nodes_digest_step_pending:
  "nodes_digest_step d (g, u, s) = Inr (g', u', s') \<Longrightarrow> pending s' = pending s"
  by (auto simp: nodes_digest_step_def Let_def split: Operation.splits option.splits if_splits)

lemma nodes_digest_loop_pending:
  "nodes_digest_loop ds (g, u, s) = Inr (g', u', s') \<Longrightarrow> pending s' = pending s"
proof (induction ds arbitrary: g u s)
  case (Cons d ds)
  then obtain g1 u1 s1 where "nodes_digest_step d (g, u, s) = Inr (g1, u1, s1)" "nodes_digest_loop ds (g1, u1, s1) = Inr (g', u', s')"
    by (auto simp: bindE_def split: sum.splits)
  then show ?case using Cons.IH nodes_digest_step_pending by metis
qed simp

lemma prep_deltas_pending:
  "prep_deltas ctx ds s g = (Inr ds', s', g') \<Longrightarrow> ds' = ds \<and> pending s' = pending s"
  using nodes_digest_loop_pending
  by (fastforce simp: prep_deltas_def calculateNodesDigest_def bindE_def split: sum.splits if_splits)

text \<open>The deltas of a plain request are few and leave the pending ones alone.\<close>

definition few :: "KeeperStorage \<Rightarrow> prep \<Rightarrow> bool" where
  "few s r \<longleftrightarrow> (case r of (Inl _, _) \<Rightarrow> True | (Inr ds, s', _) \<Rightarrow> length ds \<le> 3 \<and> pending s' = pending s)"

lemma few_simps [simp]:
  "few s (Inl e, s', g)" "few s (Inr ds, s', g) \<longleftrightarrow> length ds \<le> 3 \<and> pending s' = pending s" "few s (prep_error z err s g)"
  by (simp_all add: few_def prep_error_def)

lemma few_system [simp]: "few s (prep_system_path ctx z s g)"
  by (simp add: prep_system_path_def split: sum.split)

lemma few_deltas: "length ds \<le> 3 \<Longrightarrow> pending s1 = pending s \<Longrightarrow> few s (prep_deltas ctx ds s1 g)"
  using prep_deltas_pending [of ctx ds s1 g]
  by (cases "prep_deltas ctx ds s1 g"; cases "fst (prep_deltas ctx ds s1 g)") auto

lemma pending_ephemerals [simp]: "pending (s\<lparr>ephemerals := e\<rparr>) = pending s"
  by (simp add: pending_def)

lemma unregister_pending: "unregisterEphemeralPath sid p s = Inr s' \<Longrightarrow> pending s' = pending s"
  by (auto simp: unregisterEphemeralPath_def Let_def split: option.splits)

lemma few_create: "few s (create_preprocess ctx r z sid time g s)"
  by (auto simp: create_preprocess_def Let_def few_deltas split: option.split)

lemma few_remove: "few s (remove_preprocess ctx p v restored z g s)"
proof -
  have "few s (case unregisterEphemeralPath sid p s of Inl e \<Rightarrow> (Inl e, s, g) | Inr s' \<Rightarrow> prep_deltas ctx ds s' g)"
    if "length ds \<le> 3" for sid ds
    using that unregister_pending few_deltas by (auto split: sum.split)
  then show ?thesis
    by (auto simp: remove_preprocess_def Let_def few_deltas split: option.split)
qed

lemma few_set: "few s (set_preprocess ctx p data v z time g s)"
  by (auto simp: set_preprocess_def few_deltas split: option.split)

lemma few_set_acl: "few s (set_acl_preprocess ctx p acls v z sid g s)"
  by (auto simp: set_acl_preprocess_def few_deltas split: option.split)

lemma few_plain: "few s (plain_preprocess ctx req z sid time g s)"
  by (auto simp: plain_preprocess_def few_create few_remove few_set few_set_acl read_preprocess_def get_preprocess_def
      check_preprocess_def auth_preprocess_def Let_def split: Request.split option.split)

section \<open>Adding and rolling back\<close>

lemma addDelta_pending: "addDelta d s = Inr s' \<Longrightarrow> pending s' = pending s @ [d]"
  by (auto simp: addDelta_def applyDelta_def Let_def pending_def bindE_def split: if_splits sum.splits Operation.splits)

lemma addDeltas_pending: "addDeltas ds s = Inr s' \<Longrightarrow> pending s' = pending s @ ds"
proof (induction ds arbitrary: s)
  case (Cons d ds)
  then obtain s1 where "addDelta d s = Inr s1" "addDeltas ds s1 = Inr s'" by (auto simp: bindE_def split: sum.splits)
  then show ?case using Cons.IH addDelta_pending by fastforce
qed simp

lemma us_rollback_loop_length: "us_rollback_loop z ds s = Inr (s', kept) \<Longrightarrow> length kept \<le> length ds"
proof (induction z ds s rule: us_rollback_loop.induct)
  case (2 z i d ds s)
  show ?case
  proof (cases "d_zxid d <s z")
    case True
    then show ?thesis using 2(2) by auto
  next
    case False
    let ?e = "if d_path d \<noteq> [] then rollback_ephemerals d s else Inr s"
    obtain s1 where s1: "?e = Inr s1" using 2(2) False by (cases ?e) simp_all
    obtain us where us: "us_rollback_step i d (uncommitted_state s1) = Inr us"
      using 2(2) False s1 by (cases "us_rollback_step i d (uncommitted_state s1)") simp_all
    have "us_rollback_loop z ds (s1\<lparr>uncommitted_state := us\<rparr>) = Inr (s', kept)" using 2(2) False s1 us by simp
    from 2(1) [OF False this] show ?thesis by simp
  qed
qed simp

lemma us_rollback_length: "us_rollback z s = Inr s' \<Longrightarrow> length (pending s') \<le> length (pending s)"
  using us_rollback_loop_length [of z "rev (us_deltas (uncommitted_state s))" s]
  by (fastforce simp: us_rollback_def Let_def pending_def bindE_def split: if_splits sum.splits prod.splits)

section \<open>Deltas of a request\<close>

lemma multi_loop_length:
  "multi_preprocess_loop ctx kind z sid time g rs errors cur s = (Inr ds, s', g') \<Longrightarrow>
     length (pending s') + length ds \<le> length (pending s) + 4 * length rs"
proof (induction rs arbitrary: errors cur s)
  case (Cons r rs)
  obtain nd s1 c1 where p: "plain_preprocess ctx r z sid time cur s = (Inr nd, s1, c1)"
    using Cons.prems by (auto split: prod.splits sum.splits)
  have nd: "length nd \<le> 3" "pending s1 = pending s" using few_plain [of s ctx r z sid time cur] p by simp_all
  show ?case
  proof (cases "last_error nd \<noteq> None \<and> kind = Some KindWrite")
    case True
    then obtain e where e: "last_error nd = Some e" "kind = Some KindWrite" by auto
    obtain s2 where s2: "us_rollback z s1 = Inr s2" using Cons.prems p e by (cases "us_rollback z s1") auto
    then have "s' = s2" "length ds = 1" using Cons.prems p e by auto
    then show ?thesis using us_rollback_length [OF s2] nd(2) by simp
  next
    case False
    let ?add = "addDeltas (nd @ [delta_plain z SubDeltaEnd]) s1"
    have step: "multi_preprocess_loop ctx kind z sid time g (r # rs) errors cur s =
        (case ?add of Inl x \<Rightarrow> (Inl x, s1, g)
         | Inr s2 \<Rightarrow> multi_preprocess_loop ctx kind z sid time g rs (errors @ [ZOK]) c1 s2)"
      using False p by (cases "last_error nd"; cases kind; cases "the kind") auto
    obtain s2 where s2: "?add = Inr s2" using Cons.prems unfolding step by (cases ?add) auto
    have "multi_preprocess_loop ctx kind z sid time g rs (errors @ [ZOK]) c1 s2 = (Inr ds, s', g')"
      using Cons.prems unfolding step by (simp add: s2)
    from Cons.IH [OF this] addDeltas_pending [OF s2] nd show ?thesis by simp
  qed
qed simp

lemma close_deltas_length: "close_deltas z sid ps = Inr ds \<Longrightarrow> length ds = 2 * length ps + 1"
  by (induction ps arbitrary: ds) (auto simp: bindE_def split: option.splits sum.splits)

definition ephemeral_count :: "int64 \<Rightarrow> KeeperStorage \<Rightarrow> nat" where
  "ephemeral_count sid s = (case ephemerals s sid of None \<Rightarrow> 0 | Some ps \<Rightarrow> length ps)"

lemma close_preprocess_length:
  assumes "close_preprocess ctx z sid g s = (Inr ds, s', g')"
  shows "length (pending s') + length ds \<le> length (pending s) + 2 * ephemeral_count sid s + 1"
proof -
  let ?ps = "case ephemerals s sid of None \<Rightarrow> [] | Some ps \<Rightarrow> ps"
  obtain nd where nd: "close_deltas z sid ?ps = Inr nd" using assms by (auto simp: close_preprocess_def split: sum.splits)
  then have "prep_deltas ctx nd (s\<lparr>ephemerals := (ephemerals s)(sid := None)\<rparr>) g = (Inr ds, s', g')"
    using assms by (simp add: close_preprocess_def)
  from prep_deltas_pending [OF this] close_deltas_length [OF nd] show ?thesis
    by (auto simp: ephemeral_count_def split: option.split)
qed

lemma push_delta_length: "length (pending (push_delta d s)) = Suc (length (pending s))"
  by (simp add: push_delta_def pending_def Let_def)

text \<open>The deltas that a request leaves pending.\<close>

definition delta_bound :: "Request \<Rightarrow> int64 \<Rightarrow> KeeperStorage \<Rightarrow> nat" where
  "delta_bound req sid s =
     (case req of
        CloseRequest \<Rightarrow> 2 * ephemeral_count sid s + 1
      | MultiRequest rs _ \<Rightarrow> max 1 (4 * length rs)
      | _ \<Rightarrow> 3)"

lemma preprocess_body_length:
  assumes "preprocess_body ctx req sid time z check_acl g s = (Inr ds, s', g')"
  shows "length (pending s') + length ds \<le> length (pending s) + delta_bound req sid s"
proof (cases "req = CloseRequest")
  case True
  then show ?thesis
    using assms close_preprocess_length [of ctx z sid g s ds s' g'] by (simp add: preprocess_body_def get_processor_def delta_bound_def)
next
  case False
  then have op: "getOpNum req \<noteq> Op_Close" by (cases req) auto
  have b1: "1 \<le> delta_bound req sid s" by (cases req) (auto simp: delta_bound_def)
  have body: "(ds = [] \<and> s' = push_delta (no_auth_delta z req) s) \<or> preprocess ctx req z sid time g s = (Inr ds, s', g')"
    using assms op by (auto simp: preprocess_body_def split: sum.splits bool.splits if_splits)
  have pre: ?thesis if p: "preprocess ctx req z sid time g s = (Inr ds, s', g')"
  proof (cases "\<exists>rs k. req = MultiRequest rs k")
    case True
    then obtain rs k where r: "req = MultiRequest rs k" by blast
    obtain kind where "multi_preprocess_loop ctx kind z sid time g rs [] g s = (Inr ds, s', g')"
      using p r by (auto simp: preprocess_def multi_preprocess_def split: sum.splits)
    from multi_loop_length [OF this] show ?thesis using r by (simp add: delta_bound_def)
  next
    case plain: False
    then have "plain_preprocess ctx req z sid time g s = (Inr ds, s', g')" using p by (cases req) (auto simp: preprocess_def)
    then have "length ds \<le> 3" "pending s' = pending s" using few_plain [of s ctx req z sid time g] by simp_all
    then show ?thesis using plain False by (cases req) (auto simp: delta_bound_def)
  qed
  show ?thesis using body pre b1 push_delta_length [of "no_auth_delta z req" s] by auto
qed

lemma preprocessRequest_length:
  assumes "preprocessRequest ctx req sid time z check_acl digest log_idx s = (Inr (), s')"
  shows "length (pending s') \<le> length (pending s) + delta_bound req sid s"
proof -
  let ?b = "preprocess_body ctx req sid time z check_acl (dg_value (getNodesDigest ctx False s)) s"
  obtain r s1 g1 where b: "?b = (r, s1, g1)" by (cases ?b)
  have "pending s' = pending s \<or> (\<exists>ds. r = Inr ds \<and> register_transaction ctx z log_idx g1 ds s1 = Inr s')"
    using assms b by (auto simp: preprocessRequest_def Let_def pending_def split: if_splits sum.splits)
  then show ?thesis
  proof
    assume "\<exists>ds. r = Inr ds \<and> register_transaction ctx z log_idx g1 ds s1 = Inr s'"
    then obtain ds where ds: "r = Inr ds" "register_transaction ctx z log_idx g1 ds s1 = Inr s'" by blast
    have "length (pending s') = length (pending s1) + length ds"
      using addDeltas_pending ds(2) by (fastforce simp: register_transaction_def Let_def pending_def)
    then show ?thesis using preprocess_body_length b ds(1) by (metis (no_types, lifting))
  qed simp
qed

end
