(* ===== verification/KeeperMachine.thy ===== *)
theory KeeperMachine
  imports KeeperInit KeeperLocal KeeperGrowth
begin

text \<open>
  The storage under the calls of the replicated state machine: entries are preprocessed when they are
  appended to the log, committed from its front and rolled back from its end, in any order that the log allows.
\<close>

section \<open>The tree after an entry\<close>

definition spec_entry :: "LogEntry \<Rightarrow> tree \<Rightarrow> tree" where
  "spec_entry e t =
     (case e_req e of
        CloseRequest \<Rightarrow> spec_close (e_session e) t
      | MultiRequest rs _ \<Rightarrow>
          if denied e then t
          else (case spec_multi (e_fix e) (e_zxid e) (e_session e) (e_time e) rs t of Inl _ \<Rightarrow> t | Inr t' \<Rightarrow> t')
      | req \<Rightarrow>
          if denied e then t
          else tree_after (spec_plain (e_fix e) (e_zxid e) (e_session e) (e_time e) req t) t)"

definition spec_entry_acls :: "LogEntry \<Rightarrow> tree \<Rightarrow> (string \<rightharpoonup> ACLs) \<Rightarrow> (string \<rightharpoonup> ACLs)" where
  "spec_entry_acls e t a =
     (case e_req e of
        CloseRequest \<Rightarrow> close_acls (e_session e) t a
      | MultiRequest rs _ \<Rightarrow>
          if denied e then a
          else (case spec_multi (e_fix e) (e_zxid e) (e_session e) (e_time e) rs t of
                  Inl _ \<Rightarrow> a | Inr _ \<Rightarrow> multi_acls (e_fix e) (e_zxid e) (e_session e) (e_time e) rs t a)
      | req \<Rightarrow>
          if denied e then a else acls_after (e_fix e) (e_zxid e) (e_session e) (e_time e) req t a)"

lemma spec_multi_reads:
  assumes "\<forall>r \<in> set rs. is_read r"
  shows "(case spec_multi fx z sid time rs t of Inl _ \<Rightarrow> t | Inr t' \<Rightarrow> t') = t"
proof -
  have "spec_multi fx z sid time rs t = Inr t' \<Longrightarrow> t' = t" for t'
    using assms spec_plain_read by (induction rs arbitrary: t') (fastforce split: sum.splits)+
  then show ?thesis by (auto split: sum.split)
qed

lemma parts_read_replay:
  assumes "parts_meet fx z sid time rs t all" "\<forall>r \<in> set rs. is_read r"
  shows "replay all t = t"
  using assms
proof (induction rs arbitrary: all)
  case (Cons r rs)
  then obtain ds rest where all: "all = ds @ delta_plain z SubDeltaEnd # rest" "implements fx z sid time r t ds"
    "parts_meet fx z sid time rs (replay ds t) rest" by auto
  have "replay ds t = t"
    using all(2) meets_replay [of z ds t] spec_plain_read [of r fx z sid time t] Cons.prems(2)
    by (auto simp: implements_def split: sum.splits)
  then show ?case
    using Cons.IH [of rest] Cons.prems(2) all tstep_mark [of "delta_plain z SubDeltaEnd" t] by simp
qed simp

lemma entry_replay:
  assumes "entry_ok e t"
  shows "replay (e_deltas e) t = spec_entry e t"
proof (cases "denied e \<and> e_req e \<noteq> CloseRequest")
  case True
  then have "replay (e_deltas e) t = t" using tstep_mark [of "no_auth_delta (e_zxid e) (e_req e)" t] by (simp add: denied_def)
  then show ?thesis using True assms
    by (cases "e_req e") (auto simp: spec_entry_def entry_ok_def implements_def denied_def tree_after_def spec_plain_def)
next
  case False
  show ?thesis
  proof (cases "\<exists>rs k. e_req e = MultiRequest rs k")
    case True
    then obtain rs k where r: "e_req e = MultiRequest rs k" by blast
    have m: "multi_entry_ok e rs t" using assms False r by (auto simp: entry_ok_def denied_def)
    show ?thesis
    proof (cases "\<forall>r \<in> set rs. is_read r")
      case True
      then show ?thesis
        using m parts_read_replay spec_multi_reads False r by (simp add: multi_entry_ok_def spec_entry_def)
    next
      case w: False
      show ?thesis
        using m w False r tstep_mark [of "multi_failed (e_zxid e) [] (length rs) i err" t for i err]
        by (auto simp: multi_entry_ok_def spec_entry_def multi_failed_def split: sum.splits)
    qed
  next
    case plain: False
    then show ?thesis
      using assms False meets_replay [of "e_zxid e" "e_deltas e" t]
      by (cases "e_req e") (auto simp: entry_ok_def denied_def spec_entry_def implements_def tree_after_def)
  qed
qed

lemma parts_acls:
  assumes "parts_meet fx z sid time rs t all"
  shows "fold astep all a = multi_acls fx z sid time rs t a"
  using assms
proof (induction rs arbitrary: t a all)
  case (Cons r rs)
  then obtain ds rest where all: "all = ds @ delta_plain z SubDeltaEnd # rest" "implements fx z sid time r t ds"
    "parts_meet fx z sid time rs (replay ds t) rest" by auto
  have "replay ds t = tree_after (spec_plain fx z sid time r t) t" "fold astep ds a = acls_after fx z sid time r t a"
    using all(2) meets_replay [of z ds t] by (auto simp: implements_def tree_after_def)
  moreover have "astep (delta_plain z SubDeltaEnd) b = b" for b by (simp add: astep_def)
  ultimately show ?case using Cons.IH [OF all(3)] all(1) by simp
qed simp

lemma multi_acls_reads:
  assumes "\<forall>r \<in> set rs. is_read r"
  shows "multi_acls fx z sid time rs t a = a"
  using assms
proof (induction rs arbitrary: t)
  case (Cons r rs)
  have "acls_after fx z sid time r t a = a"
    using Cons.prems by (cases r) (auto simp: acls_after_def spec_acls_def is_read_def split: sum.split)
  then show ?case using Cons by simp
qed simp

lemma entry_acls:
  assumes "entry_ok e t"
  shows "fold astep (e_deltas e) a = spec_entry_acls e t a"
proof (cases "denied e \<and> e_req e \<noteq> CloseRequest")
  case True
  then have "fold astep (e_deltas e) a = a" by (cases "e_req e") (auto simp: denied_def no_auth_delta_def astep_def delta_error_def)
  then show ?thesis using True assms
    by (cases "e_req e") (auto simp: spec_entry_acls_def entry_ok_def implements_def denied_def acls_after_def spec_plain_def)
next
  case False
  show ?thesis
  proof (cases "\<exists>rs k. e_req e = MultiRequest rs k")
    case True
    then obtain rs k where r: "e_req e = MultiRequest rs k" by blast
    have m: "multi_entry_ok e rs t" using assms False r by (auto simp: entry_ok_def denied_def)
    show ?thesis
    proof (cases "\<forall>r \<in> set rs. is_read r")
      case True
      then show ?thesis
        using m parts_acls multi_acls_reads False r by (auto simp: multi_entry_ok_def spec_entry_acls_def split: sum.split)
    next
      case w: False
      show ?thesis
        using m w False r parts_acls
        by (auto simp: multi_entry_ok_def spec_entry_acls_def multi_failed_def astep_def split: sum.splits)
    qed
  next
    case plain: False
    then show ?thesis
      using assms False by (cases "e_req e") (auto simp: entry_ok_def denied_def spec_entry_acls_def implements_def)
  qed
qed

text \<open>The specification of the whole storage: the tree and the access control lists.\<close>

definition storage_content :: "KeeperStorage \<Rightarrow> tree \<times> (string \<rightharpoonup> ACLs)" where
  "storage_content s = (ctree s, atree s)"

definition spec_step :: "LogEntry \<Rightarrow> tree \<times> (string \<rightharpoonup> ACLs) \<Rightarrow> tree \<times> (string \<rightharpoonup> ACLs)" where
  "spec_step e ta = (spec_entry e (fst ta), spec_entry_acls e (fst ta) (snd ta))"

section \<open>Replicated logs\<close>

text \<open>A state that takes entries into a log, commits the first one or drops the last one; other calls concern neither
  log nor content.\<close>

datatype 'e event = Append 'e | Commit 'e | Drop 'e | Internal

fun committed_entries :: "'e event list \<Rightarrow> 'e list" where
  "committed_entries [] = []"
| "committed_entries (Commit e # es) = e # committed_entries es"
| "committed_entries (_ # es) = committed_entries es"

inductive trace :: "('s \<Rightarrow> 'a \<Rightarrow> 's \<Rightarrow> bool) \<Rightarrow> 's \<Rightarrow> 'a list \<Rightarrow> 's \<Rightarrow> bool" for step where
  trace_Nil: "trace step s [] s"
| trace_Cons: "step s a s1 \<Longrightarrow> trace step s1 as s2 \<Longrightarrow> trace step s (a # as) s2"

inductive_cases trace_ConsE: "trace step s (a # as) s2"

locale replicated_log =
  fixes inv :: "'s \<Rightarrow> 'e list \<Rightarrow> bool" and content :: "'s \<Rightarrow> 't" and effect :: "'e \<Rightarrow> 't \<Rightarrow> 't"
    and step :: "'s \<times> 'e list \<Rightarrow> 'e event \<Rightarrow> 's \<times> 'e list \<Rightarrow> bool"
  assumes append_law: "inv s L \<Longrightarrow> step (s, L) (Append e) (s', L') \<Longrightarrow> L' = L @ [e] \<and> inv s' L' \<and> content s' = content s"
    and commit_law: "inv s L \<Longrightarrow> step (s, L) (Commit e) (s', L') \<Longrightarrow> L = e # L' \<and> inv s' L' \<and> content s' = effect e (content s)"
    and drop_law: "inv s L \<Longrightarrow> step (s, L) (Drop e) (s', L') \<Longrightarrow> L = L' @ [e] \<and> inv s' L' \<and> content s' = content s"
    and internal_law: "inv s L \<Longrightarrow> step (s, L) Internal (s', L') \<Longrightarrow> L' = L \<and> inv s' L' \<and> content s' = content s"
begin

lemma trace_ok:
  "trace step x es y \<Longrightarrow> inv (fst x) (snd x) \<Longrightarrow>
     inv (fst y) (snd y) \<and> content (fst y) = fold effect (committed_entries es) (content (fst x))"
proof (induction rule: trace.induct)
  case (trace_Cons x a y as z)
  obtain s L s' L' where xy: "x = (s, L)" "y = (s', L')" by (cases x, cases y)
  have i: "inv s L" using trace_Cons.prems xy by simp
  show ?case
    using trace_Cons.hyps(1) trace_Cons.IH xy append_law [OF i, of _ s' L'] commit_law [OF i, of _ s' L'] drop_law [OF i, of _ s' L']
      internal_law [OF i, of s' L']
    by (cases a) simp_all
qed simp

end

text \<open>The calls of the state machine. An entry is accepted when the request is one that the storage answers and its
  zxid is new.\<close>

inductive keeper_step ::
  "KeeperContext \<Rightarrow> KeeperStorage \<times> LogEntry list \<Rightarrow> LogEntry event \<Rightarrow> KeeperStorage \<times> LogEntry list \<Rightarrow> bool" for ctx where
  step_append:
    "running ctx \<Longrightarrow> last_zxid s <s z \<Longrightarrow> card (dom (vtree s)) + parts req < 2 ^ 32 \<Longrightarrow>
     valid_request sid req \<Longrightarrow> answerable (vtree s) req \<Longrightarrow>
     preprocessRequest ctx req sid time z check_acl digest log_idx s = (r, s') \<Longrightarrow>
     e = entry req sid time z s (drop (length (pending s)) (pending s')) \<Longrightarrow>
     keeper_step ctx (s, L) (Append e) (s', L @ [e])"
| step_commit:
    "room (length (pending s)) s \<Longrightarrow> clock_ok now (e_session e) s \<Longrightarrow> request zk = e_req e \<Longrightarrow>
     processRequest ctx now zk (e_session e) (Some (e_zxid e)) check_acl False s = Inr (rs, s') \<Longrightarrow>
     keeper_step ctx (s, e # L) (Commit e) (s', L)"
| step_drop:
    "rollbackRequest (e_zxid e) allow_missing s = Inr s' \<Longrightarrow> keeper_step ctx (s, L @ [e]) (Drop e) (s', L)"
| step_read:
    "clock_ok now sid s \<Longrightarrow> local_request (request zk) \<Longrightarrow> valid_request sid (request zk) \<Longrightarrow> answerable (ctree s) (request zk) \<Longrightarrow>
     processRequest ctx now zk sid None check_acl True s = Inr (rs, s') \<Longrightarrow> keeper_step ctx (s, L) Internal (s', L)"
| step_session: "getSessionID now timeout s = Inr (sid, s') \<Longrightarrow> keeper_step ctx (s, L) Internal (s', L)"
| step_snapshot: "keeper_step ctx (s, L) Internal (storage_enableSnapshotMode v s, L)"
| step_snapshot_end: "keeper_step ctx (s, L) Internal (storage_disableSnapshotMode s, L)"
| step_garbage: "keeper_step ctx (s, L) Internal (clearGarbageAfterSnapshot ctx s, L)"

inductive_cases keeper_appendE: "keeper_step ctx (s, L) (Append e) (s', L')"
inductive_cases keeper_commitE: "keeper_step ctx (s, L) (Commit e) (s', L')"
inductive_cases keeper_dropE: "keeper_step ctx (s, L) (Drop e) (s', L')"
inductive_cases keeper_internalE: "keeper_step ctx (s, L) Internal (s', L')"

lemma entry_deltas:
  assumes "log_inv ctx s L" "log_inv ctx s' (L @ [entry req sid time z s all])"
  shows "drop (length (pending s)) (pending s') = all"
  using log_invD(7) [OF assms(1)] log_invD(7) [OF assms(2)] by (simp add: entry_def)

lemma keeper_append_law:
  assumes inv: "log_inv ctx s L" and st: "keeper_step ctx (s, L) (Append e) (s', L')"
  shows "L' = L @ [e] \<and> log_inv ctx s' L' \<and> storage_content s' = storage_content s"
proof -
  obtain z req sid time check_acl digest log_idx r where
    p: "running ctx" "last_zxid s <s z" "card (dom (vtree s)) + parts req < 2 ^ 32" "valid_request sid req" "answerable (vtree s) req"
      "preprocessRequest ctx req sid time z check_acl digest log_idx s = (r, s')"
      "e = entry req sid time z s (drop (length (pending s)) (pending s'))" "L' = L @ [e]"
    using st by (cases rule: keeper_appendE) auto
  from preprocessRequest_ok [OF inv p(1-5), of time check_acl digest log_idx] p(6)
  obtain all where a: "log_inv ctx s' (L @ [entry req sid time z s all])" "ctree s' = ctree s" "atree s' = atree s" by auto
  then show ?thesis using entry_deltas [OF inv a(1)] p(7,8) by (simp add: storage_content_def)
qed

lemma log_first:
  assumes "log_inv ctx s (e # L)"
  shows "entry_ok e (ctree s)" "replay (e_deltas e) (ctree s) = spec_entry e (ctree s)"
proof -
  show "entry_ok e (ctree s)" using log_invD(8) [OF assms] by (cases "uncommitted_transactions s") auto
  then show "replay (e_deltas e) (ctree s) = spec_entry e (ctree s)" by (rule entry_replay)
qed

lemma keeper_commit_law:
  assumes inv: "log_inv ctx s L" and st: "keeper_step ctx (s, L) (Commit e) (s', L')"
  shows "L = e # L' \<and> log_inv ctx s' L' \<and> storage_content s' = spec_step e (storage_content s)"
proof -
  obtain now zk check_acl rs where
    p: "L = e # L'" "room (length (pending s)) s" "clock_ok now (e_session e) s" "request zk = e_req e"
      "processRequest ctx now zk (e_session e) (Some (e_zxid e)) check_acl False s = Inr (rs, s')"
    using st by (cases rule: keeper_commitE) auto
  from processRequest_ok [OF inv [unfolded p(1)] p(2-4), of check_acl] log_first [OF inv [unfolded p(1)]] entry_acls p(1,5)
  show ?thesis by (auto simp: storage_content_def spec_step_def)
qed

lemma keeper_drop_law:
  assumes inv: "log_inv ctx s L" and st: "keeper_step ctx (s, L) (Drop e) (s', L')"
  shows "L = L' @ [e] \<and> log_inv ctx s' L' \<and> storage_content s' = storage_content s"
proof -
  obtain allow_missing where p: "L = L' @ [e]" "rollbackRequest (e_zxid e) allow_missing s = Inr s'"
    using st by (cases rule: keeper_dropE) auto
  from rollbackRequest_ok [OF inv [unfolded p(1)], of allow_missing] p show ?thesis by (auto simp: storage_content_def)
qed

lemma keeper_internal_law:
  assumes inv: "log_inv ctx s L" and st: "keeper_step ctx (s, L) Internal (s', L')"
  shows "L' = L \<and> log_inv ctx s' L' \<and> storage_content s' = storage_content s"
proof -
  consider (read) now sid zk check_acl rs where "clock_ok now sid s" "local_request (request zk)" "valid_request sid (request zk)"
      "answerable (ctree s) (request zk)" "processRequest ctx now zk sid None check_acl True s = Inr (rs, s')" "L' = L"
    | (session) now timeout sid where "getSessionID now timeout s = Inr (sid, s')" "L' = L"
    | (snapshot) v where "s' = storage_enableSnapshotMode v s \<or> s' = storage_disableSnapshotMode s \<or> s' = clearGarbageAfterSnapshot ctx s" "L' = L"
    using st by (cases rule: keeper_internalE) blast+
  then show ?thesis
  proof cases
    case read
    from local_request_ok [OF inv read(1-4) refl, of check_acl] read(5,6) show ?thesis by (auto simp: storage_content_def)
  next
    case session
    from getSessionID_ok [OF inv session(1)] session(2) show ?thesis by (simp add: storage_content_def)
  next
    case snapshot
    then show ?thesis using snapshot_ops_ok [OF inv] by (auto simp: storage_content_def)
  qed
qed

interpretation keeper: replicated_log "log_inv ctx" storage_content spec_step "keeper_step ctx" for ctx
  by unfold_locales (fact keeper_append_law keeper_commit_law keeper_drop_law keeper_internal_law)+

section \<open>Reachable storages\<close>

definition reachable :: "KeeperContext \<Rightarrow> KeeperStorage \<Rightarrow> LogEntry list \<Rightarrow> bool" where
  "reachable ctx s L \<longleftrightarrow>
     (\<exists>tick s0 es. system_nodes_ok ctx \<and> KeeperStorage_new ctx tick True = Inr s0 \<and> trace (keeper_step ctx) (s0, []) es (s, L))"

lemma new_inv: "system_nodes_ok ctx \<Longrightarrow> KeeperStorage_new ctx tick True = Inr s \<Longrightarrow> log_inv ctx s []"
  using KeeperStorage_new_ok [of ctx tick] by auto

lemma reachable_inv: "reachable ctx s L \<Longrightarrow> log_inv ctx s L"
  using keeper.trace_ok new_inv unfolding reachable_def by fastforce

lemma trace_snoc: "trace step x as y \<Longrightarrow> step y a z \<Longrightarrow> trace step x (as @ [a]) z"
  by (induction rule: trace.induct) (auto intro: trace.intros)

lemma reachable_step: "reachable ctx s L \<Longrightarrow> keeper_step ctx (s, L) a (s', L') \<Longrightarrow> reachable ctx s' L'"
  unfolding reachable_def using trace_snoc by metis

lemma chain_spec: "chain ctx t L X \<Longrightarrow> replay (log_deltas L) t = fold spec_entry L t"
  by (induction ctx t L X rule: chain.induct) (auto simp: entry_replay)

lemma view_spec: "log_inv ctx s L \<Longrightarrow> vtree s = fold spec_entry L (ctree s)"
  using log_view chain_spec log_invD(8) by metis

section \<open>Committing the whole log\<close>

definition clocks_ok :: "int \<Rightarrow> KeeperStorage \<Rightarrow> bool" where
  "clocks_ok now s \<longleftrightarrow> (\<forall>t \<in> timeouts s. queue_in_range (now + t) (session_expiry_queue s))"

lemma clocks_okD: "clocks_ok now s \<Longrightarrow> clock_ok now sid s"
  by (auto simp: clocks_ok_def clock_ok_def timeouts_def ran_def split: option.split)

lemma clocks_ok_mono: "clocks_ok now s \<Longrightarrow> clocks s s' \<Longrightarrow> clocks_ok now s'"
  by (auto simp: clocks_ok_def clocks_def queue_in_range_def)

fun commit_log :: "KeeperContext \<Rightarrow> int \<Rightarrow> bool \<Rightarrow> (LogEntry \<times> int32) list \<Rightarrow> KeeperStorage \<Rightarrow>
    exn + ResponseForSession list list \<times> KeeperStorage" where
  "commit_log ctx now check_acl [] s = Inr ([], s)"
| "commit_log ctx now check_acl ((e, x) # es) s =
     bindE (processRequest ctx now \<lparr>xid = x, request = e_req e\<rparr> (e_session e) (Some (e_zxid e)) check_acl False s) (\<lambda>(rs, s).
       bindE (commit_log ctx now check_acl es s) (\<lambda>(rss, s). Inr (rs # rss, s)))"

lemma commit_log_ok:
  assumes "log_inv ctx s (map fst es)" "room (length (pending s)) s" "clocks_ok now s"
  shows "\<exists>rss s'. commit_log ctx now check_acl es s = Inr (rss, s') \<and> log_inv ctx s' [] \<and> ctree s' = vtree s \<and>
     list_all2 (\<lambda>(e, x) rs. rs \<noteq> [] \<and> rs_session_id (last rs) = e_session e \<and> resp_xid (rs_response (last rs)) = x \<and>
       resp_zxid (rs_response (last rs)) = e_zxid e \<and> notices (butlast rs)) es rss"
  using assms
proof (induction es arbitrary: s)
  case Nil
  then show ?case using view_spec [of ctx s "[]"] by simp
next
  case (Cons ex es)
  obtain e x where ex: "ex = (e, x)" by (cases ex)
  have inv: "log_inv ctx s (e # map fst es)" using Cons.prems(1) ex by simp
  from processRequest_ok [OF inv Cons.prems(2) clocks_okD [OF Cons.prems(3)], of "\<lparr>xid = x, request = e_req e\<rparr>" check_acl]
  obtain rs resp s1 where s1: "processRequest ctx now \<lparr>xid = x, request = e_req e\<rparr> (e_session e) (Some (e_zxid e)) check_acl False s =
       Inr (rs @ [\<lparr>rs_session_id = e_session e, rs_response = set_ids (e_zxid e) x resp\<rparr>], s1)" "notices rs"
     "log_inv ctx s1 (map fst es)" "ctree s1 = replay (e_deltas e) (ctree s)" "room (length (pending s1)) s1" "clocks s s1" by auto
  have v: "vtree s1 = vtree s" using view_spec [OF inv] view_spec [OF s1(3)] s1(4) log_first(2) [OF inv] by simp
  obtain rss s' where "commit_log ctx now check_acl es s1 = Inr (rss, s')" "log_inv ctx s' []" "ctree s' = vtree s1"
     "list_all2 (\<lambda>(e, x) rs. rs \<noteq> [] \<and> rs_session_id (last rs) = e_session e \<and> resp_xid (rs_response (last rs)) = x \<and>
       resp_zxid (rs_response (last rs)) = e_zxid e \<and> notices (butlast rs)) es rss"
    using Cons.IH [OF s1(3,5) clocks_ok_mono [OF Cons.prems(3) s1(6)]] by blast
  then show ?case using s1(1,2) v ex by auto
qed

section \<open>Committing an entry\<close>

abbreviation commit_entry :: "KeeperContext \<Rightarrow> int \<Rightarrow> int32 \<Rightarrow> bool \<Rightarrow> LogEntry \<Rightarrow> KeeperStorage \<Rightarrow>
    exn + ResponseForSession list \<times> KeeperStorage" where
  "commit_entry ctx now x check_acl e s \<equiv>
     processRequest ctx now \<lparr>xid = x, request = e_req e\<rparr> (e_session e) (Some (e_zxid e)) check_acl False s"

text \<open>The storage is ready to commit: there is room for the pending deltas and time for the sessions.\<close>

definition ready :: "int \<Rightarrow> KeeperStorage \<Rightarrow> bool" where
  "ready now s \<longleftrightarrow> room (length (pending s)) s \<and> clocks_ok now s"

text \<open>The response to the session comes after the notices.\<close>

definition response_of :: "ResponseForSession list \<Rightarrow> Response" where
  "response_of rs = rs_response (last rs)"

lemma commit_entry_ok:
  assumes s: "reachable ctx s (e # L)" "ready now s"
  shows "\<exists>rs s' resp. commit_entry ctx now x check_acl e s = Inr (rs, s') \<and> reachable ctx s' L \<and> ready now s' \<and>
     response_of rs = set_ids (e_zxid e) x resp \<and> rs_session_id (last rs) = e_session e \<and> rs \<noteq> [] \<and> notices (butlast rs) \<and>
     answer_ok ctx e (ctree s) (ctree s') (atree s') resp \<and> ctree s' = spec_entry e (ctree s) \<and>
     atree s' = spec_entry_acls e (ctree s) (atree s)"
proof -
  note inv = reachable_inv [OF s(1)]
  have r: "room (length (pending s)) s" "clocks_ok now s" using s(2) by (simp_all add: ready_def)
  from processRequest_ok [OF inv r(1) clocks_okD [OF r(2)], of "\<lparr>xid = x, request = e_req e\<rparr>" check_acl]
  obtain rs resp s' where p: "commit_entry ctx now x check_acl e s =
       Inr (rs @ [\<lparr>rs_session_id = e_session e, rs_response = set_ids (e_zxid e) x resp\<rparr>], s')"
     "notices rs" "answer_ok ctx e (ctree s) (ctree s') (atree s') resp" "ctree s' = replay (e_deltas e) (ctree s)"
     "atree s' = fold astep (e_deltas e) (atree s)" "room (length (pending s')) s'" "clocks s s'" by auto
  have "keeper_step ctx (s, e # L) (Commit e) (s', L)"
    by (rule step_commit [OF r(1) clocks_okD [OF r(2)] _ p(1)]) simp
  from reachable_step [OF s(1) this] have "reachable ctx s' L" .
  moreover have "ready now s'" using p(6) clocks_ok_mono [OF r(2) p(7)] by (simp add: ready_def)
  moreover have "ctree s' = spec_entry e (ctree s)" "atree s' = spec_entry_acls e (ctree s) (atree s)"
    using p(4,5) log_first [OF inv] entry_acls by simp_all
  ultimately show ?thesis
    using p(1-3) by (intro exI [of _ "rs @ [\<lparr>rs_session_id = e_session e, rs_response = set_ids (e_zxid e) x resp\<rparr>]"]
        exI [of _ s'] exI [of _ resp]) (simp add: response_of_def)
qed

lemma ephemeral_count_bound:
  assumes "log_inv ctx s L"
  shows "ephemeral_count sid s \<le> card (dom (vtree s))"
proof (cases "ephemerals s sid")
  case None
  then show ?thesis by (simp add: ephemeral_count_def)
next
  case (Some ps)
  then have "distinct ps" "set ps = eph_set (vtree s) sid"
    using log_invD(6) [OF assms] by (auto simp: eph_ok_def eph_entry_def dest: spec [of _ sid])
  moreover have "eph_set (vtree s) sid \<subseteq> dom (vtree s)" by (auto simp: eph_set_def)
  moreover have "finite (dom (vtree s))" using tree_wfD(1) view_okD(1) [OF log_view_ok [OF assms]] by blast
  ultimately show ?thesis using Some by (simp add: ephemeral_count_def) (metis card_mono distinct_card)
qed

section \<open>Appending an entry\<close>

lemma append_entry_ok:
  assumes s: "reachable ctx s L" "running ctx" "last_zxid s <s z" "card (dom (vtree s)) + parts req < 2 ^ 32"
    "valid_request sid req" "answerable (vtree s) req"
  shows "\<exists>e s'. preprocessRequest ctx req sid time z check_acl digest log_idx s = (Inr (), s') \<and>
     keeper_step ctx (s, L) (Append e) (s', L @ [e]) \<and> reachable ctx s' (L @ [e]) \<and>
     e = entry req sid time z s (e_deltas e) \<and> ctree s' = ctree s \<and> atree s' = atree s \<and> vtree s' = spec_entry e (vtree s) \<and>
     butlast (uncommitted_transactions s') = uncommitted_transactions s \<and>
     last_zxid s' = z \<and> (room k s \<longrightarrow> room k s') \<and> (clocks_ok now s \<longrightarrow> clocks_ok now s') \<and>
     (denied e \<longleftrightarrow> refused check_acl req sid s)"
proof -
  note inv = reachable_inv [OF s(1)]
  obtain all s' where s': "preprocessRequest ctx req sid time z check_acl digest log_idx s = (Inr (), s')"
    "log_inv ctx s' (L @ [entry req sid time z s all])" "ctree s' = ctree s" "atree s' = atree s"
    "butlast (uncommitted_transactions s') = uncommitted_transactions s" "acl_map s' = acl_map s"
    "session_and_timeout s' = session_and_timeout s" "session_expiry_queue s' = session_expiry_queue s"
    "denied (entry req sid time z s all) \<longleftrightarrow> refused check_acl req sid s"
    using preprocessRequest_ok [OF inv s(2-6), of time check_acl digest log_idx] by auto
  let ?e = "entry req sid time z s all"
  have e: "?e = entry req sid time z s (drop (length (pending s)) (pending s'))" using entry_deltas [OF inv s'(2)] by simp
  have st: "keeper_step ctx (s, L) (Append ?e) (s', L @ [?e])" by (rule step_append [OF s(2-6) s'(1) e])
  have "vtree s' = spec_entry ?e (vtree s)" using view_spec [OF s'(2)] view_spec [OF inv] s'(3) by simp
  moreover have "last_zxid s' = z" using log_last_zxid(2) [OF s'(2)] by (simp add: entry_def)
  moreover have "room k s \<longrightarrow> room k s'" "clocks_ok now s \<longrightarrow> clocks_ok now s'"
    using s'(3,6-8) by (simp_all add: room_def clocks_ok_def timeouts_def)
  ultimately show ?thesis
    using s'(1,3-5,9) st reachable_step [OF s(1) st] by (intro exI [of _ ?e] exI [of _ s']) (simp add: entry_def)
qed

lemma card_vtree:
  assumes "log_inv ctx s L"
  shows "card (dom (vtree s)) \<le> card (dom (ctree s)) + length (pending s)"
proof -
  have "finite (dom t) \<Longrightarrow> card (dom (replay ds t)) \<le> card (dom t) + length ds" for ds t
  proof (induction ds arbitrary: t)
    case (Cons d ds)
    have "card (dom (tstep d t)) \<le> card (insert (d_path d) (dom t))" using Cons.prems dom_tstep by (intro card_mono) simp_all
    also have "\<dots> \<le> Suc (card (dom t))" using Cons.prems by (simp add: card_insert_if)
    finally show ?case using Cons.IH [of "tstep d t"] finite_subset [OF dom_tstep, of d t] Cons.prems by simp
  qed simp
  then show ?thesis using log_view [OF assms] log_invD(7) [OF assms] tree_wfD(1) [OF log_invD(5) [OF assms]] by metis
qed

section \<open>What the storage keeps beside the tree\<close>

lemma ephemerals_view:
  assumes "log_inv ctx s L"
  shows "map_option set (ephemerals s k) = (if eph_set (vtree s) k = {} then None else Some (eph_set (vtree s) k))"
proof -
  have "eph_entry (ephemerals s k) (eph_set (vtree s) k)" using log_invD(6) [OF assms] by (simp add: eph_ok_def)
  then show ?thesis by (cases "ephemerals s k") (auto simp: eph_entry_def)
qed

lemma committed_digest: "log_inv ctx s L \<Longrightarrow> digestEnabled ctx \<Longrightarrow> nodes_digest s = tree_digest (ctree s)"
  using cinv_facts(6) log_invD(1) by blast

section \<open>Answers to multi requests\<close>

text \<open>The error codes of the parts of a response to a multi request.\<close>

definition part_codes :: "Response \<Rightarrow> Error list" where
  "part_codes r =
     (case resp_body r of MultiWriteResponse rs \<Rightarrow> map resp_error rs | MultiReadResponse rs \<Rightarrow> map resp_error rs | _ \<Rightarrow> [])"

lemma part_codes_multi: "part_codes (Response e x z (multi_body req rs)) = map resp_error rs"
  by (simp add: part_codes_def multi_body_def)

lemma part_codes_failed: "part_codes (set_ids z x (failed_multi_response req codes err)) = codes"
  by (simp add: failed_multi_response_def part_codes_def multi_body_def comp_def)

lemma part_codes_ok: "part_codes (set_ids z x (set_body (multi_body req rs) r)) = map resp_error rs"
  by (simp add: part_codes_def multi_body_def)

lemma spec_plain_error: "spec_plain fx z sid time r t = Inl err \<Longrightarrow> err \<noteq> ZOK"
  by (cases r) (auto simp: spec_plain_def spec_create_def spec_remove_def spec_set_def spec_set_acl_def spec_check_def
      spec_read_def Let_def split: if_splits option.splits bool.splits)

lemma spec_multi_fails: "spec_multi fx z sid time rs t = Inl (i, err) \<Longrightarrow> i < length rs \<and> err \<noteq> ZOK"
proof (induction rs arbitrary: t i)
  case (Cons r rs)
  then show ?case using spec_plain_error by (fastforce split: sum.splits)
qed simp

lemma parts_all_ok:
  assumes "parts_answered ctx fx z sid time rs t resps" "spec_multi fx z sid time rs t = Inr t'"
  shows "map resp_error resps = replicate (length rs) ZOK"
  using assms
proof (induction rs arbitrary: t resps)
  case Nil
  then show ?case by (cases resps) auto
next
  case (Cons r rs)
  then show ?case by (cases resps) (auto simp: response_ok_def tree_after_def Let_def split: sum.splits)
qed

lemma count_out_keeps: "n_data ((remove_parent_update ^^ k) n) = n_data n"
  by (induction k) (simp_all add: remove_parent_update_def decreaseNumChildren_def setNumChildren_def)

section \<open>Committing a plain request\<close>

abbreviation spec_of :: "LogEntry \<Rightarrow> tree \<Rightarrow> Error + tree" where
  "spec_of e t \<equiv> spec_plain (e_fix e) (e_zxid e) (e_session e) (e_time e) (e_req e) t"

lemma commit_plain_ok:
  assumes "reachable ctx s (e # L)" "ready now s" "plain (e_req e)" "\<not> denied e"
  shows "\<exists>rs s' resp. commit_entry ctx now x check_acl e s = Inr (rs, s') \<and> reachable ctx s' L \<and> ready now s' \<and>
     response_of rs = set_ids (e_zxid e) x resp \<and>
     response_ok ctx (e_req e) (spec_of e (ctree s)) (ctree s) (ctree s') (atree s') resp \<and>
     ctree s' = tree_after (spec_of e (ctree s)) (ctree s) \<and>
     atree s' = acls_after (e_fix e) (e_zxid e) (e_session e) (e_time e) (e_req e) (ctree s) (atree s)"
proof -
  obtain rs s' resp where c: "commit_entry ctx now x check_acl e s = Inr (rs, s')" "reachable ctx s' L" "ready now s'"
     "response_of rs = set_ids (e_zxid e) x resp" "answer_ok ctx e (ctree s) (ctree s') (atree s') resp" "ctree s' = spec_entry e (ctree s)"
     "atree s' = spec_entry_acls e (ctree s) (atree s)"
    using commit_entry_ok [OF assms(1,2)] by blast
  have "response_ok ctx (e_req e) (spec_of e (ctree s)) (ctree s) (ctree s') (atree s') resp"
    using c(5) assms(3,4) by (cases "e_req e") (simp_all add: answer_ok_def)
  moreover have "ctree s' = tree_after (spec_of e (ctree s)) (ctree s)"
    using c(6) assms(3,4) by (cases "e_req e") (simp_all add: spec_entry_def)
  moreover have "atree s' = acls_after (e_fix e) (e_zxid e) (e_session e) (e_time e) (e_req e) (ctree s) (atree s)"
    using c(7) assms(3,4) by (cases "e_req e") (simp_all add: spec_entry_acls_def)
  ultimately show ?thesis using c(1-4) by blast
qed

text \<open>A successful answer means that the specification succeeds.\<close>

lemma response_ok_success:
  assumes "response_ok ctx req (spec_plain fx z sid time req t) t t' a' resp" "resp_error resp = ZOK"
  shows "\<exists>t1. spec_plain fx z sid time req t = Inr t1 \<and> body_ok ctx req t t' a' (resp_body resp)"
  using assms spec_plain_error [of fx z sid time req t] by (auto simp: response_ok_def set_error_def split: sum.splits)

lemma spec_set_node:
  assumes "spec_plain fx z sid time (SetRequest p data v) t = Inr t'" "length data < 2 ^ 32"
  shows "\<exists>n n'. t p = Some n \<and> user_path p \<and> t' p = Some n' \<and> n_data n' = data \<and> n_version n' = n_version n + 1 \<and>
     n_mzxid n' = z \<and> n_mtime n' = time"
  using assms
  by (auto simp: spec_plain_def spec_set_def Let_def set_node_update_def set_parent_update_def setData_def split: if_splits option.splits)

lemma special_system: "special_path p \<Longrightarrow> \<not> user_path p"
  by (auto simp: special_path_def user_path_def matchPath_def strip_slash_def keeper_system_path_def keeper_api_feature_flags_path_def
      keeper_config_path_def keeper_availability_zone_path_def)

lemma spec_set_acl_node:
  "spec_plain fx z sid time (SetACLRequest p acls v) t = Inr t' \<Longrightarrow>
     \<exists>n fixed. t p = Some n \<and> fx acls = Some fixed \<and> t' p = Some (aversion_update n)"
  by (auto simp: spec_plain_def spec_set_acl_def split: if_splits option.splits)

lemma failed_answer_unchanged:
  assumes "answer_ok ctx e t t' a' resp" "resp_error resp \<noteq> ZOK"
  shows "spec_entry e t = t" "spec_entry_acls e t a = a"
proof -
  have c: "e_req e \<noteq> CloseRequest" using assms by (auto simp: answer_ok_def)
  have "spec_entry e t = t \<and> spec_entry_acls e t a = a"
  proof (cases "denied e")
    case True
    then show ?thesis using c by (cases "e_req e") (simp_all add: spec_entry_def spec_entry_acls_def)
  next
    case False
    have m: "e_req e \<noteq> MultiRequest rs k" for rs k
      using assms False by (auto simp: answer_ok_def multi_answer_ok_def failed_multi_response_def set_error_def set_body_def split: bool.splits sum.splits)
    have "\<exists>err. spec_of e t = Inl err"
      using assms c False m by (cases "e_req e") (auto simp: answer_ok_def response_ok_def split: sum.splits)
    then show ?thesis
      using c False m by (cases "e_req e") (auto simp: spec_entry_def spec_entry_acls_def tree_after_def acls_after_def)
  qed
  then show "spec_entry e t = t" "spec_entry_acls e t a = a" by simp_all
qed

end
