(* ===== verification/KeeperExamples.thy ===== *)
theory KeeperExamples
  imports KeeperMachine
begin

text \<open>
  A small context and storages on it with one or two entries in the log: the concrete instances on which the
  hypotheses of the properties of the storage hold.
\<close>

section \<open>An example\<close>

text \<open>A storage with one system node, for the concrete instances of the properties.\<close>

definition example_context :: KeeperContext where
  "example_context =
     \<lparr>digestEnabled = True, phase_INIT = False, ignoreSystemPathOnStartup = False,
      getSystemNodesWithData = [(''/keeper/api_version'', ''0'')], serializedClusterConfig = [], superdigest = [],
      sha1_base64 = id, sizeof_KeeperMemNode = 144, sizeof_StringRef = 16\<rparr>"

lemma example_context_ok: "system_nodes_ok example_context" "running example_context" "digestEnabled example_context"
  by (simp_all add: example_context_def system_nodes_ok_def system_node_path_def keeper_system_path_def running_def)

definition example_dom :: "string set" where
  "example_dom = {[slash], keeper_system_path, ''/keeper/api_version''}"

text \<open>A storage on which example requests of one session can be appended, with zxids 1, 2, and so on.\<close>

definition example_state :: "KeeperStorage \<Rightarrow> LogEntry list \<Rightarrow> bool" where
  "example_state s L \<longleftrightarrow>
     reachable example_context s L \<and> dom (ctree s) = example_dom \<and> last_zxid s = word_of_nat (length L) \<and>
     length (pending s) \<le> 50 * length L \<and> room 1000 s \<and> clocks_ok 0 s"

lemma example_new: "\<exists>s. KeeperStorage_new example_context 500 True = Inr s \<and> example_state s []"
proof -
  obtain s where s: "KeeperStorage_new example_context 500 True = Inr s" "log_inv example_context s []" "ks_zxid s = 0" "acl_map s = ACLMap_empty"
    "ctree s = new_tree example_context"
    "session_expiry_queue s = SessionExpiryQueue_new 500" "session_and_timeout s = Map.empty"
    using KeeperStorage_new_ok [OF example_context_ok(1), of 500] by blast
  have d: "dom (ctree s) = example_dom" using s(5) by (auto simp: new_tree_def example_context_def example_dom_def)
  have "card example_dom \<le> 3" unfolding example_dom_def by (simp add: card_insert_if)
  then have "room 1000 s" using d s(4) by (simp add: room_def ACLMap_empty_def)
  moreover have "uncommitted_transactions s = []" using chain_length [OF log_invD(8) [OF s(2)]] by simp
  moreover have "clocks_ok 0 s" using s(6,7) by (simp add: clocks_ok_def timeouts_def queue_in_range_def SessionExpiryQueue_new_def)
  moreover have "reachable example_context s []"
    unfolding reachable_def using example_context_ok(1) s(1) trace_Nil [of "keeper_step example_context" "(s, [])"] by metis
  ultimately have "example_state s []" using d s(3) log_invD(7) [OF s(2)] by (simp add: example_state_def last_zxid_def)
  then show ?thesis using s(1) by blast
qed

lemma example_append:
  assumes s: "example_state s L" "length L < 3"
    and req: "valid_request 1 req" "answerable (vtree s) req" "parts req < 10" "req = CloseRequest \<Longrightarrow> L = []"
  shows "\<exists>s' e. preprocessRequest example_context req 1 0 (word_of_nat (Suc (length L))) check_acl None 1 s = (Inr (), s') \<and>
     keeper_step example_context (s, L) (Append e) (s', L @ [e]) \<and> reachable example_context s' (L @ [e]) \<and>
     example_state s' (L @ [e]) \<and> e = entry req 1 0 (word_of_nat (Suc (length L))) s (e_deltas e) \<and> ctree s' = ctree s \<and>
     atree s' = atree s \<and> ready 0 s' \<and> (denied e \<longleftrightarrow> refused check_acl req 1 s)"
proof -
  let ?z = "word_of_nat (Suc (length L)) :: int64"
  have st: "reachable example_context s L" "dom (ctree s) = example_dom" "last_zxid s = word_of_nat (length L)"
    "length (pending s) \<le> 50 * length L" "room 1000 s" "clocks_ok 0 s"
    using s(1) by (simp_all add: example_state_def)
  note inv = reachable_inv [OF st(1)]
  have "card example_dom \<le> 3" unfolding example_dom_def by (simp add: card_insert_if)
  then have c: "card (dom (vtree s)) \<le> 3 + 50 * length L" using card_vtree [OF inv] st(2,4) by simp
  consider "length L = 0" | "length L = 1" | "length L = 2" using s(2) by linarith
  then have z: "last_zxid s <s ?z" using st(3) by cases (simp_all add: word_sless_alt)
  have small: "card (dom (vtree s)) + parts req < 2 ^ 32" using c req(3) s(2) by simp
  from append_entry_ok [OF st(1) example_context_ok(2) z small req(1,2), of 0 check_acl None 1 1000 0] obtain e s' where
    s': "preprocessRequest example_context req 1 0 ?z check_acl None 1 s = (Inr (), s')"
      "keeper_step example_context (s, L) (Append e) (s', L @ [e])" "reachable example_context s' (L @ [e])"
      "e = entry req 1 0 ?z s (e_deltas e)" "ctree s' = ctree s" "atree s' = atree s" "last_zxid s' = ?z"
      "room 1000 s \<longrightarrow> room 1000 s'" "clocks_ok 0 s \<longrightarrow> clocks_ok 0 s'" "denied e \<longleftrightarrow> refused check_acl req 1 s" by blast
  have "delta_bound req 1 s \<le> 50"
    using ephemeral_count_bound [OF inv, of 1] c req(3,4) by (cases req) (auto simp: delta_bound_def parts_def)
  then have l: "length (pending s') \<le> 50 * length (L @ [e])" using preprocessRequest_length [OF s'(1)] st(4) by simp
  then have "example_state s' (L @ [e])" using s'(3,5,7-9) st(2,5,6) by (simp add: example_state_def)
  moreover have "ready 0 s'" using l s(2) st(5,6) s'(8,9) room_mono [of 1000 s' "length (pending s')"] by (simp add: ready_def)
  ultimately show ?thesis using s' by blast
qed

text \<open>A log of one entry.\<close>

lemma example_one:
  assumes req: "valid_request 1 req" "\<And>t. answerable t req" "parts req < 10"
  shows "\<exists>s0 s1 e. KeeperStorage_new example_context 500 True = Inr s0 \<and> example_state s0 [] \<and>
     keeper_step example_context (s0, []) (Append e) (s1, [e]) \<and> example_state s1 [e] \<and> reachable example_context s1 [e] \<and>
     ready 0 s1 \<and> e = entry req 1 0 1 s0 (e_deltas e) \<and> e_req e = req \<and> e_zxid e = 1 \<and> e_session e = 1 \<and> ctree s1 = ctree s0 \<and>
     atree s1 = atree s0 \<and> \<not> denied e"
proof -
  obtain s0 where s0: "KeeperStorage_new example_context 500 True = Inr s0" "example_state s0 []" using example_new by blast
  obtain s1 e where s1: "keeper_step example_context (s0, []) (Append e) (s1, [e])" "example_state s1 [e]" "reachable example_context s1 [e]"
     "ready 0 s1" "e = entry req 1 0 1 s0 (e_deltas e)" "ctree s1 = ctree s0" "atree s1 = atree s0" "\<not> denied e"
    using example_append [OF s0(2) _ req(1,2,3), of False] by (auto simp: refused_def)
  have "e_req e = req" "e_zxid e = 1" "e_session e = 1" by (subst s1(5), simp add: entry_def)+
  then show ?thesis using s0 s1 by blast
qed

text \<open>A log of two entries.\<close>

lemma example_two:
  assumes req: "valid_request 1 req" "\<And>t. answerable t req" "parts req < 10"
    and req': "valid_request 1 req'" "\<And>t. answerable t req'" "parts req' < 10" "req' \<noteq> CloseRequest"
  shows "\<exists>s0 s2 e e'. example_state s0 [] \<and> reachable example_context s2 [e, e'] \<and> ready 0 s2 \<and> e = entry req 1 0 1 s0 (e_deltas e) \<and>
     e_req e = req \<and> e_req e' = req' \<and> e_session e = 1 \<and> e_session e' = 1 \<and> e_zxid e = 1 \<and> e_zxid e' = 2 \<and> \<not> denied e \<and> \<not> denied e' \<and>
     ctree s2 = ctree s0"
proof -
  obtain s0 s1 e where s1: "example_state s0 []" "example_state s1 [e]" "e = entry req 1 0 1 s0 (e_deltas e)" "e_req e = req" "e_zxid e = 1"
    "e_session e = 1" "ctree s1 = ctree s0" "\<not> denied e" using example_one [OF req] by blast
  obtain s2 e' where s2: "reachable example_context s2 [e, e']" "ready 0 s2" "e' = entry req' 1 0 2 s1 (e_deltas e')" "ctree s2 = ctree s1"
      "\<not> denied e'"
    using example_append [OF s1(2) _ req'(1,2,3), of False] req'(4) by (auto simp: refused_def)
  have "e_req e' = req'" "e_zxid e' = 2" "e_session e' = 1" by (subst s2(3), simp add: entry_def)+
  then show ?thesis using s1 s2 by metis
qed

definition example_create :: Request where
  "example_create =
     CreateRequest \<lparr>cr_path = ''/a'', cr_data = ''data'', cr_is_ephemeral = False, cr_is_sequential = False, cr_acls = [],
       cr_not_exists = False, cr_parent_cversion = -1\<rparr>"

lemma example_create_ok [simp]: "valid_request sid example_create" "answerable t example_create" "parts example_create = 1"
  "parts example_create < 10"
  by (simp_all add: example_create_def valid_request_def valid_plain_def auth_path_ok_def answerable_def answerable_part_def answerable_plain_def parts_def)

lemmas example_created = example_one [OF example_create_ok(1,2,4)]

lemma example_path: "user_path ''/a''" "parentNodePath ''/a'' = Some [slash]" "getBaseNodeName ''/a'' = ''a''" "''/a'' \<notin> example_dom"
  using parentNodePath_split [of "''a''" "[]"] getBaseNodeName_split [of "''a''" "[]"]
  by (simp_all add: user_path_def matchPath_def strip_slash_def keeper_system_path_def example_dom_def)

lemma example_create_result:
  assumes "example_state s []" "e = entry example_create 1 0 1 s ds"
  shows "\<exists>t' n. spec_plain (e_fix e) (e_zxid e) (e_session e) (e_time e) example_create (ctree s) = Inr t' \<and>
     t' ''/a'' = Some n \<and> n_data n = ''data''"
proof -
  have inv: "log_inv example_context s []" "dom (ctree s) = example_dom" using assms(1) reachable_inv by (simp_all add: example_state_def)
  obtain r where r: "ctree s [slash] = Some r" "\<not> n_is_ephemeral r" using tree_wfD(2) [OF log_invD(5) [OF inv(1)]] by blast
  have a: "ctree s ''/a'' = None" using inv(2) example_path(4) by blast
  have f: "e_fix e [] = Some []" using assms(2) by (simp add: entry_def fixupACL_def)
  show ?thesis
    using r a f example_path(1-3)
    by (simp add: example_create_def spec_plain_def spec_create_def created_node_def setData_def Let_def)
qed

lemma example_create_spec:
  assumes "example_state s []" "e_req e = example_create" "\<not> denied e" "e = entry example_create 1 0 1 s ds"
  shows "\<exists>n. spec_entry e (ctree s) ''/a'' = Some n \<and> n_data n = ''data''"
  using example_create_result [OF assms(1,4)] assms(2,3) by (auto simp: spec_entry_def example_create_def tree_after_def)

lemma example_appendable:
  assumes "example_state s []"
  shows "reachable example_context s []" "last_zxid s <s 1" "card (dom (vtree s)) + parts example_create < 2 ^ 32"
  using assms view_spec [OF reachable_inv, of example_context s "[]"]
  by (simp_all add: example_state_def word_sless_alt example_dom_def card_insert_if)

lemma example_multi_ok:
  "valid_request 1 (MultiRequest [example_create, CheckRequest ''/a'' (-1) True] None)"
  "answerable t (MultiRequest [example_create, CheckRequest ''/a'' (-1) True] None)"
  "parts (MultiRequest [example_create, CheckRequest ''/a'' (-1) True] None) < 10"
  by (simp_all add: example_create_def valid_request_def valid_plain_def auth_path_ok_def answerable_def answerable_part_def answerable_plain_def parts_def)

lemmas example_multi = example_one [OF example_multi_ok]

lemma example_multi_fails:
  assumes "example_state s []" "e = entry (MultiRequest [example_create, CheckRequest ''/a'' (-1) True] None) 1 0 1 s ds"
  shows "spec_multi (e_fix e) (e_zxid e) (e_session e) (e_time e) [example_create, CheckRequest ''/a'' (-1) True] (ctree s) =
     Inl (1, ZNODEEXISTS)"
proof -
  obtain t' n where "spec_plain (e_fix e) (e_zxid e) (e_session e) (e_time e) example_create (ctree s) = Inr t'" "t' ''/a'' = Some n"
    using example_create_result [OF assms(1), of "entry example_create 1 0 1 s ds" ds] assms(2) by (auto simp: entry_def)
  then show ?thesis by (simp add: spec_plain_def [of _ _ _ _ "CheckRequest p v ne" for p v ne] spec_check_def)
qed

lemma example_close_ok: "valid_request 1 CloseRequest" "answerable t CloseRequest" "parts CloseRequest < 10"
  by (simp_all add: valid_request_def valid_plain_def auth_path_ok_def answerable_def answerable_part_def answerable_plain_def parts_def)

lemmas example_close = example_one [OF example_close_ok]

lemma example_set_get_ok:
  "valid_request 1 (SetRequest ''/'' ''data'' (-1))" "answerable t (SetRequest ''/'' ''data'' (-1))" "parts (SetRequest ''/'' ''data'' (-1)) < 10"
  "valid_request 1 (GetRequest ''/'' False)" "answerable t (GetRequest ''/'' False)" "parts (GetRequest ''/'' False) < 10"
  "GetRequest ''/'' False \<noteq> CloseRequest"
  by (simp_all add: valid_request_def valid_plain_def auth_path_ok_def answerable_def answerable_part_def answerable_plain_def parts_def special_path_def
      keeper_api_feature_flags_path_def keeper_config_path_def keeper_availability_zone_path_def)

lemmas example_set_get = example_two [OF example_set_get_ok]

lemma example_set_get_acl_ok:
  "valid_request 1 (SetACLRequest ''/'' [] (-1))" "answerable t (SetACLRequest ''/'' [] (-1))" "parts (SetACLRequest ''/'' [] (-1)) < 10"
  "valid_request 1 (GetACLRequest ''/'')" "answerable t (GetACLRequest ''/'')" "parts (GetACLRequest ''/'') < 10"
  "GetACLRequest ''/'' \<noteq> CloseRequest"
  by (simp_all add: valid_request_def valid_plain_def auth_path_ok_def answerable_def answerable_part_def answerable_plain_def parts_def)

lemmas example_set_get_acl = example_two [OF example_set_get_acl_ok]

lemma example_list_ok:
  "valid_request 1 (FilteredListRequest ''/'' False LIST_ALL)" "answerable t (FilteredListRequest ''/'' False LIST_ALL)"
  "parts (FilteredListRequest ''/'' False LIST_ALL) < 10"
  by (simp_all add: valid_request_def valid_plain_def auth_path_ok_def answerable_def answerable_part_def answerable_plain_def parts_def)

lemmas example_list = example_one [OF example_list_ok]

lemma example_root: "example_state s L \<Longrightarrow> \<exists>n. ctree s ''/'' = Some n"
  by (auto simp: example_state_def example_dom_def)

text \<open>A storage whose root only one identity may access.\<close>

definition example_acls :: ACLs where
  "example_acls = [\<lparr>permissions = 31, scheme = ''digest'', acl_ident = ''user:hash''\<rparr>]"

lemma example_protect_ok:
  "valid_request 1 (SetACLRequest ''/'' example_acls (-1))" "answerable t (SetACLRequest ''/'' example_acls (-1))"
  "parts (SetACLRequest ''/'' example_acls (-1)) < 10"
  by (simp_all add: valid_request_def valid_plain_def auth_path_ok_def answerable_def answerable_part_def answerable_plain_def parts_def)

lemma no_uncommitted_nodes: "us_inv s \<Longrightarrow> pending s = [] \<Longrightarrow> us_nodes (uncommitted_state s) p = None"
  by (cases "us_nodes (uncommitted_state s) p"; cases "p = []")
    (auto simp: us_inv_def us_struct_def nodes_ok_def pending_def dest: spec [of _ p])

lemma example_protected:
  "\<exists>s n. reachable example_context s [] \<and> ht_find (container s) ''/'' = Some n \<and> us_nodes (uncommitted_state s) ''/'' = None \<and>
     us_getACLs ''/'' s = Inr example_acls \<and> example_acls \<noteq> []"
proof -
  let ?req = "SetACLRequest ''/'' example_acls (-1)"
  obtain s0 s1 e where s1: "example_state s0 []" "reachable example_context s1 [e]" "ready 0 s1" "e = entry ?req 1 0 1 s0 (e_deltas e)"
      "e_req e = ?req" "ctree s1 = ctree s0" "\<not> denied e"
    using example_one [OF example_protect_ok] by blast
  obtain s where s: "reachable example_context s []"
      "atree s = acls_after (e_fix e) (e_zxid e) (e_session e) (e_time e) ?req (ctree s1) (atree s1)"
    using commit_plain_ok [OF s1(2,3) _ s1(7), of 7 True] s1(5) by auto
  have f: "e_fix e example_acls = Some example_acls" by (subst s1(4), simp add: entry_def fixupACL_def example_acls_def)
  obtain r where "ctree s1 ''/'' = Some r" using example_root [OF s1(1)] s1(6) by auto
  then have a: "atree s ''/'' = Some example_acls"
    using s(2) f keeper_system_path_facts(4) by (simp add: acls_after_def spec_acls_def spec_plain_def spec_set_acl_def)
  note inv = reachable_inv [OF s(1)]
  have u: "us_nodes (uncommitted_state s) ''/'' = None"
    using no_uncommitted_nodes [OF log_invD(2) [OF inv]] log_invD(7) [OF inv] by simp
  obtain n where n: "ht_find (container s) ''/'' = Some n" "acl_lookup (acl_map s) (n_acl_id n) = Some example_acls"
    using a by (auto simp: atree_def acl_tree_def contents_of_def split: option.splits)
  then have "us_getACLs ''/'' s = Inr example_acls" using u by (simp add: us_getACLs_def convertNumber_lookup)
  then show ?thesis using s(1) n(1) u by (auto simp: example_acls_def)
qed

section \<open>Outcomes\<close>

text \<open>The error of the answer is the one that the specification gives.\<close>

lemma commit_outcome:
  assumes "reachable ctx s (e # L)" "ready now s" "plain (e_req e)" "\<not> denied e" "commit_entry ctx now x check_acl e s = Inr (rs, s')"
  shows "spec_of e (ctree s) = Inr t' \<Longrightarrow> resp_error (response_of rs) = ZOK"
    "spec_of e (ctree s) = Inl err \<Longrightarrow> resp_error (response_of rs) = err"
  using commit_plain_ok [OF assms(1-4), of x check_acl] assms(5) by (auto simp: response_ok_def set_ids_def set_error_def)

lemma example_set_get_acl_protect_ok:
  "valid_request 1 (GetACLRequest ''/'')" "answerable t (GetACLRequest ''/'')" "parts (GetACLRequest ''/'') < 10" "GetACLRequest ''/'' \<noteq> CloseRequest"
  using example_set_get_acl_ok by simp_all

lemmas example_protect_get = example_two [OF example_protect_ok example_set_get_acl_protect_ok]

lemma example_fix: "e = entry req 1 0 1 s ds \<Longrightarrow> e_fix e example_acls = Some example_acls"
  by (simp add: entry_def fixupACL_def example_acls_def)

lemma example_protect_succeeds:
  assumes "example_state s0 []" "e = entry (SetACLRequest ''/'' example_acls (-1)) 1 0 1 s0 ds" "ctree s = ctree s0"
  shows "\<exists>t'. spec_of e (ctree s) = Inr t'"
  using example_root [OF assms(1)] assms(3) example_fix [OF assms(2)] keeper_system_path_facts(4)
  by (auto simp: assms(2) entry_def spec_plain_def spec_set_acl_def)

lemma example_set_succeeds:
  assumes "example_state s0 []" "e = entry (SetRequest ''/'' d (-1)) 1 0 1 s0 ds" "ctree s = ctree s0"
  shows "\<exists>t'. spec_of e (ctree s) = Inr t'"
  using example_root [OF assms(1)] assms(3) keeper_system_path_facts(4)
  by (auto simp: assms(2) entry_def spec_plain_def spec_set_def)

text \<open>A removal that fails.\<close>

lemma example_remove_ok:
  "valid_request 1 (RemoveRequest ''/a'' (-1) False)" "answerable t (RemoveRequest ''/a'' (-1) False)"
  "parts (RemoveRequest ''/a'' (-1) False) < 10"
  by (simp_all add: valid_request_def valid_plain_def auth_path_ok_def answerable_def answerable_plain_def parts_def)

lemmas example_remove = example_one [OF example_remove_ok]

lemma example_remove_fails:
  assumes "example_state s0 []" "e_req e = RemoveRequest ''/a'' (-1) False" "ctree s = ctree s0"
  shows "spec_of e (ctree s) = Inl ZNONODE"
proof -
  have "ctree s ''/a'' = None" using assms(1,3) example_path(4) by (auto simp: example_state_def)
  then show ?thesis using assms(2) example_path(1) by (simp add: spec_plain_def spec_remove_def)
qed

text \<open>A session that is closed while it owns a node.\<close>

definition example_ephemeral :: Request where
  "example_ephemeral =
     CreateRequest \<lparr>cr_path = ''/a'', cr_data = ''data'', cr_is_ephemeral = True, cr_is_sequential = False, cr_acls = [],
       cr_not_exists = False, cr_parent_cversion = -1\<rparr>"

lemma example_ephemeral_ok: "valid_request 1 example_ephemeral" "answerable t example_ephemeral" "parts example_ephemeral < 10"
  by (simp_all add: example_ephemeral_def valid_request_def valid_plain_def auth_path_ok_def answerable_def answerable_plain_def parts_def)

lemma example_owner:
  "\<exists>s e. reachable example_context s [e] \<and> ready 0 s \<and> e_req e = CloseRequest \<and> e_session e = 1 \<and> ''/a'' \<in> owned 1 (ctree s)"
proof -
  obtain s0 s1 e where s1: "example_state s0 []" "example_state s1 [e]" "e = entry example_ephemeral 1 0 1 s0 (e_deltas e)"
      "e_req e = example_ephemeral" "ctree s1 = ctree s0" "\<not> denied e"
    using example_one [OF example_ephemeral_ok] by blast
  have st: "reachable example_context s1 [e]" "dom (ctree s1) = example_dom" "last_zxid s1 = 1" "length (pending s1) \<le> 50" "room 1000 s1" "clocks_ok 0 s1"
    using s1(2) by (simp_all add: example_state_def)
  note inv = reachable_inv [OF st(1)]
  have "card example_dom \<le> 3" unfolding example_dom_def by (simp add: card_insert_if)
  then have c: "card (dom (vtree s1)) \<le> 53" using card_vtree [OF inv] st(2,4) by simp
  have z: "last_zxid s1 <s 2" using st(3) by (simp add: word_sless_alt)
  have small: "card (dom (vtree s1)) + parts CloseRequest < 2 ^ 32" using c example_close_ok(3) by simp
  from append_entry_ok [OF st(1) example_context_ok(2) z small example_close_ok(1,2), of 0 False None 1 1000 0] obtain e' s2 where
    s2: "preprocessRequest example_context CloseRequest 1 0 2 False None 1 s1 = (Inr (), s2)"
      "reachable example_context s2 [e, e']" "e' = entry CloseRequest 1 0 2 s1 (e_deltas e')" "ctree s2 = ctree s1"
      "room 1000 s1 \<longrightarrow> room 1000 s2" "clocks_ok 0 s1 \<longrightarrow> clocks_ok 0 s2" by auto
  have "delta_bound CloseRequest 1 s1 \<le> 107" using ephemeral_count_bound [OF inv, of 1] c by (simp add: delta_bound_def)
  then have "length (pending s2) \<le> 157" using preprocessRequest_length [OF s2(1)] st(4) by simp
  then have "ready 0 s2" using s2(5,6) st(5,6) room_mono [of 1000 s2 "length (pending s2)"] by (simp add: ready_def)
  from commit_plain_ok [OF s2(2) this _ s1(6), of 7 True] s1(4) obtain s3 where
    s3: "reachable example_context s3 [e']" "ready 0 s3" "ctree s3 = tree_after (spec_of e (ctree s2)) (ctree s2)"
    by (auto simp: example_ephemeral_def)
  have f: "e_session e = 1" "e_fix e [] = Some []" by (subst s1(3), simp add: entry_def fixupACL_def)+
  obtain r where r: "ctree s2 [slash] = Some r" "\<not> n_is_ephemeral r"
    using tree_wfD(2) [OF log_invD(5) [OF reachable_inv [OF s2(2)]]] by blast
  have a: "ctree s2 ''/a'' = None" using st(2) s2(4) example_path(4) by auto
  have "''/a'' \<in> owned 1 (ctree s3)"
    using s3(3) r a f example_path(1-3) s1(4)
    by (simp add: example_ephemeral_def spec_plain_def spec_create_def tree_after_def owned_def created_node_def create_stat_def
        copyStats_def setData_def setEphemeralOwner_def ephemeralOwner_def Let_def)
  moreover have "e_req e' = CloseRequest" "e_session e' = 1" by (subst s2(3), simp add: entry_def)+
  ultimately show ?thesis using s3(1,2) by blast
qed


end
