(* ===== verification/KeeperStateMachine.thy ===== *)
theory KeeperStateMachine
  imports KeeperLogEntries KeeperExamples
begin

text \<open>
  The replicated state machine, from src/Coordination/KeeperStateMachine.cpp: it parses the entries of the Raft log and
  calls the storage. \<^verbatim>\<open>PreAppendLogLeader\<close> of src/Coordination/KeeperServer.cpp is the step in which the leader
  chooses the zxid and computes the digest that all replicas check.

  The queue of responses is the list of what was pushed; locks, metrics and log messages are not modelled. A parsed request is a
  shared object: what is stored into it is visible in the cache. \<^verbatim>\<open>std::terminate\<close> and \<^verbatim>\<open>std::abort\<close> are \<open>Terminate\<close>.
\<close>

section \<open>State\<close>

datatype sm_exn = ParseError wire_exn | StorageError exn

record StateMachine =
  sm_storage :: KeeperStorage
  sm_cache :: parsed_request_cache
  sm_responses :: "ResponseForSession list"
  sm_last_commit :: uint64

definition liftS :: "exn + 'a \<Rightarrow> sm_exn + 'a" where
  "liftS r = (case r of Inl e \<Rightarrow> Inl (StorageError e) | Inr x \<Rightarrow> Inr x)"

definition to_digest :: "byte \<times> uint64 \<Rightarrow> Digest" where
  "to_digest d = \<lparr>dg_version = digest_version_of_code (fst d), dg_value = snd d\<rparr>"

section \<open>Operations\<close>

definition sm_parse :: "nat \<Rightarrow> int64 \<Rightarrow> bool \<Rightarrow> bytes \<Rightarrow> StateMachine \<Rightarrow>
    sm_exn + RequestForSession \<times> SerializationVersion option \<times> StateMachine" where
  "sm_parse min_size now final data sm =
     (case parseRequest min_size now final data (sm_cache sm) of
        Inl e \<Rightarrow> Inl (ParseError e)
      | Inr (r, version, cache) \<Rightarrow> Inr (r, version, sm\<lparr>sm_cache := cache\<rparr>))"

text \<open>An assignment to the parsed object, when the cache holds it.\<close>

definition store_parsed :: "nat \<Rightarrow> bytes \<Rightarrow> RequestForSession \<Rightarrow> StateMachine \<Rightarrow> StateMachine" where
  "store_parsed min_size data r sm =
     (let sid = rfs_session_id r; x = xid (rfs_request r)
      in if should_cache min_size sid x data \<and> cache_lookup sid x (sm_cache sm) \<noteq> None
         then sm\<lparr>sm_cache := (sm_cache sm)(sid := map_option (\<lambda>m. m(x \<mapsto> r)) (sm_cache sm sid))\<rparr> else sm)"

definition assertDigest :: "Digest \<Rightarrow> Digest \<Rightarrow> exn + unit" where
  "assertDigest expected actual = (if checkDigest expected actual then Inr () else Inl Terminate)"

definition assert_request_digest :: "KeeperContext \<Rightarrow> RequestForSession \<Rightarrow> bool \<Rightarrow> KeeperStorage \<Rightarrow> exn + unit" where
  "assert_request_digest ctx r c s =
     (case rfs_digest r of
        None \<Rightarrow> Inr ()
      | Some d \<Rightarrow> if digestEnabled ctx then assertDigest (to_digest d) (getNodesDigest ctx c s) else Inr ())"

definition sm_preprocess :: "KeeperContext \<Rightarrow> int64 \<Rightarrow> RequestForSession \<Rightarrow> KeeperStorage \<Rightarrow> exn + bool \<times> KeeperStorage" where
  "sm_preprocess ctx log_idx r s =
     (if getOpNum (request (rfs_request r)) \<in> {Op_SessionID, Op_Reconfig} then Inr (True, s)
      else if finalized s then Inr (False, s)
      else
        (case preprocessRequest ctx (request (rfs_request r)) (rfs_session_id r) (rfs_time r) (rfs_zxid r) True
                (map_option to_digest (rfs_digest r)) log_idx s of
           (Inl _, _) \<Rightarrow> Inl Terminate
         | (Inr _, s) \<Rightarrow> bindE (assert_request_digest ctx r False s) (\<lambda>_. Inr (True, s))))"

definition with_zxid :: "uint64 \<Rightarrow> RequestForSession \<Rightarrow> RequestForSession" where
  "with_zxid log_idx r = (if rfs_zxid r = 0 then r\<lparr>rfs_zxid := log_idx\<rparr> else r)"

definition pre_commit :: "KeeperContext \<Rightarrow> nat \<Rightarrow> bool \<Rightarrow> int64 \<Rightarrow> uint64 \<Rightarrow> bytes \<Rightarrow> StateMachine \<Rightarrow> sm_exn + StateMachine" where
  "pre_commit ctx min_size localLogsPreprocessed now log_idx data sm =
     (if \<not> localLogsPreprocessed then Inr sm
      else
        bindE (sm_parse min_size now False data sm) (\<lambda>(r, _, sm).
          let r = with_zxid log_idx r; sm = store_parsed min_size data r sm
          in bindE (liftS (sm_preprocess ctx log_idx r (sm_storage sm))) (\<lambda>(_, s). Inr (sm\<lparr>sm_storage := s\<rparr>))))"

text \<open>The leader, before an entry is appended: \<open>None\<close> is \<^verbatim>\<open>ReturnNull\<close>. The log index of the request is not set yet.\<close>

definition pre_append_leader :: "KeeperContext \<Rightarrow> nat \<Rightarrow> bytes \<Rightarrow> int64 \<Rightarrow> bytes \<Rightarrow> StateMachine \<Rightarrow> sm_exn + bytes option \<times> StateMachine" where
  "pre_append_leader ctx min_size fill now data sm =
     (let next_zxid = getNextZXID (sm_storage sm)
      in bindE (sm_parse min_size now False data sm) (\<lambda>(r, version, sm).
           let r = r\<lparr>rfs_zxid := next_zxid\<rparr>; sm = store_parsed min_size data r sm
           in bindE (liftS (sm_preprocess ctx 0 r (sm_storage sm))) (\<lambda>(ok, s).
                let sm = sm\<lparr>sm_storage := s\<rparr>
                in if \<not> ok then Inr (None, sm)
                   else
                     (let d = getNodesDigest ctx False s; digest = (digest_code (dg_version d), dg_value d);
                          r = r\<lparr>rfs_digest := Some digest\<rparr>
                      in case version of
                           None \<Rightarrow> Inl (StorageError Undefined)
                         | Some v \<Rightarrow> Inr (Some (fill_in_entry fill v r digest data), store_parsed min_size data r sm)))))"

definition sm_execute :: "KeeperContext \<Rightarrow> int \<Rightarrow> RequestForSession \<Rightarrow> StateMachine \<Rightarrow> exn + StateMachine" where
  "sm_execute ctx clock r sm =
     (case request (rfs_request r) of
        SessionIDRequest i timeout_ms k \<Rightarrow>
          bindE (getSessionID clock (sint timeout_ms) (sm_storage sm)) (\<lambda>(session_id, s).
            Inr (sm\<lparr>sm_storage := s, sm_responses := sm_responses sm @ 
              [\<lparr>rs_session_id = -1, rs_response = Response ZOK 0 0 (SessionIDResponse i session_id k)\<rparr>]\<rparr>))
      | req \<Rightarrow>
          (let sm = (if req = CloseRequest then sm\<lparr>sm_cache := cache_close (rfs_session_id r) (sm_cache sm)\<rparr> else sm)
           in bindE (processRequest ctx clock (rfs_request r) (rfs_session_id r) (Some (rfs_zxid r)) True False (sm_storage sm)) (\<lambda>(rs, s).
                bindE (assert_request_digest ctx r True s) (\<lambda>_.
                  Inr (sm\<lparr>sm_storage := s, sm_responses := sm_responses sm @ rs\<rparr>)))))"

definition commit :: "KeeperContext \<Rightarrow> nat \<Rightarrow> bool \<Rightarrow> int64 \<Rightarrow> int \<Rightarrow> uint64 \<Rightarrow> bytes \<Rightarrow> StateMachine \<Rightarrow> sm_exn + StateMachine" where
  "commit ctx min_size localLogsPreprocessed now clock log_idx data sm =
     bindE (sm_parse min_size now True data sm) (\<lambda>(r, _, sm).
       let r = with_zxid log_idx r
       in bindE (if localLogsPreprocessed then Inr (True, sm_storage sm) else liftS (sm_preprocess ctx log_idx r (sm_storage sm))) (\<lambda>(ok, s).
            let sm = sm\<lparr>sm_storage := s\<rparr>
            in if \<not> ok then Inr sm
               else bindE (liftS (sm_execute ctx clock r sm)) (\<lambda>sm. Inr (sm\<lparr>sm_last_commit := log_idx\<rparr>))))"

definition sm_rollbackRequest :: "RequestForSession \<Rightarrow> bool \<Rightarrow> StateMachine \<Rightarrow> exn + StateMachine" where
  "sm_rollbackRequest r allow_missing sm =
     (if getOpNum (request (rfs_request r)) = Op_SessionID then Inr sm
      else bindE (rollbackRequest (rfs_zxid r) allow_missing (sm_storage sm)) (\<lambda>s. Inr (sm\<lparr>sm_storage := s\<rparr>)))"

definition rollback :: "nat \<Rightarrow> bool \<Rightarrow> int64 \<Rightarrow> uint64 \<Rightarrow> bytes \<Rightarrow> StateMachine \<Rightarrow> sm_exn + StateMachine" where
  "rollback min_size localLogsPreprocessed now log_idx data sm =
     (if \<not> localLogsPreprocessed then Inr sm
      else bindE (sm_parse min_size now True data sm) (\<lambda>(r, _, sm). liftS (sm_rollbackRequest (with_zxid log_idx r) False sm)))"

definition processReadRequest :: "KeeperContext \<Rightarrow> int \<Rightarrow> RequestForSession \<Rightarrow> StateMachine \<Rightarrow> exn + StateMachine" where
  "processReadRequest ctx clock r sm =
     bindE (processRequest ctx clock (rfs_request r) (rfs_session_id r) None True True (sm_storage sm)) (\<lambda>(rs, s).
       Inr (sm\<lparr>sm_storage := s, sm_responses := sm_responses sm @ rs\<rparr>))"

section \<open>Preprocessing twice\<close>

text \<open>The log index and the digest that the caller expects do not influence preprocessing, apart from the index that the
  transaction records.\<close>

definition set_log_idx :: "int64 \<Rightarrow> KeeperStorage \<Rightarrow> KeeperStorage" where
  "set_log_idx i s =
     s\<lparr>uncommitted_transactions := butlast (uncommitted_transactions s) @ [(last (uncommitted_transactions s))\<lparr>t_log_idx := i\<rparr>]\<rparr>"

lemma applyDelta_transactions:
  "applyDelta d (s\<lparr>uncommitted_transactions := X\<rparr>) = map_sum id (\<lambda>s. s\<lparr>uncommitted_transactions := X\<rparr>) (applyDelta d s)"
proof -
  have "cached_node p (s\<lparr>uncommitted_transactions := X\<rparr>) = cached_node p s" for p
    by (simp add: cached_node_def split: option.splits)
  then show ?thesis by (simp add: applyDelta_def bindE_def split: sum.splits)
qed

lemma addDelta_transactions:
  "addDelta d (s\<lparr>uncommitted_transactions := X\<rparr>) = map_sum id (\<lambda>s. s\<lparr>uncommitted_transactions := X\<rparr>) (addDelta d s)"
proof -
  have c: "s\<lparr>uncommitted_transactions := X, uncommitted_state := u\<rparr> = s\<lparr>uncommitted_state := u, uncommitted_transactions := X\<rparr>" for u by simp
  show ?thesis by (simp add: addDelta_def Let_def c applyDelta_transactions)
qed

lemma addDeltas_transactions:
  "addDeltas ds (s\<lparr>uncommitted_transactions := X\<rparr>) = map_sum id (\<lambda>s. s\<lparr>uncommitted_transactions := X\<rparr>) (addDeltas ds s)"
proof (induction ds arbitrary: s)
  case (Cons d ds)
  then show ?case by (cases "addDelta d s") (simp_all add: addDelta_transactions bindE_def)
qed simp

lemma register_transaction_idx:
  assumes "register_transaction ctx z i g ds s = Inr s'"
  shows "register_transaction ctx z j g ds s = Inr (set_log_idx j s')"
proof -
  obtain s2 where "addDeltas ds s = Inr s2" using assms
    by (cases "addDeltas ds s") (simp_all add: register_transaction_def Let_def addDeltas_transactions)
  then show ?thesis using assms
    by (auto simp: register_transaction_def Let_def addDeltas_transactions set_log_idx_def)
qed

lemma next_zxid: "getNextZXID s - 1 = last_zxid s"
  by (simp add: getNextZXID_def last_zxid_def)

lemma preprocess_idx:
  assumes "last_zxid s <s z" "preprocessRequest ctx req sid time z check_acl d i s = (Inr (), s')"
  shows "preprocessRequest ctx req sid time z check_acl d' j s = (Inr (), set_log_idx j s')"
proof -
  obtain result s1 g where b: "preprocess_body ctx req sid time z check_acl (dg_value (getNodesDigest ctx False s)) s = (result, s1, g)"
    by (metis prod_cases3)
  have z: "\<not> z \<le>s last_zxid s" "last_zxid s \<noteq> z" using assms(1) by (auto simp: word_sless_alt word_sle_eq)
  have i: "initialized s" using assms(2) by (auto simp: preprocessRequest_def Let_def split: if_splits)
  have *: "preprocessRequest ctx req sid time z check_acl d i s =
      (case register_transaction ctx z i g (case result of Inl _ \<Rightarrow> [] | Inr ds \<Rightarrow> ds) s1 of
         Inl e \<Rightarrow> (Inl e, s1) | Inr s2 \<Rightarrow> (case result of Inl e \<Rightarrow> (Inl e, s2) | Inr _ \<Rightarrow> (Inr (), s2)))" for d i
    using z i b by (simp add: preprocessRequest_def next_zxid)
  obtain ds where r: "result = Inr ds" "register_transaction ctx z i g ds s1 = Inr s'"
    using assms(2) unfolding * by (auto split: sum.splits)
  show ?thesis unfolding * r(1) using register_transaction_idx [OF r(2)] by simp
qed

section \<open>Entries with zxid and digest\<close>

text \<open>The entry that the leader appends for a request, and the request that every server parses from it.\<close>

definition entry_bytes :: "RequestForSession \<Rightarrow> byte \<times> uint64 \<Rightarrow> bytes" where
  "entry_bytes r d =
     writeIntBinary 8 (rfs_session_id r) @ request_write (rfs_request r) @ writeIntBinary 8 (rfs_time r) @
     writeIntBinary 8 (rfs_zxid r) @ writeIntBinary 1 (fst d) @ writeIntBinary 8 (snd d)"

definition logged :: "int32 \<Rightarrow> LogEntry \<Rightarrow> byte \<times> uint64 \<Rightarrow> RequestForSession" where
  "logged x e d = \<lparr>rfs_session_id = e_session e, rfs_time = e_time e, rfs_request = \<lparr>xid = x, request = e_req e\<rparr>,
     rfs_zxid = e_zxid e, rfs_digest = Some d\<rparr>"

text \<open>A cache that holds nothing else for the session and the xid of a request.\<close>

definition cache_agrees :: "RequestForSession \<Rightarrow> StateMachine \<Rightarrow> bool" where
  "cache_agrees r sm \<longleftrightarrow> cache_lookup (rfs_session_id r) (xid (rfs_request r)) (sm_cache sm) \<in> {None, Some r}"

lemma sm_parse_entry:
  assumes "request_fits (request (rfs_request r))" "rfs_digest r = Some d" "cache_agrees r sm"
  shows "\<exists>v sm'. sm_parse m now final (entry_bytes r d) sm = Inr (r, v, sm') \<and> cache_agrees r sm' \<and> sm_storage sm' = sm_storage sm \<and>
     sm_responses sm' = sm_responses sm"
proof -
  let ?sid = "rfs_session_id r" and ?data = "entry_bytes r d"
  let ?tail = "writeIntBinary 8 (rfs_time r) @ writeIntBinary 8 (rfs_zxid r) @ writeIntBinary 1 (fst d) @ writeIntBinary 8 (snd d)"
  have data: "?data = writeIntBinary 8 ?sid @ request_write (rfs_request r) @ ?tail" by (simp add: entry_bytes_def)
  have tail: "parse_tail now ?sid (rfs_request r) ?tail = Inr (r, WITH_ZXID_DIGEST)"
    unfolding parse_tail_cases(3) using assms(2) by (cases r) simp
  show ?thesis
  proof (cases "should_cache m ?sid (xid (rfs_request r)) ?data \<and> cache_lookup ?sid (xid (rfs_request r)) (sm_cache sm) = Some r")
    case True
    then show ?thesis using parse_hit [OF _ _ data, of "sm_cache sm" r m now final] assms(3)
      by (auto simp: sm_parse_def cache_agrees_def)
  next
    case False
    then have n: "cache_lookup ?sid (xid (rfs_request r)) (sm_cache sm) = None" if "should_cache m ?sid (xid (rfs_request r)) ?data"
      using that assms(3) by (auto simp: cache_agrees_def)
    have "parseRequest m now final ?data (sm_cache sm) =
        Inr (r, Some WITH_ZXID_DIGEST, if should_cache m ?sid (xid (rfs_request r)) ?data \<and> \<not> final
          then cache_emplace ?sid (xid (rfs_request r)) r (sm_cache sm) else sm_cache sm)"
      using n tail by (subst parse_entry [OF assms(1) _ data]) simp_all
    then show ?thesis using n assms(3) by (auto simp: sm_parse_def cache_agrees_def)
  qed
qed

lemma store_parsed_simps [simp]: "sm_storage (store_parsed m data r sm) = sm_storage sm"
  by (simp add: store_parsed_def Let_def)

lemma to_digest_code: "dg_version g = CURRENT_DIGEST_VERSION \<Longrightarrow> to_digest (digest_code (dg_version g), dg_value g) = g"
  by (simp add: to_digest_def digest_version_of_code_def digest_code_def CURRENT_DIGEST_VERSION_def)

section \<open>Appending on the leader and on the followers\<close>

lemma view_digest:
  assumes "reachable ctx s (L @ [e])" "digestEnabled ctx"
  shows "getNodesDigest ctx False s = t_nodes_digest (last (uncommitted_transactions s))"
    "dg_version (getNodesDigest ctx False s) = CURRENT_DIGEST_VERSION" "uncommitted_transactions s \<noteq> []"
proof -
  note chain = log_invD(8) [OF reachable_inv [OF assms(1)]]
  show n: "uncommitted_transactions s \<noteq> []" using chain_length [OF chain] by auto
  then show g: "getNodesDigest ctx False s = t_nodes_digest (last (uncommitted_transactions s))"
    using assms(2) by (simp add: getNodesDigest_def)
  have "chain ctx t M X \<Longrightarrow> x \<in> set X \<Longrightarrow> dg_version (t_nodes_digest x) = CURRENT_DIGEST_VERSION" for t M X x
    using assms(2) by (induction ctx t M X rule: chain.induct) auto
  then show "dg_version (getNodesDigest ctx False s) = CURRENT_DIGEST_VERSION" using chain n g by fastforce
qed

text \<open>Preprocessing in the state machine: the digest in the entry is none, or the one that preprocessing computes.\<close>

lemma sm_preprocess_ok:
  assumes "valid_request (rfs_session_id r) (request (rfs_request r))" "\<not> finalized s"
    "preprocessRequest ctx (request (rfs_request r)) (rfs_session_id r) (rfs_time r) (rfs_zxid r) True (map_option to_digest (rfs_digest r)) i s = (Inr (), s')"
    "\<And>d. rfs_digest r = Some d \<Longrightarrow> checkDigest (to_digest d) (getNodesDigest ctx False s')"
  shows "sm_preprocess ctx i r s = Inr (True, s')"
proof -
  have "getOpNum (request (rfs_request r)) \<notin> {Op_SessionID, Op_Reconfig}"
    using assms(1) by (cases "request (rfs_request r)") (auto simp: valid_request_def)
  moreover have "assert_request_digest ctx r False s' = Inr ()"
    using assms(4) by (simp add: assert_request_digest_def assertDigest_def split: option.splits)
  ultimately show ?thesis using assms(2,3) by (simp add: sm_preprocess_def)
qed

lemma pre_commit_entry:
  assumes "request_fits (request (rfs_request r))" "rfs_digest r = Some d" "cache_agrees r sm" "rfs_zxid r \<noteq> 0"
    "sm_preprocess ctx i r (sm_storage sm) = Inr (True, s')"
  shows "\<exists>sm'. pre_commit ctx m True now i (entry_bytes r d) sm = Inr sm' \<and> sm_storage sm' = s' \<and> sm_responses sm' = sm_responses sm \<and>
     cache_agrees r sm'"
proof -
  obtain v sm1 where p: "sm_parse m now False (entry_bytes r d) sm = Inr (r, v, sm1)" "sm_storage sm1 = sm_storage sm" "sm_responses sm1 = sm_responses sm"
      "cache_agrees r sm1"
    using sm_parse_entry [OF assms(1-3)] by blast
  have "sm_responses (store_parsed m (entry_bytes r d) r sm1) = sm_responses sm" using p(3) by (simp add: store_parsed_def Let_def)
  moreover have "cache_agrees r ((store_parsed m (entry_bytes r d) r sm1)\<lparr>sm_storage := s'\<rparr>)"
    using p(4) by (auto simp: store_parsed_def Let_def cache_agrees_def cache_lookup_def split: option.splits)
  ultimately show ?thesis using assms(4,5) p by (simp add: pre_commit_def with_zxid_def liftS_def Let_def)
qed

text \<open>What the leader parses from an entry that has no zxid and no digest yet.\<close>

definition fresh_request :: "SerializationVersion \<Rightarrow> int64 \<Rightarrow> RequestForSession \<Rightarrow> RequestForSession" where
  "fresh_request version now r =
     r\<lparr>rfs_time := (if version = INITIAL then now else rfs_time r), rfs_zxid := 0,
       rfs_digest := (if version = WITH_ZXID_DIGEST then Some (digest_code NO_DIGEST, 0) else None)\<rparr>"

lemma sm_parse_fresh:
  assumes "request_fits (request (rfs_request r))" "cache_lookup (rfs_session_id r) (xid (rfs_request r)) (sm_cache sm) = None"
  shows "sm_parse m now False (entry_of version r) sm =
     Inr (fresh_request version now r, Some version,
       sm\<lparr>sm_cache := (if should_cache m (rfs_session_id r) (xid (rfs_request r)) (entry_of version r)
         then cache_emplace (rfs_session_id r) (xid (rfs_request r)) (fresh_request version now r) (sm_cache sm) else sm_cache sm)\<rparr>)"
proof -
  define tail where "tail = (case version of INITIAL \<Rightarrow> [] | WITH_TIME \<Rightarrow> writeIntBinary 8 (rfs_time r)
     | WITH_ZXID_DIGEST \<Rightarrow> writeIntBinary 8 (rfs_time r) @ writeIntBinary 8 (0 :: int64) @ writeIntBinary 1 (digest_code NO_DIGEST) @ writeIntBinary 8 (0 :: uint64))"
  have data: "entry_of version r = writeIntBinary 8 (rfs_session_id r) @ request_write (rfs_request r) @ tail"
    by (cases version) (simp_all add: entry_of_def tail_def getZooKeeperLogEntry_def)
  have "parse_tail now (rfs_session_id r) (rfs_request r) tail = Inr (fresh_request version now r, version)"
    unfolding tail_def fresh_request_def by (cases version; cases r) (simp_all only: SerializationVersion.case parse_tail_cases, simp_all)
  then show ?thesis using parse_entry [OF assms(1) assms(2) data, of m now False] by (simp add: sm_parse_def)
qed

lemma pre_append_ok:
  assumes "request_fits (request (rfs_request r))" "25 \<le> length fill"
    "cache_lookup (rfs_session_id r) (xid (rfs_request r)) (sm_cache sm) = None"
    and r2: "r2 = (fresh_request version now r)\<lparr>rfs_zxid := getNextZXID (sm_storage sm)\<rparr>"
    and s': "sm_preprocess ctx 0 r2 (sm_storage sm) = Inr (True, s')"
    and d: "d = (digest_code (dg_version (getNodesDigest ctx False s')), dg_value (getNodesDigest ctx False s'))" "fst d \<noteq> digest_code NO_DIGEST"
  shows "\<exists>sm'. pre_append_leader ctx m fill now (entry_of version r) sm = Inr (Some (entry_bytes (r2\<lparr>rfs_digest := Some d\<rparr>) d), sm') \<and>
     sm_storage sm' = s' \<and> sm_responses sm' = sm_responses sm \<and> cache_agrees (r2\<lparr>rfs_digest := Some d\<rparr>) sm'"
proof -
  let ?sid = "rfs_session_id r" and ?x = "xid (rfs_request r)" and ?data = "entry_of version r" and ?r3 = "r2\<lparr>rfs_digest := Some d\<rparr>"
  let ?c = "if should_cache m ?sid ?x ?data then cache_emplace ?sid ?x (fresh_request version now r) (sm_cache sm) else sm_cache sm"
  let ?sm = "\<lambda>r. store_parsed m ?data r (sm\<lparr>sm_cache := ?c\<rparr>)"
  have e: "entry_of version r = entry_of version ?r3"
    by (cases version) (simp_all add: entry_of_def getZooKeeperLogEntry_def r2 fresh_request_def)
  have f: "fill_in_entry fill version ?r3 d ?data = entry_bytes ?r3 d"
    unfolding e using fill_in_entry_of [OF d(2) assms(2)] by (simp add: entry_bytes_def)
  have "pre_append_leader ctx m fill now ?data sm = Inr (Some (entry_bytes ?r3 d), store_parsed m ?data ?r3 ((?sm r2)\<lparr>sm_storage := s'\<rparr>))"
    using sm_parse_fresh [OF assms(1,3), of m now version] s' f
    by (simp add: pre_append_leader_def Let_def liftS_def r2 [symmetric] d(1) [symmetric])
  moreover have "cache_agrees ?r3 (store_parsed m ?data ?r3 ((?sm r2)\<lparr>sm_storage := s'\<rparr>))"
    using assms(3) by (auto simp: store_parsed_def Let_def cache_agrees_def r2 fresh_request_def cache_lookup_def cache_emplace_def split: option.splits)
  ultimately show ?thesis by (simp add: store_parsed_def Let_def)
qed

lemma addDeltas_finalized: "addDeltas ds s = Inr s' \<Longrightarrow> finalized s' = finalized s"
proof (induction ds arbitrary: s)
  case (Cons d ds)
  then obtain s1 where s1: "addDelta d s = Inr s1" "addDeltas ds s1 = Inr s'" by (auto simp: bindE_def split: sum.splits)
  have "finalized s1 = finalized s"
    using s1(1) by (auto simp: addDelta_def applyDelta_def Let_def bindE_def split: if_splits sum.splits)
  then show ?case using Cons.IH [OF s1(2)] by simp
qed simp

lemma preprocess_finalized:
  assumes "reachable ctx s L" "running ctx" "last_zxid s <s z" "card (dom (vtree s)) + parts req < 2 ^ 32"
    "valid_request sid req" "answerable (vtree s) req"
    "preprocessRequest ctx req sid time z check_acl digest log_idx s = (Inr (), s')"
  shows "finalized s' = finalized s"
proof -
  note inv = reachable_inv [OF assms(1)]
  obtain all where st: "staged ctx z s all (preprocess_body ctx req sid time z check_acl (dg_value (getNodesDigest ctx False s)) s)"
    using preprocess_body_ok [OF inv assms(2-6), of time check_acl] by blast
  then obtain ds s1 g1 where b: "preprocess_body ctx req sid time z check_acl (dg_value (getNodesDigest ctx False s)) s = (Inr ds, s1, g1)"
    "moved s s1" by (auto simp: staged_def)
  have "finalized s1 = finalized s" by (subst b(2) [unfolded moved_def]) simp
  moreover have "\<not> z \<le>s last_zxid s" "last_zxid s \<noteq> z" using assms(3) by (auto simp: word_sless_alt word_sle_eq)
  then have "\<exists>x. addDeltas ds (s1\<lparr>uncommitted_transactions := uncommitted_transactions s1 @ [x]\<rparr>) = Inr s'"
    using assms(7) log_invD(11) [OF inv] b(1)
    by (auto simp: preprocessRequest_def next_zxid register_transaction_def Let_def split: sum.splits)
  ultimately show ?thesis using addDeltas_finalized by fastforce
qed

lemma preprocess_again:
  assumes "reachable ctx s (L @ [e])" "digestEnabled ctx" "last_zxid s = z"
  shows "preprocessRequest ctx req sid time z check_acl (Some (getNodesDigest ctx False s)) i s = (Inr (), set_log_idx i s)"
  using view_digest(3) [OF assms(1,2)] log_invD(11) [OF reachable_inv [OF assms(1)]] assms(3)
  by (simp add: preprocessRequest_def next_zxid set_log_idx_def checkDigest_def)

lemma set_log_idx_digest [simp]:
  "uncommitted_transactions s \<noteq> [] \<Longrightarrow> getNodesDigest ctx False (set_log_idx i s) = getNodesDigest ctx False s"
  by (simp add: set_log_idx_def getNodesDigest_def)

text \<open>A state machine that can take a request: the zxids are not exhausted, the storage accepts the request, the
  client sent it and its xid is not in the cache.\<close>

definition takes_request :: "KeeperContext \<Rightarrow> LogEntry list \<Rightarrow> RequestForSession \<Rightarrow> StateMachine \<Rightarrow> bool" where
  "takes_request ctx L r sm \<longleftrightarrow>
     (let s = sm_storage sm; req = request (rfs_request r)
      in reachable ctx s L \<and> running ctx \<and> digestEnabled ctx \<and> \<not> finalized s \<and>
         last_zxid s <s getNextZXID s \<and> getNextZXID s \<noteq> 0 \<and> card (dom (vtree s)) + parts req < 2 ^ 32 \<and>
         valid_request (rfs_session_id r) req \<and> answerable (vtree s) req \<and> request_fits req \<and>
         cache_lookup (rfs_session_id r) (xid (rfs_request r)) (sm_cache sm) = None)"

lemma takes_requestD:
  assumes "takes_request ctx L r sm"
  shows "reachable ctx (sm_storage sm) L" "running ctx" "last_zxid (sm_storage sm) <s getNextZXID (sm_storage sm)"
    "card (dom (vtree (sm_storage sm))) + parts (request (rfs_request r)) < 2 ^ 32"
    "valid_request (rfs_session_id r) (request (rfs_request r))" "answerable (vtree (sm_storage sm)) (request (rfs_request r))"
    "digestEnabled ctx" "\<not> finalized (sm_storage sm)" "getNextZXID (sm_storage sm) \<noteq> 0" "request_fits (request (rfs_request r))"
    "cache_lookup (rfs_session_id r) (xid (rfs_request r)) (sm_cache sm) = None"
  using assms by (simp_all add: takes_request_def Let_def)

text \<open>The leader preprocesses the request under its next zxid and completes the entry.\<close>

lemma leader_appends:
  assumes t: "takes_request ctx L r sm" and fill: "25 \<le> length fill"
  shows "\<exists>e d sm' s1. pre_append_leader ctx m fill now (entry_of version r) sm = Inr (Some (entry_bytes (logged (xid (rfs_request r)) e d) d), sm') \<and>
     sm_storage sm' = s1 \<and> cache_agrees (logged (xid (rfs_request r)) e d) sm' \<and>
     reachable ctx s1 (L @ [e]) \<and> to_digest d = getNodesDigest ctx False s1 \<and> last_zxid s1 = e_zxid e \<and> finalized s1 = finalized (sm_storage sm) \<and>
     e_zxid e = getNextZXID (sm_storage sm) \<and> e_session e = rfs_session_id r \<and> e_req e = request (rfs_request r) \<and>
     (version \<noteq> INITIAL \<longrightarrow> e_time e = rfs_time r) \<and>
     (\<forall>g i. preprocessRequest ctx (e_req e) (e_session e) (e_time e) (e_zxid e) True g i (sm_storage sm) = (Inr (), set_log_idx i s1))"
proof -
  let ?s = "sm_storage sm" and ?req = "request (rfs_request r)" and ?sid = "rfs_session_id r"
  let ?r2 = "(fresh_request version now r)\<lparr>rfs_zxid := getNextZXID ?s\<rparr>"
  note h = takes_requestD [OF t]
  obtain e s1 where s1: "preprocessRequest ctx ?req ?sid (rfs_time ?r2) (getNextZXID ?s) True (map_option to_digest (rfs_digest ?r2)) 0 ?s = (Inr (), s1)"
    "reachable ctx s1 (L @ [e])" "e = entry ?req ?sid (rfs_time ?r2) (getNextZXID ?s) ?s (e_deltas e)" "last_zxid s1 = getNextZXID ?s"
    using append_entry_ok [OF h(1-6), of "rfs_time ?r2" True "map_option to_digest (rfs_digest ?r2)" 0 0 0] by blast
  have e: "e_req e = ?req" "e_session e = ?sid" "e_zxid e = getNextZXID ?s" "e_time e = rfs_time ?r2" by (subst s1(3), simp add: entry_def)+
  define d where "d = (digest_code (dg_version (getNodesDigest ctx False s1)), dg_value (getNodesDigest ctx False s1))"
  note g = view_digest [OF s1(2) h(7)]
  have f: "fst d \<noteq> digest_code NO_DIGEST" using g(2) by (simp add: d_def digest_code_def CURRENT_DIGEST_VERSION_def)
  have "sm_preprocess ctx 0 ?r2 ?s = Inr (True, s1)"
    by (rule sm_preprocess_ok) (use h(5,8) s1(1) g(2) in \<open>auto simp: fresh_request_def checkDigest_def to_digest_def digest_code_def
      digest_version_of_code_def CURRENT_DIGEST_VERSION_def split: if_splits\<close>)
  from pre_append_ok [OF h(10) fill h(11) refl this d_def f, of m]
  obtain sm' where p: "pre_append_leader ctx m fill now (entry_of version r) sm = Inr (Some (entry_bytes (?r2\<lparr>rfs_digest := Some d\<rparr>) d), sm')"
    "sm_storage sm' = s1" "cache_agrees (?r2\<lparr>rfs_digest := Some d\<rparr>) sm'" by blast
  have l: "?r2\<lparr>rfs_digest := Some d\<rparr> = logged (xid (rfs_request r)) e d"
    unfolding logged_def e by (cases r) (simp add: fresh_request_def)
  show ?thesis
    using p(1,2,3) s1(2,4) preprocess_idx [OF h(3) s1(1)] preprocess_finalized [OF h(1-6) s1(1)] to_digest_code [OF g(2)] unfolding l
    by (intro exI [of _ e] exI [of _ d] exI [of _ sm'] exI [of _ s1]) (simp add: e d_def fresh_request_def)
qed

text \<open>The entry is appended on the leader and on a follower.\<close>

lemma replicas_append:
  assumes "takes_request ctx L r lead" "25 \<le> length fill"
    "sm_storage foll = sm_storage lead" "cache_lookup (rfs_session_id r) (xid (rfs_request r)) (sm_cache foll) = None"
  shows "\<exists>e d data lead1 lead2 foll2.
     pre_append_leader ctx m fill now (entry_of version r) lead = Inr (Some data, lead1) \<and>
     data = entry_bytes (logged (xid (rfs_request r)) e d) d \<and> pre_commit ctx m True now2 i data lead1 = Inr lead2 \<and> pre_commit ctx m3 True now3 i data foll = Inr foll2 \<and>
     sm_storage foll2 = sm_storage lead2 \<and>
     cache_agrees (logged (xid (rfs_request r)) e d) lead2 \<and> cache_agrees (logged (xid (rfs_request r)) e d) foll2 \<and>
     sm_responses foll2 = sm_responses foll \<and> to_digest d = t_nodes_digest (last (uncommitted_transactions (sm_storage foll2))) \<and>
     (\<forall>g. preprocessRequest ctx (e_req e) (e_session e) (e_time e) (e_zxid e) True g i (sm_storage lead) = (Inr (), sm_storage foll2)) \<and>
     e_req e = request (rfs_request r) \<and> e_session e = rfs_session_id r \<and> e_zxid e = getNextZXID (sm_storage lead) \<and>
     (version \<noteq> INITIAL \<longrightarrow> e_time e = rfs_time r)"
proof -
  note h = takes_requestD [OF assms(1)]
  let ?x = "xid (rfs_request r)"
  from leader_appends [OF assms(1,2), of m now version] obtain e d lead1 where
    a: "pre_append_leader ctx m fill now (entry_of version r) lead = Inr (Some (entry_bytes (logged ?x e d) d), lead1)"
    and c: "cache_agrees (logged ?x e d) lead1" and r: "reachable ctx (sm_storage lead1) (L @ [e])"
    and d: "to_digest d = getNodesDigest ctx False (sm_storage lead1)" and z: "last_zxid (sm_storage lead1) = e_zxid e"
      "e_zxid e = getNextZXID (sm_storage lead)"
    and f: "finalized (sm_storage lead1) = finalized (sm_storage lead)" and e: "e_session e = rfs_session_id r" "e_req e = request (rfs_request r)"
    and t: "version \<noteq> INITIAL \<longrightarrow> e_time e = rfs_time r"
    and again: "\<forall>g i. preprocessRequest ctx (e_req e) (e_session e) (e_time e) (e_zxid e) True g i (sm_storage lead) = (Inr (), set_log_idx i (sm_storage lead1))"
    by blast
  let ?r = "logged ?x e d" and ?s2 = "set_log_idx i (sm_storage lead1)"
  have l: "rfs_session_id ?r = rfs_session_id r" "rfs_request ?r = rfs_request r" "rfs_digest ?r = Some d" "rfs_zxid ?r = e_zxid e" "rfs_time ?r = e_time e"
    using e by (simp_all add: logged_def)
  note g = view_digest [OF r h(7)]
  have g': "checkDigest (to_digest d) (getNodesDigest ctx False ?s2)" using g(3) d by (simp add: checkDigest_def)
  have "sm_preprocess ctx i ?r (sm_storage lead1) = Inr (True, ?s2)"
    by (rule sm_preprocess_ok) (use h(5,8) f l g' d preprocess_again [OF r h(7) z(1)] in simp_all)
  from pre_commit_entry [OF _ l(3) c _ this, of m now2] obtain lead2 where
    lead2: "pre_commit ctx m True now2 i (entry_bytes ?r d) lead1 = Inr lead2" "sm_storage lead2 = ?s2" "cache_agrees ?r lead2"
    using h(9,10) l z(2) by auto
  have "sm_preprocess ctx i ?r (sm_storage foll) = Inr (True, ?s2)"
    by (rule sm_preprocess_ok) (use h(5,8) l g' assms(3) again e in simp_all)
  from pre_commit_entry [OF _ l(3) _ _ this, of m3 now3] obtain foll2 where
    foll2: "pre_commit ctx m3 True now3 i (entry_bytes ?r d) foll = Inr foll2" "sm_storage foll2 = ?s2" "cache_agrees ?r foll2"
      "sm_responses foll2 = sm_responses foll"
    using h(9,10) l z(2) assms(4) by (auto simp: cache_agrees_def)
  have "to_digest d = t_nodes_digest (last (uncommitted_transactions ?s2))" using d g(1) by (simp add: set_log_idx_def)
  then show ?thesis
    using a lead2 foll2 again e z(2) t
    by (intro exI [of _ e] exI [of _ d] exI [of _ "entry_bytes ?r d"] exI [of _ lead1] exI [of _ lead2] exI [of _ foll2]) simp
qed

text \<open>The log of a storage that took a request.\<close>

lemma appended_log:
  assumes "takes_request ctx L r sm" "e_req e = request (rfs_request r)" "e_session e = rfs_session_id r" "e_zxid e = getNextZXID (sm_storage sm)"
    "preprocessRequest ctx (e_req e) (e_session e) (e_time e) (e_zxid e) True None i (sm_storage sm) = (Inr (), s2)"
  shows "\<exists>e'. reachable ctx s2 (L @ [e']) \<and> e_req e' = e_req e \<and> e_session e' = e_session e \<and> e_zxid e' = e_zxid e \<and> e_time e' = e_time e \<and>
     ctree s2 = ctree (sm_storage sm) \<and> atree s2 = atree (sm_storage sm) \<and> (room k (sm_storage sm) \<longrightarrow> room k s2) \<and>
     (clocks_ok clock (sm_storage sm) \<longrightarrow> clocks_ok clock s2)"
proof -
  note h = takes_requestD [OF assms(1), folded assms(2,3,4)]
  obtain e' where e': "reachable ctx s2 (L @ [e'])" "e' = entry (e_req e) (e_session e) (e_time e) (e_zxid e) (sm_storage sm) (e_deltas e')"
    "ctree s2 = ctree (sm_storage sm)" "atree s2 = atree (sm_storage sm)" "room k (sm_storage sm) \<longrightarrow> room k s2"
    "clocks_ok clock (sm_storage sm) \<longrightarrow> clocks_ok clock s2"
    using append_entry_ok [OF h(1-6), of "e_time e" True None i k clock] assms(5) by auto
  have "e_req e' = e_req e" "e_session e' = e_session e" "e_time e' = e_time e" "e_zxid e' = e_zxid e" by (subst e'(2), simp add: entry_def)+
  then show ?thesis using e'(1,3-6) by blast
qed

section \<open>An example\<close>

lemma insert_system_nodes_finalized: "insert_system_nodes ctx ps s = Inr s' \<Longrightarrow> finalized s' = finalized s"
  by (induction ctx ps s rule: insert_system_nodes.induct)
    (auto simp: Let_def storage_insert_def storage_update_value_def bindE_def split: option.splits sum.splits)

lemma new_not_finalized: "KeeperStorage_new ctx tick True = Inr s \<Longrightarrow> \<not> finalized s"
  by (auto simp: KeeperStorage_new_def initializeSystemNodes_def KeeperStorage_empty_def Let_def storage_insert_def storage_update_value_def
    addDigest_of_def addDigest_def removeDigest_def bindE_def split: option.splits sum.splits if_splits dest!: insert_system_nodes_finalized)

definition example_request :: RequestForSession where
  "example_request = \<lparr>rfs_session_id = 1, rfs_time = 5, rfs_request = \<lparr>xid = 7, request = example_create\<rparr>, rfs_zxid = 0, rfs_digest = None\<rparr>"

lemma example_machine:
  "\<exists>sm. takes_request example_context [] example_request sm \<and> sm_cache sm = Map.empty \<and> sm_responses sm = [] \<and>
     getNextZXID (sm_storage sm) = 1 \<and> ctree (sm_storage sm) ''/a'' = None \<and>
     room (delta_bound example_create 1 (sm_storage sm)) (sm_storage sm) \<and> clocks_ok 0 (sm_storage sm)"
proof -
  obtain s where s: "KeeperStorage_new example_context 500 True = Inr s" "example_state s []" using example_new by blast
  have z: "getNextZXID s = 1" using s(2) next_zxid [of s] by (simp add: example_state_def)
  have "delta_bound example_create 1 s \<le> 1000" by (simp add: example_create_def delta_bound_def parts_def)
  then have r: "room (delta_bound example_create 1 s) s" "clocks_ok 0 s" using s(2) room_mono by (auto simp: example_state_def)
  have a: "ctree s ''/a'' = None" using s(2) example_path(4) by (auto simp: example_state_def)
  have f: "request_fits example_create" by (simp add: example_create_def MAX_STRING_OR_ARRAY_SIZE_def)
  have "takes_request example_context [] example_request \<lparr>sm_storage = s, sm_cache = Map.empty, sm_responses = [], sm_last_commit = 0\<rparr>"
    using example_appendable [OF s(2)] example_context_ok new_not_finalized [OF s(1)] z f
    by (simp add: takes_request_def example_request_def cache_lookup_def)
  then show ?thesis using z r a by (intro exI) auto
qed

text \<open>C6: followers follow the leader. When the leader takes a request under its next zxid and completes the entry of any version
  with zxid and digest, then the entry is appended, under any log index, on the leader and on every follower with the same
  storage: no digest check stops a server, both storages stay equal, and the log has grown by the request of the client.\<close>

theorem follower_follows_leader:
  assumes "takes_request ctx L r lead" "25 \<le> length fill"
    "sm_storage foll = sm_storage lead" "cache_lookup (rfs_session_id r) (xid (rfs_request r)) (sm_cache foll) = None"
  shows "\<exists>e data lead1 lead2 foll2.
     pre_append_leader ctx m fill now (entry_of version r) lead = Inr (Some data, lead1) \<and>
     pre_commit ctx m True now2 i data lead1 = Inr lead2 \<and> pre_commit ctx m3 True now3 i data foll = Inr foll2 \<and>
     sm_storage foll2 = sm_storage lead2 \<and> reachable ctx (sm_storage foll2) (L @ [e]) \<and>
     e_req e = request (rfs_request r) \<and> e_session e = rfs_session_id r \<and> e_zxid e = getNextZXID (sm_storage lead) \<and>
     (version \<noteq> INITIAL \<longrightarrow> e_time e = rfs_time r)"
proof -
  obtain e :: LogEntry and data lead1 lead2 foll2 where
    a: "pre_append_leader ctx m fill now (entry_of version r) lead = Inr (Some data, lead1)"
     "pre_commit ctx m True now2 i data lead1 = Inr lead2" "pre_commit ctx m3 True now3 i data foll = Inr foll2"
     "sm_storage foll2 = sm_storage lead2" "version \<noteq> INITIAL \<longrightarrow> e_time e = rfs_time r"
    and e: "e_req e = request (rfs_request r)" "e_session e = rfs_session_id r" "e_zxid e = getNextZXID (sm_storage lead)"
     "\<forall>g. preprocessRequest ctx (e_req e) (e_session e) (e_time e) (e_zxid e) True g i (sm_storage lead) = (Inr (), sm_storage foll2)"
    using replicas_append [OF assms, of m now version now2 i m3 now3] by blast
  obtain e' where "reachable ctx (sm_storage foll2) (L @ [e'])" "e_req e' = e_req e" "e_session e' = e_session e" "e_zxid e' = e_zxid e" "e_time e' = e_time e"
    using appended_log [OF assms(1) e(1-3) spec [OF e(4)]] by blast
  then show ?thesis
    using a e(1-3) by (intro exI [of _ e'] exI [of _ data] exI [of _ lead1] exI [of _ lead2] exI [of _ foll2]) simp
qed

theorem follower_follows_leader_witness:
  "\<exists>sm e data lead1 lead2 foll2.
     pre_append_leader example_context 0 (replicate 25 0) 5 (entry_of WITH_TIME example_request) sm = Inr (Some data, lead1) \<and>
     pre_commit example_context 0 True 5 1 data lead1 = Inr lead2 \<and> pre_commit example_context 0 True 5 1 data sm = Inr foll2 \<and>
     sm_storage foll2 = sm_storage lead2 \<and> reachable example_context (sm_storage foll2) [e] \<and> e_req e = example_create"
proof -
  obtain sm where sm: "takes_request example_context [] example_request sm" "sm_cache sm = Map.empty" using example_machine by blast
  show ?thesis
    using follower_follows_leader [OF sm(1), of "replicate 25 0" sm 0 5 WITH_TIME 5 1 0 5] sm(2)
    by (simp add: cache_lookup_def example_request_def) blast
qed

section \<open>Committing an entry\<close>

lemma commit_digest:
  assumes "reachable ctx s (e # L)" "digestEnabled ctx" "reachable ctx s' L" "ctree s' = spec_entry e (ctree s)"
  shows "getNodesDigest ctx True s' = t_nodes_digest (hd (uncommitted_transactions s))"
    "dg_value (getNodesDigest ctx True s') = tree_digest (ctree s')"
proof -
  note inv = reachable_inv [OF assms(1)]
  obtain t X where "uncommitted_transactions s = t # X" using log_invD(8) [OF inv] by (cases "uncommitted_transactions s") auto
  then have "t_nodes_digest (hd (uncommitted_transactions s)) = \<lparr>dg_version = CURRENT_DIGEST_VERSION, dg_value = tree_digest (ctree s')\<rparr>"
    using log_invD(8) [OF inv] assms(2,4) log_first(2) [OF inv] by simp
  then show "getNodesDigest ctx True s' = t_nodes_digest (hd (uncommitted_transactions s))"
      "dg_value (getNodesDigest ctx True s') = tree_digest (ctree s')"
    using committed_digest [OF reachable_inv [OF assms(3)]] assms(2) by (auto simp: getNodesDigest_def)
qed

lemma commit_bytes:
  assumes s: "reachable ctx (sm_storage sm) (e # L)" "ready clock (sm_storage sm)" "digestEnabled ctx"
    and r: "request_fits (e_req e)" "cache_agrees (logged x e d) sm" "e_zxid e \<noteq> 0"
      "to_digest d = t_nodes_digest (hd (uncommitted_transactions (sm_storage sm)))"
  shows "\<exists>sm' rs. commit ctx m True now clock i (entry_bytes (logged x e d) d) sm = Inr sm' \<and> sm_last_commit sm' = i \<and>
     commit_entry ctx clock x True e (sm_storage sm) = Inr (rs, sm_storage sm') \<and> sm_responses sm' = sm_responses sm @ rs"
proof -
  let ?r = "logged x e d"
  obtain rs s' where c: "commit_entry ctx clock x True e (sm_storage sm) = Inr (rs, s')" "reachable ctx s' L" "ctree s' = spec_entry e (ctree (sm_storage sm))"
    using commit_entry_ok [OF s(1,2), of x True] by blast
  have f: "rfs_session_id ?r = e_session e" "rfs_request ?r = \<lparr>xid = x, request = e_req e\<rparr>" "rfs_zxid ?r = e_zxid e" "rfs_digest ?r = Some d"
    by (simp_all add: logged_def)
  obtain v sm1 where p: "sm_parse m now True (entry_bytes ?r d) sm = Inr (?r, v, sm1)" "sm_storage sm1 = sm_storage sm" "sm_responses sm1 = sm_responses sm"
    using sm_parse_entry [of ?r d sm m now True] f r(1,2) by auto
  have g: "assert_request_digest ctx ?r True s' = Inr ()"
    using commit_digest(1) [OF s(1,3) c(2,3)] r(4) f(4) by (simp add: assert_request_digest_def assertDigest_def checkDigest_def)
  have "valid_request (e_session e) (e_req e)" using log_first(1) [OF reachable_inv [OF s(1)]] by (simp add: entry_ok_def)
  then have "sm_execute ctx clock ?r sm1 =
      Inr (sm1\<lparr>sm_cache := (if e_req e = CloseRequest then cache_close (e_session e) (sm_cache sm1) else sm_cache sm1),
        sm_storage := s', sm_responses := sm_responses sm @ rs\<rparr>)"
    using c(1) g f p(2,3) by (cases "e_req e") (simp_all add: sm_execute_def valid_request_def)
  then show ?thesis using p c(1) f(3) r(3)
    by (simp add: commit_def with_zxid_def liftS_def Let_def)
qed

lemma logged_cong:
  "e_req e' = e_req e \<Longrightarrow> e_session e' = e_session e \<Longrightarrow> e_zxid e' = e_zxid e \<Longrightarrow> e_time e' = e_time e \<Longrightarrow> logged x e d = logged x e' d"
  by (simp add: logged_def)

text \<open>C5: a request is answered by every replica. A leader without pending entries takes a request and completes its entry; a
  follower with the same storage appends the entry and commits it. Nothing throws and no digest check stops the server, the
  follower pushes notices and then the answer to the session of the client with its xid and the zxid of the leader, the answer is
  the one of the specification, and the content of the storage is the one that the specification gives.\<close>

theorem request_answered:
  assumes "takes_request ctx [] r lead" "25 \<le> length fill"
    "sm_storage foll = sm_storage lead" "cache_lookup (rfs_session_id r) (xid (rfs_request r)) (sm_cache foll) = None"
    "room (delta_bound (request (rfs_request r)) (rfs_session_id r) (sm_storage lead)) (sm_storage lead)" "clocks_ok clock (sm_storage lead)"
  shows "\<exists>e data lead1 foll2 foll3 rs resp.
     pre_append_leader ctx m fill now (entry_of version r) lead = Inr (Some data, lead1) \<and>
     pre_commit ctx m3 True now3 i data foll = Inr foll2 \<and> commit ctx m3 True now4 clock i data foll2 = Inr foll3 \<and>
     sm_responses foll3 = sm_responses foll @ rs \<and> notices (butlast rs) \<and> rs_session_id (last rs) = rfs_session_id r \<and>
     response_of rs = set_ids (getNextZXID (sm_storage lead)) (xid (rfs_request r)) resp \<and>
     answer_ok ctx e (ctree (sm_storage lead)) (ctree (sm_storage foll3)) (atree (sm_storage foll3)) resp \<and>
     storage_content (sm_storage foll3) = spec_step e (storage_content (sm_storage lead)) \<and> e_req e = request (rfs_request r)"
proof -
  let ?x = "xid (rfs_request r)" and ?s = "sm_storage lead"
  note h = takes_requestD [OF assms(1)]
  obtain e :: LogEntry and d data lead1 foll2 where
    a: "pre_append_leader ctx m fill now (entry_of version r) lead = Inr (Some data, lead1)" "data = entry_bytes (logged ?x e d) d"
     "pre_commit ctx m3 True now3 i data foll = Inr foll2" "cache_agrees (logged ?x e d) foll2" "sm_responses foll2 = sm_responses foll"
     "to_digest d = t_nodes_digest (last (uncommitted_transactions (sm_storage foll2)))"
    and e: "e_req e = request (rfs_request r)" "e_session e = rfs_session_id r" "e_zxid e = getNextZXID ?s"
     "\<forall>g. preprocessRequest ctx (e_req e) (e_session e) (e_time e) (e_zxid e) True g i ?s = (Inr (), sm_storage foll2)"
    using replicas_append [OF assms(1-4), of m now version undefined i m3 now3] by blast
  let ?k = "delta_bound (e_req e) (e_session e) ?s"
  obtain e' where e': "reachable ctx (sm_storage foll2) [e']" "e_req e' = e_req e" "e_session e' = e_session e" "e_zxid e' = e_zxid e" "e_time e' = e_time e"
    "ctree (sm_storage foll2) = ctree ?s" "atree (sm_storage foll2) = atree ?s" "room ?k (sm_storage foll2)" "clocks_ok clock (sm_storage foll2)"
    using appended_log [OF assms(1) e(1-3) spec [OF e(4)], of ?k clock] assms(5,6) e(1,2) by auto
  have "pending ?s = []" using log_invD(7) [OF reachable_inv [OF h(1)]] by simp
  then have "ready clock (sm_storage foll2)"
    using preprocessRequest_length [OF spec [OF e(4), of None]] e'(8,9) room_mono by (auto simp: ready_def)
  moreover have "hd (uncommitted_transactions (sm_storage foll2)) = last (uncommitted_transactions (sm_storage foll2))"
    using chain_length [OF log_invD(8) [OF reachable_inv [OF e'(1)]]] by (cases "uncommitted_transactions (sm_storage foll2)") auto
  ultimately have c: "reachable ctx (sm_storage foll2) [e']" "ready clock (sm_storage foll2)" "digestEnabled ctx" "request_fits (e_req e')"
    "cache_agrees (logged ?x e' d) foll2" "e_zxid e' \<noteq> 0" "to_digest d = t_nodes_digest (hd (uncommitted_transactions (sm_storage foll2)))"
    using e'(1-5) h(7,9,10) a(4,6) e(1,3) logged_cong [OF e'(2-5), of ?x d] by simp_all
  obtain foll3 rs where k: "commit ctx m3 True now4 clock i data foll2 = Inr foll3"
     "commit_entry ctx clock ?x True e' (sm_storage foll2) = Inr (rs, sm_storage foll3)" "sm_responses foll3 = sm_responses foll @ rs"
    using commit_bytes [OF c, of m3 now4 i] a(2,5) logged_cong [OF e'(2-5), of ?x d] by auto
  obtain resp where "notices (butlast rs)" "rs_session_id (last rs) = e_session e'" "response_of rs = set_ids (e_zxid e') ?x resp"
    "answer_ok ctx e' (ctree ?s) (ctree (sm_storage foll3)) (atree (sm_storage foll3)) resp"
    "storage_content (sm_storage foll3) = spec_step e' (storage_content ?s)"
    using commit_entry_ok [OF c(1,2), of ?x True] k(2) e'(6,7) by (auto simp: storage_content_def spec_step_def)
  then show ?thesis using a(1,3) k(1,3) e(1-3) e'(2-4)
    by (intro exI [of _ e'] exI [of _ data] exI [of _ lead1] exI [of _ foll2] exI [of _ foll3] exI [of _ rs] exI [of _ resp]) simp
qed

theorem request_answered_witness:
  "\<exists>sm e data lead1 foll2 foll3 rs resp.
     pre_append_leader example_context 0 (replicate 25 0) 5 (entry_of WITH_TIME example_request) sm = Inr (Some data, lead1) \<and>
     pre_commit example_context 0 True 5 1 data sm = Inr foll2 \<and> commit example_context 0 True 5 0 1 data foll2 = Inr foll3 \<and>
     sm_responses foll3 = rs \<and> response_of rs = set_ids 1 7 resp \<and>
     answer_ok example_context e (ctree (sm_storage sm)) (ctree (sm_storage foll3)) (atree (sm_storage foll3)) resp \<and> e_req e = example_create"
proof -
  obtain sm where sm: "takes_request example_context [] example_request sm" "sm_cache sm = Map.empty" "sm_responses sm = []"
     "getNextZXID (sm_storage sm) = 1" "room (delta_bound example_create 1 (sm_storage sm)) (sm_storage sm)" "clocks_ok 0 (sm_storage sm)"
    using example_machine by blast
  show ?thesis
    using request_answered [OF sm(1), of "replicate 25 0" sm 0 0 5 WITH_TIME 0 5 1 5] sm(2-6)
    by (simp add: cache_lookup_def example_request_def) blast
qed

text \<open>C21: an entry is rolled back. When an entry that a follower appended is dropped from the log, the state machine parses it
  once more and rolls it back: the log, the content of the storage and the view are those before the entry.\<close>

theorem entry_rolled_back:
  assumes "takes_request ctx L r lead" "25 \<le> length fill"
    "sm_storage foll = sm_storage lead" "cache_lookup (rfs_session_id r) (xid (rfs_request r)) (sm_cache foll) = None"
  shows "\<exists>data lead1 foll2 foll3.
     pre_append_leader ctx m fill now (entry_of version r) lead = Inr (Some data, lead1) \<and>
     pre_commit ctx m3 True now3 i data foll = Inr foll2 \<and> rollback m3 True now4 i data foll2 = Inr foll3 \<and>
     reachable ctx (sm_storage foll3) L \<and> storage_content (sm_storage foll3) = storage_content (sm_storage lead) \<and>
     vtree (sm_storage foll3) = vtree (sm_storage lead) \<and>
     getNodesDigest ctx False (sm_storage foll3) = getNodesDigest ctx False (sm_storage lead)"
proof -
  let ?x = "xid (rfs_request r)" and ?s = "sm_storage lead"
  note h = takes_requestD [OF assms(1)]
  obtain e :: LogEntry and d data lead1 foll2 where
    a: "pre_append_leader ctx m fill now (entry_of version r) lead = Inr (Some data, lead1)" "data = entry_bytes (logged ?x e d) d"
     "pre_commit ctx m3 True now3 i data foll = Inr foll2" "cache_agrees (logged ?x e d) foll2"
    and e: "e_req e = request (rfs_request r)" "e_session e = rfs_session_id r" "e_zxid e = getNextZXID ?s"
     "\<forall>g. preprocessRequest ctx (e_req e) (e_session e) (e_time e) (e_zxid e) True g i ?s = (Inr (), sm_storage foll2)"
    using replicas_append [OF assms(1-4), of m now version undefined i m3 now3] by blast
  obtain e' s' where e': "preprocessRequest ctx (e_req e) (e_session e) (e_time e) (e_zxid e) True None i ?s = (Inr (), s')"
     "reachable ctx s' (L @ [e'])" "e' = entry (e_req e) (e_session e) (e_time e) (e_zxid e) ?s (e_deltas e')"
     "ctree s' = ctree ?s" "atree s' = atree ?s" "butlast (uncommitted_transactions s') = uncommitted_transactions ?s"
    using append_entry_ok [OF h(1-6) [folded e(1-3)], of "e_time e" True None i 0 0] by blast
  have s': "s' = sm_storage foll2" using e'(1) e(4) by simp
  have z: "e_zxid e' = e_zxid e" by (subst e'(3), simp add: entry_def)
  obtain s3 where s3: "rollbackRequest (e_zxid e') False s' = Inr s3" "log_inv ctx s3 L" "ctree s3 = ctree s'" "atree s3 = atree s'"
    "uncommitted_transactions s3 = uncommitted_transactions ?s"
    using rollbackRequest_ok [OF reachable_inv [OF e'(2)], of False] e'(6) by auto
  have r3: "reachable ctx s3 L" by (rule reachable_step [OF e'(2) step_drop [OF s3(1)]])
  have v: "vtree s3 = vtree ?s" using view_spec [OF s3(2)] view_spec [OF reachable_inv [OF h(1)]] s3(3) e'(4) by simp
  have "nodes_digest s3 = nodes_digest ?s"
    using committed_digest [OF s3(2) h(7)] committed_digest [OF reachable_inv [OF h(1)] h(7)] s3(3) e'(4) by simp
  then have g: "getNodesDigest ctx False s3 = getNodesDigest ctx False ?s" using s3(5) by (simp add: getNodesDigest_def)
  have l: "request (rfs_request (logged ?x e d)) = request (rfs_request r)" "rfs_digest (logged ?x e d) = Some d" "rfs_zxid (logged ?x e d) = e_zxid e"
    using e(1) by (simp_all add: logged_def)
  obtain v sm1 where p: "sm_parse m3 now4 True data foll2 = Inr (logged ?x e d, v, sm1)" "sm_storage sm1 = sm_storage foll2"
    using sm_parse_entry [of "logged ?x e d" d foll2 m3 now4 True] l h(10) a(2,4) by auto
  have "getOpNum (request (rfs_request r)) \<noteq> Op_SessionID" using h(5) by (cases "request (rfs_request r)") (auto simp: valid_request_def)
  then have "rollback m3 True now4 i data foll2 = Inr (sm1\<lparr>sm_storage := s3\<rparr>)"
    using p l s3(1) s' z h(9) e(3) by (simp add: rollback_def with_zxid_def liftS_def sm_rollbackRequest_def Let_def)
  then show ?thesis using a(1,3) r3 v g s3(3,4) e'(4,5)
    by (intro exI [of _ data] exI [of _ lead1] exI [of _ foll2] exI [of _ "sm1\<lparr>sm_storage := s3\<rparr>"]) (simp add: storage_content_def)
qed

theorem entry_rolled_back_witness:
  "\<exists>sm data lead1 foll2 foll3.
     pre_append_leader example_context 0 (replicate 25 0) 5 (entry_of WITH_TIME example_request) sm = Inr (Some data, lead1) \<and>
     pre_commit example_context 0 True 5 1 data sm = Inr foll2 \<and> rollback 0 True 5 1 data foll2 = Inr foll3 \<and>
     vtree (sm_storage foll3) = vtree (sm_storage sm)"
proof -
  obtain sm where sm: "takes_request example_context [] example_request sm" "sm_cache sm = Map.empty" using example_machine by blast
  show ?thesis
    using entry_rolled_back [OF sm(1), of "replicate 25 0" sm 0 5 WITH_TIME 0 5 1 5] sm(2)
    by (auto simp: cache_lookup_def example_request_def)
qed

end
