(* ===== verification/KeeperSnapshots.thy ===== *)
theory KeeperSnapshots
  imports KeeperLogEntries KeeperMachine
begin

text \<open>
  Snapshots of the storage, from src/Coordination/KeeperSnapshotManager.h and KeeperSnapshotManager.cpp: the object that captures a
  storage (\<^verbatim>\<open>KeeperStorageSnapshot\<close>), its serialisation in all versions that are still written, its deserialisation in all
  versions, and \<^verbatim>\<open>deserializeSnapshotFromBuffer\<close> up to decompression.

  The iterator into the list of the hash table with the number of elements is the list of these elements; that later changes of
  the table leave them alone is a property of \<open>SnapshotableHashTable\<close>. Metadata and cluster configuration are objects of
  NuRaft: their serialisation and deserialisation are arguments. Integers are little-endian. The comparison of
  children counters after loading only logs in release builds and is left out, as is the reservation of memory.
\<close>

section \<open>Integers and strings\<close>

function writeVarUInt :: "uint64 \<Rightarrow> bytes" where
  "writeVarUInt x = (if 0x7F < x then (0x80 OR ucast (x AND 0x7F)) # writeVarUInt (drop_bit 7 x) else [ucast x])"
  by auto

lemma drop_bit_less: "0x7F < (x :: uint64) \<Longrightarrow> unat (drop_bit 7 x) < unat x"
  by (simp add: word_less_nat_alt drop_bit_eq_div unat_div_distrib)

termination writeVarUInt
  by (relation "measure unat") (simp_all add: drop_bit_less)

declare writeVarUInt.simps [simp del]

fun read_var_bytes :: "nat \<Rightarrow> nat \<Rightarrow> uint64 \<Rightarrow> uint64 reader" where
  "read_var_bytes 0 i x inp = Inr (x, inp)"
| "read_var_bytes (Suc k) i x inp =
     (case inp of
        [] \<Rightarrow> Inl ATTEMPT_TO_READ_AFTER_EOF
      | b # inp \<Rightarrow>
          (let x = x OR push_bit (7 * i) (ucast (b AND 0x7F))
           in if b AND 0x80 = 0 then Inr (x, inp) else read_var_bytes k (Suc i) x inp))"

definition readVarUInt :: "uint64 reader" where
  "readVarUInt inp = read_var_bytes 10 0 0 inp"

definition DEFAULT_MAX_STRING_SIZE :: nat where
  "DEFAULT_MAX_STRING_SIZE = 2 ^ 30"

definition writeStringBinary :: "string \<Rightarrow> bytes" where
  "writeStringBinary s = writeVarUInt (word_of_nat (length s)) @ string_bytes s"

definition readStringBinary :: "string reader" where
  "readStringBinary inp =
     bindE (readVarUInt inp) (\<lambda>(size, inp).
       if DEFAULT_MAX_STRING_SIZE < unat size then Inl TOO_LARGE_STRING_SIZE
       else bindE (readStrict (unat size) inp) (\<lambda>(bs, inp). Inr (bytes_string bs, inp)))"

text \<open>A block of bytes with its size, for the objects of NuRaft.\<close>

definition write_sized :: "bytes \<Rightarrow> bytes" where
  "write_sized bs = writeVarUInt (word_of_nat (length bs)) @ bs"

definition read_sized :: "bytes reader" where
  "read_sized inp = bindE (readVarUInt inp) (\<lambda>(size, inp). readStrict (unat size) inp)"

section \<open>Parts of a snapshot\<close>

definition write_snapshot_ACL :: "ACL \<Rightarrow> bytes" where
  "write_snapshot_ACL acl = writeIntBinary 4 (permissions acl) @ writeStringBinary (scheme acl) @ writeStringBinary (acl_ident acl)"

definition read_snapshot_ACL :: "ACL reader" where
  "read_snapshot_ACL inp =
     bindE (readIntBinary 4 inp) (\<lambda>(p, inp).
       bindE (readStringBinary inp) (\<lambda>(sch, inp).
         bindE (readStringBinary inp) (\<lambda>(i, inp). Inr (\<lparr>permissions = p, scheme = sch, acl_ident = i\<rparr>, inp))))"

definition write_AuthID :: "AuthID \<Rightarrow> bytes" where
  "write_AuthID a = writeStringBinary (aid_scheme a) @ writeStringBinary (aid_id a)"

definition read_AuthID :: "AuthID reader" where
  "read_AuthID inp =
     bindE (readStringBinary inp) (\<lambda>(sch, inp).
       bindE (readStringBinary inp) (\<lambda>(i, inp). Inr (\<lparr>aid_scheme = sch, aid_id = i\<rparr>, inp)))"

text \<open>A sequence with its \<^verbatim>\<open>size_t\<close> size.\<close>

definition write_counted :: "('a \<Rightarrow> bytes) \<Rightarrow> 'a list \<Rightarrow> bytes" where
  "write_counted w xs = writeIntBinary 8 (word_of_nat (length xs) :: uint64) @ concat (map w xs)"

definition read_counted :: "'a reader \<Rightarrow> 'a list reader" where
  "read_counted r inp = bindE (readIntBinary 8 inp) (\<lambda>(n, inp). read_elems r (unat (n :: uint64)) inp)"

type_synonym SnapshotVersion = byte

definition CURRENT_SNAPSHOT_VERSION :: SnapshotVersion where
  "CURRENT_SNAPSHOT_VERSION = 6"

definition writeNode :: "KeeperContext \<Rightarrow> SnapshotVersion \<Rightarrow> KeeperMemNode \<Rightarrow> bytes" where
  "writeNode ctx version n =
     writeStringBinary (n_data n) @ writeIntBinary 8 (n_acl_id n) @
     (if version < 6 then writeIntBinary 1 (0 :: byte) else []) @
     writeIntBinary 8 (n_czxid n) @ writeIntBinary 8 (n_mzxid n) @ writeIntBinary 8 (ctime n) @ writeIntBinary 8 (n_mtime n) @
     writeIntBinary 4 (n_version n) @ writeIntBinary 4 (n_cversion n) @ writeIntBinary 4 (n_aversion n) @
     writeIntBinary 8 (ephemeralOwner n) @
     (if version < 6 then writeIntBinary 4 (word_of_nat (length (n_data n)) :: int32) else []) @
     writeIntBinary 4 (numChildren n) @ writeIntBinary 8 (n_pzxid n) @ writeIntBinary 4 (seqNum n) @
     (if 4 \<le> version \<and> version \<le> 5 then writeIntBinary 8 (sizeInBytes (vo ctx) n) else [])"

text \<open>The data of a node: the size is truncated to 32 bits.\<close>

definition read_node_data :: "string reader" where
  "read_node_data inp =
     bindE (readVarUInt inp) (\<lambda>(size, inp).
       bindE (readStrict (unat size mod 2 ^ 32) inp) (\<lambda>(bs, inp). Inr (bytes_string bs, inp)))"

definition read_acl_id :: "SnapshotVersion \<Rightarrow> ACLMap \<Rightarrow> (uint64 \<times> ACLMap) reader" where
  "read_acl_id version m inp =
     (if 1 \<le> version then bindE (readIntBinary 8 inp) (\<lambda>(i, inp). Inr ((i, m), inp))
      else bindE (read_counted read_snapshot_ACL inp) (\<lambda>(acls, inp). Inr (convertACLs acls m, inp)))"

text \<open>A field that some versions have and that is not used.\<close>

definition skip_bytes :: "bool \<Rightarrow> nat \<Rightarrow> unit reader" where
  "skip_bytes present k inp = (if present then bindE (readStrict k inp) (\<lambda>(_, inp). Inr ((), inp)) else Inr ((), inp))"

definition loaded_node ::
  "string \<Rightarrow> uint64 \<Rightarrow> int64 \<Rightarrow> int64 \<Rightarrow> int64 \<Rightarrow> int64 \<Rightarrow> int32 \<Rightarrow> int32 \<Rightarrow> int32 \<Rightarrow> int64 \<Rightarrow> int32 \<Rightarrow> int64 \<Rightarrow> int32 \<Rightarrow> KeeperMemNode" where
  "loaded_node data acl_id czxid mzxid ct mtime v cv av owner num_children pzxid seq_num =
     (let n = KeeperMemNode_new\<lparr>n_data := data, n_acl_id := acl_id, n_czxid := czxid, n_mzxid := mzxid\<rparr>;
          n = (setCtime ct n)\<lparr>n_mtime := mtime, n_version := v, n_cversion := cv, n_aversion := av\<rparr>;
          n = (if owner \<noteq> 0 then setEphemeralOwner owner n else n);
          n = (if owner = 0 then setNumChildren num_children n else n);
          n = n\<lparr>n_pzxid := pzxid\<rparr>
      in if owner = 0 then setSeqNum seq_num n else n)"

definition readNode :: "SnapshotVersion \<Rightarrow> ACLMap \<Rightarrow> (KeeperMemNode \<times> ACLMap) reader" where
  "readNode version m inp =
     bindE (read_node_data inp) (\<lambda>(data, inp).
     bindE (read_acl_id version m inp) (\<lambda>((i, m), inp).
       let acl_id = (if i = -1 then 0 else i); m = addUsage acl_id m
       in
     bindE (skip_bytes (version < 6) 1 inp) (\<lambda>(_, inp).
     bindE (readIntBinary 8 inp) (\<lambda>(czxid, inp).
     bindE (readIntBinary 8 inp) (\<lambda>(mzxid, inp).
     bindE (readIntBinary 8 inp) (\<lambda>(ct, inp).
     bindE (readIntBinary 8 inp) (\<lambda>(mtime, inp).
     bindE (readIntBinary 4 inp) (\<lambda>(v, inp).
     bindE (readIntBinary 4 inp) (\<lambda>(cv, inp).
     bindE (readIntBinary 4 inp) (\<lambda>(av, inp).
     bindE (readIntBinary 8 inp) (\<lambda>(owner, inp).
     bindE (skip_bytes (version < 6) 4 inp) (\<lambda>(_, inp).
     bindE (readIntBinary 4 inp) (\<lambda>(num_children, inp).
     bindE (readIntBinary 8 inp) (\<lambda>(pzxid, inp).
     bindE (readIntBinary 4 inp) (\<lambda>(seq_num, inp).
     bindE (skip_bytes (4 \<le> version \<and> version \<le> 5) 8 inp) (\<lambda>(_, inp).
       Inr ((loaded_node data acl_id czxid mzxid ct mtime v cv av owner num_children pzxid seq_num, m), inp)))))))))))))))))"

section \<open>The snapshot\<close>

record ('m, 'c) KeeperStorageSnapshot =
  sn_version :: SnapshotVersion
  sn_meta :: 'm
  sn_session_id :: int64
  sn_nodes :: "(string \<times> KeeperMemNode) list"
  sn_session_and_timeout :: "int64 \<rightharpoonup> int"
  sn_session_and_auth :: "int64 \<Rightarrow> AuthID list"
  sn_acl_map :: "uint64 \<rightharpoonup> ACLs"
  sn_cluster_config :: "'c option"
  sn_zxid :: int64
  sn_nodes_digest :: uint64

definition take_snapshot :: "'m \<Rightarrow> 'c option \<Rightarrow> KeeperStorage \<Rightarrow> ('m, 'c) KeeperStorageSnapshot \<times> KeeperStorage" where
  "take_snapshot meta config s =
     (let (size, ver) = ht_snapshotSizeWithVersion (container s); s1 = storage_enableSnapshotMode ver s
      in (\<lparr>sn_version = CURRENT_SNAPSHOT_VERSION, sn_meta = meta, sn_session_id = session_id_counter s,
           sn_nodes = snapshot_view size (container s1), sn_session_and_timeout = session_and_timeout s,
           sn_session_and_auth = session_and_auth s, sn_acl_map = num_to_acl (acl_map s), sn_cluster_config = config,
           sn_zxid = ks_zxid s, sn_nodes_digest = nodes_digest s\<rparr>, s1))"

section \<open>Serialisation\<close>

text \<open>The entries of a hash map in the order of their keys.\<close>

definition sorted_entries :: "(int64 \<rightharpoonup> 'a) \<Rightarrow> (int64 \<times> 'a) list" where
  "sorted_entries m = map (\<lambda>i. (word_of_int i, the (m (word_of_int i)))) (sorted_list_of_set (sint ` dom m))"

fun write_nodes :: "KeeperContext \<Rightarrow> SnapshotVersion \<Rightarrow> int64 \<Rightarrow> (string \<times> KeeperMemNode) list \<Rightarrow> bytes" where
  "write_nodes ctx version zxid [] = []"
| "write_nodes ctx version zxid ((path, n) # rest) =
     (if matchPath path keeper_system_path = IS_CHILD then write_nodes ctx version zxid rest
      else if zxid <s n_mzxid n then []
      else writeStringBinary path @ writeNode ctx version n @ write_nodes ctx version zxid rest)"

definition write_acl_entry :: "uint64 \<times> ACLs \<Rightarrow> bytes" where
  "write_acl_entry x = writeIntBinary 8 (fst x) @ write_counted write_snapshot_ACL (snd x)"

definition write_session :: "(int64 \<Rightarrow> AuthID list) \<Rightarrow> int64 \<times> int \<Rightarrow> bytes" where
  "write_session auth x =
     writeIntBinary 8 (fst x) @ writeIntBinary 8 (word_of_int (snd x) :: int64) @ write_counted write_AuthID (auth (fst x))"

definition serialize ::
  "('m \<Rightarrow> bytes) \<Rightarrow> ('c \<Rightarrow> bytes) \<Rightarrow> KeeperContext \<Rightarrow> ('m, 'c) KeeperStorageSnapshot \<Rightarrow> bytes" where
  "serialize meta_bytes config_bytes ctx sn =
     writeIntBinary 1 (sn_version sn) @ write_sized (meta_bytes (sn_meta sn)) @
     (if 5 \<le> sn_version sn
      then writeIntBinary 8 (sn_zxid sn) @
           (if digestEnabled ctx then writeIntBinary 1 (digest_code CURRENT_DIGEST_VERSION) @ writeIntBinary 8 (sn_nodes_digest sn)
            else writeIntBinary 1 (digest_code NO_DIGEST))
      else []) @
     writeIntBinary 8 (sn_session_id sn) @
     write_counted write_acl_entry (sorted_entries (sn_acl_map sn)) @
     writeIntBinary 8 (word_of_nat (length (sn_nodes sn)) - word_of_nat (length (getSystemNodesWithData ctx)) :: uint64) @
     write_nodes ctx (sn_version sn) (sn_zxid sn) (sn_nodes sn) @
     write_counted (write_session (sn_session_and_auth sn)) (sorted_entries (sn_session_and_timeout sn)) @
     (case sn_cluster_config sn of None \<Rightarrow> [] | Some c \<Rightarrow> write_sized (config_bytes c))"

section \<open>Deserialisation\<close>

datatype snapshot_exn = Reading wire_exn | Loading exn | UNKNOWN_FORMAT_VERSION

definition reading :: "wire_exn + 'a \<Rightarrow> snapshot_exn + 'a" where
  "reading r = (case r of Inl e \<Rightarrow> Inl (Reading e) | Inr x \<Rightarrow> Inr x)"

definition loading :: "exn + 'a \<Rightarrow> snapshot_exn + 'a" where
  "loading r = (case r of Inl e \<Rightarrow> Inl (Loading e) | Inr x \<Rightarrow> Inr x)"

definition read_acl_entry :: "(uint64 \<times> ACLs) reader" where
  "read_acl_entry inp =
     bindE (readIntBinary 8 inp) (\<lambda>(i, inp). bindE (read_counted read_snapshot_ACL inp) (\<lambda>(acls, inp). Inr ((i, acls), inp)))"

text \<open>What happens to a node that was read; system nodes are not loaded.\<close>

definition load_node :: "KeeperContext \<Rightarrow> bool \<Rightarrow> string \<Rightarrow> KeeperMemNode \<Rightarrow> KeeperStorage \<Rightarrow> exn + KeeperStorage" where
  "load_node ctx recalculate_digest path node s =
     (let ignoring = ignoreSystemPathOnStartup ctx \<or> \<not> phase_INIT ctx; match_result = matchPath path keeper_system_path
      in if match_result = IS_CHILD then (if ignoring then Inr s else Inl LOGICAL_ERROR)
         else
           bindE (if match_result = EXACT \<and> \<not> node_empty node
                  then (if ignoring then Inr KeeperMemNode_new else Inl LOGICAL_ERROR) else Inr node) (\<lambda>node.
             let s = (if ephemeralOwner node \<noteq> 0 then s\<lparr>ephemerals := map_emplace (ephemeralOwner node) path (ephemerals s)\<rparr> else s);
                 s = (if recalculate_digest then s\<lparr>nodes_digest := nodes_digest s + getDigest path node\<rparr> else s)
             in Inr (s\<lparr>container := ht_insertOrReplace (vo ctx) path node (container s)\<rparr>)))"

fun read_nodes :: "KeeperContext \<Rightarrow> SnapshotVersion \<Rightarrow> bool \<Rightarrow> nat \<Rightarrow> KeeperStorage \<Rightarrow> bytes \<Rightarrow> snapshot_exn + KeeperStorage \<times> bytes" where
  "read_nodes ctx version recalculate_digest 0 s inp = Inr (s, inp)"
| "read_nodes ctx version recalculate_digest (Suc k) s inp =
     bindE (reading (bindE (readVarUInt inp) (\<lambda>(size, inp). readStrict (unat size) inp))) (\<lambda>(path, inp).
       bindE (reading (readNode version (acl_map s) inp)) (\<lambda>((node, m), inp).
         bindE (loading (load_node ctx recalculate_digest (bytes_string path) node (s\<lparr>acl_map := m\<rparr>))) (\<lambda>s.
           read_nodes ctx version recalculate_digest k s inp)))"

text \<open>The names of the children are not stored.\<close>

fun link_children :: "KeeperContext \<Rightarrow> string list \<Rightarrow> KeeperStorage \<Rightarrow> exn + KeeperStorage" where
  "link_children ctx [] s = Inr s"
| "link_children ctx (path # rest) s =
     (if path = ''/'' then link_children ctx rest s
      else case parentNodePath path of
             None \<Rightarrow> Inl Undefined
           | Some parent \<Rightarrow>
               bindE (storage_update_value ctx parent (addChild (getBaseNodeName path)) s) (link_children ctx rest))"

fun read_sessions :: "int \<Rightarrow> SnapshotVersion \<Rightarrow> nat \<Rightarrow> KeeperStorage \<Rightarrow> bytes \<Rightarrow> snapshot_exn + KeeperStorage \<times> bytes" where
  "read_sessions now version 0 s inp = Inr (s, inp)"
| "read_sessions now version (Suc k) s inp =
     bindE (reading (readIntBinary 8 inp)) (\<lambda>(session_id, inp).
       bindE (reading (readIntBinary 8 inp)) (\<lambda>(timeout, inp).
         bindE (loading (addSessionID now session_id (sint (timeout :: int64)) s)) (\<lambda>s.
           bindE (reading (if 1 \<le> version then read_counted read_AuthID inp else Inr ([], inp))) (\<lambda>(ids, inp).
             read_sessions now version k
               (if ids \<noteq> [] then s\<lparr>session_and_auth := (session_and_auth s)(session_id := ids)\<rparr> else s) inp))))"

text \<open>The zxid and the digest, which old snapshots do not have.\<close>

definition read_zxid_digest :: "KeeperContext \<Rightarrow> SnapshotVersion \<Rightarrow> uint64 \<Rightarrow> KeeperStorage \<Rightarrow> bytes \<Rightarrow> wire_exn + (bool \<times> KeeperStorage) \<times> bytes" where
  "read_zxid_digest ctx version last_log_idx s inp =
     (if 5 \<le> version
      then
        bindE (readIntBinary 8 inp) (\<lambda>(z, inp).
          bindE (readIntBinary 1 inp) (\<lambda>(digest_version, inp).
            let s = s\<lparr>ks_zxid := z, old_snapshot_zxid := 0\<rparr>
            in if digest_version \<noteq> digest_code NO_DIGEST
               then bindE (readIntBinary 8 inp) (\<lambda>(digest, inp).
                      if digest_version = digest_code CURRENT_DIGEST_VERSION then Inr ((False, s\<lparr>nodes_digest := digest\<rparr>), inp)
                      else Inr ((digestEnabled ctx, s), inp))
               else Inr ((digestEnabled ctx, s), inp)))
      else Inr ((digestEnabled ctx, s\<lparr>ks_zxid := last_log_idx, old_snapshot_zxid := last_log_idx\<rparr>), inp))"

definition container_keys :: "KeeperStorage \<Rightarrow> string list" where
  "container_keys s = map (elem_key \<circ> snd) (ht_list (container s))"

definition deserialize ::
  "(bytes \<Rightarrow> exn + 'm) \<Rightarrow> ('m \<Rightarrow> uint64) \<Rightarrow> (bytes \<Rightarrow> exn + 'c) \<Rightarrow> KeeperContext \<Rightarrow> int \<Rightarrow> KeeperStorage \<Rightarrow> bytes \<Rightarrow>
     snapshot_exn + KeeperStorage \<times> 'm \<times> 'c option" where
  "deserialize meta_of_bytes last_log_idx config_of_bytes ctx now s inp =
     bindE (reading (readIntBinary 1 inp)) (\<lambda>(version, inp).
     if CURRENT_SNAPSHOT_VERSION < version then Inl UNKNOWN_FORMAT_VERSION
     else
     bindE (reading (read_sized inp)) (\<lambda>(bs, inp).
     bindE (loading (meta_of_bytes bs)) (\<lambda>meta.
     bindE (reading (read_zxid_digest ctx version (last_log_idx meta) s inp)) (\<lambda>((recalculate_digest, s), inp).
     bindE (reading (readIntBinary 8 inp)) (\<lambda>(session_id, inp).
     bindE (reading (if 1 \<le> version then read_counted read_acl_entry inp else Inr ([], inp))) (\<lambda>(acls, inp).
     bindE (reading (readIntBinary 8 inp)) (\<lambda>(size, inp).
       let s = s\<lparr>session_id_counter := session_id, acl_map := fold (\<lambda>(i, a). addMapping i a) acls (acl_map s)\<rparr>;
           s = (if recalculate_digest then s\<lparr>nodes_digest := 0\<rparr> else s)
       in
     bindE (read_nodes ctx version recalculate_digest (unat (size :: uint64)) s inp) (\<lambda>(s, inp).
     bindE (loading (link_children ctx (container_keys s) s)) (\<lambda>s.
     bindE (reading (readIntBinary 8 inp)) (\<lambda>(sessions, inp).
     bindE (read_sessions now version (unat (sessions :: uint64)) s inp) (\<lambda>(s, inp).
     if inp = [] then Inr (s, meta, None)
     else bindE (reading (read_sized inp)) (\<lambda>(bs, inp).
            bindE (loading (config_of_bytes bs)) (\<lambda>config. Inr (s, meta, Some config))))))))))))))"

definition deserializeSnapshotFromBuffer ::
  "(bytes \<Rightarrow> exn + 'm) \<Rightarrow> ('m \<Rightarrow> uint64) \<Rightarrow> (bytes \<Rightarrow> exn + 'c) \<Rightarrow> KeeperContext \<Rightarrow> int \<Rightarrow> int \<Rightarrow> bytes \<Rightarrow>
     snapshot_exn + KeeperStorage \<times> 'm \<times> 'c option" where
  "deserializeSnapshotFromBuffer meta_of_bytes last_log_idx config_of_bytes ctx now tick inp =
     bindE (loading (KeeperStorage_new ctx tick False)) (\<lambda>s.
       bindE (deserialize meta_of_bytes last_log_idx config_of_bytes ctx now s inp) (\<lambda>(s, meta, config).
         bindE (loading (initializeSystemNodes ctx s)) (\<lambda>s. Inr (s, meta, config))))"

section \<open>Round trips of the parts\<close>

lemma low_mask: "(0x7F :: 'a::len word) = mask 7"
  by (simp add: mask_eq_exp_minus_1)

lemma bit_continue: "bit (0x80 :: int) n \<longleftrightarrow> n = 7" "bit (0x80 :: nat) n \<longleftrightarrow> n = 7" "bit (0x80 :: byte) n \<longleftrightarrow> n = 7"
proof -
  have "(0x80 :: int) = 2 ^ 7" "(0x80 :: nat) = 2 ^ 7" "(0x80 :: byte) = 2 ^ 7" by simp_all
  then show "bit (0x80 :: int) n \<longleftrightarrow> n = 7" "bit (0x80 :: nat) n \<longleftrightarrow> n = 7" "bit (0x80 :: byte) n \<longleftrightarrow> n = 7"
    by (simp_all only: bit_exp_iff possible_bit_word possible_bit_int possible_bit_nat) auto
qed

lemma var_parts: "x AND 0x7F OR push_bit 7 (drop_bit 7 x) = (x :: uint64)"
  unfolding low_mask
proof (rule bit_word_eqI)
  show "bit (x AND mask 7 OR push_bit 7 (drop_bit 7 x)) n = bit x n" if "n < LENGTH(64)" for n
    using that by (cases "n < 7") (auto simp: bit_simps)
qed

lemma var_byte:
  fixes x :: uint64
  shows "ucast ((0x80 OR ucast (x AND 0x7F) :: byte) AND 0x7F) = x AND 0x7F" "(0x80 OR ucast (x AND 0x7F) :: byte) AND 0x80 \<noteq> 0"
proof -
  show "ucast ((0x80 OR ucast (x AND 0x7F) :: byte) AND 0x7F) = x AND 0x7F"
    unfolding low_mask by (rule bit_word_eqI) (auto simp: bit_simps bit_continue)
  have "bit ((0x80 OR ucast (x AND 0x7F) :: byte) AND 0x80) 7" by (simp add: bit_simps bit_continue)
  then show "(0x80 OR ucast (x AND 0x7F) :: byte) AND 0x80 \<noteq> 0" by (metis bit_0_eq bot_apply bot_bool_def)
qed

lemma var_last_byte:
  fixes x :: uint64
  assumes "\<not> 0x7F < x"
  shows "ucast ((ucast x :: byte) AND 0x7F) = x" "(ucast x :: byte) AND 0x80 = 0"
proof -
  have "unat (drop_bit 7 x) = 0" using assms by (simp add: word_less_nat_alt drop_bit_eq_div unat_div_distrib)
  then have x: "x AND mask 7 = x" using var_parts [of x] unfolding low_mask by (simp add: unat_eq_zero)
  have high: "\<not> bit x n" if "7 \<le> n" for n using that by (subst x [symmetric]) (simp add: bit_simps)
  show "ucast ((ucast x :: byte) AND 0x7F) = x"
    unfolding low_mask
  proof (rule bit_word_eqI)
    show "bit (ucast ((ucast x :: byte) AND mask 7) :: uint64) n = bit x n" if "n < LENGTH(64)" for n
      using that high [of n] by (cases "n < 7") (simp_all add: bit_simps)
  qed
  show "(ucast x :: byte) AND 0x80 = 0"
    by (rule bit_word_eqI) (use high [of 7] in \<open>auto simp: bit_simps bit_continue\<close>)
qed

lemma read_var_bytes_write:
  assumes "unat x < 2 ^ (7 * Suc k)"
  shows "read_var_bytes (Suc k) i acc (writeVarUInt x @ rest) = Inr (acc OR push_bit (7 * i) x, rest)"
  using assms
proof (induction x arbitrary: k i acc rule: writeVarUInt.induct)
  case (1 x)
  show ?case
  proof (cases "0x7F < x")
    case True
    then have "k \<noteq> 0" using 1(2) by (cases k) (simp_all add: word_less_nat_alt)
    then obtain k' where k': "k = Suc k'" by (cases k) auto
    have "unat (drop_bit 7 x) = unat x div 2 ^ 7" by (simp add: drop_bit_eq_div unat_div_distrib)
    also have "\<dots> < 2 ^ (7 * Suc k')" using 1(2) k' by (simp add: less_mult_imp_div_less power_add)
    finally have IH: "read_var_bytes (Suc k') (Suc i) acc' (writeVarUInt (drop_bit 7 x) @ rest) =
        Inr (acc' OR push_bit (7 * Suc i) (drop_bit 7 x), rest)" for acc'
      using 1(1) [OF True] by blast
    have "push_bit (7 * i) (x AND 0x7F) OR push_bit (7 * Suc i) (drop_bit 7 x) = push_bit (7 * i) x"
      using var_parts [of x] by (metis add.commute mult_Suc_right push_bit_or push_bit_push_bit)
    then show ?thesis
      using True IH var_byte [of x] k' by (subst writeVarUInt.simps) (simp add: Let_def or.assoc)
  next
    case False
    then show ?thesis using var_last_byte [OF False] by (subst writeVarUInt.simps) (simp add: Let_def)
  qed
qed

lemma readVarUInt_write: "readVarUInt (writeVarUInt x @ rest) = Inr (x, rest)"
proof -
  have "unat x < 2 ^ (7 * Suc 9)" using unsigned_less [of x] by (rule less_trans) simp
  from read_var_bytes_write [OF this, of 0 0 rest] show ?thesis by (simp add: readVarUInt_def numeral_eq_Suc)
qed

lemma tame_readIntBinary [intro!]: "tame n (readIntBinary k)"
  by (rule tame_eqI [OF readIntBinary_def]) (intro tame_bind tame_return tame_readStrict)

lemma tame_read_var_bytes: "tame n (read_var_bytes k i x)"
proof (induction k arbitrary: i x)
  case (Suc k)
  show ?case unfolding tame_def
  proof (intro allI impI)
    fix inp :: bytes assume l: "length inp \<le> n"
    show "read_var_bytes (Suc k) i x inp \<noteq> Inl OutOfFuel \<and>
      (\<forall>y rest. read_var_bytes (Suc k) i x inp = Inr (y, rest) \<longrightarrow> length rest \<le> length inp)"
    proof (cases inp)
      case (Cons b inp')
      have "length inp' \<le> n" using l Cons by simp
      from tameD [OF Suc.IH this] show ?thesis using Cons by (auto simp: Let_def intro: le_SucI)
    qed simp
  qed
qed (simp add: tame_def)

lemma tame_readVarUInt [intro!]: "tame n readVarUInt"
  by (rule tame_eqI [OF readVarUInt_def]) (rule tame_read_var_bytes)

interpretation varint_codec: wire_codec writeVarUInt readVarUInt "\<lambda>_. True"
  by unfold_locales (auto simp: readVarUInt_write)

abbreviation binary_string_fits :: "string \<Rightarrow> bool" where
  "binary_string_fits s \<equiv> length s \<le> DEFAULT_MAX_STRING_SIZE"

lemma readStrict_append [simp]: "readStrict n (bs @ rest) = Inr (bs, rest)" if "length bs = n" for bs
  using that by (simp add: readStrict_def)

lemma unat_length: "n < 2 ^ 64 \<Longrightarrow> unat (word_of_nat n :: uint64) = n"
  by (simp add: unsigned_of_nat take_bit_nat_eq_self)

lemma tame_readStringBinary [intro!]: "tame n readStringBinary"
  by (rule tame_eqI [OF readStringBinary_def]) (intro tame_bind tame_if tame_return tame_throw tame_readVarUInt tame_readStrict; simp)

interpretation binary_string_codec: wire_codec writeStringBinary readStringBinary binary_string_fits
proof
  fix s :: string and rest
  assume "binary_string_fits s"
  then show "readStringBinary (writeStringBinary s @ rest) = Inr (s, rest)"
    by (simp add: readStringBinary_def writeStringBinary_def varint_codec.read_write unat_length DEFAULT_MAX_STRING_SIZE_def)
qed auto

lemma tame_read_sized [intro!]: "tame n read_sized"
  by (rule tame_eqI [OF read_sized_def]) (intro tame_bind tame_readVarUInt tame_readStrict)

interpretation sized_codec: wire_codec write_sized read_sized "\<lambda>bs. length bs < 2 ^ 64"
  by unfold_locales (auto simp: write_sized_def read_sized_def varint_codec.read_write unat_length)

context wire_codec
begin

lemma counted_codec: "wire_codec (write_counted write_it) (read_counted read_it) (\<lambda>xs. length xs < 2 ^ 64 \<and> list_all fits xs)"
proof
  fix xs rest
  assume "length xs < 2 ^ 64 \<and> list_all fits xs"
  then show "read_counted read_it (write_counted write_it xs @ rest) = Inr (xs, rest)"
    by (simp add: read_counted_def write_counted_def readIntBinary_write unat_length elems_read_write)
next
  fix n
  show "tame n (read_counted read_it)"
    by (rule tame_eqI [OF read_counted_def]) (intro tame_bind tame_readIntBinary tame_elems tame)
qed

end

definition snapshot_ACL_fits :: "ACL \<Rightarrow> bool" where
  "snapshot_ACL_fits acl \<longleftrightarrow> binary_string_fits (scheme acl) \<and> binary_string_fits (acl_ident acl)"

lemma tame_read_snapshot_ACL: "tame n read_snapshot_ACL"
  by (rule tame_eqI [OF read_snapshot_ACL_def]) (intro tame_bind tame_return tame_readIntBinary tame_readStringBinary)

interpretation snapshot_ACL_codec: wire_codec write_snapshot_ACL read_snapshot_ACL snapshot_ACL_fits
  by unfold_locales
    (simp_all add: write_snapshot_ACL_def read_snapshot_ACL_def snapshot_ACL_fits_def readIntBinary_write
      binary_string_codec.read_write tame_read_snapshot_ACL)

definition AuthID_fits :: "AuthID \<Rightarrow> bool" where
  "AuthID_fits a \<longleftrightarrow> binary_string_fits (aid_scheme a) \<and> binary_string_fits (aid_id a)"

lemma tame_read_AuthID: "tame n read_AuthID"
  by (rule tame_eqI [OF read_AuthID_def]) (intro tame_bind tame_return tame_readStringBinary)

interpretation AuthID_codec: wire_codec write_AuthID read_AuthID AuthID_fits
  by unfold_locales
    (simp_all add: write_AuthID_def read_AuthID_def AuthID_fits_def binary_string_codec.read_write tame_read_AuthID)

abbreviation counted_fits :: "('a \<Rightarrow> bool) \<Rightarrow> 'a list \<Rightarrow> bool" where
  "counted_fits fits xs \<equiv> length xs < 2 ^ 64 \<and> list_all fits xs"

interpretation snapshot_ACLs_codec: wire_codec "write_counted write_snapshot_ACL" "read_counted read_snapshot_ACL" "counted_fits snapshot_ACL_fits"
  by (rule snapshot_ACL_codec.counted_codec)

interpretation AuthIDs_codec: wire_codec "write_counted write_AuthID" "read_counted read_AuthID" "counted_fits AuthID_fits"
  by (rule AuthID_codec.counted_codec)

lemma tame_read_acl_entry: "tame n read_acl_entry"
  by (rule tame_eqI [OF read_acl_entry_def]) (intro tame_bind tame_return tame_readIntBinary snapshot_ACLs_codec.tame)

interpretation acl_entry_codec: wire_codec write_acl_entry read_acl_entry "\<lambda>x. counted_fits snapshot_ACL_fits (snd x)"
  by unfold_locales
    (auto simp: write_acl_entry_def read_acl_entry_def readIntBinary_write snapshot_ACLs_codec.read_write tame_read_acl_entry)

interpretation acl_entries_codec: wire_codec "write_counted write_acl_entry" "read_counted read_acl_entry"
  "counted_fits (\<lambda>x. counted_fits snapshot_ACL_fits (snd x))"
  by (rule acl_entry_codec.counted_codec)

section \<open>Round trip of a node\<close>

text \<open>What is stored of a node, and the nodes that are read back as they were.\<close>

definition bare :: "KeeperMemNode \<Rightarrow> KeeperMemNode" where
  "bare n = n\<lparr>n_cached_digest := 0, n_children := []\<rparr>"

definition node_fits :: "KeeperMemNode \<Rightarrow> bool" where
  "node_fits n \<longleftrightarrow> length (n_data n) < 2 ^ 32 \<and> n_acl_id n \<noteq> -1 \<and> (n_is_ephemeral n \<longrightarrow> ephemeralOwner n \<noteq> 0)"

lemma loaded_node_fields:
  assumes "n_is_ephemeral n \<longrightarrow> ephemeralOwner n \<noteq> 0"
  shows "loaded_node (n_data n) (n_acl_id n) (n_czxid n) (n_mzxid n) (ctime n) (n_mtime n) (n_version n) (n_cversion n)
      (n_aversion n) (ephemeralOwner n) (numChildren n) (n_pzxid n) (seqNum n) = bare n"
proof -
  have ct: "ucast (ctime n) = n_ctime63 n"
    by (rule bit_word_eqI) (simp add: ctime_def bit_simps)
  show ?thesis
    using assms ct
    by (cases n) (auto simp: loaded_node_def bare_def ephemeralOwner_def numChildren_def seqNum_def setCtime_def setEphemeralOwner_def
        setNumChildren_def setSeqNum_def KeeperMemNode_new_def Let_def)
qed

lemma skip_bytes_write:
  "length bs = k \<Longrightarrow> skip_bytes b k ((if b then bs else []) @ rest) = Inr ((), rest)"
  by (simp add: skip_bytes_def)

lemma read_node_data_write: "length s < 2 ^ 32 \<Longrightarrow> read_node_data (writeStringBinary s @ rest) = Inr (s, rest)"
  by (simp add: read_node_data_def writeStringBinary_def varint_codec.read_write unat_length)

lemma readNode_write:
  assumes n: "node_fits n" and v: "1 \<le> version"
  shows "readNode version m (writeNode ctx version n @ rest) = Inr ((bare n, addUsage (n_acl_id n) m), rest)"
proof -
  have skip: "skip_bytes b 1 ((if b then writeIntBinary 1 (0 :: byte) else []) @ r) = Inr ((), r)"
    "skip_bytes b 4 ((if b then writeIntBinary 4 (l :: int32) else []) @ r) = Inr ((), r)"
    "skip_bytes b 8 ((if b then writeIntBinary 8 (z :: uint64) else []) @ r) = Inr ((), r)" for b r l z
    by (rule skip_bytes_write, simp)+
  have acl: "read_acl_id version m (writeIntBinary 8 (n_acl_id n) @ r) = Inr ((n_acl_id n, m), r)" for r
    using v by (simp add: read_acl_id_def readIntBinary_write)
  have id: "(if n_acl_id n = -1 then 0 else n_acl_id n) = n_acl_id n" using n by (simp add: node_fits_def)
  have data: "read_node_data (writeStringBinary (n_data n) @ r) = Inr (n_data n, r)" for r
    using n by (intro read_node_data_write) (simp add: node_fits_def)
  have node: "loaded_node (n_data n) (n_acl_id n) (n_czxid n) (n_mzxid n) (ctime n) (n_mtime n) (n_version n) (n_cversion n)
      (n_aversion n) (ephemeralOwner n) (numChildren n) (n_pzxid n) (seqNum n) = bare n"
    using n by (intro loaded_node_fields) (simp add: node_fits_def)
  show ?thesis
    unfolding readNode_def writeNode_def append_assoc data bindE_simps case_prod_conv acl id Let_def skip
    by (simp add: readIntBinary_write skip node split del: if_split)
qed

section \<open>Round trip of a snapshot\<close>

lemma reading_loading_simps [simp]:
  "reading (Inr x) = Inr x" "loading (Inr x) = Inr x" "reading (Inl e) = Inl (Reading e)" "loading (Inl e') = Inl (Loading e')"
  by (simp_all add: reading_def loading_def)

lemma bindE_assoc: "bindE (bindE m f) g = bindE m (\<lambda>x. bindE (f x) g)"
  by (cases m) simp_all

lemma loading_bind: "loading (bindE m f) = bindE (loading m) (\<lambda>x. loading (f x))"
  by (cases m) simp_all

lemma set_sorted_entries: "set (sorted_entries m) = {(k, v). m k = Some v}"
  by (force simp: sorted_entries_def image_image)

lemma distinct_sorted_entries: "distinct (map fst (sorted_entries m))"
proof -
  have "map fst (sorted_entries m) = map word_of_int (sorted_list_of_set (sint ` dom m))" by (simp add: sorted_entries_def comp_def)
  moreover have "inj_on (word_of_int :: int \<Rightarrow> int64) (set (sorted_list_of_set (sint ` dom m)))" by (auto intro!: inj_onI)
  ultimately show ?thesis by (simp add: distinct_map)
qed

definition not_system :: "string \<times> 'n \<Rightarrow> bool" where
  "not_system x \<longleftrightarrow> matchPath (fst x) keeper_system_path \<noteq> IS_CHILD"

definition write_entry :: "KeeperContext \<Rightarrow> SnapshotVersion \<Rightarrow> string \<times> KeeperMemNode \<Rightarrow> bytes" where
  "write_entry ctx version x = writeStringBinary (fst x) @ writeNode ctx version (snd x)"

lemma write_nodes_all:
  assumes "\<forall>x \<in> set xs. not_system x \<longrightarrow> n_mzxid (snd x) \<le>s z"
  shows "write_nodes ctx version z xs = concat (map (write_entry ctx version) (filter not_system xs))"
  using assms
  by (induction ctx version z xs rule: write_nodes.induct) (auto simp: write_entry_def not_system_def word_sle_eq word_sless_alt)

text \<open>What happens to the nodes and to the sessions that are read.\<close>

fun load_nodes :: "KeeperContext \<Rightarrow> bool \<Rightarrow> (string \<times> KeeperMemNode) list \<Rightarrow> KeeperStorage \<Rightarrow> exn + KeeperStorage" where
  "load_nodes ctx recalculate_digest [] s = Inr s"
| "load_nodes ctx recalculate_digest ((path, n) # rest) s =
     bindE (load_node ctx recalculate_digest path (bare n) (s\<lparr>acl_map := addUsage (n_acl_id n) (acl_map s)\<rparr>))
       (load_nodes ctx recalculate_digest rest)"

fun load_sessions :: "int \<Rightarrow> (int64 \<Rightarrow> AuthID list) \<Rightarrow> (int64 \<times> int) list \<Rightarrow> KeeperStorage \<Rightarrow> exn + KeeperStorage" where
  "load_sessions now auth [] s = Inr s"
| "load_sessions now auth ((sid, timeout) # rest) s =
     bindE (addSessionID now sid timeout s) (\<lambda>s.
       load_sessions now auth rest (if auth sid \<noteq> [] then s\<lparr>session_and_auth := (session_and_auth s)(sid := auth sid)\<rparr> else s))"

lemma read_path: "length p < 2 ^ 64 \<Longrightarrow>
   bindE (readVarUInt (writeStringBinary p @ rest)) (\<lambda>(size, inp). readStrict (unat size) inp) = Inr (string_bytes p, rest)"
  by (simp add: writeStringBinary_def varint_codec.read_write unat_length)

lemma read_nodes_write:
  assumes "\<forall>(p, n) \<in> set ys. length p < 2 ^ 64 \<and> node_fits n" "1 \<le> version"
  shows "read_nodes ctx version rd (length ys) s (concat (map (write_entry ctx version) ys) @ rest) =
     bindE (loading (load_nodes ctx rd ys s)) (\<lambda>s. Inr (s, rest))"
  using assms(1)
proof (induction ys arbitrary: s)
  case (Cons y ys)
  obtain p n where y: "y = (p, n)" by (cases y)
  then have p: "length p < 2 ^ 64" "node_fits n" using Cons.prems by auto
  let ?s = "s\<lparr>acl_map := addUsage (n_acl_id n) (acl_map s)\<rparr>"
  show ?case
    using Cons.IH Cons.prems
    by (cases "load_node ctx rd p (bare n) ?s")
      (simp_all add: y write_entry_def read_path [OF p(1)] readNode_write [OF p(2) assms(2)])
qed simp

lemma sint_word_of_int: "int64_fits t \<Longrightarrow> sint (word_of_int t :: int64) = t"
  by (simp add: int64_fits_def signed_take_bit_int_eq_self_iff sint_sbintrunc')

lemma read_sessions_write:
  assumes "\<forall>(sid, t) \<in> set xs. int64_fits t \<and> counted_fits AuthID_fits (auth sid)" "1 \<le> version"
  shows "read_sessions now version (length xs) s (concat (map (write_session auth) xs) @ rest) =
     bindE (loading (load_sessions now auth xs s)) (\<lambda>s. Inr (s, rest))"
  using assms(1)
proof (induction xs arbitrary: s)
  case (Cons x xs)
  obtain sid t where x: "x = (sid, t)" by (cases x)
  then have t: "int64_fits t" "counted_fits AuthID_fits (auth sid)" using Cons.prems by auto
  show ?case
    using Cons.IH Cons.prems assms(2)
    by (cases "addSessionID now sid t s")
      (simp_all add: x write_session_def readIntBinary_write sint_word_of_int [OF t(1)] AuthIDs_codec.read_write [OF t(2)])
qed simp

text \<open>Snapshots of the current version whose parts can be read back.\<close>

definition snapshot_fits :: "KeeperContext \<Rightarrow> ('m, 'c) KeeperStorageSnapshot \<Rightarrow> bool" where
  "snapshot_fits ctx sn \<longleftrightarrow>
     sn_version sn = CURRENT_SNAPSHOT_VERSION \<and> length (sn_nodes sn) < 2 ^ 64 \<and>
     length (filter not_system (sn_nodes sn)) + length (getSystemNodesWithData ctx) = length (sn_nodes sn) \<and>
     (\<forall>(p, n) \<in> set (filter not_system (sn_nodes sn)). length p < 2 ^ 64 \<and> node_fits n \<and> n_mzxid n \<le>s sn_zxid sn) \<and>
     counted_fits (\<lambda>x. counted_fits snapshot_ACL_fits (snd x)) (sorted_entries (sn_acl_map sn)) \<and>
     length (sorted_entries (sn_session_and_timeout sn)) < 2 ^ 64 \<and>
     (\<forall>(sid, t) \<in> set (sorted_entries (sn_session_and_timeout sn)).
        int64_fits t \<and> counted_fits AuthID_fits (sn_session_and_auth sn sid))"

text \<open>The storage before the nodes are loaded.\<close>

definition load_header :: "KeeperContext \<Rightarrow> ('m, 'c) KeeperStorageSnapshot \<Rightarrow> KeeperStorage \<Rightarrow> KeeperStorage" where
  "load_header ctx sn s =
     s\<lparr>ks_zxid := sn_zxid sn, old_snapshot_zxid := 0,
       nodes_digest := (if digestEnabled ctx then sn_nodes_digest sn else nodes_digest s),
       session_id_counter := sn_session_id sn,
       acl_map := fold (\<lambda>(i, a). addMapping i a) (sorted_entries (sn_acl_map sn)) (acl_map s)\<rparr>"

definition load_snapshot ::
  "KeeperContext \<Rightarrow> int \<Rightarrow> ('m, 'c) KeeperStorageSnapshot \<Rightarrow> KeeperStorage \<Rightarrow> exn + KeeperStorage" where
  "load_snapshot ctx now sn s =
     bindE (load_nodes ctx False (filter not_system (sn_nodes sn)) (load_header ctx sn s)) (\<lambda>s.
       bindE (link_children ctx (container_keys s) s)
         (load_sessions now (sn_session_and_auth sn) (sorted_entries (sn_session_and_timeout sn))))"

lemma read_zxid_digest_write:
  assumes "5 \<le> version"
  shows "read_zxid_digest ctx version idx s
     (writeIntBinary 8 (z :: int64) @
      (if digestEnabled ctx then writeIntBinary 1 (digest_code CURRENT_DIGEST_VERSION) @ writeIntBinary 8 (g :: uint64)
       else writeIntBinary 1 (digest_code NO_DIGEST)) @ rest) =
     Inr ((False, s\<lparr>ks_zxid := z, old_snapshot_zxid := 0, nodes_digest := (if digestEnabled ctx then g else nodes_digest s)\<rparr>), rest)"
  using assms
  by (simp add: read_zxid_digest_def readIntBinary_write readIntBinary_byte digest_code_def CURRENT_DIGEST_VERSION_def Let_def)

lemma write_sized_nonempty [simp]: "write_sized bs \<noteq> []"
  by (subst write_sized_def, subst writeVarUInt.simps) simp

lemma deserialize_serialize:
  assumes fits: "snapshot_fits ctx sn"
    and meta: "meta_of_bytes (meta_bytes (sn_meta sn)) = Inr (sn_meta sn)" "length (meta_bytes (sn_meta sn)) < 2 ^ 64"
    and config: "\<And>c. sn_cluster_config sn = Some c \<Longrightarrow> config_of_bytes (config_bytes c) = Inr c \<and> length (config_bytes c) < 2 ^ 64"
  shows "deserialize meta_of_bytes last_log_idx config_of_bytes ctx now s (serialize meta_bytes config_bytes ctx sn) =
     bindE (loading (load_snapshot ctx now sn s)) (\<lambda>s. Inr (s, sn_meta sn, sn_cluster_config sn))"
proof -
  let ?ys = "filter not_system (sn_nodes sn)" and ?xs = "sorted_entries (sn_session_and_timeout sn)"
  let ?acls = "sorted_entries (sn_acl_map sn)" and ?auth = "sn_session_and_auth sn"
  have f: "sn_version sn = 6" "length (sn_nodes sn) < 2 ^ 64" "length ?ys + length (getSystemNodesWithData ctx) = length (sn_nodes sn)"
    "\<forall>x \<in> set ?ys. length (fst x) < 2 ^ 64 \<and> node_fits (snd x) \<and> n_mzxid (snd x) \<le>s sn_zxid sn"
    "counted_fits (\<lambda>x. counted_fits snapshot_ACL_fits (snd x)) ?acls" "length ?xs < 2 ^ 64"
    "\<forall>x \<in> set ?xs. int64_fits (snd x) \<and> counted_fits AuthID_fits (?auth (fst x))"
    using fits unfolding snapshot_fits_def CURRENT_SNAPSHOT_VERSION_def case_prod_unfold by blast+
  have nodes: "write_nodes ctx 6 (sn_zxid sn) (sn_nodes sn) = concat (map (write_entry ctx 6) ?ys)"
    by (rule write_nodes_all) (use f(4) in fastforce)
  have "word_of_nat (length (sn_nodes sn)) - word_of_nat (length (getSystemNodesWithData ctx)) = (word_of_nat (length ?ys) :: uint64)"
    using f(3) by (metis add_diff_cancel_right' of_nat_add)
  moreover have "length ?ys < 2 ^ 64" using f(2,3) by linarith
  ultimately have count: "unat (word_of_nat (length (sn_nodes sn)) - word_of_nat (length (getSystemNodesWithData ctx)) :: uint64) = length ?ys"
    by (simp add: unat_length)
  have r: "read_nodes ctx 6 rd (length ?ys) s' (concat (map (write_entry ctx 6) ?ys) @ rest) =
      bindE (loading (load_nodes ctx rd ?ys s')) (\<lambda>s. Inr (s, rest))" for rd s' rest
    by (rule read_nodes_write) (use f(4) in \<open>simp_all add: case_prod_unfold\<close>)
  have ses: "read_sessions now 6 (length ?xs) s' (concat (map (write_session ?auth) ?xs) @ rest) =
      bindE (loading (load_sessions now ?auth ?xs s')) (\<lambda>s. Inr (s, rest))" for s' rest
    by (rule read_sessions_write) (use f(7) in \<open>simp_all add: case_prod_unfold\<close>)
  have acls: "read_counted read_acl_entry (write_counted write_acl_entry ?acls @ rest) = Inr (?acls, rest)" for rest
    using f(5) by (rule acl_entries_codec.read_write)
  have n: "unat (word_of_nat (length ?xs) :: uint64) = length ?xs" using f(6) by (rule unat_length)
  have zd: "read_zxid_digest ctx 6 idx s'
     (writeIntBinary 8 z @ (if digestEnabled ctx then writeIntBinary 1 (digest_code CURRENT_DIGEST_VERSION) @ writeIntBinary 8 g
      else writeIntBinary 1 (digest_code NO_DIGEST)) @ rest) =
     Inr ((False, s'\<lparr>ks_zxid := z, old_snapshot_zxid := 0, nodes_digest := (if digestEnabled ctx then g else nodes_digest s')\<rparr>), rest)" for idx s' z g rest
    by (rule read_zxid_digest_write) simp
  have sized: "read_sized (write_sized (meta_bytes (sn_meta sn)) @ rest) = Inr (meta_bytes (sn_meta sn), rest)" for rest
    using meta(2) by (rule sized_codec.read_write)
  have cfg: "(if (case sn_cluster_config sn of None \<Rightarrow> [] | Some c \<Rightarrow> write_sized (config_bytes c)) = [] then Inr (s', m, None)
       else bindE (reading (read_sized (case sn_cluster_config sn of None \<Rightarrow> [] | Some c \<Rightarrow> write_sized (config_bytes c)))) (\<lambda>(bs, inp).
              bindE (loading (config_of_bytes bs)) (\<lambda>config. Inr (s', m, Some config)))) = Inr (s', m, sn_cluster_config sn)" for s' :: KeeperStorage and m :: 'a
    using config sized_codec.read_write [where rest = "[]"] by (cases "sn_cluster_config sn") simp_all
  show ?thesis
    unfolding deserialize_def serialize_def f(1) append_assoc write_counted_def [of "write_session ?auth"]
    by (simp add: readIntBinary_byte sized meta zd readIntBinary_write acls count nodes r n ses cfg CURRENT_SNAPSHOT_VERSION_def Let_def
        bindE_assoc load_snapshot_def load_header_def loading_bind split del: if_split)
qed

end
