(* ===== verification/KeeperLoad.thy ===== *)
theory KeeperLoad
  imports KeeperSnapshots
begin

text \<open>
  What \<^verbatim>\<open>KeeperStorageSnapshot::deserialize\<close> does with the parts it has read: the nodes are inserted, with their
  ephemeral owners and the uses of their access control lists; then the names of the children are entered into their parents; then
  the sessions are added.
\<close>

section \<open>Loading the nodes\<close>

text \<open>After the nodes \<open>F\<close> were loaded into the storage \<open>s0\<close>, which has only a root.\<close>

definition load_inv :: "KeeperStorage \<Rightarrow> contents \<Rightarrow> KeeperStorage \<Rightarrow> bool" where
  "load_inv s0 F s \<longleftrightarrow>
     ht_inv (container s) \<and> \<not> snapshot_mode (container s) \<and> snapshot_invalid_iters (container s) = [] \<and>
     contents_of s = [[slash] \<mapsto> KeeperMemNode_new] ++ F \<and>
     (\<forall>sid. eph_entry (ephemerals s sid) (eph_set F sid)) \<and>
     (\<forall>i. usage (acl_map s) i = word_of_nat (card (users F i))) \<and> (\<forall>i c. usage_counter (acl_map s) i = Some c \<longrightarrow> c \<noteq> 0) \<and>
     acl_map s = (acl_map s0)\<lparr>usage_counter := usage_counter (acl_map s)\<rparr> \<and>
     s = s0\<lparr>container := container s, ephemerals := ephemerals s, acl_map := acl_map s\<rparr>"

lemma load_invD:
  assumes "load_inv s0 F s"
  shows "ht_inv (container s)" "\<not> snapshot_mode (container s)" "snapshot_invalid_iters (container s) = []"
    "contents_of s = [[slash] \<mapsto> KeeperMemNode_new] ++ F" "eph_entry (ephemerals s sid) (eph_set F sid)"
    "usage (acl_map s) i = word_of_nat (card (users F i))" "usage_counter (acl_map s) i = Some c \<Longrightarrow> c \<noteq> 0"
    "acl_map s = (acl_map s0)\<lparr>usage_counter := usage_counter (acl_map s)\<rparr>"
    "s = s0\<lparr>container := container s, ephemerals := ephemerals s, acl_map := acl_map s\<rparr>"
  using assms unfolding load_inv_def by blast+

lemma insertOrReplace_modes:
  assumes "\<not> snapshot_mode t"
  shows "\<not> snapshot_mode (ht_insertOrReplace ops k v t)" "snapshot_invalid_iters (ht_insertOrReplace ops k v t) = snapshot_invalid_iters t"
  using assms by (auto simp: ht_insertOrReplace_def list_push_back_def list_modify_def Let_def split: option.splits)

lemma bare_facts [simp]:
  "node_copy (bare n) = bare n" "node_assign KeeperMemNode_new (bare n) = bare n" "ephemeralOwner (bare n) = ephemeralOwner n"
  "n_is_ephemeral (bare n) = n_is_ephemeral n" "n_acl_id (bare n) = n_acl_id n" "core (bare n) = core n" "node_empty (bare n) = node_empty n"
  "n_children (bare n) = []" "n_cached_digest (bare n) = 0"
  by (simp_all add: bare_def node_copy_def node_assign_def KeeperMemNode_new_def ephemeralOwner_def core_def node_empty_def)

lemma eph_entry_insert:
  assumes "eph_entry e ps"
  shows "eph_entry (Some (set_emplace p (case e of None \<Rightarrow> [] | Some xs \<Rightarrow> xs))) (insert p ps)"
  using assms by (auto simp: eph_entry_def set_emplace_def split: option.splits)

definition loadable :: "string \<Rightarrow> KeeperMemNode \<Rightarrow> bool" where
  "loadable p n \<longleftrightarrow> (user_path p \<or> p = keeper_system_path \<and> node_empty n) \<and> (n_is_ephemeral n \<longrightarrow> ephemeralOwner n \<noteq> 0)"

lemma load_node_ok:
  assumes inv: "load_inv s0 F s" and F: "F p = None" "finite (dom F)" "Suc (card (dom F)) < 2 ^ 64" and n: "loadable p n"
  shows "\<exists>s'. load_node ctx False p (bare n) (s\<lparr>acl_map := addUsage (n_acl_id n) (acl_map s)\<rparr>) = Inr s' \<and> load_inv s0 (F(p \<mapsto> bare n)) s'"
proof -
  let ?i = "n_acl_id n" and ?F = "F(p \<mapsto> bare n)" and ?m = "addUsage (n_acl_id n) (acl_map s)"
  let ?c = "ht_insertOrReplace (vo ctx) p (bare n) (container s)"
  let ?e = "if ephemeralOwner n \<noteq> 0 then map_emplace (ephemeralOwner n) p (ephemerals s) else ephemerals s"
  let ?s = "s\<lparr>acl_map := ?m, ephemerals := ?e, container := ?c\<rparr>"
  note i = load_invD [OF inv]
  have k: "matchPath keeper_system_path keeper_system_path = EXACT" by (simp add: matchPath_def strip_slash_def keeper_system_path_def)
  have load: "load_node ctx False p (bare n) (s\<lparr>acl_map := ?m\<rparr>) = Inr ?s"
    using n k by (auto simp: load_node_def loadable_def user_path_def Let_def)
  have old: "n' = KeeperMemNode_new" if "contents_of s p = Some n'" for n'
    using that i(4) F(1) by (auto simp: map_add_def split: if_splits)
  have cont: "contents_of ?s = [[slash] \<mapsto> KeeperMemNode_new] ++ ?F"
  proof -
    obtain v where v: "v = node_copy (bare n) \<or> (\<exists>old. ht_find (container s) p = Some old \<and> v = node_assign old (bare n))"
      "ht_find ?c = (ht_find (container s))(p \<mapsto> v)"
      using ht_find_insertOrReplace [of "container s" "vo ctx" "bare n" p] i(1) by auto
    then have "v = bare n" using old by (auto simp: contents_of_def)
    then show ?thesis using v(2) i(4) by (simp add: contents_of_def)
  qed
  have eph: "eph_entry (?e sid) (eph_set ?F sid)" for sid
  proof -
    have "eph_set ?F sid = (if ephemeralOwner n \<noteq> 0 \<and> ephemeralOwner n = sid then insert p (eph_set F sid) else eph_set F sid)"
      using n F(1) not_ephemeral_owner [of n] by (auto simp: eph_set_def loadable_def)
    then show ?thesis using i(5) eph_entry_insert by (auto simp: map_emplace_def)
  qed
  have u: "users ?F j = (if j = ?i then insert p (users F j) else users F j)" for j using F(1) by (auto simp: users_def)
  have "p \<notin> users F j" for j using F(1) by (simp add: users_def)
  then have card: "card (users ?F j) = card (users F j) + (if j = ?i then 1 else 0)" for j using F(2) by (simp add: u)
  have "card (users F ?i) \<le> card (dom F)" using card_mono [OF F(2) users_sub] .
  then have "word_of_nat (Suc (card (users F ?i))) \<noteq> (0 :: uint64)"
    using F(3) by (simp only: word_of_nat_eq_0_iff) (auto dest!: dvd_imp_le)
  then have "usage ?m ?i \<noteq> 0" by (simp add: i(6) add.commute)
  then have nz: "c \<noteq> 0" if "usage_counter ?m j = Some c" for j c
    using that i(7) by (auto simp: addUsage_def usage_def split: if_splits)
  have "load_inv s0 ?F ?s"
    unfolding load_inv_def
  proof (intro conjI allI impI)
    show "usage (acl_map ?s) j = word_of_nat (card (users ?F j))" for j using card [of j] by (simp add: i(6))
    show "acl_map ?s = (acl_map s0)\<lparr>usage_counter := usage_counter (acl_map ?s)\<rparr>"
      by (simp add: addUsage_def) (subst i(8), simp)
    show "?s = s0\<lparr>container := container ?s, ephemerals := ephemerals ?s, acl_map := acl_map ?s\<rparr>" by (subst i(9)) simp
  qed (use cont eph nz insertOrReplace_modes [OF i(2)] ht_inv_insertOrReplace [OF i(1)] i(3) in simp_all)
  then show ?thesis using load by blast
qed

definition bare_map :: "(string \<times> KeeperMemNode) list \<Rightarrow> contents" where
  "bare_map ys = map_of (map (\<lambda>(p, n). (p, bare n)) ys)"

lemma dom_bare_map [simp]: "dom (bare_map ys) = set (map fst ys)"
  by (simp add: bare_map_def dom_map_of_conv_image_fst image_image case_prod_unfold)

lemma bare_map_None: "p \<notin> set (map fst ys) \<Longrightarrow> bare_map ys p = None"
  by (metis dom_bare_map domIff)

lemma bare_map_distinct: "distinct (map fst ys) \<Longrightarrow> bare_map ys p = map_option bare (map_of ys p)"
  by (induction ys) (auto simp: bare_map_def)

lemma load_nodes_ok:
  assumes "load_inv s0 F s" "finite (dom F)" "card (dom F) + length ys < 2 ^ 64" "distinct (map fst ys)"
    "\<forall>(p, n) \<in> set ys. F p = None \<and> loadable p n"
  shows "\<exists>s'. load_nodes ctx False ys s = Inr s' \<and> load_inv s0 (F ++ bare_map ys) s'"
  using assms
proof (induction ys arbitrary: F s)
  case (Cons y ys)
  obtain p n where y: "y = (p, n)" by (cases y)
  have p: "F p = None" "loadable p n" "Suc (card (dom F)) < 2 ^ 64" using Cons.prems(3,5) y by auto
  obtain s1 where s1: "load_node ctx False p (bare n) (s\<lparr>acl_map := addUsage (n_acl_id n) (acl_map s)\<rparr>) = Inr s1"
    "load_inv s0 (F(p \<mapsto> bare n)) s1"
    using load_node_ok [OF Cons.prems(1) p(1) Cons.prems(2) p(3,2)] by blast
  have "card (insert p (dom F)) = Suc (card (dom F))" using Cons.prems(2) p(1) by (simp add: domIff)
  then have c: "card (dom (F(p \<mapsto> bare n))) + length ys < 2 ^ 64" using Cons.prems(3) by simp
  have d: "finite (dom (F(p \<mapsto> bare n)))" "distinct (map fst ys)" using Cons.prems(2,4) by simp_all
  have k: "\<forall>(q, m) \<in> set ys. (F(p \<mapsto> bare n)) q = None \<and> loadable q m"
  proof clarify
    fix q m assume q: "(q, m) \<in> set ys"
    then have "q \<noteq> p" using Cons.prems(4) y by force
    then show "(F(p \<mapsto> bare n)) q = None \<and> loadable q m" using Cons.prems(5) q by auto
  qed
  obtain s' where s': "load_nodes ctx False ys s1 = Inr s'" "load_inv s0 (F(p \<mapsto> bare n) ++ bare_map ys) s'"
    using Cons.IH [OF s1(2) d(1) c d(2) k] by blast
  have "bare_map ys p = None" using Cons.prems(4) y by (intro bare_map_None) simp
  then have "F(p \<mapsto> bare n) ++ bare_map ys = F ++ bare_map (y # ys)"
    using y by (auto simp: bare_map_def map_add_def fun_eq_iff split: option.split)
  then show ?case using s1(1) s' y by simp
qed (simp add: bare_map_def)

section \<open>Linking the children\<close>

text \<open>After the paths \<open>P\<close> were linked: the nodes \<open>F\<close>, with the names of the children.\<close>

definition names_of :: "string set \<Rightarrow> string \<Rightarrow> string set" where
  "names_of P q = getBaseNodeName ` {p \<in> P. p \<noteq> [slash] \<and> parentNodePath p = Some q}"

lemma names_of_insert:
  "names_of (insert p P) q = (if p \<noteq> [slash] \<and> parentNodePath p = Some q then insert (getBaseNodeName p) (names_of P q) else names_of P q)"
  by (auto simp: names_of_def)

definition relinked :: "string set \<Rightarrow> KeeperMemNode \<Rightarrow> KeeperMemNode \<Rightarrow> bool" where
  "relinked cs n m \<longleftrightarrow>
     core n = core m \<and> n_acl_id n = n_acl_id m \<and> n_cached_digest n = 0 \<and> distinct (n_children n) \<and> set (n_children n) = cs"

definition link_inv :: "contents \<Rightarrow> string set \<Rightarrow> KeeperStorage \<Rightarrow> KeeperStorage \<Rightarrow> bool" where
  "link_inv F P s0 s \<longleftrightarrow>
     ht_inv (container s) \<and> s = s0\<lparr>container := container s\<rparr> \<and>
     (\<forall>q. rel_option (relinked (names_of P q)) (contents_of s q) (F q))"

lemma link_child:
  assumes inv: "link_inv F P s0 s" and p: "p \<noteq> [slash]" "parentNodePath p = Some q" "F q \<noteq> None"
  shows "\<exists>s'. storage_update_value ctx q (addChild (getBaseNodeName p)) s = Inr s' \<and> link_inv F (insert p P) s0 s'"
proof -
  have i: "ht_inv (container s)" "s = s0\<lparr>container := container s\<rparr>" "rel_option (relinked (names_of P r)) (contents_of s r) (F r)" for r
    using inv unfolding link_inv_def by blast+
  obtain m where m: "F q = Some m" using p(3) by blast
  obtain n where n: "contents_of s q = Some n" "relinked (names_of P q) n m" using i(3) [of q] m by (auto simp: option_rel_Some2)
  obtain c n' where u: "storage_update_value ctx q (addChild (getBaseNodeName p)) s = Inr (s\<lparr>container := c\<rparr>)" "ht_inv c"
    "n' = n \<or> n' = node_copy n" "ht_find c = (contents_of s)(q \<mapsto> addChild (getBaseNodeName p) n')"
    using update_value_ok [OF i(1) n(1)] by blast
  let ?s = "s\<lparr>container := c\<rparr>"
  have "rel_option (relinked (names_of (insert p P) r)) (contents_of ?s r) (F r)" for r
  proof (cases "r = q")
    case True
    then show ?thesis using u(3,4) m n(2) p by (auto simp: contents_of_def names_of_insert relinked_def)
  next
    case False
    then have "contents_of ?s r = contents_of s r" using u(4) by (simp add: contents_of_def)
    then show ?thesis using i(3) [of r] False p(2) by (simp add: names_of_insert)
  qed
  moreover have "?s = s0\<lparr>container := container ?s\<rparr>" by (subst i(2)) simp
  ultimately have "link_inv F (insert p P) s0 ?s" using u(2) unfolding link_inv_def by simp
  then show ?thesis using u(1) by blast
qed

lemma link_children_ok:
  assumes "link_inv F P s0 s" "\<forall>p \<in> set ks. p \<noteq> [slash] \<longrightarrow> (\<exists>q. parentNodePath p = Some q \<and> F q \<noteq> None)"
  shows "\<exists>s'. link_children ctx ks s = Inr s' \<and> link_inv F (P \<union> set ks) s0 s'"
  using assms
proof (induction ks arbitrary: P s)
  case (Cons p ks)
  show ?case
  proof (cases "p = [slash]")
    case True
    have "link_inv F (insert p P) s0 s" using Cons.prems(1) True unfolding link_inv_def by (simp add: names_of_insert)
    then show ?thesis using Cons.IH [of "insert p P" s] Cons.prems(2) True by simp
  next
    case False
    obtain q where q: "parentNodePath p = Some q" "F q \<noteq> None" using Cons.prems(2) False by auto
    obtain s1 where s1: "storage_update_value ctx q (addChild (getBaseNodeName p)) s = Inr s1" "link_inv F (insert p P) s0 s1"
      using link_child [OF Cons.prems(1) False q] by blast
    then show ?thesis using Cons.IH [OF s1(2)] Cons.prems(2) False q by simp
  qed
qed simp

section \<open>Loading the sessions\<close>

definition sessions_loaded ::
  "(int64 \<Rightarrow> AuthID list) \<Rightarrow> (int64 \<times> int) list \<Rightarrow> SessionExpiryQueue \<Rightarrow> KeeperStorage \<Rightarrow> KeeperStorage" where
  "sessions_loaded auth xs q s =
     s\<lparr>session_and_timeout := session_and_timeout s ++ map_of xs, session_expiry_queue := q,
       session_and_auth := (\<lambda>sid. if sid \<in> fst ` set xs \<and> auth sid \<noteq> [] then auth sid else session_and_auth s sid)\<rparr>"

lemma addSessionID_ok:
  assumes "queue_inv (session_expiry_queue s)" "queue_in_range (now + t) (session_expiry_queue s)" "session_and_timeout s sid = None"
  shows "\<exists>q. addSessionID now sid t s = Inr (s\<lparr>session_and_timeout := (session_and_timeout s)(sid \<mapsto> t), session_expiry_queue := q\<rparr>) \<and>
     queue_inv q \<and> expiration_interval q = expiration_interval (session_expiry_queue s)"
proof -
  have fits: "int64_fits (now + t)" using assms(2) by (simp add: queue_in_range_def int64_fits_def)
  obtain r where r: "roundToNextInterval (now + t) (session_expiry_queue s) = Inr r"
    using roundToNextInterval_in_range [OF assms(2)] by blast
  obtain q where "addNewSessionOrUpdate now sid t (session_expiry_queue s) = Inr q" "queue_inv q"
    "expiration_interval q = expiration_interval (session_expiry_queue s)"
    using addNewSessionOrUpdate_spec [OF assms(1) fits r] by blast
  then show ?thesis using assms(3) by (intro exI [of _ q]) (simp add: addSessionID_def)
qed

lemma load_sessions_ok:
  assumes "queue_inv (session_expiry_queue s)" "\<forall>(sid, t) \<in> set xs. queue_in_range (now + t) (session_expiry_queue s)"
    "distinct (map fst xs)" "\<forall>x \<in> set xs. session_and_timeout s (fst x) = None"
  shows "\<exists>q. load_sessions now auth xs s = Inr (sessions_loaded auth xs q s) \<and> queue_inv q"
  using assms
proof (induction xs arbitrary: s)
  case Nil
  have "sessions_loaded auth [] (session_expiry_queue s) s = s" by (simp add: sessions_loaded_def)
  then show ?case using Nil by (intro exI [of _ "session_expiry_queue s"]) simp
next
  case (Cons x xs)
  obtain sid t where x: "x = (sid, t)" by (cases x)
  have t: "queue_in_range (now + t) (session_expiry_queue s)" "session_and_timeout s sid = None" using Cons.prems(2,4) x by auto
  obtain q where q: "addSessionID now sid t s = Inr (s\<lparr>session_and_timeout := (session_and_timeout s)(sid \<mapsto> t), session_expiry_queue := q\<rparr>)"
    "queue_inv q" "expiration_interval q = expiration_interval (session_expiry_queue s)"
    using addSessionID_ok [OF Cons.prems(1) t] by blast
  define s1 where "s1 = s\<lparr>session_and_timeout := (session_and_timeout s)(sid \<mapsto> t), session_expiry_queue := q,
    session_and_auth := (if auth sid \<noteq> [] then (session_and_auth s)(sid := auth sid) else session_and_auth s)\<rparr>"
  have step: "load_sessions now auth (x # xs) s = load_sessions now auth xs s1" by (simp add: x q(1) s1_def)
  have sid: "sid \<notin> fst ` set xs" using Cons.prems(3) x by simp
  have a: "queue_inv (session_expiry_queue s1)" "distinct (map fst xs)" using q(2) Cons.prems(3) by (simp_all add: s1_def)
  have b: "\<forall>(sid, t) \<in> set xs. queue_in_range (now + t) (session_expiry_queue s1)"
    using Cons.prems(2) q(3) by (auto simp: s1_def queue_in_range_def)
  have c: "\<forall>x \<in> set xs. session_and_timeout s1 (fst x) = None" using Cons.prems(4) sid by (auto simp: s1_def)
  obtain q' where q': "load_sessions now auth xs s1 = Inr (sessions_loaded auth xs q' s1)" "queue_inv q'"
    using Cons.IH [OF a(1) b a(2) c] by blast
  have "map_of xs sid = None" using sid by (simp add: map_of_eq_None_iff)
  then have "sessions_loaded auth xs q' s1 = sessions_loaded auth (x # xs) q' s"
    using sid x by (auto simp: sessions_loaded_def s1_def map_add_def fun_eq_iff split: option.split)
  then show ?case using step q' by auto
qed

end
