(* ===== verification/KeeperRestore.thy ===== *)
theory KeeperRestore
  imports KeeperLoad KeeperExamples
begin

text \<open>
  Restoring a storage from a snapshot: the snapshot of a reachable storage, serialised and deserialised, gives a storage that
  satisfies the invariant with an empty log and has the same committed content, zxid, sessions and digest. A replica that
  starts from the snapshot then follows the replicas that did not.
\<close>

section \<open>What never changes, and the zxids of modifications\<close>

text \<open>Every node was modified no later than \<open>z\<close> and its data has a size of 32 bits.\<close>

definition sound_node :: "int64 \<Rightarrow> KeeperMemNode \<Rightarrow> bool" where
  "sound_node z n \<longleftrightarrow> n_mzxid n \<le>s z \<and> length (n_data n) < 2 ^ 32"

definition linked :: "tree \<Rightarrow> bool" where
  "linked t \<longleftrightarrow> t keeper_system_path \<noteq> None \<and>
     (\<forall>p. t p \<noteq> None \<longrightarrow> p \<noteq> [slash] \<longrightarrow> (\<exists>q. parentNodePath p = Some q \<and> t q \<noteq> None))"

definition sound_tree :: "int64 \<Rightarrow> tree \<Rightarrow> bool" where
  "sound_tree z t \<longleftrightarrow> linked t \<and> (\<forall>p n. t p = Some n \<longrightarrow> sound_node z n)"

lemma tree_wf_linked: "tree_wf t \<Longrightarrow> linked t"
  using tree_wfD(3,5) unfolding linked_def by fastforce

lemma sound_node_updates [simp]:
  "sound_node z (create_parent_update c y n) = sound_node z n" "sound_node z (remove_parent_update n) = sound_node z n"
  "sound_node z (parent_pzxid_update y n) = sound_node z n" "sound_node z (set_parent_update n) = sound_node z n"
  "sound_node z (aversion_update n) = sound_node z n" "sound_node z ((remove_parent_update ^^ k) n) = sound_node z n"
proof -
  show r: "sound_node z (remove_parent_update n) = sound_node z n" for n :: KeeperMemNode
    by (simp add: sound_node_def KeeperTree.update_defs node_defs)
  show "sound_node z ((remove_parent_update ^^ k) n) = sound_node z n" by (induction k) (simp_all add: r)
qed (simp_all add: sound_node_def KeeperTree.update_defs node_defs Let_def)

lemma sound_node_set [simp]: "sound_node z (set_node_update z data time n)"
  by (simp add: sound_node_def set_node_update_def setData_def word_sle_eq)

lemma sound_node_created [simp]: "sound_node z (created_node (create_stat z time owner) data)"
  by (simp add: sound_node_def created_node_def setData_def copyStats_def create_stat_def setCtime_def setNumChildren_def
      setEphemeralOwner_def Let_def word_sle_eq)

lemma sound_node_core [simp]: "sound_node z (core n) = sound_node z n"
  by (simp add: sound_node_def core_def)

lemma linked_dom: "linked t \<Longrightarrow> dom t' = dom t \<Longrightarrow> linked t'"
  unfolding linked_def domIff [symmetric] by simp

lemma linked_insert:
  assumes "linked t" "parentNodePath p = Some q" "t q \<noteq> None"
  shows "linked (t(q \<mapsto> m, p \<mapsto> n))"
proof -
  have d: "(t(q \<mapsto> m, p \<mapsto> n)) x \<noteq> None \<longleftrightarrow> x = p \<or> t x \<noteq> None" for x using assms(3) by auto
  show ?thesis using assms unfolding linked_def d by blast
qed

lemma linked_no_kids:
  assumes "linked t" "kids t p = {}" "t p \<noteq> None"
  shows "p \<noteq> [slash]" "\<exists>q pn. parentNodePath p = Some q \<and> t q = Some pn"
proof -
  have "keeper_system_path \<in> kids t [slash]" using assms(1) keeper_system_path_facts by (auto simp: kids_def linked_def)
  then show "p \<noteq> [slash]" using assms(2) by auto
  then show "\<exists>q pn. parentNodePath p = Some q \<and> t q = Some pn" using assms(1,3) by (fastforce simp: linked_def)
qed

lemma sound_create:
  assumes t: "sound_tree z t" and r: "slash \<in> set (cr_path r)" "spec_create fixed r z sid time t = Inr t'"
  shows "sound_tree z t'"
proof -
  let ?q = "the (parentNodePath (cr_path r))"
  obtain pn where pn: "t ?q = Some pn" using r(2) by (auto simp: spec_create_def Let_def split: option.splits)
  define p where "p = (if cr_is_sequential r then cr_path r @ seq_num_str (seqNum pn) else cr_path r)"
  have "parentNodePath (cr_path r) = Some ?q" using r(1) parentNodePath_None [of "cr_path r"] by (cases "parentNodePath (cr_path r)") auto
  then have q: "parentNodePath p = Some ?q" using parentNodePath_append [OF _ seq_num_no_slash] by (simp add: p_def)
  have "t' = t \<or> t' = t(?q \<mapsto> create_parent_update (cr_parent_cversion r) z pn,
      p \<mapsto> created_node (create_stat z time (if cr_is_ephemeral r then sid else 0)) (cr_data r))"
    using r(2) pn unfolding spec_create_def Let_def by (simp add: p_def [symmetric] split: if_splits)
  then show ?thesis using t linked_insert [OF _ q] pn by (auto simp: sound_tree_def split: if_splits)
qed

lemma sound_remove:
  assumes t: "sound_tree z t" and r: "spec_remove p v restored z t = Inr t'"
  shows "sound_tree z t'"
proof -
  have p: "user_path p" "t p \<noteq> None" "kids t p = {}" using r by (auto simp: spec_remove_def Let_def split: option.splits if_splits)
  have l: "linked t" using t by (simp add: sound_tree_def)
  obtain q pn where q: "parentNodePath p = Some q" "t q = Some pn" using linked_no_kids(2) [OF l p(3,2)] by blast
  have t': "t' = t(q \<mapsto> remove_parent_update (if restored then parent_pzxid_update z pn else pn), p := None)"
    using r p q by (auto simp: spec_remove_def Let_def split: option.splits if_splits)
  have kept: "parentNodePath x \<noteq> Some p" if "t x \<noteq> None" "x \<noteq> [slash]" for x using p(3) that by (auto simp: kids_def)
  have "linked t'" unfolding linked_def
  proof (intro conjI allI impI)
    show "t' keeper_system_path \<noteq> None" using l p(1) keeper_system_path_facts(3) by (auto simp: t' linked_def)
    fix x assume x: "t' x \<noteq> None" "x \<noteq> [slash]"
    then have "t x \<noteq> None" using q(2) by (auto simp: t' split: if_splits)
    then obtain y where "parentNodePath x = Some y" "t y \<noteq> None" using l x(2) unfolding linked_def by blast
    then show "\<exists>y. parentNodePath x = Some y \<and> t' y \<noteq> None" using kept [OF \<open>t x \<noteq> None\<close> x(2)] by (auto simp: t')
  qed
  then show ?thesis using t q(2) by (auto simp: sound_tree_def t' split: if_splits)
qed

lemma sound_plain:
  assumes t: "sound_tree z t" and req: "valid_plain sid req" "spec_plain fx z sid time req t = Inr t'"
  shows "sound_tree z t'"
proof (cases req)
  case (CreateRequest r)
  then show ?thesis using sound_create [OF t] req by (auto simp: spec_plain_def valid_plain_def)
next
  case (RemoveRequest p v b)
  then show ?thesis using sound_remove [OF t] req(2) by (simp add: spec_plain_def)
next
  case (SetRequest p data v)
  then obtain n where n: "t p = Some n" and t': "t' = (t(p \<mapsto> set_node_update z data time n))
      (the (parentNodePath p) := map_option set_parent_update ((t(p \<mapsto> set_node_update z data time n)) (the (parentNodePath p))))"
    using req(2) by (auto simp: spec_plain_def spec_set_def Let_def split: option.splits if_splits)
  have "dom t' = dom t" unfolding t' using n by (auto simp: domIff)
  then have "linked t'" using t linked_dom [of t t'] by (simp add: sound_tree_def)
  then show ?thesis using t unfolding sound_tree_def by (auto simp: t' split: if_splits)
next
  case (SetACLRequest p acls v)
  then obtain n where n: "t p = Some n" and t': "t' = t(p \<mapsto> aversion_update n)"
    using req(2) by (auto simp: spec_plain_def spec_set_acl_def split: option.splits if_splits)
  have "dom t' = dom t" unfolding t' using n by auto
  then have "linked t'" using t linked_dom [of t t'] by (simp add: sound_tree_def)
  then show ?thesis using t n unfolding sound_tree_def by (auto simp: t' split: if_splits)
qed (use t req(2) in \<open>auto simp: spec_plain_def spec_read_def spec_check_def split: option.splits if_splits bool.splits\<close>)

lemma sound_multi:
  "sound_tree z t \<Longrightarrow> \<forall>r \<in> set rs. valid_plain sid r \<Longrightarrow> spec_multi fx z sid time rs t = Inr t' \<Longrightarrow> sound_tree z t'"
proof (induction rs arbitrary: t)
  case (Cons r rs)
  obtain t1 where "spec_plain fx z sid time r t = Inr t1" "spec_multi fx z sid time rs t1 = Inr t'"
    using Cons.prems(3) by (auto split: sum.splits)
  then show ?case using Cons.IH [of t1] sound_plain [OF Cons.prems(1), of sid r fx time t1] Cons.prems(2) by simp
qed simp

lemma sound_close: "sound_tree z t \<Longrightarrow> spec_close sid t p = Some n \<Longrightarrow> sound_node z n"
  by (auto simp: spec_close_def spec_remove_all_def sound_tree_def split: if_splits)

lemma sound_entry:
  assumes e: "entry_ok e t" and wf: "tree_wf (spec_entry e t)" and t: "sound_tree z t" "z <s e_zxid e"
  shows "sound_tree (e_zxid e) (spec_entry e t)"
proof -
  have t1: "sound_tree (e_zxid e) t"
    using t by (fastforce simp: sound_tree_def sound_node_def word_sle_eq word_sless_alt)
  have v: "valid_request (e_session e) (e_req e)" using e by (simp add: entry_ok_def)
  consider (close) "e_req e = CloseRequest" | (multi) rs k where "e_req e = MultiRequest rs k"
    | (plain) "e_req e \<noteq> CloseRequest" "\<nexists>rs k. e_req e = MultiRequest rs k" by blast
  then show ?thesis
  proof cases
    case close
    then have s: "spec_entry e t = spec_close (e_session e) t" by (simp add: spec_entry_def)
    then show ?thesis using sound_close [OF t1] tree_wf_linked [OF wf] unfolding sound_tree_def by auto
  next
    case multi
    then have "\<forall>r \<in> set rs. valid_plain (e_session e) r" using v by (simp add: valid_request_def)
    then show ?thesis using sound_multi [OF t1] multi t1 by (auto simp: spec_entry_def split: sum.split)
  next
    case plain
    then have p: "valid_plain (e_session e) (e_req e)" using v by (cases "e_req e") (auto simp: valid_request_def)
    have "spec_entry e t = (if denied e then t
        else tree_after (spec_plain (e_fix e) (e_zxid e) (e_session e) (e_time e) (e_req e) t) t)"
      using plain by (cases "e_req e") (auto simp: spec_entry_def)
    then show ?thesis using sound_plain [OF t1 p] t1 by (auto simp: tree_after_def split: sum.split)
  qed
qed

text \<open>The system nodes and their empty lists.\<close>

definition system_ok :: "KeeperContext \<Rightarrow> tree \<Rightarrow> (string \<rightharpoonup> ACLs) \<Rightarrow> bool" where
  "system_ok ctx t a \<longleftrightarrow>
     (\<forall>p. \<not> user_path p \<longrightarrow> t p = new_tree ctx p \<and> a p = map_option (\<lambda>_. []) (new_tree ctx p))"

lemma replay_system: "enabled_all ds t \<Longrightarrow> \<not> user_path p \<Longrightarrow> replay ds t p = t p"
proof (induction ds arbitrary: t)
  case (Cons d ds)
  have "tstep d t p = t p" using Cons.prems by (cases "d_operation d") (auto simp: enabled_def tstep_def)
  then show ?case using Cons by simp
qed simp

lemma spec_acls_system:
  assumes "spec_plain fx z sid time req t = Inr t'" "\<not> user_path p"
  shows "spec_acls fx req t a p = a p"
proof (cases req)
  case (CreateRequest r)
  then show ?thesis
    using assms by (auto simp: spec_plain_def spec_create_def spec_acls_def created_path_def Let_def split: option.splits if_splits)
qed (use assms in \<open>auto simp: spec_plain_def spec_remove_def spec_set_acl_def spec_acls_def split: option.splits if_splits\<close>)

lemma acls_after_system: "\<not> user_path p \<Longrightarrow> acls_after fx z sid time req t a p = a p"
  using spec_acls_system by (auto simp: acls_after_def split: sum.split)

lemma multi_acls_system: "\<not> user_path p \<Longrightarrow> multi_acls fx z sid time rs t a p = a p"
  by (induction rs arbitrary: t a) (simp_all add: acls_after_system)

lemma spec_entry_acls_system:
  assumes "tree_wf t" "\<not> user_path p"
  shows "spec_entry_acls e t a p = a p"
proof -
  have "p \<notin> owned sid t" for sid using tree_wfD(8) [OF assms(1)] assms(2) by (auto simp: owned_def)
  then show ?thesis
    using assms(2) by (simp add: spec_entry_acls_def close_acls_def acls_after_system multi_acls_system split: Request.split sum.split)
qed

definition settled :: "KeeperContext \<Rightarrow> KeeperStorage \<Rightarrow> bool" where
  "settled ctx s \<longleftrightarrow> sound_tree (ks_zxid s) (ctree s) \<and> system_ok ctx (ctree s) (atree s)"

lemma settled_commit:
  assumes inv: "log_inv ctx s (e # L)" and s: "settled ctx s"
    and s': "log_inv ctx s' L" "ctree s' = spec_entry e (ctree s)" "atree s' = spec_entry_acls e (ctree s) (atree s)" "ks_zxid s' = e_zxid e"
  shows "settled ctx s'"
proof -
  note l = log_invD [OF inv] and f = log_first [OF inv]
  have "ks_zxid s <s e_zxid e" using l(9) by (simp add: zlt_def word_sless_alt)
  then have "sound_tree (ks_zxid s') (ctree s')"
    using sound_entry [OF f(1), of "ks_zxid s"] log_invD(5) [OF s'(1)] s s'(2,4) by (simp add: settled_def)
  moreover have "enabled_all (e_deltas e) (ctree s)" using l(2,7) by (simp add: us_inv_def enabled_all_append)
  then have "ctree s' p = ctree s p" if "\<not> user_path p" for p using replay_system that f(2) s'(2) by metis
  moreover have "atree s' p = atree s p" if "\<not> user_path p" for p using spec_entry_acls_system [OF l(5) that] s'(3) by simp
  ultimately show ?thesis using s by (simp add: settled_def system_ok_def)
qed

lemma keeper_step_zxid:
  assumes inv: "log_inv ctx s L" and st: "keeper_step ctx (s, L) ev (s', L')"
  shows "ks_zxid s' = (case ev of Commit e \<Rightarrow> e_zxid e | _ \<Rightarrow> ks_zxid s)"
  using st
proof (cases rule: keeper_step.cases)
  case (step_append z req sid time check_acl digest log_idx r e)
  from preprocessRequest_ok [OF inv step_append(3-7), of time check_acl digest log_idx] step_append show ?thesis by auto
next
  case (step_commit now e zk check_acl rs)
  then show ?thesis using processRequest_ok [of ctx s e L' now zk check_acl] inv by auto
next
  case (step_drop e allow_missing)
  then show ?thesis using rollbackRequest_ok [of ctx s L' e allow_missing] inv by auto
next
  case (step_read now sid zk check_acl rs)
  from local_request_ok [OF inv step_read(3-6) refl, of check_acl] step_read show ?thesis by auto
next
  case (step_session now timeout sid)
  then show ?thesis using getSessionID_ok(6) [OF inv] by simp
qed (simp_all add: storage_enableSnapshotMode_def storage_disableSnapshotMode_def clearGarbageAfterSnapshot_def)

lemma settled_step:
  assumes inv: "log_inv ctx s L" and st: "keeper_step ctx (s, L) ev (s', L')" and s: "settled ctx s"
  shows "log_inv ctx s' L' \<and> settled ctx s'"
proof (cases "\<exists>e. ev = Commit e")
  case True
  then obtain e where e: "ev = Commit e" ..
  from keeper_commit_law [OF inv st [unfolded e]]
  have c: "L = e # L'" "log_inv ctx s' L'" "ctree s' = spec_entry e (ctree s)" "atree s' = spec_entry_acls e (ctree s) (atree s)"
    by (simp_all add: storage_content_def spec_step_def)
  then show ?thesis using settled_commit [OF inv [unfolded c(1)] s c(2-4)] keeper_step_zxid [OF inv st] e by simp
next
  case False
  then have "log_inv ctx s' L' \<and> storage_content s' = storage_content s"
    using keeper_append_law [OF inv, of _ s' L'] keeper_drop_law [OF inv, of _ s' L'] keeper_internal_law [OF inv, of s' L'] st
    by (cases ev) auto
  moreover have "ks_zxid s' = ks_zxid s" using keeper_step_zxid [OF inv st] False by (cases ev) auto
  ultimately show ?thesis using s by (simp add: settled_def storage_content_def)
qed

lemma settled_trace:
  "trace (keeper_step ctx) x es y \<Longrightarrow> log_inv ctx (fst x) (snd x) \<Longrightarrow> settled ctx (fst x) \<Longrightarrow> settled ctx (fst y)"
proof (induction rule: trace.induct)
  case (trace_Cons x a y as z)
  then show ?case using settled_step [of ctx "fst x" "snd x" a "fst y" "snd y"] by simp
qed simp

lemma new_settled:
  assumes "system_nodes_ok ctx" "KeeperStorage_new ctx tick True = Inr s"
  shows "settled ctx s"
proof -
  have s: "log_inv ctx s []" "ks_zxid s = 0" "acl_map s = ACLMap_empty" "ctree s = new_tree ctx"
    using KeeperStorage_new_ok [OF assms(1), of tick] assms(2) by auto
  note l = log_invD [OF s(1)]
  have "sound_node 0 n" if "new_tree ctx p = Some n" for p n
    using that new_tree_nodes(2) [OF that]
    by (auto simp: sound_node_def new_tree_def map_add_Some_iff setData_def increaseNumChildren_def setNumChildren_def KeeperMemNode_new_def
        word_sle_eq split: if_splits dest!: system_tree_of_new)
  then have "sound_tree 0 (ctree s)" using tree_wf_linked [OF l(5)] s(4) by (simp add: sound_tree_def)
  moreover have "atree s p = map_option (\<lambda>_. []) (ctree s p)" for p
  proof (cases "contents_of s p")
    case (Some n)
    then have "acl_lookup ACLMap_empty (n_acl_id n) \<noteq> None" using cinv_facts(7) [OF l(1)] s(3) by (auto simp: acls_ok_def)
    then have "n_acl_id n = 0" by (simp add: acl_lookup_def ACLMap_empty_def split: if_splits)
    then show ?thesis using Some by (simp add: atree_def acl_tree_def ctree_contents acl_lookup_def)
  qed (simp add: atree_def acl_tree_def ctree_contents)
  ultimately show ?thesis using s(2,4) by (simp add: settled_def system_ok_def)
qed

lemma reachable_settled: "reachable ctx s L \<Longrightarrow> settled ctx s"
  using settled_trace new_settled new_inv unfolding reachable_def by fastforce

section \<open>Loading the access control lists\<close>

abbreviation load_mappings :: "(uint64 \<times> ACLs) list \<Rightarrow> ACLMap \<Rightarrow> ACLMap" where
  "load_mappings \<equiv> fold (\<lambda>(i, a). addMapping i a)"

lemma load_mappings_maps:
  "distinct (map fst es) \<Longrightarrow> num_to_acl (load_mappings es m) = num_to_acl m ++ map_of es"
  "distinct (map snd es) \<Longrightarrow> acl_to_num (load_mappings es m) = acl_to_num m ++ map_of (map (\<lambda>(i, a). (a, i)) es)"
  "usage_counter (load_mappings es m) = usage_counter m"
proof -
  show "distinct (map fst es) \<Longrightarrow> num_to_acl (load_mappings es m) = num_to_acl m ++ map_of es"
    by (induction es arbitrary: m) (auto simp: addMapping_def map_add_upd_left dom_map_of_conv_image_fst)
  show "distinct (map snd es) \<Longrightarrow> acl_to_num (load_mappings es m) = acl_to_num m ++ map_of (map (\<lambda>(i, a). (a, i)) es)"
    by (induction es arbitrary: m) (auto simp: addMapping_def map_add_upd_left dom_map_of_conv_image_fst image_image case_prod_unfold)
  show "usage_counter (load_mappings es m) = usage_counter m"
    by (induction es arbitrary: m) (auto simp: addMapping_def)
qed

lemma load_mappings_max:
  assumes "\<forall>(i, a) \<in> set es. i \<noteq> -1" "max_acl_id m \<noteq> 0"
  shows "max_acl_id m \<le> max_acl_id (load_mappings es m)" "(i, a) \<in> set es \<Longrightarrow> i < max_acl_id (load_mappings es m)"
proof -
  have "max_acl_id m \<le> max_acl_id (load_mappings es m) \<and> (\<forall>(i, a) \<in> set es. i < max_acl_id (load_mappings es m))"
    using assms(1)
  proof (induction es arbitrary: m)
    case (Cons e es)
    obtain i a where e: "e = (i, a)" by (cases e)
    let ?m = "addMapping i a m"
    have IH: "max_acl_id ?m \<le> max_acl_id (load_mappings es ?m)" "\<forall>(i, a) \<in> set es. i < max_acl_id (load_mappings es ?m)"
      using Cons.IH [of ?m] Cons.prems by simp_all
    have "max_acl_id m \<le> max_acl_id ?m" "i + 1 \<le> max_acl_id ?m" by (simp_all add: addMapping_def)
    moreover have "i < i + 1" using Cons.prems e by (intro word_self_less_succ) simp
    ultimately show ?case using IH e by (auto intro: order_trans order_less_le_trans)
  qed simp
  then show "max_acl_id m \<le> max_acl_id (load_mappings es m)" "(i, a) \<in> set es \<Longrightarrow> i < max_acl_id (load_mappings es m)" by auto
qed

lemma map_eqI:
  assumes "\<And>k v. f k = Some v \<longleftrightarrow> g k = Some v"
  shows "f = g"
proof
  fix k show "f k = g k" by (metis assms not_Some_eq)
qed

lemma mappings_restored:
  assumes inv: "acl_inv m" and m0: "m0 = load_mappings (sorted_entries (num_to_acl m)) ACLMap_empty"
  shows "num_to_acl m0 = num_to_acl m" "acl_to_num m0 = acl_to_num m" "usage_counter m0 = Map.empty" "max_acl_id m0 \<noteq> 0"
    "num_to_acl m i = Some a \<Longrightarrow> i < max_acl_id m0"
proof -
  let ?es = "sorted_entries (num_to_acl m)"
  note i = acl_inv_facts [OF inv]
  have e: "(i, a) \<in> set ?es \<longleftrightarrow> num_to_acl m i = Some a" for i a by (simp add: set_sorted_entries)
  have d: "distinct (map fst ?es)" by (rule distinct_sorted_entries)
  have "inj_on snd (set ?es)" using i(1) by (auto intro!: inj_onI simp: set_sorted_entries)
  then have d2: "distinct (map snd ?es)" using d by (simp add: distinct_map)
  have "map_of ?es i = Some a \<longleftrightarrow> num_to_acl m i = Some a" for i a using map_of_eq_Some_iff [OF d] e by simp
  then have "map_of ?es = num_to_acl m" by (rule map_eqI)
  then show "num_to_acl m0 = num_to_acl m" using load_mappings_maps(1) [OF d, of ACLMap_empty] by (simp add: m0 ACLMap_empty_def)
  have "map_of (map (\<lambda>(i, a). (a, i)) ?es) a = Some i \<longleftrightarrow> acl_to_num m a = Some i" for a i
  proof -
    have dd: "distinct (map fst (map (\<lambda>(i, a). (a, i)) ?es))" using d2 by (simp add: comp_def case_prod_unfold)
    have "map_of (map (\<lambda>(i, a). (a, i)) ?es) a = Some i \<longleftrightarrow> (a, i) \<in> (\<lambda>(i, a). (a, i)) ` set ?es"
      using map_of_eq_Some_iff [OF dd] by simp
    also have "\<dots> \<longleftrightarrow> (i, a) \<in> set ?es" by (auto intro: rev_image_eqI)
    finally show ?thesis using e i(1) by simp
  qed
  then have "map_of (map (\<lambda>(i, a). (a, i)) ?es) = acl_to_num m" by (rule map_eqI)
  then show "acl_to_num m0 = acl_to_num m" using load_mappings_maps(2) [OF d2, of ACLMap_empty] by (simp add: m0 ACLMap_empty_def)
  show "usage_counter m0 = Map.empty" using load_mappings_maps(3) by (simp add: m0 ACLMap_empty_def)
  have "i \<noteq> -1" if "num_to_acl m i = Some a" for i a using i(4) [OF that] word_order.extremum_strict [of "max_acl_id m"] by metis
  then have n1: "\<forall>(i, a) \<in> set ?es. i \<noteq> -1" using e by blast
  have one: "max_acl_id ACLMap_empty = 1" by (simp add: ACLMap_empty_def)
  show "max_acl_id m0 \<noteq> 0" using load_mappings_max(1) [OF n1, of ACLMap_empty] one by (auto simp: m0)
  show "num_to_acl m i = Some a \<Longrightarrow> i < max_acl_id m0" using load_mappings_max(2) [OF n1, of ACLMap_empty i a] one e by (simp add: m0)
qed

section \<open>The nodes of a snapshot\<close>

lemma table_entries:
  assumes "ht_inv t" "snapshot_invalid_iters t = []" "es = map (\<lambda>p. (elem_key (snd p), elem_value (snd p))) (ht_list t)"
  shows "distinct (map fst es)" "map_of es = ht_find t"
proof -
  show d: "distinct (map fst es)" using ht_list_live_keys(1) [OF assms(1,2)] by (simp add: assms(3) comp_def)
  have "(k, v) \<in> set es \<longleftrightarrow> ht_find t k = Some v" for k v
  proof -
    have mem: "(it, e) \<in> set (ht_list t) \<longleftrightarrow> deref t it = Some e" for it e
      using assms(1) by (simp add: deref_def ht_inv_def map_of_eq_Some_iff)
    have "(k, v) \<in> set es \<longleftrightarrow> (\<exists>it e. deref t it = Some e \<and> elem_key e = k \<and> elem_value e = v)"
      unfolding assms(3) mem [symmetric] set_map image_iff Bex_def split_paired_Ex by auto
    moreover have "ht_map t (elem_key e) = Some it" if "deref t it = Some e" for it e
      using assms(1,2) that unfolding ht_inv_def by simp
    moreover have "elem_key e = k" if "ht_map t k = Some it" "deref t it = Some e" for it e using ht_map_SomeD [OF assms(1) that(1)] that(2) by simp
    ultimately show ?thesis unfolding ht_find_Some [OF assms(1)] by blast
  qed
  then show "map_of es = ht_find t" using map_of_eq_Some_iff [OF d] by (intro map_eqI) simp
qed

text \<open>The tree without the nodes below the system node, which a snapshot leaves out.\<close>

definition visible :: "tree \<Rightarrow> tree" where
  "visible t = t |` {p. matchPath p keeper_system_path \<noteq> IS_CHILD}"

lemma visible_apply: "visible t p = (if matchPath p keeper_system_path = IS_CHILD then None else t p)"
  by (simp add: visible_def restrict_map_def)

lemma not_child_facts [simp]:
  "matchPath keeper_system_path keeper_system_path = EXACT" "matchPath [slash] keeper_system_path = NOT_MATCH"
  "user_path p \<Longrightarrow> matchPath p keeper_system_path \<noteq> IS_CHILD"
  using keeper_system_path_facts(4) by (simp_all add: matchPath_def strip_slash_def keeper_system_path_def user_path_def)

lemma new_tree_below:
  assumes "system_nodes_ok ctx"
  shows "new_tree ctx p \<noteq> None \<and> matchPath p keeper_system_path = IS_CHILD \<longleftrightarrow> p \<in> set (map fst (getSystemNodesWithData ctx))"
    "\<not> user_path p \<Longrightarrow> matchPath p keeper_system_path \<noteq> IS_CHILD \<Longrightarrow> new_tree ctx p = (if p = keeper_system_path then Some KeeperMemNode_new else None)"
    "matchPath p keeper_system_path = IS_CHILD \<Longrightarrow> new_tree ctx p = system_tree_of (getSystemNodesWithData ctx) p"
proof -
  let ?sys = "getSystemNodesWithData ctx"
  have sys: "matchPath q keeper_system_path = IS_CHILD" if "q \<in> set (map fst ?sys)" for q
    using assms that system_node_path_facts(4) unfolding system_nodes_ok_def by blast
  have dom: "system_tree_of ?sys q \<noteq> None \<longleftrightarrow> q \<in> set (map fst ?sys)" for q using dom_system_tree_of [of ?sys] by (metis domIff)
  show 3: "matchPath p keeper_system_path = IS_CHILD \<Longrightarrow> new_tree ctx p = system_tree_of ?sys p"
    by (auto simp: new_tree_def map_add_def split: option.split)
  show "new_tree ctx p \<noteq> None \<and> matchPath p keeper_system_path = IS_CHILD \<longleftrightarrow> p \<in> set (map fst ?sys)"
    using 3 sys [of p] dom [of p] by metis
  assume p: "\<not> user_path p" "matchPath p keeper_system_path \<noteq> IS_CHILD"
  then have "system_tree_of ?sys p = None" "p \<noteq> [slash]" using sys dom keeper_system_path_facts(4) by blast+
  then show "new_tree ctx p = (if p = keeper_system_path then Some KeeperMemNode_new else None)" by (simp add: new_tree_def map_add_def)
qed

lemma visible_parent:
  assumes wf: "tree_wf t" and p: "visible t p = Some n" "p \<noteq> [slash]" and sys: "\<not> user_path p \<Longrightarrow> p = keeper_system_path"
  shows "\<exists>q pn. parentNodePath p = Some q \<and> visible t q = Some pn \<and> \<not> n_is_ephemeral pn"
proof -
  have t: "t p = Some n" using p(1) by (simp add: visible_apply split: if_splits)
  obtain q pn where q: "parentNodePath p = Some q" "t q = Some pn" "\<not> n_is_ephemeral pn" using tree_wfD(5) [OF wf t p(2)] by blast
  have "matchPath q keeper_system_path \<noteq> IS_CHILD"
  proof (cases "user_path p")
    case True
    then show ?thesis using user_path_parent [OF True q(1) tree_wfD(4) [OF wf t p(2)]] by simp
  next
    case False
    then have "q = [slash]" using sys q(1) keeper_system_path_facts(1) by simp
    then show ?thesis by simp
  qed
  then show ?thesis using q by (simp add: visible_apply)
qed

lemma visible_wf:
  assumes wf: "tree_wf t" and sys: "\<And>p. t p \<noteq> None \<Longrightarrow> matchPath p keeper_system_path = IS_CHILD \<Longrightarrow> parentNodePath p = Some keeper_system_path"
    "\<And>p. t p \<noteq> None \<Longrightarrow> \<not> user_path p \<Longrightarrow> matchPath p keeper_system_path \<noteq> IS_CHILD \<Longrightarrow> p = keeper_system_path"
  shows "tree_wf (visible t)"
proof (rule tree_wfI)
  note w = tree_wfD [OF wf]
  have v: "t p = Some n" if "visible t p = Some n" for p n using that by (simp add: visible_apply split: if_splits)
  show "finite (dom (visible t))" using w(1) v by (auto intro: rev_finite_subset)
  show "\<exists>r. visible t [slash] = Some r \<and> \<not> n_is_ephemeral r" using w(2) by (simp add: visible_apply)
  show "visible t keeper_system_path \<noteq> None" using w(3) by (simp add: visible_apply)
  show "getBaseNodeName p \<noteq> [] \<and> has_parent (visible t) p" if p: "visible t p = Some n" "p \<noteq> [slash]" for p n
  proof -
    have "\<not> user_path p \<Longrightarrow> p = keeper_system_path" using sys(2) p(1) v [OF p(1)] by (auto simp: visible_apply split: if_splits)
    from visible_parent [OF wf p this] show ?thesis using w(4) [OF v [OF p(1)] p(2)] by (simp add: has_parent_def)
  qed
  show "numChildren n = word_of_nat (card (kids (visible t) p))" if p: "visible t p = Some n" "\<not> n_is_ephemeral n" "user_path p" for p n
  proof -
    have "matchPath x keeper_system_path \<noteq> IS_CHILD" if "t x \<noteq> None" "parentNodePath x = Some p" for x
      using sys(1) [OF that(1)] that(2) p(3) keeper_system_path_facts(3) by auto
    then have "kids (visible t) p = kids t p" by (auto simp: kids_def visible_apply split: if_splits)
    then show ?thesis using w(6) [OF v [OF p(1)] p(2,3)] by simp
  qed
  show "ephemeralOwner n \<noteq> 0 \<and> user_path p" if "visible t p = Some n" "n_is_ephemeral n" for p n using w(7,8) v that by blast
qed

lemma visible_digest:
  assumes "finite (dom t)"
  shows "tree_digest (visible t) = tree_digest t"
proof -
  have "(\<Sum>p \<in> dom t. digest_weight p (the (t p))) = (\<Sum>p \<in> dom (visible t). digest_weight p (the (visible t p)))"
    using assms by (intro sum.mono_neutral_cong_right) (auto simp: visible_apply digest_weight_def split: if_splits)
  then show ?thesis by (simp add: tree_digest_def tr.csum_def)
qed

text \<open>The limits of the format.\<close>

definition storage_fits :: "KeeperStorage \<Rightarrow> bool" where
  "storage_fits s \<longleftrightarrow>
     card (dom (ctree s)) < 2 ^ 64 \<and> (\<forall>p. ctree s p \<noteq> None \<longrightarrow> length p < 2 ^ 64) \<and>
     (\<forall>i acls. num_to_acl (acl_map s) i = Some acls \<longrightarrow> counted_fits snapshot_ACL_fits acls) \<and>
     card (dom (session_and_timeout s)) < 2 ^ 64 \<and>
     (\<forall>sid t. session_and_timeout s sid = Some t \<longrightarrow> int64_fits t \<and> counted_fits AuthID_fits (session_and_auth s sid))"

lemma map_of_filter_key: "map_of (filter (\<lambda>x. Q (fst x)) xs) k = (if Q k then map_of xs k else None)"
  by (induction xs) auto

lemma length_sorted_entries: "length (sorted_entries m) = card (dom m)"
proof -
  have "inj_on (sint :: int64 \<Rightarrow> int) (dom m)" by (rule inj_onI) (erule signed_word_eqI)
  then show ?thesis by (simp add: sorted_entries_def card_image)
qed

lemma take_snapshot_fields:
  assumes "sn = fst (take_snapshot meta config s)"
  shows "sn_version sn = CURRENT_SNAPSHOT_VERSION" "sn_meta sn = meta" "sn_session_id sn = session_id_counter s"
    "sn_nodes sn = map (\<lambda>p. (elem_key (snd p), elem_value (snd p))) (ht_list (container s))"
    "sn_session_and_timeout sn = session_and_timeout s" "sn_session_and_auth sn = session_and_auth s"
    "sn_acl_map sn = num_to_acl (acl_map s)" "sn_cluster_config sn = config" "sn_zxid sn = ks_zxid s" "sn_nodes_digest sn = nodes_digest s"
  by (simp_all add: assms take_snapshot_def ht_snapshotSizeWithVersion_def snapshot_view_def storage_enableSnapshotMode_def ht_enableSnapshotMode_def)

lemma acl_id_fits:
  assumes "acls_ok m F" "F p = Some n"
  shows "n_acl_id n \<noteq> -1"
proof (cases "n_acl_id n = 0")
  case False
  then obtain a where "num_to_acl m (n_acl_id n) = Some a" using assms by (fastforce simp: acls_ok_def acl_lookup_def)
  then have "n_acl_id n < max_acl_id m" using assms(1) acl_inv_facts(4) by (auto simp: acls_ok_def)
  then show ?thesis using word_order.extremum_strict [of "max_acl_id m"] by metis
qed simp

text \<open>A storage in the state in which snapshots are taken.\<close>

definition quiescent :: "KeeperContext \<Rightarrow> KeeperStorage \<Rightarrow> bool" where
  "quiescent ctx s \<longleftrightarrow>
     cinv ctx s \<and> names_ok (ctree s) (names s) \<and> proper (ctree s) \<and> tree_wf (ctree s) \<and> settled ctx s \<and> system_nodes_ok ctx \<and>
     snapshot_invalid_iters (container s) = []"

lemma quiescentD:
  assumes "quiescent ctx s"
  shows "cinv ctx s" "names_ok (ctree s) (names s)" "proper (ctree s)" "tree_wf (ctree s)" "system_nodes_ok ctx"
    "snapshot_invalid_iters (container s) = []" "sound_tree (ks_zxid s) (ctree s)"
    "\<not> user_path p \<Longrightarrow> ctree s p = new_tree ctx p" "\<not> user_path p \<Longrightarrow> atree s p = map_option (\<lambda>_. []) (ctree s p)"
  using assms by (simp_all add: quiescent_def settled_def system_ok_def)

lemma reachable_quiescent:
  assumes "reachable ctx s L" "snapshot_invalid_iters (container s) = []"
  shows "quiescent ctx s"
proof -
  have "system_nodes_ok ctx" using assms(1) by (auto simp: reachable_def)
  then show ?thesis using reachable_settled [OF assms(1)] log_invD [OF reachable_inv [OF assms(1)]] assms(2) by (simp add: quiescent_def)
qed

lemma below_system:
  assumes q: "quiescent ctx s"
  shows "ctree s p \<noteq> None \<and> matchPath p keeper_system_path = IS_CHILD \<longleftrightarrow> p \<in> set (map fst (getSystemNodesWithData ctx))"
    "ctree s p \<noteq> None \<Longrightarrow> matchPath p keeper_system_path = IS_CHILD \<Longrightarrow> parentNodePath p = Some keeper_system_path"
    "ctree s p = Some n \<Longrightarrow> \<not> user_path p \<Longrightarrow> matchPath p keeper_system_path \<noteq> IS_CHILD \<Longrightarrow> p = keeper_system_path \<and> n = KeeperMemNode_new"
    "ctree s = visible (ctree s) ++ system_tree_of (getSystemNodesWithData ctx)"
proof -
  note d = quiescentD [OF q]
  have u: "\<not> user_path p" if "matchPath p keeper_system_path = IS_CHILD" for p using that by (simp add: user_path_def)
  show 1: "ctree s p \<noteq> None \<and> matchPath p keeper_system_path = IS_CHILD \<longleftrightarrow> p \<in> set (map fst (getSystemNodesWithData ctx))" for p
    using new_tree_below(1) [OF d(5)] d(8) u by metis
  show "parentNodePath p = Some keeper_system_path" if "ctree s p \<noteq> None" "matchPath p keeper_system_path = IS_CHILD"
    using that 1 [of p] d(5) system_node_path_facts(1) unfolding system_nodes_ok_def by blast
  show "p = keeper_system_path \<and> n = KeeperMemNode_new"
    if "ctree s p = Some n" "\<not> user_path p" "matchPath p keeper_system_path \<noteq> IS_CHILD"
    using new_tree_below(2) [OF d(5) that(2,3)] that(1) d(8) [OF that(2)] by (simp split: if_splits)
  show "ctree s = visible (ctree s) ++ system_tree_of (getSystemNodesWithData ctx)"
  proof
    fix p
    show "ctree s p = (visible (ctree s) ++ system_tree_of (getSystemNodesWithData ctx)) p"
    proof (cases "matchPath p keeper_system_path = IS_CHILD")
      case True
      then show ?thesis using new_tree_below(3) [OF d(5) True] d(8) u by (auto simp: visible_apply map_add_def split: option.split)
    next
      case False
      then have "p \<notin> set (map fst (getSystemNodesWithData ctx))" using 1 [of p] by blast
      then have "system_tree_of (getSystemNodesWithData ctx) p = None" by (metis dom_system_tree_of domIff)
      then show ?thesis using False by (simp add: visible_apply map_add_def)
    qed
  qed
qed

lemma snapshot_nodes:
  assumes q: "quiescent ctx s" and sn: "sn = fst (take_snapshot meta config s)" and ys: "ys = filter not_system (sn_nodes sn)"
  shows "distinct (map fst ys)" "map_of ys p = (if matchPath p keeper_system_path = IS_CHILD then None else contents_of s p)"
    "(p, n) \<in> set ys \<Longrightarrow> contents_of s p = Some n \<and> loadable p n \<and> node_fits n \<and> n_mzxid n \<le>s ks_zxid s"
    "length ys + length (getSystemNodesWithData ctx) = length (sn_nodes sn)" "length (sn_nodes sn) = card (dom (ctree s))"
proof -
  note d = quiescentD [OF q] and c = cinv_facts [OF quiescentD(1) [OF q]]
  note e = table_entries [OF c(1) d(6) take_snapshot_fields(4) [OF sn]]
  have f: "filter not_system xs = filter (\<lambda>x. matchPath (fst x) keeper_system_path \<noteq> IS_CHILD) xs" for xs :: "(string \<times> KeeperMemNode) list"
    by (simp add: not_system_def [abs_def])
  show dy: "distinct (map fst ys)" using e(1) by (simp add: ys distinct_map_filter)
  show m: "map_of ys p = (if matchPath p keeper_system_path = IS_CHILD then None else contents_of s p)" for p
    unfolding ys f e(2) using map_of_filter_key [of "\<lambda>p. matchPath p keeper_system_path \<noteq> IS_CHILD" "sn_nodes sn" p] e(2)
    by (simp add: contents_of_def)
  show "contents_of s p = Some n \<and> loadable p n \<and> node_fits n \<and> n_mzxid n \<le>s ks_zxid s" if "(p, n) \<in> set ys"
  proof -
    have "map_of ys p = Some n" using that dy by simp
    then have p: "contents_of s p = Some n" "matchPath p keeper_system_path \<noteq> IS_CHILD" using m by (auto split: if_splits)
    then have t: "ctree s p = Some (core n)" by (simp add: ctree_contents)
    have "sound_node (ks_zxid s) (core n)" using d(7) t unfolding sound_tree_def by blast
    then have s: "sound_node (ks_zxid s) n" by simp
    have own: "n_is_ephemeral n \<longrightarrow> ephemeralOwner n \<noteq> 0" using tree_wfD(7) [OF d(4) t] by simp
    have "user_path p \<or> p = keeper_system_path \<and> core n = KeeperMemNode_new" using below_system(3) [OF q t _ p(2)] by blast
    moreover have "node_empty n" if "core n = KeeperMemNode_new"
      using arg_cong [OF that, of n_data] arg_cong [OF that, of n_mzxid] by (simp add: node_empty_def core_def KeeperMemNode_new_def)
    ultimately have "loadable p n" using own unfolding loadable_def by blast
    then show ?thesis using p(1) s own acl_id_fits [OF c(7) p(1)] by (simp add: node_fits_def sound_node_def)
  qed
  have len: "length xs = card (set (map fst xs))" if "distinct (map fst xs)" for xs :: "(string \<times> 'n) list"
    using distinct_card [OF that] by simp
  have dom: "set (map fst (sn_nodes sn)) = dom (ctree s)"
    using e(2) dom_map_of_conv_image_fst [of "sn_nodes sn"] by (simp add: dom_ctree contents_of_def)
  show n: "length (sn_nodes sn) = card (dom (ctree s))" using len [OF e(1)] dom by simp
  define A where "A = {p \<in> dom (ctree s). matchPath p keeper_system_path \<noteq> IS_CHILD}"
  define B where "B = {p \<in> dom (ctree s). matchPath p keeper_system_path = IS_CHILD}"
  have "dom (map_of ys) = A" unfolding dom_def m A_def by (auto simp: ctree_contents)
  then have "length ys = card A" using len [OF dy] by (simp add: dom_map_of_conv_image_fst)
  moreover have "set (map fst (getSystemNodesWithData ctx)) = B" unfolding B_def using below_system(1) [OF q] by blast
  then have "length (getSystemNodesWithData ctx) = card B"
    using len [of "getSystemNodesWithData ctx"] d(5) unfolding system_nodes_ok_def by simp
  moreover have "A \<union> B = dom (ctree s)" "A \<inter> B = {}" unfolding A_def B_def by blast+
  then have "card A + card B = card (dom (ctree s))" using c(2) by (metis card_Un_disjoint finite_Un)
  ultimately show "length ys + length (getSystemNodesWithData ctx) = length (sn_nodes sn)" using n by simp
qed

lemma snapshot_fits_ok:
  assumes q: "quiescent ctx s" and fits: "storage_fits s" and sn: "sn = fst (take_snapshot meta config s)"
  shows "snapshot_fits ctx sn"
proof -
  note f = take_snapshot_fields [OF sn] and n = snapshot_nodes [OF q sn refl]
  have s: "card (dom (ctree s)) < 2 ^ 64" "\<And>p. ctree s p \<noteq> None \<Longrightarrow> length p < 2 ^ 64"
    "\<And>i acls. num_to_acl (acl_map s) i = Some acls \<Longrightarrow> counted_fits snapshot_ACL_fits acls"
    "card (dom (session_and_timeout s)) < 2 ^ 64"
    "\<And>sid t. session_and_timeout s sid = Some t \<Longrightarrow> int64_fits t \<and> counted_fits AuthID_fits (session_and_auth s sid)"
    using fits unfolding storage_fits_def by blast+
  have "acl_inv (acl_map s)" using cinv_facts(7) [OF quiescentD(1) [OF q]] by (simp add: acls_ok_def)
  then have "num_to_acl (acl_map s) 0 = None" using acl_inv_facts(2) by (cases "num_to_acl (acl_map s) 0") blast+
  then have "dom (num_to_acl (acl_map s)) \<subset> UNIV" by blast
  then have "card (dom (num_to_acl (acl_map s))) < card (UNIV :: uint64 set)" by (intro psubset_card_mono) simp_all
  then have "card (dom (num_to_acl (acl_map s))) < 2 ^ 64" by (simp add: card_word)
  then have "length (sorted_entries (sn_acl_map sn)) < 2 ^ 64" by (simp add: length_sorted_entries f(7))
  moreover have "list_all (\<lambda>x. counted_fits snapshot_ACL_fits (snd x)) (sorted_entries (sn_acl_map sn))"
    using s(3) unfolding list_all_iff set_sorted_entries f(7) by force
  moreover have "length p < 2 ^ 64 \<and> node_fits n \<and> n_mzxid n \<le>s sn_zxid sn" if "(p, n) \<in> set (filter not_system (sn_nodes sn))" for p n
    using n(3) [OF that] s(2) [of p] f(9) by (simp add: ctree_contents)
  moreover have "int64_fits t \<and> counted_fits AuthID_fits (sn_session_and_auth sn sid)"
    if "(sid, t) \<in> set (sorted_entries (sn_session_and_timeout sn))" for sid t
    using that s(5) unfolding set_sorted_entries f(5,6) by blast
  ultimately show ?thesis
    using f(1) n(4,5) s(1,4) unfolding snapshot_fits_def by (auto simp: length_sorted_entries f(5))
qed

section \<open>The restored storage\<close>

lemma empty_storage:
  assumes "KeeperStorage_new ctx tick False = Inr r"
  shows "ht_inv (container r)" "\<not> snapshot_mode (container r)" "snapshot_invalid_iters (container r) = []"
    "contents_of r = [[slash] \<mapsto> KeeperMemNode_new]" "frame (KeeperStorage_empty tick) r" "acl_map r = ACLMap_empty"
proof -
  let ?i = "storage_insert ctx [slash] KeeperMemNode_new (KeeperStorage_empty tick)"
  have r: "r = addDigest_of ctx KeeperMemNode_new [slash] ?i" using assms by (simp add: KeeperStorage_new_def)
  have c: "container r = container ?i" by (simp add: r addDigest_of_def)
  have e: "contents_of (KeeperStorage_empty tick) = Map.empty" by (simp add: contents_of_def KeeperStorage_empty_def fun_eq_iff)
  have n: "node_copy KeeperMemNode_new = KeeperMemNode_new" by (simp add: node_copy_def node_assign_def KeeperMemNode_new_def)
  note i = insert_contents [of "KeeperStorage_empty tick" "[slash]" ctx KeeperMemNode_new, simplified e n]
  have "ht_inv (container (KeeperStorage_empty tick))" by (simp add: KeeperStorage_empty_def)
  then show "ht_inv (container r)" "contents_of r = [[slash] \<mapsto> KeeperMemNode_new]" "frame (KeeperStorage_empty tick) r" "acl_map r = ACLMap_empty"
    using i by (simp_all add: r addDigest_of_def contents_of_def frame_def KeeperStorage_empty_def storage_insert_def)
  show "\<not> snapshot_mode (container r)" "snapshot_invalid_iters (container r) = []"
    unfolding c by (simp_all add: storage_insert_def KeeperStorage_empty_def ht_insert_def ht_empty_def list_push_back_def list_modify_def Let_def)
qed

lemma load_header_fields:
  "container (load_header ctx sn r) = container r" "frame (r\<lparr>ks_zxid := sn_zxid sn, old_snapshot_zxid := 0, session_id_counter := sn_session_id sn\<rparr>) (load_header ctx sn r)"
  "acl_map (load_header ctx sn r) = load_mappings (sorted_entries (sn_acl_map sn)) (acl_map r)"
  "nodes_digest (load_header ctx sn r) = (if digestEnabled ctx then sn_nodes_digest sn else nodes_digest r)"
  by (simp_all add: load_header_def frame_def)

lemma nodes_restored:
  assumes q: "quiescent ctx s" "storage_fits s" and sn: "sn = fst (take_snapshot meta config s)" and r: "KeeperStorage_new ctx tick False = Inr r"
    and h: "h = load_header ctx sn r" and ys: "ys = filter not_system (sn_nodes sn)"
  shows "\<exists>s1. load_nodes ctx False ys h = Inr s1 \<and> load_inv h (bare_map ys) s1"
proof -
  note n = snapshot_nodes [OF q(1) sn ys] and e = empty_storage [OF r] and f = load_header_fields [where ctx = ctx and sn = sn and r = r, folded h]
  have "acl_inv (acl_map s)" using cinv_facts(7) [OF quiescentD(1) [OF q(1)]] by (simp add: acls_ok_def)
  note m = mappings_restored [OF this f(3) [unfolded e(6) take_snapshot_fields(7) [OF sn]]]
  have "ephemerals h = Map.empty" using e(5) f(2) by (simp add: frame_def KeeperStorage_empty_def)
  then have "load_inv h Map.empty h"
    using e(1-4) f(1) m(3) by (simp add: load_inv_def contents_of_def eph_entry_def eph_set_def users_def usage_def)
  moreover have "length ys < 2 ^ 64" using n(4,5) q(2) by (simp add: storage_fits_def)
  moreover have "\<forall>(p, n) \<in> set ys. Map.empty p = None \<and> loadable p n" using n(3) by blast
  ultimately show ?thesis using load_nodes_ok [of h Map.empty h ys ctx] n(1) by simp
qed

lemma bare_contents:
  assumes q: "quiescent ctx s" and sn: "sn = fst (take_snapshot meta config s)" and F: "F = bare_map (filter not_system (sn_nodes sn))"
  shows "F p = (if matchPath p keeper_system_path = IS_CHILD then None else map_option bare (contents_of s p))"
    "map_option core (F p) = visible (ctree s) p" "finite (dom F)" "F [slash] \<noteq> None"
proof -
  note n = snapshot_nodes [OF q sn refl]
  show F': "F p = (if matchPath p keeper_system_path = IS_CHILD then None else map_option bare (contents_of s p))" for p
    using bare_map_distinct [OF n(1)] n(2) by (simp add: F)
  show "map_option core (F p) = visible (ctree s) p" by (simp add: F' visible_apply ctree_contents option.map_comp comp_def)
  show "finite (dom F)" by (simp add: F)
  show "F [slash] \<noteq> None" using tree_wfD(2) [OF quiescentD(4) [OF q]] by (auto simp: F' ctree_contents)
qed

lemma links_restored:
  assumes q: "quiescent ctx s" and sn: "sn = fst (take_snapshot meta config s)" and F: "F = bare_map (filter not_system (sn_nodes sn))"
    and s1: "load_inv h F s1"
  shows "\<exists>s2. link_children ctx (container_keys s1) s1 = Inr s2 \<and> link_inv F (dom F) s1 s2"
proof -
  note f = bare_contents [OF q sn F] and i = load_invD [OF s1] and d = quiescentD [OF q]
  have c: "contents_of s1 = F" using i(4) f(4) by (auto simp: map_add_def fun_eq_iff split: option.split)
  have keys: "set (container_keys s1) = dom F"
    using ht_list_live_keys(2) [OF i(1,3)] c by (simp add: container_keys_def contents_of_def)
  have "rel_option (relinked (names_of {} p)) (F p) (F p)" for p
    using f(1) [of p] by (cases "contents_of s p") (auto simp: relinked_def names_of_def)
  then have "link_inv F {} s1 s1" using i(1) c by (simp add: link_inv_def)
  moreover have "\<exists>q. parentNodePath p = Some q \<and> F q \<noteq> None" if p: "p \<in> dom F" "p \<noteq> [slash]" for p
  proof -
    obtain m where "F p = Some m" using p(1) by blast
    then have n: "visible (ctree s) p = Some (core m)" using f(2) [of p] by simp
    have "p = keeper_system_path" if "\<not> user_path p" using below_system(3) [OF q _ that, of "core m"] n by (simp add: visible_apply split: if_splits)
    from visible_parent [OF d(4) n p(2) this] obtain x where "parentNodePath p = Some x" "visible (ctree s) x \<noteq> None" by blast
    then show ?thesis using f(2) [of x] by (intro exI [of _ x]) auto
  qed
  ultimately show ?thesis using link_children_ok [of F "{}" s1 s1 "container_keys s1" ctx] keys by simp
qed

lemma acls_restored:
  assumes q: "quiescent ctx s" and sn: "sn = fst (take_snapshot meta config s)" and F: "F = bare_map (filter not_system (sn_nodes sn))"
    and s1: "load_inv h F s1" and h: "acl_map h = load_mappings (sorted_entries (num_to_acl (acl_map s))) ACLMap_empty"
  shows "acls_ok (acl_map s1) F" "acl_lookup (acl_map s1) = acl_lookup (acl_map s)"
proof -
  note f = bare_contents [OF q sn F] and i = load_invD [OF s1] and a = cinv_facts(7) [OF quiescentD(1) [OF q]]
  have inv: "acl_inv (acl_map s)" using a by (simp add: acls_ok_def)
  note m = mappings_restored [OF inv h]
  have maps: "num_to_acl (acl_map s1) = num_to_acl (acl_map s)" "acl_to_num (acl_map s1) = acl_to_num (acl_map s)"
    "max_acl_id (acl_map s1) = max_acl_id (acl_map h)"
    using m(1,2) by (subst i(8), simp)+
  show look: "acl_lookup (acl_map s1) = acl_lookup (acl_map s)" using maps(1) by (simp add: acl_lookup_def fun_eq_iff)
  have "acl_inv (acl_map s1)" unfolding acl_inv_def maps using acl_inv_facts(1-3) [OF inv] m(5) i(7) by blast
  moreover have "acl_lookup (acl_map s) (n_acl_id n) \<noteq> None" if "F p = Some n" for p n
    using that a f(1) [of p] by (auto simp: acls_ok_def split: if_splits)
  moreover have "unat (usage (acl_map s1) 0) \<le> card (users F 0)" unfolding i(6) by (simp add: unsigned_of_nat take_bit_nat_less_eq_self)
  ultimately show "acls_ok (acl_map s1) F" unfolding acls_ok_def look maps(3) using m(4) f(3) i(6) by blast
qed

lemma tree_restored:
  assumes q: "quiescent ctx s" and sn: "sn = fst (take_snapshot meta config s)" and F: "F = bare_map (filter not_system (sn_nodes sn))"
    and s1: "acls_ok (acl_map s1) F" "acl_lookup (acl_map s1) = acl_lookup (acl_map s)" and s2: "link_inv F (dom F) s1 s2"
    and s3: "container s3 = container s2" "acl_map s3 = acl_map s1" "digestEnabled ctx \<Longrightarrow> nodes_digest s3 = nodes_digest s"
  shows "init_inv ctx s3 s3" "ctree s3 = visible (ctree s)"
    "atree s3 p = (if matchPath p keeper_system_path = IS_CHILD then None else atree s p)"
proof -
  note f = bare_contents [OF q sn F] and d = quiescentD [OF q]
  have l: "ht_inv (container s3)" "rel_option (relinked (names_of (dom F) p)) (contents_of s3 p) (F p)" for p
    using s2 s3(1) unfolding link_inv_def contents_of_def by simp_all
  have node: "\<exists>m. F p = Some m \<and> relinked (names_of (dom F) p) n m" if "contents_of s3 p = Some n" for p n
    using l(2) [of p] that by (auto simp: option_rel_Some1)
  have none: "contents_of s3 p = None \<longleftrightarrow> F p = None" for p using l(2) [of p] by (auto simp: option.rel_sel)
  have t: "ctree s3 p = visible (ctree s) p" for p
    using none [of p] node [of p] f(2) [of p] by (cases "contents_of s3 p") (auto simp: ctree_contents relinked_def)
  then show tree: "ctree s3 = visible (ctree s)" by blast
  have ids: "map_option n_acl_id (contents_of s3 p) = map_option n_acl_id (F p)" for p
    using none [of p] node [of p] by (cases "contents_of s3 p") (auto simp: relinked_def)
  have users: "users (contents_of s3) i = users F i" for i using ids unfolding users_def by (metis (no_types, lifting) map_option_eq_Some)
  have look: "acl_tree m (contents_of s3) p = acl_tree m F p" for m p
    using ids [of p] by (cases "contents_of s3 p"; cases "F p") (auto simp: acl_tree_def)
  show "atree s3 p = (if matchPath p keeper_system_path = IS_CHILD then None else atree s p)"
    using look [of "acl_map s1" p] f(1) [of p] s3(2) s1(2) by (auto simp: atree_def acl_tree_def split: option.split)
  have "dom (contents_of s3) = dom F" by (simp add: dom_def none)
  moreover have "acl_lookup (acl_map s1) (n_acl_id n) \<noteq> None" if "contents_of s3 p = Some n" for p n
    using node [OF that] s1(1) by (auto simp: acls_ok_def relinked_def)
  ultimately have acls: "acls_ok (acl_map s3) (contents_of s3)" using s1(1) s3(2) unfolding acls_ok_def users by auto
  have cached: "n_cached_digest n = 0" if "contents_of s3 p = Some n" for p n using node [OF that] by (auto simp: relinked_def)
  have "digests_ok ctx s3"
    using cinv_facts(2,6) [OF d(1)] visible_digest s3(3) tree cached by (simp add: digests_ok_def)
  moreover have "coherent s3" using cached by (simp add: coherent_def contents_of_def digest_coherent_def)
  ultimately have "cinv ctx s3" using l(1) acls by (simp add: cinv_def)
  moreover have "tree_wf (ctree s3)"
    unfolding tree using visible_wf [OF d(4)] below_system(2,3) [OF q] by blast
  moreover have "proper (ctree s3)" using d(3) by (auto simp: tree proper_def visible_apply split: if_splits)
  moreover have "names_ok (ctree s3) (names s3)"
  proof -
    have "dom F = dom (ctree s3)" by (simp add: dom_def ctree_contents none)
    then have "names_of (dom F) p = getBaseNodeName ` kids (ctree s3) p" for p by (auto simp: names_of_def kids_def)
    then have kids: "distinct (n_children n) \<and> set (n_children n) = getBaseNodeName ` kids (ctree s3) p" if "contents_of s3 p = Some n" for p n
      using node [OF that] by (auto simp: relinked_def)
    have "dom (names s3) = dom (ctree s3)" by (simp add: dom_def names_def ctree_contents)
    then show ?thesis using kids unfolding names_ok_def names_def by blast
  qed
  ultimately show "init_inv ctx s3 s3" by (simp add: init_inv_def frame_def)
qed

text \<open>What a restored storage has in common with the one of which the snapshot was taken.\<close>

definition same_state :: "KeeperContext \<Rightarrow> KeeperStorage \<Rightarrow> KeeperStorage \<Rightarrow> bool" where
  "same_state ctx s s' \<longleftrightarrow>
     ks_zxid s' = ks_zxid s \<and> session_id_counter s' = session_id_counter s \<and> session_and_timeout s' = session_and_timeout s \<and>
     (\<forall>sid. session_and_auth s' sid = (if session_and_timeout s sid = None then [] else session_and_auth s sid)) \<and>
     (digestEnabled ctx \<longrightarrow> nodes_digest s' = nodes_digest s)"

lemma eph_set_bare:
  assumes q: "quiescent ctx s" and sn: "sn = fst (take_snapshot meta config s)" and F: "F = bare_map (filter not_system (sn_nodes sn))"
  shows "eph_set F sid = eph_set (ctree s) sid"
proof -
  note f = bare_contents(1) [OF q sn F] and w = tree_wfD(8) [OF quiescentD(4) [OF q]]
  show ?thesis unfolding eph_set_def f using w by (fastforce simp: ctree_contents split: if_splits)
qed

lemma map_of_sorted_entries: "map_of (sorted_entries m) = m"
  using map_of_eq_Some_iff [OF distinct_sorted_entries] by (intro map_eqI) (simp add: set_sorted_entries)

lemma load_snapshot_ok:
  assumes q: "quiescent ctx s" "storage_fits s" and sn: "sn = fst (take_snapshot meta config s)" and r: "KeeperStorage_new ctx tick False = Inr r"
    and clock: "\<forall>t \<in> ran (session_and_timeout s). queue_in_range (now + t) (SessionExpiryQueue_new tick)"
  shows "\<exists>s3. load_snapshot ctx now sn r = Inr s3 \<and> init_inv ctx s3 s3 \<and> \<not> initialized s3 \<and> ctree s3 = visible (ctree s) \<and>
     (\<forall>p. atree s3 p = (if matchPath p keeper_system_path = IS_CHILD then None else atree s p)) \<and>
     same_state ctx s s3 \<and> unlogged (ctree s) s3"
proof -
  define h where "h = load_header ctx sn r"
  define F where "F = bare_map (filter not_system (sn_nodes sn))"
  note f = take_snapshot_fields [OF sn] and hf = load_header_fields [where ctx = ctx and sn = sn and r = r, folded h_def] and e = empty_storage [OF r]
  obtain s1 where s1: "load_nodes ctx False (filter not_system (sn_nodes sn)) h = Inr s1" "load_inv h F s1"
    using nodes_restored [OF q sn r h_def refl] F_def by blast
  obtain s2 where s2: "link_children ctx (container_keys s1) s1 = Inr s2" "link_inv F (dom F) s1 s2"
    using links_restored [OF q(1) sn F_def s1(2)] by blast
  have "acl_map h = load_mappings (sorted_entries (num_to_acl (acl_map s))) ACLMap_empty" using hf(3) e(6) f(7) by simp
  note a = acls_restored [OF q(1) sn F_def s1(2) this]
  have frame: "s2 = s1\<lparr>container := container s2\<rparr>" using s2(2) unfolding link_inv_def by blast
  have g: "uncommitted_state s2 = UncommittedState_new" "uncommitted_transactions s2 = []" "session_and_timeout s2 = Map.empty"
    "session_expiry_queue s2 = SessionExpiryQueue_new tick" "session_and_auth s2 = (\<lambda>_. [])" "ks_zxid s2 = ks_zxid s"
    "session_id_counter s2 = session_id_counter s" "\<not> initialized s2" "nodes_digest s2 = nodes_digest h" "ephemerals s2 = ephemerals s1"
    using hf(2) e(5) f(3,9) by (subst frame, subst load_invD(9) [OF s1(2)], simp add: frame_def KeeperStorage_empty_def)+
  let ?xs = "sorted_entries (session_and_timeout s)"
  obtain qu where qu: "load_sessions now (session_and_auth s) ?xs s2 = Inr (sessions_loaded (session_and_auth s) ?xs qu s2)" "queue_inv qu"
    using load_sessions_ok [of s2 ?xs now "session_and_auth s"] g(3,4) clock distinct_sorted_entries by (auto simp: set_sorted_entries intro: ranI)
  define s3 where "s3 = sessions_loaded (session_and_auth s) ?xs qu s2"
  have fst: "fst ` set ?xs = dom (session_and_timeout s)" by (force simp: set_sorted_entries image_iff)
  have c3: "container s3 = container s2" "nodes_digest s3 = nodes_digest h" "initialized s3 = initialized s2" "ephemerals s3 = ephemerals s1"
    using g by (simp_all add: s3_def sessions_loaded_def)
  have "acl_map s3 = acl_map s1" by (simp add: s3_def sessions_loaded_def) (subst frame, simp)
  moreover have "digestEnabled ctx \<Longrightarrow> nodes_digest s3 = nodes_digest s" using c3(2) hf(4) f(10) by simp
  ultimately have t: "init_inv ctx s3 s3" "ctree s3 = visible (ctree s)"
    "atree s3 p = (if matchPath p keeper_system_path = IS_CHILD then None else atree s p)" for p
    using tree_restored [OF q(1) sn F_def a s2(2) c3(1)] by simp_all
  have same: "same_state ctx s s3"
    using g fst c3(2) hf(4) f(10) by (auto simp: same_state_def s3_def sessions_loaded_def map_of_sorted_entries)
  have "unlogged (ctree s) s3"
    using g qu(2) load_invD(5) [OF s1(2)] eph_set_bare [OF q(1) sn F_def] by (simp add: unlogged_def s3_def sessions_loaded_def)
  moreover have "load_snapshot ctx now sn r = Inr s3"
    using s1(1) s2(1) qu(1) f(5,6) by (simp add: load_snapshot_def h_def s3_def)
  ultimately show ?thesis using t same c3(3) g(8) by blast
qed

lemma snapshot_round_trip:
  assumes q: "quiescent ctx s" "storage_fits s"
    and clock: "\<forall>t \<in> ran (session_and_timeout s). queue_in_range (now + t) (SessionExpiryQueue_new tick)"
    and meta: "meta_of_bytes (meta_bytes meta) = Inr meta" "length (meta_bytes meta) < 2 ^ 64"
    and config: "\<And>c. config = Some c \<Longrightarrow> config_of_bytes (config_bytes c) = Inr c \<and> length (config_bytes c) < 2 ^ 64"
  shows "\<exists>s'. deserializeSnapshotFromBuffer meta_of_bytes last_log_idx config_of_bytes ctx now tick
       (serialize meta_bytes config_bytes ctx (fst (take_snapshot meta config s))) = Inr (s', meta, config) \<and>
     log_inv ctx s' [] \<and> storage_content s' = storage_content s \<and> same_state ctx s s'"
proof -
  let ?sys = "getSystemNodesWithData ctx"
  define sn where "sn = fst (take_snapshot meta config s)"
  note d = quiescentD [OF q(1)] and f = take_snapshot_fields [OF sn_def]
  obtain r where r: "KeeperStorage_new ctx tick False = Inr r" by (simp add: KeeperStorage_new_def)
  obtain s3 where s3: "load_snapshot ctx now sn r = Inr s3" "init_inv ctx s3 s3" "\<not> initialized s3" "ctree s3 = visible (ctree s)"
    "\<And>p. atree s3 p = (if matchPath p keeper_system_path = IS_CHILD then None else atree s p)" "same_state ctx s s3" "unlogged (ctree s) s3"
    using load_snapshot_ok [OF q sn_def r clock] by blast
  have n: "distinct (map fst ?sys)" "\<forall>p \<in> set (map fst ?sys). system_node_path p \<and> ctree s3 p = None"
    using d(5) below_system(1) [OF q(1)] s3(4) by (auto simp: system_nodes_ok_def visible_apply)
  obtain s4 where s4: "insert_system_nodes ctx ?sys s3 = Inr s4" "init_inv ctx s3 s4" "ctree s4 = ctree s3 ++ system_tree_of ?sys"
    "\<forall>p. atree s4 p = (if p \<in> set (map fst ?sys) then Some [] else atree s3 p)"
    using insert_system_nodes_ok [OF s3(2) n] by blast
  let ?s = "s4\<lparr>initialized := True\<rparr>"
  have t: "ctree s4 = ctree s" using s4(3) s3(4) below_system(4) [OF q(1)] by simp
  have a: "atree s4 p = atree s p" for p
  proof (cases "matchPath p keeper_system_path = IS_CHILD")
    case True
    then have "atree s p = map_option (\<lambda>_. []) (ctree s p)" using d(9) by (simp add: user_path_def)
    then show ?thesis using below_system(1) [OF q(1), of p] True s4(4) s3(5) by (cases "ctree s p") auto
  next
    case False
    then show ?thesis using below_system(1) [OF q(1), of p] s4(4) s3(5) by auto
  qed
  have fr: "frame s3 s4" "cinv ctx s4" using s4(2) by (simp_all add: init_inv_def)
  have "unlogged (ctree s4) s4" using s3(7) fr(1) t by (simp add: unlogged_def frame_def)
  note l = initialized_log_inv [OF s4(2) this]
  have "digestEnabled ctx \<Longrightarrow> nodes_digest s4 = nodes_digest s" using cinv_facts(6) [OF fr(2)] cinv_facts(6) [OF d(1)] t by simp
  then have "same_state ctx s ?s" using s3(6) fr(1) by (simp add: same_state_def frame_def)
  moreover have "storage_content ?s = storage_content s" using l(2,3) t a by (simp add: storage_content_def fun_eq_iff)
  moreover have "deserializeSnapshotFromBuffer meta_of_bytes last_log_idx config_of_bytes ctx now tick
      (serialize meta_bytes config_bytes ctx sn) = Inr (?s, meta, config)"
  proof -
    have "ctree s3 keeper_system_path \<noteq> None" using tree_wfD(3) [OF d(4)] by (simp add: s3(4) visible_apply)
    then have "ht_find (container s3) keeper_system_path \<noteq> None" by (simp add: ctree_def)
    then have i: "initializeSystemNodes ctx s3 = Inr ?s" using s3(3) s4(1) by (auto simp: initializeSystemNodes_def)
    have "deserialize meta_of_bytes last_log_idx config_of_bytes ctx now r (serialize meta_bytes config_bytes ctx sn) =
        bindE (loading (load_snapshot ctx now sn r)) (\<lambda>s. Inr (s, sn_meta sn, sn_cluster_config sn))"
      by (rule deserialize_serialize [OF snapshot_fits_ok [OF q sn_def]]) (use meta config f(2,8) in \<open>simp_all only:\<close>)
    then show ?thesis by (simp add: deserializeSnapshotFromBuffer_def r s3(1) i f(2,8) loading_def)
  qed
  ultimately show ?thesis using l(1) unfolding sn_def by blast
qed

section \<open>Restored storages\<close>

text \<open>C7: a snapshot restores the storage. Take a snapshot of a reachable storage in which the hash table keeps no outdated
  elements, whatever is pending in its log, and write it in the current version, for Raft metadata and configurations whose
  serialisers are inverted by their readers. Loading the bytes, when the sizes fit the format and the deadlines of the sessions the
  range of the clock, succeeds and returns metadata and configuration. The new storage has the same nodes with the same access control
  lists, zxid, sessions with their authentications, next session id and digest; it has an empty log, satisfies the invariant of the
  storage, and from there every sequence of calls gives what the specification makes of the content at the snapshot.\<close>

theorem snapshot_restored:
  assumes "reachable ctx s L" "snapshot_invalid_iters (container s) = []" "storage_fits s"
    and "\<forall>t \<in> ran (session_and_timeout s). queue_in_range (now + t) (SessionExpiryQueue_new tick)"
    and "meta_of_bytes (meta_bytes meta) = Inr meta" "length (meta_bytes meta) < 2 ^ 64"
    and "\<And>c. config = Some c \<Longrightarrow> config_of_bytes (config_bytes c) = Inr c \<and> length (config_bytes c) < 2 ^ 64"
  shows "\<exists>s'. deserializeSnapshotFromBuffer meta_of_bytes last_log_idx config_of_bytes ctx now tick
       (serialize meta_bytes config_bytes ctx (fst (take_snapshot meta config s))) = Inr (s', meta, config) \<and>
     log_inv ctx s' [] \<and> ctree s' = ctree s \<and> atree s' = atree s \<and> same_state ctx s s' \<and>
     (\<forall>es s2 L2. trace (keeper_step ctx) (s', []) es (s2, L2) \<longrightarrow>
        storage_content s2 = fold spec_step (committed_entries es) (ctree s, atree s) \<and> vtree s2 = fold spec_entry L2 (ctree s2))"
proof -
  obtain s' where s': "deserializeSnapshotFromBuffer meta_of_bytes last_log_idx config_of_bytes ctx now tick
       (serialize meta_bytes config_bytes ctx (fst (take_snapshot meta config s))) = Inr (s', meta, config)"
     "log_inv ctx s' []" "storage_content s' = storage_content s" "same_state ctx s s'"
    using snapshot_round_trip [where meta_of_bytes = meta_of_bytes and meta_bytes = meta_bytes and meta = meta and config = config
        and config_of_bytes = config_of_bytes and config_bytes = config_bytes and last_log_idx = last_log_idx,
        OF reachable_quiescent [OF assms(1,2)] assms(3-6)] assms(7) by blast
  have c: "ctree s' = ctree s" "atree s' = atree s" using s'(3) by (simp_all add: storage_content_def)
  have "storage_content s2 = fold spec_step (committed_entries es) (ctree s, atree s) \<and> vtree s2 = fold spec_entry L2 (ctree s2)"
    if t: "trace (keeper_step ctx) (s', []) es (s2, L2)" for es s2 L2
  proof -
    have "log_inv ctx s2 L2 \<and> storage_content s2 = fold spec_step (committed_entries es) (storage_content s')"
      using keeper.trace_ok [OF t] s'(2) by simp
    then show ?thesis using view_spec c by (auto simp: storage_content_def)
  qed
  then show ?thesis using s'(1,2,4) c by blast
qed

text \<open>A storage with one session, just after the elements that a snapshot had kept were removed.\<close>

lemma example_snapshot:
  "\<exists>s. reachable example_context s [] \<and> snapshot_invalid_iters (container s) = [] \<and> storage_fits s \<and>
     session_and_timeout s = [1 \<mapsto> 30000] \<and> (\<exists>n. ctree s ''/keeper/api_version'' = Some n)"
proof -
  obtain s0 where s0: "KeeperStorage_new example_context 500 True = Inr s0" "acl_map s0 = ACLMap_empty" "ctree s0 = new_tree example_context"
    "session_expiry_queue s0 = SessionExpiryQueue_new 500" "session_and_timeout s0 = Map.empty" "example_state s0 []"
    "session_id_counter s0 = 1" "session_and_auth s0 = (\<lambda>_. [])"
    using KeeperStorage_new_ok [OF example_context_ok(1), of 500] example_new by auto
  have "queue_in_range (0 + 30000) (session_expiry_queue s0)" by (simp add: s0(4) queue_in_range_def SessionExpiryQueue_new_def)
  then obtain q where q: "addSessionID 0 1 30000 (s0\<lparr>session_id_counter := 2\<rparr>) =
      Inr (s0\<lparr>session_id_counter := 2, session_and_timeout := [1 \<mapsto> 30000], session_expiry_queue := q\<rparr>)"
    using addSessionID_ok [of "s0\<lparr>session_id_counter := 2\<rparr>" 0 30000 1] s0(4,5) by auto
  then have g: "getSessionID 0 30000 s0 = Inr (1, s0\<lparr>session_id_counter := 2, session_and_timeout := [1 \<mapsto> 30000], session_expiry_queue := q\<rparr>)"
    (is "_ = Inr (1, ?s1)")
    using s0(7) by (simp add: getSessionID_def)
  let ?s = "clearGarbageAfterSnapshot example_context ?s1"
  have i: "reachable example_context s0 []" "dom (ctree s0) = example_dom" using s0(6) by (simp_all add: example_state_def)
  have r: "reachable example_context ?s1 []" "reachable example_context ?s []"
    using reachable_step [OF i(1) step_session [OF g]] reachable_step step_garbage by blast+
  have t: "ctree ?s = ctree s0" using snapshot_ops_ok(6) [OF reachable_inv [OF r(1)]] getSessionID_ok(2) [OF reachable_inv [OF i(1)] g] by simp
  have d: "card example_dom < 2 ^ 64" "\<forall>p \<in> example_dom. length p < 2 ^ 64"
    by (simp_all add: example_dom_def card_insert_if keeper_system_path_def)
  have "storage_fits ?s"
    unfolding storage_fits_def t using d i(2) s0(2,8)
    by (auto simp: clearGarbageAfterSnapshot_def ACLMap_empty_def int64_fits_def)
  then show ?thesis
    using r(2) t i(2) by (intro exI [of _ ?s]) (auto simp: clearGarbageAfterSnapshot_def ht_clearOutdatedNodes_def example_dom_def)
qed

theorem snapshot_restored_witness:
  "\<exists>s s'. reachable example_context s [] \<and> session_and_timeout s = [1 \<mapsto> 30000] \<and>
     deserializeSnapshotFromBuffer (\<lambda>b. Inr b) (\<lambda>_. 0) (\<lambda>b. Inr (rev b)) example_context 5 500
       (serialize id rev example_context (fst (take_snapshot [1, 2, 3] (Some [4, 5]) s))) = Inr (s', [1, 2, 3], Some [4, 5]) \<and>
     log_inv example_context s' [] \<and> ctree s' = ctree s \<and> session_and_timeout s' = [1 \<mapsto> 30000] \<and>
     (\<exists>n. ctree s' ''/keeper/api_version'' = Some n)"
proof -
  obtain s where s: "reachable example_context s []" "snapshot_invalid_iters (container s) = []" "storage_fits s"
     "session_and_timeout s = [1 \<mapsto> 30000]" "\<exists>n. ctree s ''/keeper/api_version'' = Some n"
    using example_snapshot by blast
  have t: "\<forall>t \<in> ran (session_and_timeout s). queue_in_range (5 + t) (SessionExpiryQueue_new 500)"
    by (simp add: s(4) queue_in_range_def SessionExpiryQueue_new_def)
  let ?meta = "[1, 2, 3] :: bytes" and ?config = "[4, 5] :: bytes"
  have m: "Inr (id ?meta) = (Inr ?meta :: exn + bytes)" "length (id ?meta) < 2 ^ 64" by simp_all
  have c: "Some ?config = Some c \<Longrightarrow> (Inr (rev (rev c)) :: exn + bytes) = Inr c \<and> length (rev c) < 2 ^ 64" for c by auto
  note r = snapshot_restored [where meta = ?meta and config = "Some ?config" and meta_bytes = id and config_bytes = rev
      and meta_of_bytes = "\<lambda>b. Inr b" and config_of_bytes = "\<lambda>b. Inr (rev b)" and last_log_idx = "\<lambda>_. 0", OF s(1-3) t m c]
  obtain s' where "deserializeSnapshotFromBuffer (\<lambda>b. Inr b) (\<lambda>_. 0) (\<lambda>b. Inr (rev b)) example_context 5 500
       (serialize id rev example_context (fst (take_snapshot ?meta (Some ?config) s))) = Inr (s', ?meta, Some ?config)"
     "log_inv example_context s' []" "ctree s' = ctree s" "same_state example_context s s'"
    using r by blast
  moreover from this(4) have "session_and_timeout s' = [1 \<mapsto> 30000]" using s(4) by (simp add: same_state_def)
  ultimately show ?thesis using s(1,4,5) by (intro exI [of _ s] exI [of _ s']) simp
qed

end
