(* ===== verification/Spec2Isabelle.thy ===== *)
theory Spec2Isabelle
  imports ZooKeeperReplies KeeperStateMachine KeeperRestore
begin

text \<open>
  A model of ClickHouse Keeper, the coordination service of ClickHouse that speaks the ZooKeeper protocol, and the theorems
  that make it correct. All source names below are relative to src/src of the repository.

  \<^bold>\<open>The program.\<close> A client sends requests over TCP (Server/KeeperTCPHandler.cpp) in the ZooKeeper wire format
  (Common/ZooKeeper/ZooKeeperIO.cpp, ZooKeeperCommon.cpp). Reads may be answered locally. Writes become entries of a Raft log
  (Coordination/KeeperServer.cpp): the leader preprocesses an entry, writes the zxid and the digest of the nodes into it
  and appends it; every replica preprocesses the entry when it is appended, commits it when Raft says so, or rolls it back
  (Coordination/KeeperStateMachine.cpp). The replicas compare digests and stop when they differ. The storage
  (Coordination/KeeperStorage.h, KeeperStorage.cpp) keeps the committed nodes in a hash table that can be iterated by a snapshot while it is
  modified (SnapshotableHashTable.h), numbers for access control lists (ACLMap.cpp), the deadlines of the sessions
  (SessionExpiryQueue.cpp), and an uncommitted state: the deltas of preprocessed requests and the nodes as these deltas will leave them.

  \<^bold>\<open>The model.\<close> Records and datatypes have the members and constructors of the classes; every function of the source that is
  modelled has a definition of its name, with a prefix where the name is taken. Machine integers are words. State is passed
  explicitly; versions of hash table elements are natural numbers, exact for fewer than \<open>2 ^ 62\<close> snapshots. A function that can fail returns a sum whose left side is the exception, the end of the process
  (\<open>Terminate\<close>: \<^verbatim>\<open>std::terminate\<close>, \<^verbatim>\<open>std::abort\<close>, \<^verbatim>\<open>onStorageInconsistency\<close>) or undefined behaviour (\<open>Undefined\<close>: null pointers, empty lists,
  end iterators); so a theorem that a call returns \<open>Inr\<close> excludes all three. Clocks, freshly allocated bytes, the sizes of C++ objects
  and the SHA-1 function are arguments.

  \<^item> \<open>Prelude\<close>: integer types, failures, association lists. \<open>ZooKeeperTypes\<close>: error codes, operation numbers, requests, responses
    (IKeeper.h, ZooKeeperConstants.h, ZooKeeperCommon.h).
  \<^item> \<open>SipHash\<close> (Common/SipHash.h), \<open>SnapshotableHashTable\<close>, \<open>KeeperPaths\<close> (KeeperCommon.cpp), \<open>ACLMap\<close>,
    \<open>SessionExpiryQueue\<close>, \<open>KeeperNode\<close> (\<^verbatim>\<open>KeeperMemNode\<close>): the components below the storage, each with its invariant. Their
    contracts are the locales \<open>kv_container\<close>, \<open>acl_registry\<close> and \<open>expiry_service\<close>, interpreted on these definitions.
  \<^item> \<open>KeeperStorage\<close>: the state, construction, deltas, commit and rollback of the uncommitted state, digests, watches,
    sessions. \<open>KeeperProcessors\<close>: the request processors. \<open>KeeperRequests\<close>: \<^verbatim>\<open>preprocessRequest\<close>, \<^verbatim>\<open>processRequest\<close>, \<^verbatim>\<open>rollbackRequest\<close>.
  \<^item> \<open>KeeperTree\<close> and \<open>KeeperSpec\<close>: the specification. Nodes form a finite map from paths, a request is one atomic step on it
    that yields the next map or an error code. \<open>KeeperOverlay\<close>, \<open>KeeperCommit\<close>, \<open>KeeperPreprocess\<close>, \<open>KeeperMulti\<close>, \<open>KeeperLog\<close>,
    \<open>KeeperAnswers\<close>, \<open>KeeperInit\<close>, \<open>KeeperLocal\<close>, \<open>KeeperGrowth\<close>: the refinement proof, from single deltas to whole requests.
    The invariant \<open>log_inv\<close> says of a storage and a list of entries that the pending deltas are those of the entries, one after the other.
  \<^item> \<open>KeeperMachine\<close>: the step relation of all calls on a storage, an instance of the locale \<open>replicated_log\<close>;
    \<open>reachable\<close> storages; committing the whole log. \<open>KeeperExamples\<close>: storages on which the witnesses are built.
  \<^item> \<open>ZooKeeperWire\<close>, \<open>ZooKeeperReplies\<close>: the wire format, and how the client receives answers, watch events and heartbeats
    (\<^verbatim>\<open>receiveEvent\<close> of Common/ZooKeeper/ZooKeeperImpl.cpp). Readers and writers of each type are instances of the locale \<open>wire_codec\<close>.
  \<^item> \<open>KeeperLogEntries\<close>: serialisation of requests for the log, completion of an entry by the leader, \<^verbatim>\<open>parseRequest\<close> with its cache.
    \<open>KeeperStateMachine\<close>: \<^verbatim>\<open>pre_commit\<close>, \<^verbatim>\<open>commit\<close>, \<^verbatim>\<open>rollback\<close>, \<^verbatim>\<open>preprocess\<close> and the leader's \<^verbatim>\<open>PreAppendLogLeader\<close> on bytes.
  \<^item> \<open>KeeperSnapshots\<close>: snapshots and their format (Coordination/KeeperSnapshotManager.cpp, IO/VarInt.h), with the round trip of the
    bytes; the codecs of the parts are instances of \<open>wire_codec\<close>. \<open>KeeperLoad\<close>: what each phase of loading keeps. \<open>KeeperRestore\<close>: facts about
    reachable storages that loading relies on, and the restored storage.

  \<^bold>\<open>What is shown.\<close> For every order of calls that a log allows, the storage holds what the committed requests, executed one
  after the other by the specification, give; every pending entry can be committed without exception, termination or undefined behaviour and is
  answered as the specification says; rolling back undoes preprocessing; the digest promised at preprocessing is the one found at
  commit; multi requests are atomic; closing a session removes its ephemeral nodes; nodes form a tree with exact counters; calls out
  of order are rejected; local reads see the committed state. On bytes: requests and responses survive the wire, parsing terminates, an entry completed by the leader
  is accepted and answered by every follower with the same storage, and no digest check fails; the client gets the answers to its requests and
  the watch events of its paths; a snapshot is restored to a storage with the same content that runs on as the specification says. For the components: the hash table refines a map, a snapshot is
  isolated from later changes, list numbers resolve, sessions expire within their window, hashing in parts gives the hash of the whole.

  \<^bold>\<open>Hypotheses.\<close> A request is \<open>valid_request\<close> when the paths it creates, removes or checks have a slash, a created path does
  not start with two, ephemeral nodes belong to a session other than 0, and a multi request has parts that go together; it is \<open>answerable\<close> unless it
  creates only if absent a node that is there, or only if absent in a multi request, or reads an absent system node, for which the code
  runs into undefined behaviour or stops the server (a multi request that creates an absent node only if absent is left out with the others). \<open>ready\<close> says that the table of access control lists has numbers left for the pending deltas
  and that the deadlines of sessions are in the range of the clock. New entries have larger zxids, and there are fewer than \<open>2 ^ 32\<close> nodes.
  For snapshots, the serialisers of Raft metadata and cluster configurations, which belong to NuRaft, are inverted by their readers, sizes fit the
  format (\<open>storage_fits\<close>), and no element that an earlier snapshot kept is left in the hash table.
  The specification shares the functions that update single fields of nodes with the processors; they are fixed by \<open>KeeperTree\<close> and
  by the round trip of statistics in \<open>KeeperNode\<close>. The digest of a tree leaves out the system nodes below \<^verbatim>\<open>/keeper\<close>, as the code does.

  \<^bold>\<open>Bounds and fuel.\<close> Only \<open>read_multi\<close> has fuel: the number of parts of a multi request is at most the number of bytes, each
  part has a header of nine bytes, and a property of \<open>ZooKeeperWire\<close> shows that the fuel is never used up. All other recursion is structural or has a measure.

  \<^bold>\<open>Not modelled.\<close> Consensus is NuRaft, a submodule whose sources are not part of the repository; the log is what it gives to the
  state machine. Threads, locks, queues and sockets, the dispatcher, metrics and logging. Changelog and
  snapshot files, compression and S3. The exception handler of the client's \<^verbatim>\<open>receiveEvent\<close>, its sending side and its authentication. The RocksDB storage, a third-party library. Reconfiguration, which edits configuration objects of NuRaft.
  The SQL server around Keeper: parsers, query execution, table engines.
\<close>

section \<open>The replicated storage\<close>

text \<open>C1: the storage implements the specification. Start a new storage and let the state machine preprocess, commit and
  roll back entries, answer local reads, open sessions and take snapshots in any order the log allows: the committed
  nodes and access control lists are those that the committed requests, executed one after the other on abstract trees,
  produce, and the view that preprocessing works on is the one after the requests still in the log.\<close>

theorem keeper_refines_spec:
  assumes "system_nodes_ok ctx" "KeeperStorage_new ctx tick True = Inr s0" "trace (keeper_step ctx) (s0, []) es (s, L)"
  shows "storage_content s = fold spec_step (committed_entries es) (storage_content s0) \<and>
     vtree s = fold spec_entry L (ctree s)"
proof -
  have t: "log_inv ctx s L \<and> storage_content s = fold spec_step (committed_entries es) (storage_content s0)"
    using keeper.trace_ok [OF assms(3)] new_inv [OF assms(1,2)] by simp
  then show ?thesis using view_spec by blast
qed

theorem keeper_refines_spec_witness:
  "\<exists>s0 s1 s2 e n. KeeperStorage_new example_context 500 True = Inr s0 \<and>
     trace (keeper_step example_context) (s0, []) [Append e, Commit e] (s2, []) \<and> e_req e = example_create \<and>
     trace (keeper_step example_context) (s0, []) [Append e] (s1, [e]) \<and>
     ctree s1 ''/a'' = None \<and> ctree s2 ''/a'' = Some n \<and> n_data n = ''data''"
proof -
  obtain s0 s1 e where s0: "KeeperStorage_new example_context 500 True = Inr s0" "example_state s0 []"
    and s1: "keeper_step example_context (s0, []) (Append e) (s1, [e])" "reachable example_context s1 [e]"
    "e_req e = example_create" "e = entry example_create 1 0 1 s0 (e_deltas e)" "ctree s1 = ctree s0" "ready 0 s1" "\<not> denied e"
    using example_created by blast
  obtain rs s2 where s2: "commit_entry example_context 0 7 True e s1 = Inr (rs, s2)"
    using commit_entry_ok [OF s1(2,6)] by blast
  have c: "keeper_step example_context (s1, [e]) (Commit e) (s2, [])"
    by (rule step_commit [OF _ _ _ s2]) (use s1(6) clocks_okD in \<open>simp_all add: ready_def\<close>)
  have t: "trace (keeper_step example_context) (s0, []) [Append e, Commit e] (s2, [])"
    "trace (keeper_step example_context) (s0, []) [Append e] (s1, [e])" using s1(1) c by (auto intro: trace.intros)
  obtain n where "spec_entry e (ctree s0) ''/a'' = Some n" "n_data n = ''data''"
    using example_create_spec [OF s0(2) s1(3,7,4)] by blast
  moreover have "ctree s2 = spec_entry e (ctree s0)"
    using keeper_refines_spec [OF example_context_ok(1) s0(1) t(1)] by (simp add: storage_content_def spec_step_def)
  moreover have "ctree s1 ''/a'' = None" using s1(5) s0(2) example_path(4) by (auto simp: example_state_def)
  ultimately show ?thesis using s0(1) t s1(3) by metis
qed


text \<open>C2: every entry of the log is answered. On every reachable storage with room for the pending deltas and with session
  deadlines in the range of the clock, all entries of the log can be committed one after the other: no call throws or
  reaches \<^verbatim>\<open>onStorageInconsistency\<close>, each produces notices to watching sessions followed by the response to the session of
  the entry, with its xid and zxid, and in the end the committed tree is the view that preprocessing promised.\<close>

theorem pending_log_commits:
  assumes "reachable ctx s (map fst es)" "ready now s"
  shows "\<exists>rss s'. commit_log ctx now check_acl es s = Inr (rss, s') \<and> ctree s' = vtree s \<and> pending s' = [] \<and>
     list_all2 (\<lambda>(e, x) rs. rs \<noteq> [] \<and> rs_session_id (last rs) = e_session e \<and> resp_xid (response_of rs) = x \<and>
       resp_zxid (response_of rs) = e_zxid e \<and> notices (butlast rs)) es rss"
proof -
  obtain rss s' where "commit_log ctx now check_acl es s = Inr (rss, s')" "log_inv ctx s' []" "ctree s' = vtree s"
     "list_all2 (\<lambda>(e, x) rs. rs \<noteq> [] \<and> rs_session_id (last rs) = e_session e \<and> resp_xid (rs_response (last rs)) = x \<and>
       resp_zxid (rs_response (last rs)) = e_zxid e \<and> notices (butlast rs)) es rss"
    using commit_log_ok [OF reachable_inv [OF assms(1)]] assms(2) unfolding ready_def by blast
  then show ?thesis using log_invD(7) by (auto simp: response_of_def)
qed

theorem pending_log_commits_witness:
  "\<exists>s1 e rss s2. reachable example_context s1 [e] \<and> e_req e = example_create \<and>
     commit_log example_context 0 True [(e, 7)] s1 = Inr (rss, s2) \<and> length rss = 1 \<and> pending s2 = []"
proof -
  obtain s1 e where s1: "reachable example_context s1 [e]" "e_req e = example_create" "ready 0 s1"
    using example_created by blast
  have r: "reachable example_context s1 (map fst [(e, 7 :: int32)])" using s1(1) by simp
  obtain rss s2 where c: "commit_log example_context 0 True [(e, 7)] s1 = Inr (rss, s2)" "pending s2 = []"
    "list_all2 (\<lambda>(e, x) rs. rs \<noteq> [] \<and> rs_session_id (last rs) = e_session e \<and> resp_xid (response_of rs) = x \<and>
       resp_zxid (response_of rs) = e_zxid e \<and> notices (butlast rs)) [(e, 7)] rss"
    using pending_log_commits [OF r s1(3), of True] by blast
  have "length rss = 1" using list_all2_lengthD [OF c(3)] by simp
  then show ?thesis using s1(1,2) c(1,2) by blast
qed

text \<open>C3: preprocessing accepts. On a reachable storage of a running server, a request with a new zxid that avoids undefined
  behaviour is appended to the log without an exception; the committed state does not move, the view moves as the
  specification says for the new entry, and the entry is a refusal exactly when the access check fails.\<close>

theorem preprocess_accepts:
  assumes "reachable ctx s L" "running ctx" "last_zxid s <s z" "card (dom (vtree s)) + parts req < 2 ^ 32"
    "valid_request sid req" "answerable (vtree s) req"
  shows "\<exists>e s'. preprocessRequest ctx req sid time z check_acl digest log_idx s = (Inr (), s') \<and>
     reachable ctx s' (L @ [e]) \<and> e_req e = req \<and> e_session e = sid \<and> e_zxid e = z \<and>
     storage_content s' = storage_content s \<and> vtree s' = spec_entry e (vtree s) \<and>
     (denied e \<longleftrightarrow> refused check_acl req sid s)"
proof -
  obtain e s' where s': "preprocessRequest ctx req sid time z check_acl digest log_idx s = (Inr (), s')" "reachable ctx s' (L @ [e])"
    "e = entry req sid time z s (e_deltas e)" "ctree s' = ctree s" "atree s' = atree s" "vtree s' = spec_entry e (vtree s)"
    "denied e \<longleftrightarrow> refused check_acl req sid s"
    using append_entry_ok [OF assms, of time check_acl digest log_idx 0 0] by blast
  have "e_req e = req" "e_session e = sid" "e_zxid e = z" by (subst s'(3), simp add: entry_def)+
  then show ?thesis using s'(1,2,4-7) by (intro exI [of _ e] exI [of _ s']) (simp add: storage_content_def)
qed

theorem preprocess_accepts_witness:
  "\<exists>s0 s1 e. example_state s0 [] \<and> preprocessRequest example_context example_create 1 0 1 True None 1 s0 = (Inr (), s1) \<and>
     reachable example_context s1 [e] \<and> e_req e = example_create \<and> storage_content s1 = storage_content s0"
proof -
  obtain s0 where s0: "example_state s0 []" using example_new by blast
  note st = example_appendable [OF s0]
  from preprocess_accepts [OF st(1) example_context_ok(2) st(2,3), of 1 0 True None 1] show ?thesis using s0 by auto
qed

text \<open>C4: committing the first entry of the log answers its request as the specification says. The response is the error of
  the specification, or it has the body that the tree gives: data and statistics of the node, the names of its children,
  its access control list, the created path, the results of the parts of a multi request, or the refusal.\<close>

theorem commit_answers:
  assumes "reachable ctx s (e # L)" "ready now s"
  shows "\<exists>rs s' resp. commit_entry ctx now x check_acl e s = Inr (rs, s') \<and> response_of rs = set_ids (e_zxid e) x resp \<and>
     answer_ok ctx e (ctree s) (ctree s') (atree s') resp \<and> storage_content s' = spec_step e (storage_content s) \<and>
     reachable ctx s' L"
  using commit_entry_ok [OF assms, of x check_acl] unfolding storage_content_def spec_step_def by fastforce

theorem commit_answers_witness:
  "\<exists>s1 e rs s2 resp. reachable example_context s1 [e] \<and> commit_entry example_context 0 7 True e s1 = Inr (rs, s2) \<and>
     response_of rs = set_ids 1 7 resp \<and> resp_error resp = ZOK \<and> resp_body resp = CreateResponse ''/a''"
proof -
  obtain s0 s1 e where s0: "example_state s0 []" and s1: "reachable example_context s1 [e]" "e_req e = example_create" "ready 0 s1"
      "e_zxid e = 1" "\<not> denied e" "e = entry example_create 1 0 1 s0 (e_deltas e)" "ctree s1 = ctree s0"
    using example_created by blast
  obtain rs s2 resp where c: "commit_entry example_context 0 7 True e s1 = Inr (rs, s2)" "response_of rs = set_ids 1 7 resp"
    "answer_ok example_context e (ctree s1) (ctree s2) (atree s2) resp"
    using commit_answers [OF s1(1,3), of 7 True] s1(4) by auto
  obtain t' where "spec_plain (e_fix e) (e_zxid e) (e_session e) (e_time e) example_create (ctree s1) = Inr t'"
    using example_create_result [OF s0 s1(6)] s1(7) by auto
  then have "resp_error resp = ZOK" "resp_body resp = CreateResponse ''/a''"
    using c(3) s1(2,5) by (simp_all add: answer_ok_def example_create_def response_ok_def body_ok_def created_path_def)
  then show ?thesis using s1(1) c(1,2) by blast
qed

text \<open>C8: rolling back undoes preprocessing. A request that was just preprocessed is removed by \<^verbatim>\<open>rollbackRequest\<close> with its
  zxid; afterwards the committed content, the uncommitted view, the pending deltas, the transactions, both digests and
  the ephemeral paths of every session are those before the request.\<close>

theorem preprocess_rollback:
  assumes "reachable ctx s L" "running ctx" "last_zxid s <s z" "card (dom (vtree s)) + parts req < 2 ^ 32"
    "valid_request sid req" "answerable (vtree s) req"
  shows "\<exists>s1 s2. preprocessRequest ctx req sid time z check_acl digest log_idx s = (Inr (), s1) \<and>
     rollbackRequest z allow_missing s1 = Inr s2 \<and> reachable ctx s2 L \<and> storage_content s2 = storage_content s \<and>
     vtree s2 = vtree s \<and> pending s2 = pending s \<and> uncommitted_transactions s2 = uncommitted_transactions s \<and>
     getNodesDigest ctx True s2 = getNodesDigest ctx True s \<and> getNodesDigest ctx False s2 = getNodesDigest ctx False s \<and>
     (\<lambda>k. map_option set (ephemerals s2 k)) = (\<lambda>k. map_option set (ephemerals s k))"
proof -
  note inv = reachable_inv [OF assms(1)]
  obtain e s1 where s1: "preprocessRequest ctx req sid time z check_acl digest log_idx s = (Inr (), s1)" "reachable ctx s1 (L @ [e])"
    "e = entry req sid time z s (e_deltas e)" "ctree s1 = ctree s" "atree s1 = atree s"
    "butlast (uncommitted_transactions s1) = uncommitted_transactions s"
    using append_entry_ok [OF assms, of time check_acl digest log_idx 0 0] by blast
  have z: "e_zxid e = z" by (subst s1(3), simp add: entry_def)
  obtain s2 where s2: "rollbackRequest z allow_missing s1 = Inr s2" "log_inv ctx s2 L" "ctree s2 = ctree s1" "atree s2 = atree s1"
    "uncommitted_transactions s2 = butlast (uncommitted_transactions s1)"
    using rollbackRequest_ok [OF reachable_inv [OF s1(2)], of allow_missing] z by auto
  have "keeper_step ctx (s1, L @ [e]) (Drop e) (s2, L)" by (rule step_drop) (use s2(1) z in simp)
  then have r: "reachable ctx s2 L" using reachable_step s1(2) by blast
  have c: "ctree s2 = ctree s" "vtree s2 = vtree s" using s2(3) s1(4) view_spec [OF s2(2)] view_spec [OF inv] by simp_all
  have t: "uncommitted_transactions s2 = uncommitted_transactions s" using s2(5) s1(6) by simp
  have "(\<lambda>k. map_option set (ephemerals s2 k)) = (\<lambda>k. map_option set (ephemerals s k))"
    unfolding ephemerals_view [OF inv] ephemerals_view [OF s2(2)] c(2) by (rule refl)
  moreover have "getNodesDigest ctx b s2 = getNodesDigest ctx b s" for b
    using committed_digest [OF inv] committed_digest [OF s2(2)] c(1) t by (simp add: getNodesDigest_def)
  moreover have "storage_content s2 = storage_content s" using c(1) s2(4) s1(5) by (simp add: storage_content_def)
  moreover have "pending s2 = pending s" using log_invD(7) inv s2(2) by metis
  ultimately show ?thesis using s1(1) s2(1) r c(2) t by blast
qed

theorem preprocess_rollback_witness:
  "\<exists>s0 s1 s2. example_state s0 [] \<and> preprocessRequest example_context example_create 1 0 1 True None 1 s0 = (Inr (), s1) \<and>
     rollbackRequest 1 False s1 = Inr s2 \<and> storage_content s2 = storage_content s0 \<and> pending s2 = pending s0"
proof -
  obtain s0 where s0: "example_state s0 []" using example_new by blast
  note st = example_appendable [OF s0]
  from preprocess_rollback [OF st(1) example_context_ok(2) st(2,3), of 1 0 True None 1 False]
  show ?thesis using s0 by auto
qed

text \<open>C9: the digest of the committed nodes is the one promised to the replicas. When digests are enabled, committing the
  first entry of the log makes the digest of the committed nodes the one that preprocessing stored with its transaction,
  which is the wrapping sum of the digests of the nodes of the new tree; the system nodes below \<^verbatim>\<open>/keeper\<close> are left out of it.\<close>

theorem committed_digest_promised:
  assumes "reachable ctx s (e # L)" "ready now s" "digestEnabled ctx"
  shows "\<exists>rs s'. commit_entry ctx now x check_acl e s = Inr (rs, s') \<and>
     getNodesDigest ctx True s' = t_nodes_digest (hd (uncommitted_transactions s)) \<and>
     dg_value (getNodesDigest ctx True s') = tree_digest (ctree s') \<and> ctree s' = spec_entry e (ctree s)"
proof -
  obtain rs s' where c: "commit_entry ctx now x check_acl e s = Inr (rs, s')" "reachable ctx s' L" "ctree s' = spec_entry e (ctree s)"
    using commit_entry_ok [OF assms(1,2)] by blast
  then show ?thesis using commit_digest [OF assms(1,3) c(2,3)] by blast
qed

theorem committed_digest_promised_witness:
  "\<exists>s1 e rs s2. e_req e = example_create \<and> commit_entry example_context 0 7 True e s1 = Inr (rs, s2) \<and>
     getNodesDigest example_context True s2 = t_nodes_digest (hd (uncommitted_transactions s1))"
proof -
  obtain s1 e where s1: "reachable example_context s1 [e]" "e_req e = example_create" "ready 0 s1" using example_created by blast
  from committed_digest_promised [OF s1(1,3) example_context_ok(3), of 7 True] show ?thesis using s1(2) by blast
qed

text \<open>C10: multi requests are atomic. A multi request of writes either applies all its parts, each answered with success, or
  changes neither nodes nor access control lists; then the parts before the failing one are answered with \<^verbatim>\<open>ZOK\<close>, the
  failing one with its error and the later ones with \<^verbatim>\<open>ZRUNTIMEINCONSISTENCY\<close>.\<close>

theorem multi_atomic:
  assumes "reachable ctx s (e # L)" "ready now s" "e_req e = MultiRequest rs k" "\<not> denied e" "\<exists>r \<in> set rs. \<not> is_read r"
  shows "\<exists>out s'. commit_entry ctx now x check_acl e s = Inr (out, s') \<and>
     (case spec_multi (e_fix e) (e_zxid e) (e_session e) (e_time e) rs (ctree s) of
        Inr t' \<Rightarrow> ctree s' = t' \<and> part_codes (response_of out) = replicate (length rs) ZOK
      | Inl (i, err) \<Rightarrow>
          i < length rs \<and> err \<noteq> ZOK \<and> storage_content s' = storage_content s \<and>
          part_codes (response_of out) = replicate i ZOK @ err # replicate (length rs - Suc i) ZRUNTIMEINCONSISTENCY)"
proof -
  obtain out s' resp where c: "commit_entry ctx now x check_acl e s = Inr (out, s')" "response_of out = set_ids (e_zxid e) x resp"
    "answer_ok ctx e (ctree s) (ctree s') (atree s') resp" "ctree s' = spec_entry e (ctree s)"
    "atree s' = spec_entry_acls e (ctree s) (atree s)"
    using commit_entry_ok [OF assms(1,2)] by blast
  have m: "multi_answer_ok ctx e rs (ctree s) resp" using c(3) assms(3,4) by (simp add: answer_ok_def)
  have nr: "(\<forall>r \<in> set rs. is_read r) = False" using assms(5) by blast
  show ?thesis
  proof (cases "spec_multi (e_fix e) (e_zxid e) (e_session e) (e_time e) rs (ctree s)")
    case (Inl f)
    obtain i err where f: "f = (i, err)" by (cases f)
    have "ctree s' = ctree s" "atree s' = atree s"
      using c(4,5) Inl assms(3,4) by (simp_all add: spec_entry_def spec_entry_acls_def)
    then show ?thesis
      using c(1,2) m nr Inl f spec_multi_fails [of "e_fix e" "e_zxid e" "e_session e" "e_time e" rs "ctree s"] assms(3)
      by (auto simp: multi_answer_ok_def part_codes_failed storage_content_def)
  next
    case (Inr t')
    have "ctree s' = t'" using c(4) Inr assms(3,4) by (simp add: spec_entry_def)
    moreover obtain resps where "parts_answered ctx (e_fix e) (e_zxid e) (e_session e) (e_time e) rs (ctree s) resps"
      "resp = set_body (multi_body (e_req e) resps) (makeResponse (e_req e))" using m nr Inr by (auto simp: multi_answer_ok_def)
    ultimately show ?thesis using c(1,2) Inr parts_all_ok by (auto simp: part_codes_ok)
  qed
qed

theorem multi_atomic_witness:
  "\<exists>s1 e rs s2. e_req e = MultiRequest [example_create, CheckRequest ''/a'' (-1) True] None \<and>
     commit_entry example_context 0 7 True e s1 = Inr (rs, s2) \<and> storage_content s2 = storage_content s1 \<and>
     part_codes (response_of rs) = [ZOK, ZNODEEXISTS]"
proof -
  let ?req = "MultiRequest [example_create, CheckRequest ''/a'' (-1) True] None"
  obtain s0 s1 e where s0: "example_state s0 []" and s1: "reachable example_context s1 [e]" "ready 0 s1" "e_req e = ?req"
      "e = entry ?req 1 0 1 s0 (e_deltas e)" "ctree s1 = ctree s0" "\<not> denied e"
    using example_multi by blast
  have "\<exists>r \<in> set [example_create, CheckRequest ''/a'' (-1) True]. \<not> is_read r" by (simp add: is_read_def)
  from multi_atomic [OF s1(1,2,3,6) this, of 7 True] example_multi_fails [OF s0 s1(4)]
  obtain out s2 where "commit_entry example_context 0 7 True e s1 = Inr (out, s2)" "storage_content s2 = storage_content s1"
    "part_codes (response_of out) = [ZOK, ZNODEEXISTS]" unfolding s1(5) by auto
  then show ?thesis using s1(3) by blast
qed

text \<open>C12: closing a session removes exactly its ephemeral nodes. When the entry that closes the session is committed, the
  session owns no node of the tree; every other node is kept with its data and its access control list, and the other
  sessions own the nodes they owned.\<close>

theorem close_removes_ephemerals:
  assumes "reachable ctx s (e # L)" "ready now s" "e_req e = CloseRequest"
  shows "\<exists>rs s'. commit_entry ctx now x check_acl e s = Inr (rs, s') \<and> resp_error (response_of rs) = ZOK \<and>
     owned (e_session e) (ctree s') = {} \<and> dom (ctree s') = dom (ctree s) - owned (e_session e) (ctree s) \<and>
     (\<forall>k. k \<noteq> e_session e \<longrightarrow> owned k (ctree s') = owned k (ctree s)) \<and>
     (\<forall>p n'. ctree s' p = Some n' \<longrightarrow> (\<exists>n. ctree s p = Some n \<and> n_data n' = n_data n) \<and> atree s' p = atree s p)"
proof -
  note inv = reachable_inv [OF assms(1)]
  obtain rs s' resp where c: "commit_entry ctx now x check_acl e s = Inr (rs, s')" "response_of rs = set_ids (e_zxid e) x resp"
    "answer_ok ctx e (ctree s) (ctree s') (atree s') resp" "ctree s' = spec_entry e (ctree s)"
    "atree s' = spec_entry_acls e (ctree s) (atree s)"
    using commit_entry_ok [OF assms(1,2)] by blast
  let ?P = "owned (e_session e) (ctree s)"
  have t: "ctree s' = spec_close (e_session e) (ctree s)" "atree s' = atree s |` (- ?P)"
    using c(4,5) assms(3) by (simp_all add: spec_entry_def spec_entry_acls_def close_acls_def)
  have "owned (e_session e) (ctree s') = {}" "\<forall>k. k \<noteq> e_session e \<longrightarrow> owned k (ctree s') = owned k (ctree s)"
    using eph_set_close [OF log_invD(5) [OF inv], of "e_session e"] t(1) by (simp_all add: owned_def eph_set_def)
  moreover have "dom (ctree s') = dom (ctree s) - ?P" using t(1) by (auto simp: spec_close_def spec_remove_all_def split: if_splits)
  moreover have "\<exists>n. ctree s p = Some n \<and> n_data n' = n_data n" "atree s' p = atree s p"
    if "ctree s' p = Some n'" for p n'
    using that t by (auto simp: spec_close_def spec_remove_all_def count_out_keeps split: if_splits)
  moreover have "resp_error (response_of rs) = ZOK" using c(2,3) assms(3) by (simp add: answer_ok_def)
  ultimately show ?thesis using c(1) by blast
qed

theorem close_removes_ephemerals_witness:
  "\<exists>s1 e rs s2. e_req e = CloseRequest \<and> e_session e = 1 \<and> ''/a'' \<in> owned 1 (ctree s1) \<and>
     commit_entry example_context 0 7 True e s1 = Inr (rs, s2) \<and> owned 1 (ctree s2) = {} \<and> ctree s2 ''/a'' = None"
proof -
  obtain s1 e where s1: "reachable example_context s1 [e]" "ready 0 s1" "e_req e = CloseRequest" "e_session e = 1" "''/a'' \<in> owned 1 (ctree s1)"
    using example_owner by blast
  from close_removes_ephemerals [OF s1(1-3), of 7 True] obtain rs s2 where
    s2: "commit_entry example_context 0 7 True e s1 = Inr (rs, s2)" "owned 1 (ctree s2) = {}" "dom (ctree s2) = dom (ctree s1) - owned 1 (ctree s1)"
    using s1(4) by auto
  then have "ctree s2 ''/a'' = None" using s1(5) by auto
  then show ?thesis using s1 s2 by blast
qed

text \<open>C13: a session reads what was written. When a \<^verbatim>\<open>set\<close> entry is followed in the log by a \<^verbatim>\<open>get\<close> of the same path, and the
  \<^verbatim>\<open>set\<close> is answered with success, the \<^verbatim>\<open>get\<close> is answered with the written data and with statistics that carry the
  incremented version, the zxid and time of the \<^verbatim>\<open>set\<close> and the length of the data.\<close>

theorem set_then_get:
  assumes "reachable ctx s (e1 # e2 # L)" "ready now s" "e_req e1 = SetRequest p data v" "e_req e2 = GetRequest p w"
    "\<not> denied e1" "\<not> denied e2" "length data < 2 ^ 32"
  shows "\<exists>rs1 s1 rs2 s2. commit_entry ctx now x1 check_acl e1 s = Inr (rs1, s1) \<and>
     commit_entry ctx now x2 check_acl e2 s1 = Inr (rs2, s2) \<and>
     (resp_error (response_of rs1) = ZOK \<longrightarrow>
        resp_error (response_of rs2) = ZOK \<and>
        (\<exists>n stat. ctree s p = Some n \<and> resp_body (response_of rs2) = GetResponse data stat \<and> st_version stat = n_version n + 1 \<and>
           st_mzxid stat = e_zxid e1 \<and> st_mtime stat = e_time e1 \<and> st_dataLength stat = word_of_nat (length data)))"
proof -
  obtain rs1 s1 r1 where c1: "commit_entry ctx now x1 check_acl e1 s = Inr (rs1, s1)" "reachable ctx s1 (e2 # L)" "ready now s1"
      "response_of rs1 = set_ids (e_zxid e1) x1 r1"
      "response_ok ctx (e_req e1) (spec_of e1 (ctree s)) (ctree s) (ctree s1) (atree s1) r1" "ctree s1 = tree_after (spec_of e1 (ctree s)) (ctree s)"
    using commit_plain_ok [OF assms(1,2) _ assms(5), of x1 check_acl] assms(3) by auto
  obtain rs2 s2 r2 where c2: "commit_entry ctx now x2 check_acl e2 s1 = Inr (rs2, s2)" "response_of rs2 = set_ids (e_zxid e2) x2 r2"
      "response_ok ctx (e_req e2) (spec_of e2 (ctree s1)) (ctree s1) (ctree s2) (atree s2) r2"
      "ctree s2 = tree_after (spec_of e2 (ctree s1)) (ctree s1)"
    using commit_plain_ok [OF c1(2,3) _ assms(6), of x2 check_acl] assms(4) by auto
  have "resp_error r2 = ZOK \<and> (\<exists>n stat. ctree s p = Some n \<and> resp_body r2 = GetResponse data stat \<and> st_version stat = n_version n + 1 \<and>
      st_mzxid stat = e_zxid e1 \<and> st_mtime stat = e_time e1 \<and> st_dataLength stat = word_of_nat (length data))" if ok: "resp_error r1 = ZOK"
  proof -
    have t: "spec_plain (e_fix e1) (e_zxid e1) (e_session e1) (e_time e1) (SetRequest p data v) (ctree s) = Inr (ctree s1)"
      using response_ok_success [OF c1(5) ok] c1(6) assms(3) by (auto simp: tree_after_def)
    obtain n n' where n: "ctree s p = Some n" "user_path p" "ctree s1 p = Some n'" "n_data n' = data" "n_version n' = n_version n + 1"
        "n_mzxid n' = e_zxid e1" "n_mtime n' = e_time e1"
      using spec_set_node [OF t assms(7)] by blast
    have "\<not> special_path p" using n(2) special_system by blast
    then have "spec_of e2 (ctree s1) = Inr (ctree s1)" using n(3) assms(4) by (simp add: spec_plain_def spec_read_def)
    then show ?thesis
      using c2(3,4) n \<open>\<not> special_path p\<close> assms(4)
      by (auto simp: response_ok_def body_ok_def tree_after_def special_path_def setResponseStat_def)
  qed
  then show ?thesis
    using c1(1,4) c2(1,2) by (intro exI [of _ rs1] exI [of _ s1] exI [of _ rs2] exI [of _ s2]) (simp add: set_ids_def)
qed

theorem set_then_get_witness:
  "\<exists>s e1 e2 rs1 s1 rs2 s2 stat. reachable example_context s [e1, e2] \<and> e_req e1 = SetRequest ''/'' ''data'' (-1) \<and> e_req e2 = GetRequest ''/'' False \<and>
     commit_entry example_context 0 7 True e1 s = Inr (rs1, s1) \<and> commit_entry example_context 0 8 True e2 s1 = Inr (rs2, s2) \<and>
     resp_error (response_of rs1) = ZOK \<and> resp_body (response_of rs2) = GetResponse ''data'' stat \<and> st_mzxid stat = 1"
proof -
  obtain s0 s e1 e2 where s: "reachable example_context s [e1, e2]" "ready 0 s" "e_req e1 = SetRequest ''/'' ''data'' (-1)"
      "e_req e2 = GetRequest ''/'' False" "\<not> denied e1" "\<not> denied e2" "e_zxid e1 = 1"
    and e1: "example_state s0 []" "e1 = entry (SetRequest ''/'' ''data'' (-1)) 1 0 1 s0 (e_deltas e1)" "ctree s = ctree s0"
    using example_set_get by blast
  have "length ''data'' < 2 ^ 32" by simp
  from set_then_get [OF s(1-6) this, of 7 True 8] obtain rs1 s1 rs2 s2 where
    c: "commit_entry example_context 0 7 True e1 s = Inr (rs1, s1)" "commit_entry example_context 0 8 True e2 s1 = Inr (rs2, s2)"
      "resp_error (response_of rs1) = ZOK \<longrightarrow> (\<exists>stat. resp_body (response_of rs2) = GetResponse ''data'' stat \<and> st_mzxid stat = 1)"
    using s(7) by metis
  have "resp_error (response_of rs1) = ZOK"
    using commit_outcome(1) [OF s(1,2) _ s(5) c(1)] example_set_succeeds [OF e1] s(3) by auto
  then show ?thesis using c s(1,3,4) by blast
qed

text \<open>C14: an access control list is read back. When a \<^verbatim>\<open>setACL\<close> entry is followed in the log by a \<^verbatim>\<open>getACL\<close> of the same path,
  and the \<^verbatim>\<open>setACL\<close> is answered with success, the \<^verbatim>\<open>getACL\<close> is answered with the list that \<^verbatim>\<open>fixupACL\<close> gave and with the
  incremented version of the list.\<close>

theorem set_acl_then_get_acl:
  assumes "reachable ctx s (e1 # e2 # L)" "ready now s" "e_req e1 = SetACLRequest p acls v" "e_req e2 = GetACLRequest p"
    "\<not> denied e1" "\<not> denied e2"
  shows "\<exists>rs1 s1 rs2 s2. commit_entry ctx now x1 check_acl e1 s = Inr (rs1, s1) \<and>
     commit_entry ctx now x2 check_acl e2 s1 = Inr (rs2, s2) \<and>
     (resp_error (response_of rs1) = ZOK \<longrightarrow>
        (\<exists>n fixed stat. ctree s p = Some n \<and> e_fix e1 acls = Some fixed \<and> resp_error (response_of rs2) = ZOK \<and>
           resp_body (response_of rs2) = GetACLResponse fixed stat \<and> st_aversion stat = n_aversion n + 1))"
proof -
  obtain rs1 s1 r1 where c1: "commit_entry ctx now x1 check_acl e1 s = Inr (rs1, s1)" "reachable ctx s1 (e2 # L)" "ready now s1"
      "response_of rs1 = set_ids (e_zxid e1) x1 r1"
      "response_ok ctx (e_req e1) (spec_of e1 (ctree s)) (ctree s) (ctree s1) (atree s1) r1" "ctree s1 = tree_after (spec_of e1 (ctree s)) (ctree s)"
      "atree s1 = acls_after (e_fix e1) (e_zxid e1) (e_session e1) (e_time e1) (e_req e1) (ctree s) (atree s)"
    using commit_plain_ok [OF assms(1,2) _ assms(5), of x1 check_acl] assms(3) by auto
  obtain rs2 s2 r2 where c2: "commit_entry ctx now x2 check_acl e2 s1 = Inr (rs2, s2)" "response_of rs2 = set_ids (e_zxid e2) x2 r2"
      "response_ok ctx (e_req e2) (spec_of e2 (ctree s1)) (ctree s1) (ctree s2) (atree s2) r2"
      "ctree s2 = tree_after (spec_of e2 (ctree s1)) (ctree s1)"
      "atree s2 = acls_after (e_fix e2) (e_zxid e2) (e_session e2) (e_time e2) (e_req e2) (ctree s1) (atree s1)"
    using commit_plain_ok [OF c1(2,3) _ assms(6), of x2 check_acl] assms(4) by auto
  have "\<exists>n fixed stat. ctree s p = Some n \<and> e_fix e1 acls = Some fixed \<and> resp_error r2 = ZOK \<and> resp_body r2 = GetACLResponse fixed stat \<and>
      st_aversion stat = n_aversion n + 1" if ok: "resp_error r1 = ZOK"
  proof -
    have t: "spec_plain (e_fix e1) (e_zxid e1) (e_session e1) (e_time e1) (SetACLRequest p acls v) (ctree s) = Inr (ctree s1)"
      using response_ok_success [OF c1(5) ok] c1(6) assms(3) by (auto simp: tree_after_def)
    obtain n fixed where n: "ctree s p = Some n" "e_fix e1 acls = Some fixed" "ctree s1 p = Some (aversion_update n)"
      using spec_set_acl_node [OF t] by blast
    have "atree s1 p = Some fixed" using c1(7) t assms(3) n(2) by (simp add: acls_after_def spec_acls_def)
    moreover have r: "spec_of e2 (ctree s1) = Inr (ctree s1)" using n(3) assms(4) by (simp add: spec_plain_def spec_read_def)
    moreover have "atree s2 = atree s1" using c2(5) r assms(4) by (simp add: acls_after_def spec_acls_def)
    ultimately show ?thesis
      using c2(3,4) n assms(4) by (auto simp: response_ok_def body_ok_def tree_after_def setResponseStat_def aversion_update_def)
  qed
  then show ?thesis
    using c1(1,4) c2(1,2) by (intro exI [of _ rs1] exI [of _ s1] exI [of _ rs2] exI [of _ s2]) (simp add: set_ids_def)
qed

theorem set_acl_then_get_acl_witness:
  "\<exists>s e1 e2 rs1 s1 rs2 s2 n stat. reachable example_context s [e1, e2] \<and> e_req e1 = SetACLRequest ''/'' example_acls (-1) \<and>
     e_req e2 = GetACLRequest ''/'' \<and> commit_entry example_context 0 7 True e1 s = Inr (rs1, s1) \<and>
     commit_entry example_context 0 8 True e2 s1 = Inr (rs2, s2) \<and> resp_error (response_of rs1) = ZOK \<and>
     resp_error (response_of rs2) = ZOK \<and> resp_body (response_of rs2) = GetACLResponse example_acls stat \<and>
     ctree s ''/'' = Some n \<and> st_aversion stat = n_aversion n + 1"
proof -
  obtain s0 s e1 e2 where s: "reachable example_context s [e1, e2]" "ready 0 s" "e_req e1 = SetACLRequest ''/'' example_acls (-1)"
      "e_req e2 = GetACLRequest ''/''" "\<not> denied e1" "\<not> denied e2"
    and e1: "example_state s0 []" "e1 = entry (SetACLRequest ''/'' example_acls (-1)) 1 0 1 s0 (e_deltas e1)" "ctree s = ctree s0"
    using example_protect_get by blast
  from set_acl_then_get_acl [OF s, of 7 True 8] obtain rs1 s1 rs2 s2 where
    c: "commit_entry example_context 0 7 True e1 s = Inr (rs1, s1)" "commit_entry example_context 0 8 True e2 s1 = Inr (rs2, s2)"
      "resp_error (response_of rs1) = ZOK \<longrightarrow>
        (\<exists>n fixed stat. ctree s ''/'' = Some n \<and> e_fix e1 example_acls = Some fixed \<and> resp_error (response_of rs2) = ZOK \<and>
           resp_body (response_of rs2) = GetACLResponse fixed stat \<and> st_aversion stat = n_aversion n + 1)"
    by blast
  have "resp_error (response_of rs1) = ZOK"
    using commit_outcome(1) [OF s(1,2) _ s(5) c(1)] example_protect_succeeds [OF e1] s(3) by auto
  then show ?thesis using c s(1,3,4) example_fix [OF e1(2)] by (metis option.inject)
qed

text \<open>C15: children are listed exactly. The answer to a committed list request of an existing node names the children of the
  node that the request selects (all, the persistent or the ephemeral ones), each once.\<close>

theorem list_exact:
  assumes "reachable ctx s (e # L)" "ready now s" "e_req e = FilteredListRequest p w k" "\<not> denied e" "ctree s p = Some n"
  shows "\<exists>rs s' ns. commit_entry ctx now x check_acl e s = Inr (rs, s') \<and> resp_error (response_of rs) = ZOK \<and>
     resp_body (response_of rs) = ListResponse ns (setResponseStat n) \<and> distinct ns \<and>
     set ns = {getBaseNodeName c |c n. ctree s c = Some n \<and> c \<noteq> [slash] \<and> parentNodePath c = Some p \<and> list_select k n}"
proof -
  obtain rs s' r where c: "commit_entry ctx now x check_acl e s = Inr (rs, s')" "response_of rs = set_ids (e_zxid e) x r"
      "response_ok ctx (e_req e) (spec_of e (ctree s)) (ctree s) (ctree s') (atree s') r" "ctree s' = tree_after (spec_of e (ctree s)) (ctree s)"
    using commit_plain_ok [OF assms(1,2) _ assms(4), of x check_acl] assms(3) by auto
  have t: "spec_of e (ctree s) = Inr (ctree s)" using assms(3,5) by (simp add: spec_plain_def spec_read_def)
  then obtain ns where ns: "resp_error r = ZOK" "resp_body r = ListResponse ns (setResponseStat n)" "lists_kids (ctree s) p k ns"
    using c(3,4) assms(3,5) by (auto simp: response_ok_def body_ok_def tree_after_def)
  have "distinct ns" "set ns = {getBaseNodeName c |c n. ctree s c = Some n \<and> c \<noteq> [slash] \<and> parentNodePath c = Some p \<and> list_select k n}"
    using ns(3) unfolding lists_kids_def kids_def by auto
  then show ?thesis using c(1,2) ns(1,2) by (intro exI [of _ rs] exI [of _ s'] exI [of _ ns]) (simp add: set_ids_def)
qed

theorem list_exact_witness:
  "\<exists>s e n rs s' ns. reachable example_context s [e] \<and> e_req e = FilteredListRequest ''/'' False LIST_ALL \<and>
     commit_entry example_context 0 7 True e s = Inr (rs, s') \<and> resp_body (response_of rs) = ListResponse ns (setResponseStat n) \<and> distinct ns"
proof -
  obtain s0 s e where s: "example_state s0 []" "reachable example_context s [e]" "ready 0 s" "e_req e = FilteredListRequest ''/'' False LIST_ALL"
      "\<not> denied e" "ctree s = ctree s0"
    using example_list by blast
  then obtain n where n: "ctree s ''/'' = Some n" using example_root [OF s(1)] by auto
  from list_exact [OF s(2-5) n, of 7 True] show ?thesis using s(2,4) by blast
qed

text \<open>C11: the nodes form a tree. In every reachable storage, of the committed nodes and of the uncommitted view alike, there is
  a root, every other node has a parent that is not ephemeral and that lists it under its base name, and every node outside of
  \<^verbatim>\<open>/keeper\<close> that is not ephemeral counts its children exactly. \<^verbatim>\<open>/keeper\<close> does not count the system nodes below it; it and
  they stay in the committed tree as the new storage had them.\<close>

theorem nodes_form_tree:
  assumes "reachable ctx s L" "t = ctree s \<or> t = vtree s"
  shows "finite (dom t) \<and> t [slash] \<noteq> None \<and>
     (\<forall>p n. t p = Some n \<longrightarrow> p \<noteq> [slash] \<longrightarrow>
        (\<exists>q pn. parentNodePath p = Some q \<and> t q = Some pn \<and> \<not> n_is_ephemeral pn \<and> path_join q (getBaseNodeName p) = p)) \<and>
     (\<forall>p n. t p = Some n \<longrightarrow> \<not> n_is_ephemeral n \<longrightarrow> user_path p \<longrightarrow>
        numChildren n = word_of_nat (card {c \<in> dom t. c \<noteq> [slash] \<and> parentNodePath c = Some p})) \<and>
     (\<forall>p. \<not> user_path p \<longrightarrow> ctree s p = new_tree ctx p)"
proof -
  note inv = reachable_inv [OF assms(1)]
  have t: "tree_wf t" "proper t" using assms(2) log_invD(4,5) [OF inv] view_okD(1,2) [OF log_view_ok [OF inv]] by auto
  have "\<exists>q pn. parentNodePath p = Some q \<and> t q = Some pn \<and> \<not> n_is_ephemeral pn \<and> path_join q (getBaseNodeName p) = p"
    if "t p = Some n" "p \<noteq> [slash]" for p n
  proof -
    have "joined p" using t(2) that by (auto simp: proper_def)
    then show ?thesis using tree_wfD(5) [OF t(1) that] by (auto simp: joined_def)
  qed
  moreover have "\<forall>p. \<not> user_path p \<longrightarrow> ctree s p = new_tree ctx p"
    using reachable_settled [OF assms(1)] by (simp add: settled_def system_ok_def)
  ultimately show ?thesis using tree_wfD(1,2,6) [OF t(1)] unfolding kids_def by auto
qed

theorem nodes_form_tree_witness:
  "\<exists>s n. example_state s [] \<and> finite (dom (ctree s)) \<and> ctree s ''/'' = Some n \<and> numChildren n = 1 \<and>
     ctree s keeper_system_path = Some KeeperMemNode_new"
proof -
  obtain s where s: "example_state s []" using example_new by blast
  note t = nodes_form_tree [OF example_appendable(1) [OF s], of "ctree s"]
  obtain n where n: "ctree s [slash] = Some n" "\<not> n_is_ephemeral n"
    using tree_wfD(2) [OF log_invD(5) [OF reachable_inv [OF example_appendable(1) [OF s]]]] by blast
  have d: "dom (ctree s) = example_dom" using s by (simp add: example_state_def)
  have "{c \<in> example_dom. c \<noteq> [slash] \<and> parentNodePath c = Some [slash]} = {keeper_system_path}"
    using parentNodePath_split [of "''keeper''" "[]"] parentNodePath_split [of "''api_version''" "''/keeper''"]
    by (auto simp: example_dom_def keeper_system_path_def)
  moreover have "user_path [slash]" "\<not> user_path keeper_system_path" by (simp_all add: user_path_def)
  ultimately have "numChildren n = 1" "ctree s keeper_system_path = new_tree example_context keeper_system_path"
    using t n d by auto
  moreover have "new_tree example_context keeper_system_path = Some KeeperMemNode_new"
    by (simp add: new_tree_def map_add_dom_app_simps(3) dom_system_tree_of example_context_def keeper_system_path_def)
  ultimately show ?thesis using t s n(1) by (intro exI [of _ s] exI [of _ n]) simp
qed

text \<open>C16: access control lists are counted. In every reachable storage the number stored in a node stands for a list, and the
  counter of every number but the one of the empty list is the number of nodes that carry it, so a list is kept while a
  node needs it and dropped with the last one.\<close>

theorem acl_counters_exact:
  assumes "reachable ctx s L"
  shows "(\<forall>p n. ht_find (container s) p = Some n \<longrightarrow> (\<exists>acls. convertNumber (n_acl_id n) (acl_map s) = Inr acls \<and> atree s p = Some acls)) \<and>
     (\<forall>i. i \<noteq> 0 \<longrightarrow> usage (acl_map s) i = word_of_nat (card {p. \<exists>n. ht_find (container s) p = Some n \<and> n_acl_id n = i}))"
proof -
  note a = cinv_facts(7) [OF log_invD(1) [OF reachable_inv [OF assms]]]
  have "\<exists>acls. convertNumber (n_acl_id n) (acl_map s) = Inr acls \<and> atree s p = Some acls" if f: "ht_find (container s) p = Some n" for p n
  proof -
    obtain acls where "acl_lookup (acl_map s) (n_acl_id n) = Some acls" using a f unfolding acls_ok_def contents_of_def by blast
    then show ?thesis using f by (simp add: convertNumber_lookup acl_tree_def atree_def contents_of_def)
  qed
  moreover have "usage (acl_map s) i = word_of_nat (card {p. \<exists>n. ht_find (container s) p = Some n \<and> n_acl_id n = i})" if "i \<noteq> 0" for i
    using a that by (simp add: acls_ok_def users_def contents_of_def)
  ultimately show ?thesis by blast
qed

theorem acl_counters_exact_witness:
  "\<exists>s n. reachable example_context s [] \<and> ht_find (container s) ''/'' = Some n \<and> n_acl_id n \<noteq> 0 \<and>
     convertNumber (n_acl_id n) (acl_map s) = Inr example_acls \<and>
     usage (acl_map s) (n_acl_id n) = word_of_nat (card {p. \<exists>m. ht_find (container s) p = Some m \<and> n_acl_id m = n_acl_id n})"
proof -
  obtain s n where s: "reachable example_context s []" "ht_find (container s) ''/'' = Some n" "us_nodes (uncommitted_state s) ''/'' = None"
      "us_getACLs ''/'' s = Inr example_acls" "example_acls \<noteq> []"
    using example_protected by blast
  have c: "convertNumber (n_acl_id n) (acl_map s) = Inr example_acls" using s(2-4) by (simp add: us_getACLs_def)
  then have "n_acl_id n \<noteq> 0" using s(5) by (auto simp: convertNumber_lookup acl_lookup_def split: option.splits)
  moreover have "usage (acl_map s) i = word_of_nat (card {p. \<exists>m. ht_find (container s) p = Some m \<and> n_acl_id m = i})" if "i \<noteq> 0" for i
    using acl_counters_exact [OF s(1)] that by blast
  ultimately show ?thesis using s(1,2) c by blast
qed

text \<open>C18: calls out of order. Committing a zxid that is not the one of the first entry of the log is a logical error. Rolling back
  one that is not the last entry's is a logical error too, unless missing entries are allowed and the zxid is above the last one,
  which changes nothing. Preprocessing a zxid that is not above the last entry's is a logical error that changes nothing, unless it
  is the last entry's and comes with a digest that matches the uncommitted nodes: then only the log index of that entry is set. With an
  empty log, preprocessing a zxid not above the committed one is a logical error, unless the committed one was taken from a snapshot of the old format.\<close>

theorem out_of_order_rejected:
  assumes "reachable ctx s L"
  shows "(L = [] \<or> e_zxid (hd L) \<noteq> z \<longrightarrow> processRequest ctx now zk sid (Some z) check_acl is_local s = Inl LOGICAL_ERROR) \<and>
     (L = [] \<or> e_zxid (last L) \<noteq> z \<longrightarrow>
        rollbackRequest z allow_missing s = (if allow_missing \<and> (L = [] \<or> e_zxid (last L) <s z) then Inr s else Inl LOGICAL_ERROR)) \<and>
     (L \<noteq> [] \<and> z \<le>s e_zxid (last L) \<longrightarrow>
        preprocessRequest ctx req sid time z check_acl digest log_idx s =
          (if z = e_zxid (last L) \<and> (\<exists>d. digest = Some d \<and> checkDigest d (getNodesDigest ctx False s))
           then (Inr (), s\<lparr>uncommitted_transactions := butlast (uncommitted_transactions s) @
                  [(last (uncommitted_transactions s))\<lparr>t_log_idx := log_idx\<rparr>]\<rparr>)
           else (Inl LOGICAL_ERROR, s))) \<and>
     (L = [] \<and> z \<le>s ks_zxid s \<and> ks_zxid s \<noteq> old_snapshot_zxid s \<longrightarrow>
        preprocessRequest ctx req sid time z check_acl digest log_idx s = (Inl LOGICAL_ERROR, s))"
proof -
  note inv = reachable_inv [OF assms]
  let ?X = "uncommitted_transactions s"
  have X: "map t_zxid ?X = map e_zxid L" "?X = [] \<longleftrightarrow> L = []"
    using chain_zxids [OF log_invD(8) [OF inv]] chain_length [OF log_invD(8) [OF inv]] by auto
  have h: "t_zxid (hd ?X) = e_zxid (hd L)" "t_zxid (last ?X) = e_zxid (last L)" if "L \<noteq> []"
    using X that by (metis list.map_sel(1), metis last_map)
  have n: "initialized s" "getNextZXID s - 1 = (if L = [] then ks_zxid s else e_zxid (last L))"
    using log_invD(11) [OF inv] h(2) X(2) by (simp_all add: getNextZXID_def)
  have "processRequest ctx now zk sid (Some z) check_acl is_local s = Inl LOGICAL_ERROR" if "L = [] \<or> e_zxid (hd L) \<noteq> z"
    using that h(1) X(2) n(1) by (cases ?X) (auto simp: processRequest_def start_commit_def bindE_def)
  moreover have "rollbackRequest z allow_missing s = (if allow_missing \<and> (L = [] \<or> e_zxid (last L) <s z) then Inr s else Inl LOGICAL_ERROR)"
    if "L = [] \<or> e_zxid (last L) \<noteq> z"
    using that h(2) X(2) by (auto simp: rollbackRequest_def)
  moreover have "preprocessRequest ctx req sid time z check_acl digest log_idx s =
        (if z = e_zxid (last L) \<and> (\<exists>d. digest = Some d \<and> checkDigest d (getNodesDigest ctx False s))
         then (Inr (), s\<lparr>uncommitted_transactions := butlast ?X @ [(last ?X)\<lparr>t_log_idx := log_idx\<rparr>]\<rparr>)
         else (Inl LOGICAL_ERROR, s))" if "L \<noteq> []" "z \<le>s e_zxid (last L)"
    using that X(2) n by (auto simp: preprocessRequest_def Let_def split: option.splits)
  moreover have "preprocessRequest ctx req sid time z check_acl digest log_idx s = (Inl LOGICAL_ERROR, s)"
    if "L = []" "z \<le>s ks_zxid s" "ks_zxid s \<noteq> old_snapshot_zxid s"
    using that X(2) n by (simp add: preprocessRequest_def Let_def)
  ultimately show ?thesis by blast
qed

theorem out_of_order_rejected_witness:
  "\<exists>s e. reachable example_context s [e] \<and> e_zxid e = 1 \<and>
     processRequest example_context 0 \<lparr>xid = 7, request = example_create\<rparr> 1 (Some 5) True False s = Inl LOGICAL_ERROR \<and>
     rollbackRequest 5 False s = Inl LOGICAL_ERROR \<and> rollbackRequest 5 True s = Inr s \<and>
     preprocessRequest example_context example_create 1 0 1 True None 1 s = (Inl LOGICAL_ERROR, s)"
proof -
  obtain s e where s: "reachable example_context s [e]" "e_zxid e = 1" using example_created by blast
  have z: "(1 :: int64) <s 5" by (simp add: word_sless_alt)
  note r = out_of_order_rejected [OF s(1), where now = 0 and sid = 1 and check_acl = True and time = 0 and log_idx = 1 and req = example_create
      and digest = None]
  from r [of 5 "\<lparr>xid = 7, request = example_create\<rparr>" False False] r [of 5 _ _ True] r [of 1] s z
  show ?thesis by (intro exI [of _ s] exI [of _ e]) simp
qed

text \<open>C17: failed requests change nothing. When the answer to a committed request carries an error, for instance a wrong
  version, a missing node or a refused access, the committed nodes and access control lists are those before it.\<close>

theorem failed_requests_change_nothing:
  assumes "reachable ctx s (e # L)" "ready now s"
  shows "\<exists>rs s'. commit_entry ctx now x check_acl e s = Inr (rs, s') \<and>
     (resp_error (response_of rs) \<noteq> ZOK \<longrightarrow> storage_content s' = storage_content s)"
proof -
  obtain rs s' resp where c: "commit_entry ctx now x check_acl e s = Inr (rs, s')" "response_of rs = set_ids (e_zxid e) x resp"
    "answer_ok ctx e (ctree s) (ctree s') (atree s') resp" "ctree s' = spec_entry e (ctree s)"
    "atree s' = spec_entry_acls e (ctree s) (atree s)"
    using commit_entry_ok [OF assms] by blast
  have "spec_step e (storage_content s) = storage_content s" if "resp_error resp \<noteq> ZOK"
    using failed_answer_unchanged [OF c(3) that] by (simp add: spec_step_def storage_content_def)
  then show ?thesis using c by (intro exI [of _ rs] exI [of _ s']) (auto simp: storage_content_def spec_step_def set_ids_def)
qed

theorem failed_requests_change_nothing_witness:
  "\<exists>s e rs s'. reachable example_context s [e] \<and> e_req e = RemoveRequest ''/a'' (-1) False \<and>
     commit_entry example_context 0 7 True e s = Inr (rs, s') \<and> resp_error (response_of rs) = ZNONODE \<and> storage_content s' = storage_content s"
proof -
  obtain s0 s e where s: "example_state s0 []" "reachable example_context s [e]" "ready 0 s" "e_req e = RemoveRequest ''/a'' (-1) False"
      "ctree s = ctree s0" "\<not> denied e"
    using example_remove by blast
  from failed_requests_change_nothing [OF s(2,3), of 7 True] obtain rs s' where
    c: "commit_entry example_context 0 7 True e s = Inr (rs, s')" "resp_error (response_of rs) \<noteq> ZOK \<longrightarrow> storage_content s' = storage_content s"
    by blast
  have "resp_error (response_of rs) = ZNONODE"
    using commit_outcome(2) [OF s(2,3) _ s(6) c(1) example_remove_fails [OF s(1,4,5)]] s(4) by simp
  then show ?thesis using c s(2,4) by (intro exI [of _ s] exI [of _ e] exI [of _ rs] exI [of _ s']) simp
qed

text \<open>C19: local reads see the committed state. A read that is not sent through the log is answered at once from the committed
  nodes and access control lists, whatever is pending, as the same read on abstract trees; or it is refused. Neither
  the committed content nor the log changes.\<close>

theorem local_read_committed:
  assumes "reachable ctx s L" "ready now s" "local_request req" "valid_request sid req" "answerable (ctree s) req"
  shows "\<exists>resp s'. processRequest ctx now \<lparr>xid = x, request = req\<rparr> sid None check_acl True s =
       Inr ([\<lparr>rs_session_id = sid, rs_response = set_ids (ks_zxid s) x resp\<rparr>], s') \<and>
     (if check_acl \<and> checkAuth req sid True s = Inr False then resp = set_error ZNOAUTH (makeResponse req)
      else local_answer ctx req (ctree s) (atree s) resp) \<and>
     reachable ctx s' L \<and> storage_content s' = storage_content s"
proof -
  let ?zk = "\<lparr>xid = x, request = req\<rparr>"
  have k: "clock_ok now sid s" using assms(2) clocks_okD by (simp add: ready_def)
  obtain resp s' where p: "processRequest ctx now ?zk sid None check_acl True s = Inr ([\<lparr>rs_session_id = sid, rs_response = set_ids (ks_zxid s) x resp\<rparr>], s')"
    "if check_acl \<and> checkAuth req sid True s = Inr False then resp = set_error ZNOAUTH (makeResponse req)
     else local_answer ctx req (ctree s) (atree s) resp" "ctree s' = ctree s" "atree s' = atree s"
    using local_request_ok [OF reachable_inv [OF assms(1)] k assms(3-5), of ?zk check_acl] by auto
  have "keeper_step ctx (s, L) Internal (s', L)" by (rule step_read [where zk = ?zk, OF k _ _ _ p(1)]) (use assms(3-5) in simp_all)
  from reachable_step [OF assms(1) this] show ?thesis
    using p by (intro exI [of _ resp] exI [of _ s']) (simp add: storage_content_def)
qed

theorem local_read_committed_witness:
  "\<exists>s e resp s'. reachable example_context s [e] \<and> e_req e = SetRequest ''/'' ''data'' (-1) \<and>
     processRequest example_context 0 \<lparr>xid = 7, request = GetRequest ''/'' False\<rparr> 1 None False True s =
       Inr ([\<lparr>rs_session_id = 1, rs_response = set_ids (ks_zxid s) 7 resp\<rparr>], s') \<and>
     local_answer example_context (GetRequest ''/'' False) (ctree s) (atree s) resp \<and> storage_content s' = storage_content s"
proof -
  obtain s e where s: "reachable example_context s [e]" "ready 0 s" "e_req e = SetRequest ''/'' ''data'' (-1)"
    using example_one [OF example_set_get_ok(1-3)] by blast
  from local_read_committed [OF s(1,2) _ example_set_get_ok(4,5), of 7 False] show ?thesis using s(1,3) by auto
qed

text \<open>C38: preprocessing adds few deltas. Whatever the storage, a request that is preprocessed adds at most three deltas, four for
  every part of a multi request, or two for every ephemeral node of the session that is closed and one for the session.\<close>

theorem preprocess_delta_bound:
  assumes "preprocessRequest ctx req sid time z check_acl digest log_idx s = (Inr (), s')"
  shows "length (us_deltas (uncommitted_state s')) \<le> length (us_deltas (uncommitted_state s)) +
     (case req of CloseRequest \<Rightarrow> 2 * (case ephemerals s sid of None \<Rightarrow> 0 | Some ps \<Rightarrow> length ps) + 1
      | MultiRequest rs _ \<Rightarrow> max 1 (4 * length rs) | _ \<Rightarrow> 3)"
  using preprocessRequest_length [OF assms] unfolding delta_bound_def ephemeral_count_def pending_def
  by (cases req) simp_all

theorem preprocess_delta_bound_witness:
  "\<exists>s0 s1. example_state s0 [] \<and> preprocessRequest example_context example_create 1 0 1 True None 1 s0 = (Inr (), s1) \<and>
     length (us_deltas (uncommitted_state s1)) \<le> length (us_deltas (uncommitted_state s0)) + 3"
proof -
  obtain s0 where s0: "example_state s0 []" using example_new by blast
  note st = example_appendable [OF s0]
  obtain s1 where s1: "preprocessRequest example_context example_create 1 0 1 True None 1 s0 = (Inr (), s1)"
    using append_entry_ok [OF st(1) example_context_ok(2) st(2,3), of 1 0 True None 1 0 0] by auto
  show ?thesis using preprocess_delta_bound [OF s1] s0 s1 by (auto simp: example_create_def)
qed

text \<open>C20: an uncommitted update opens its node. When the first uncommitted change of a protected node is an update, by
  \<^verbatim>\<open>set\<close> or as the parent of a created or removed node, the uncommitted state shows an empty access control list for the
  node, so that every session passes the check of every permission for requests that go through the log.\<close>

theorem uncommitted_update_opens_node:
  assumes "ht_find (container s) p = Some n" "us_nodes (uncommitted_state s) p = None" "p \<noteq> []"
    "us_getACLs p s = Inr acls" "acls \<noteq> []" "d_path d = p" "d_operation d = UpdateNodeDelta f v"
  shows "\<exists>s'. addDelta d s = Inr s' \<and> container s' = container s \<and> us_getACLs p s' = Inr [] \<and>
     checkACL p permission session_id False s' = Inr True"
  using assms
  by (simp add: addDelta_def applyDelta_def apply_operation_def cached_node_def tryGetNodeFromStorage_def us_getACLs_def checkACL_def
      getNodeACLs_def bindE_def Let_def)

theorem uncommitted_update_opens_node_witness:
  "\<exists>s acls s'. reachable example_context s [] \<and> us_getACLs ''/'' s = Inr acls \<and> acls \<noteq> [] \<and>
     addDelta \<lparr>d_path = ''/'', d_zxid = 2, d_operation = UpdateNodeDelta SetParentUpdate (-1)\<rparr> s = Inr s' \<and>
     checkACL ''/'' ACL_Write 9 False s' = Inr True"
proof -
  obtain s n where s: "reachable example_context s []" "ht_find (container s) ''/'' = Some n" "us_nodes (uncommitted_state s) ''/'' = None"
      "us_getACLs ''/'' s = Inr example_acls" "example_acls \<noteq> []"
    using example_protected by blast
  from uncommitted_update_opens_node [OF s(2,3) _ s(4,5), of "\<lparr>d_path = ''/'', d_zxid = 2, d_operation = UpdateNodeDelta SetParentUpdate (-1)\<rparr>"
      SetParentUpdate "-1" ACL_Write 9]
  show ?thesis using s(1,4,5) by auto
qed

end
